(* ===== verification/Fk_Prelude.thy ===== *)
theory Fk_Prelude
  imports
    Main
    "HOL-Library.Word"
    "HOL-Library.Monad_Syntax"
    "HOL-Library.Multiset"
begin

text \<open>
  Shared vocabulary of the development: how C values, memory accesses and the string
  functions of the C library are represented.

  \<^item> A byte buffer, a C string and a \<^verbatim>\<open>fk_str_t\<close> are values of type \<^typ>\<open>string\<close> (a list of
    bytes). The terminating NUL of a C string is the end of the list; a byte string may
    contain NUL bytes and \<open>cstr\<close> is the part a C string function sees.
  \<^item> \<^verbatim>\<open>size_t\<close> counters are \<^typ>\<open>nat\<close>; \<^verbatim>\<open>int\<close>, \<^verbatim>\<open>long\<close> and \<^verbatim>\<open>long long\<close> are \<^typ>\<open>int\<close> with the
    conversions \<open>s32\<close>, \<open>s64\<close> and \<open>size_of_int\<close> written where the C code converts
    (LP64, two's complement); hashes are 32-bit words.
  \<^item> An operation that can leave the defined behaviour of C (a read or write out of range, a
    dereference of NULL, a read of an uninitialised variable) or that can fail to return has an
    \<open>option\<close> result and \<open>None\<close> for that case, so that the theorems of the form
    \<open>\<exists>r. f x = Some r\<close> are memory-safety and termination theorems.
\<close>

named_theorems cmem "facts about checked memory accesses and C string functions"
named_theorems cint "facts about C integer conversions"

subsection \<open>C integers\<close>

definition s32 :: "int \<Rightarrow> int" where
  "s32 x = (x + 2147483648) mod 4294967296 - 2147483648"

definition s64 :: "int \<Rightarrow> int" where
  "s64 x = (x + 9223372036854775808) mod 18446744073709551616 - 9223372036854775808"

definition size_of_int :: "int \<Rightarrow> nat" where
  "size_of_int x = nat (x mod 18446744073709551616)"

text \<open>C division rounds towards zero.\<close>

definition quot :: "int \<Rightarrow> int \<Rightarrow> int" where
  "quot a b = sgn a * sgn b * (\<bar>a\<bar> div \<bar>b\<bar>)"

lemma s32_id [cint]: "- 2147483648 \<le> x \<Longrightarrow> x < 2147483648 \<Longrightarrow> s32 x = x"
  by (simp add: s32_def)

lemma s32_range: "- 2147483648 \<le> s32 x \<and> s32 x < 2147483648"
  using pos_mod_bound [of 4294967296 "x + 2147483648"] pos_mod_sign [of 4294967296 "x + 2147483648"]
  by (simp add: s32_def)

lemma s32_eq_0_iff: "\<bar>x\<bar> < 2147483648 \<Longrightarrow> s32 x = 0 \<longleftrightarrow> x = 0"
  by (simp add: s32_id abs_less_iff)

lemma s64_id [cint]: "- 9223372036854775808 \<le> x \<Longrightarrow> x < 9223372036854775808 \<Longrightarrow> s64 x = x"
  by (simp add: s64_def)

lemma size_of_int_id [cint]: "0 \<le> x \<Longrightarrow> x < 18446744073709551616 \<Longrightarrow> size_of_int x = nat x"
  by (simp add: size_of_int_def)

lemma abs_quot: "0 < b \<Longrightarrow> \<bar>quot a b\<bar> = \<bar>a\<bar> div b"
  by (cases "a = 0") (auto simp: quot_def abs_mult sgn_if pos_imp_zdiv_nonneg_iff)

lemma quot_nonneg: "0 \<le> a \<Longrightarrow> 0 < b \<Longrightarrow> quot a b = a div b"
  by (cases "a = 0") (simp_all add: quot_def)

text \<open>\<^verbatim>\<open>char\<close> is signed on the supported platforms (README, note 105).\<close>

definition schar :: "char \<Rightarrow> int" where
  "schar c = (let n = int (of_char c) in if n < 128 then n else n - 256)"

lemma schar_inj [simp]: "schar c = schar d \<longleftrightarrow> c = d"
proof -
  define x y where "x = int (of_char c)" and "y = int (of_char d)"
  have "(of_char c :: nat) < 256" and "(of_char d :: nat) < 256"
    by simp_all
  then have "0 \<le> x" "x < 256" "0 \<le> y" "y < 256"
    unfolding x_def y_def by linarith+
  then have "(if x < 128 then x else x - 256) = (if y < 128 then y else y - 256) \<longleftrightarrow> x = y"
    by auto
  moreover have "schar c = (if x < 128 then x else x - 256)" and "schar d = (if y < 128 then y else y - 256)"
    by (simp_all only: schar_def Let_def x_def y_def)
  ultimately have "schar c = schar d \<longleftrightarrow> x = y"
    by simp
  then show ?thesis
    by (simp add: x_def y_def)
qed

lemma schar_char_of: "n < 128 \<Longrightarrow> schar (char_of n) = int n"
  by (simp add: schar_def)

subsection \<open>Checked memory accesses\<close>

definition nth_opt :: "'a list \<Rightarrow> nat \<Rightarrow> 'a option" where
  "nth_opt xs i = (if i < length xs then Some (xs ! i) else None)"

definition upd_opt :: "'a list \<Rightarrow> nat \<Rightarrow> 'a \<Rightarrow> 'a list option" where
  "upd_opt xs i x = (if i < length xs then Some (xs[i := x]) else None)"

text \<open>The \<open>n\<close> bytes at offset \<open>off\<close> of a memory block.\<close>

definition mem_slice :: "'a list \<Rightarrow> nat \<Rightarrow> nat \<Rightarrow> 'a list option" where
  "mem_slice m off n = (if off + n \<le> length m then Some (take n (drop off m)) else None)"

text \<open>\<^verbatim>\<open>memcpy\<close> of \<open>bs\<close> to offset \<open>off\<close> of a memory block.\<close>

definition mem_write :: "'a list \<Rightarrow> nat \<Rightarrow> 'a list \<Rightarrow> 'a list option" where
  "mem_write m off bs =
     (if off + length bs \<le> length m
      then Some (take off m @ bs @ drop (off + length bs) m) else None)"

lemma nth_opt_Some_iff [cmem]: "nth_opt xs i = Some x \<longleftrightarrow> i < length xs \<and> xs ! i = x"
  by (auto simp: nth_opt_def)

lemma nth_opt_in_range [cmem]: "i < length xs \<Longrightarrow> nth_opt xs i = Some (xs ! i)"
  by (simp add: nth_opt_def)

lemma upd_opt_in_range [cmem]: "i < length xs \<Longrightarrow> upd_opt xs i x = Some (xs[i := x])"
  by (simp add: upd_opt_def)

lemma upd_opt_Some_iff [cmem]: "upd_opt xs i x = Some ys \<longleftrightarrow> i < length xs \<and> ys = xs[i := x]"
  by (auto simp: upd_opt_def)

lemma mem_slice_in_range [cmem]: "off + n \<le> length m \<Longrightarrow> mem_slice m off n = Some (take n (drop off m))"
  by (simp add: mem_slice_def)

lemma mem_write_in_range [cmem]:
  "off + length bs \<le> length m \<Longrightarrow> mem_write m off bs = Some (take off m @ bs @ drop (off + length bs) m)"
  by (simp add: mem_write_def)

lemma mem_write_length: "mem_write m off bs = Some m' \<Longrightarrow> length m' = length m"
  by (auto simp: mem_write_def split: if_splits)

subsection \<open>Lists\<close>

lemma take_drop_append_slice:
  assumes "low \<le> high" and "high \<le> length m"
  shows "take (high + length bs - low) (drop low (take high m @ bs @ rest))
     = take (high - low) (drop low m) @ bs"
proof -
  have "high + length bs - low = length (drop low (take high m)) + length bs"
    using assms by simp
  then show ?thesis
    using assms by (simp add: drop_take)
qed

lemma map_of_concat_neq:
  assumes "\<And>b. b \<in> set bs \<Longrightarrow> k \<notin> fst ` set b"
  shows "map_of (concat bs) k = None"
  using assms by (auto simp: map_of_eq_None_iff)

lemma distinct_map_filter_neq:
  "distinct (map fst xs) \<Longrightarrow> distinct (map fst (filter P xs))"
  by (rule distinct_map_filter)

text \<open>\<^verbatim>\<open>fk_rawlist_remove_anyone\<close> on a list of pointers; it is only used on a member of the list.\<close>

definition rawlist_remove :: "nat \<Rightarrow> nat list \<Rightarrow> nat list option" where
  "rawlist_remove p xs = (if p \<in> set xs then Some (remove1 p xs) else None)"

subsection \<open>C string functions\<close>

definition cstr :: "string \<Rightarrow> string" where
  "cstr s = takeWhile (\<lambda>c. c \<noteq> CHR 0x00) s"

fun memchr :: "char \<Rightarrow> string \<Rightarrow> nat option" where
  "memchr c [] = None"
| "memchr c (x # xs) = (if x = c then Some 0 else map_option Suc (memchr c xs))"

lemma memchr_Some: "memchr c xs = Some i \<Longrightarrow> i < length xs \<and> xs ! i = c"
  by (induction xs arbitrary: i) (auto split: if_splits)

lemma memchr_None_iff: "memchr c xs = None \<longleftrightarrow> c \<notin> set xs"
  by (induction xs) auto

lemma memchr_append_notin [cmem]:
  "c \<notin> set xs \<Longrightarrow> memchr c (xs @ ys) = map_option (\<lambda>i. length xs + i) (memchr c ys)"
  by (cases "memchr c ys"; induction xs) auto

lemma memchr_first: "memchr c xs = Some i \<Longrightarrow> c \<notin> set (take i xs)"
  by (induction xs arbitrary: i) (auto split: if_splits)

text \<open>Byte order of \<^verbatim>\<open>memcmp\<close>: unsigned; the callers use the sign of the result only.\<close>

fun memcmp :: "string \<Rightarrow> string \<Rightarrow> int" where
  "memcmp (x # xs) (y # ys) =
     (if x = y then memcmp xs ys else int (of_char x) - int (of_char y))"
| "memcmp _ _ = 0"

lemma of_char_int_eq_iff: "int (of_char x) = int (of_char y) \<longleftrightarrow> x = y"
  by simp

lemma memcmp_eq_0_iff: "length xs = length ys \<Longrightarrow> memcmp xs ys = 0 \<longleftrightarrow> xs = ys"
  by (induction xs ys rule: list_induct2) auto

subsubsection \<open>Decimal numbers: \<^verbatim>\<open>strtol\<close>, \<^verbatim>\<open>atoi\<close>, \<^verbatim>\<open>atol\<close> and \<^verbatim>\<open>%d\<close>\<close>

definition is_digit :: "char \<Rightarrow> bool" where
  "is_digit c \<longleftrightarrow> 48 \<le> schar c \<and> schar c \<le> 57"

definition is_space :: "char \<Rightarrow> bool" where
  "is_space c \<longleftrightarrow> c = CHR '' '' \<or> (9 \<le> schar c \<and> schar c \<le> 13)"

fun digits_val :: "int \<Rightarrow> string \<Rightarrow> int" where
  "digits_val acc [] = acc"
| "digits_val acc (c # cs) =
     (if is_digit c then digits_val (10 * acc + (schar c - 48)) cs else acc)"

definition clamp64 :: "int \<Rightarrow> int" where
  "clamp64 v = max (- 9223372036854775808) (min 9223372036854775807 v)"

definition strtol :: "string \<Rightarrow> int" where
  "strtol s =
     (case dropWhile is_space s of
        [] \<Rightarrow> 0
      | c # cs \<Rightarrow>
          (if c = CHR ''-'' then clamp64 (- digits_val 0 cs)
           else if c = CHR ''+'' then clamp64 (digits_val 0 cs)
           else clamp64 (digits_val 0 (c # cs))))"

definition atoi :: "string \<Rightarrow> int" where
  "atoi s = s32 (strtol s)"

definition atol :: "string \<Rightarrow> int" where
  "atol s = strtol s"

definition digit_char :: "nat \<Rightarrow> char" where
  "digit_char d = char_of (48 + d)"

fun print_nat :: "nat \<Rightarrow> string" where
  "print_nat n = (if n < 10 then [digit_char n] else print_nat (n div 10) @ [digit_char (n mod 10)])"

declare print_nat.simps [simp del]

definition print_int :: "int \<Rightarrow> string" where
  "print_int x = (if x < 0 then CHR ''-'' # print_nat (nat (- x)) else print_nat (nat x))"

lemma schar_digit_char: "d < 10 \<Longrightarrow> schar (digit_char d) = 48 + int d"
  by (simp add: schar_def digit_char_def)

lemma is_digit_digit_char [simp]: "d < 10 \<Longrightarrow> is_digit (digit_char d)"
  by (simp add: is_digit_def schar_digit_char)

lemma print_nat_nonempty [simp]: "print_nat n \<noteq> []"
  by (subst print_nat.simps) simp

lemma print_nat_digits: "c \<in> set (print_nat n) \<Longrightarrow> is_digit c"
proof (induction n rule: print_nat.induct)
  case (1 n)
  then show ?case
    by (subst (asm) print_nat.simps) (auto split: if_splits)
qed

lemma digits_val_append:
  "(\<And>c. c \<in> set xs \<Longrightarrow> is_digit c) \<Longrightarrow> digits_val acc (xs @ ys) = digits_val (digits_val acc xs) ys"
  by (induction xs arbitrary: acc) auto

lemma digits_val_print_nat [simp]: "digits_val 0 (print_nat n) = int n"
proof (induction n rule: print_nat.induct)
  case (1 n)
  show ?case
  proof (cases "n < 10")
    case True
    then show ?thesis by (subst print_nat.simps) (simp add: schar_digit_char)
  next
    case False
    have "digits_val 0 (print_nat n) = digits_val 0 (print_nat (n div 10) @ [digit_char (n mod 10)])"
      using False by (subst print_nat.simps) simp
    also have "\<dots> = 10 * int (n div 10) + int (n mod 10)"
      using 1 [OF False] by (subst digits_val_append) (auto simp: print_nat_digits schar_digit_char)
    also have "\<dots> = int n"
      using div_mult_mod_eq [of "int n" 10] by (simp add: zdiv_int zmod_int)
    finally show ?thesis .
  qed
qed

lemma digits_val_stop: "rest = [] \<or> \<not> is_digit (hd rest) \<Longrightarrow> digits_val acc rest = acc"
  by (cases rest) auto

lemma digits_val_print_nat_rest:
  "rest = [] \<or> \<not> is_digit (hd rest) \<Longrightarrow> digits_val 0 (print_nat n @ rest) = int n"
  by (subst digits_val_append) (auto simp: print_nat_digits digits_val_stop)

lemma is_digit_not_special:
  "is_digit c \<Longrightarrow> \<not> is_space c \<and> c \<noteq> CHR ''-'' \<and> c \<noteq> CHR ''+''
     \<and> c \<noteq> CHR 0x0A \<and> c \<noteq> CHR 0x0D \<and> c \<noteq> CHR 0x00"
  by (auto simp: is_digit_def is_space_def schar_def)

lemma strtol_digits:
  assumes "ds \<noteq> []" and "is_digit (hd ds)"
  shows "strtol ds = clamp64 (digits_val 0 ds)"
  using assms is_digit_not_special [of "hd ds"] by (cases ds) (auto simp: strtol_def)

text \<open>Reading back what \<^verbatim>\<open>%d\<close> printed, whatever non-digit follows.\<close>

lemma atoi_print_nat:
  assumes "int n < 2147483648" and "rest = [] \<or> \<not> is_digit (hd rest)"
  shows "atoi (print_nat n @ rest) = int n"
proof -
  obtain c cs where p: "print_nat n = c # cs"
    by (cases "print_nat n") auto
  then have "is_digit c"
    using print_nat_digits [of c n] by simp
  then have "strtol (print_nat n @ rest) = clamp64 (digits_val 0 (print_nat n @ rest))"
    using p by (intro strtol_digits) auto
  also have "\<dots> = int n"
    using assms by (simp add: digits_val_print_nat_rest clamp64_def)
  finally show ?thesis
    using assms(1) by (simp add: atoi_def s32_id)
qed

text \<open>\<^verbatim>\<open>snprintf\<close> writes the formatted text, cut to \<open>size - 1\<close> bytes, and a NUL; the rest of
  the destination keeps what \<^verbatim>\<open>malloc\<close> left there (\<open>junk\<close>). The result is the whole block.\<close>

definition snprintf_block :: "(nat \<Rightarrow> char) \<Rightarrow> nat \<Rightarrow> string \<Rightarrow> string" where
  "snprintf_block junk sz text =
     (let t = take (sz - 1) text @ [CHR 0x00]
      in take sz t @ map junk [length t..<sz])"

lemma snprintf_block_exact [cmem]:
  "take (length text) (snprintf_block junk (length text + 1) text) = text"
  by (simp add: snprintf_block_def)

subsection \<open>Invariants of sequences of steps\<close>

lemma star_invariant:
  assumes "R\<^sup>*\<^sup>* s t" and "P s" and "\<And>x y. R x y \<Longrightarrow> P x \<Longrightarrow> P y"
  shows "P t"
  using assms(1,2) by (induction rule: rtranclp_induct) (auto intro: assms(3))

subsection \<open>Comparison functions\<close>

text \<open>What the containers rely on: on the elements in use, a comparison function is the order of a key.\<close>

locale key_order =
  fixes cmp :: "'p \<Rightarrow> 'p \<Rightarrow> int" and key :: "'p \<Rightarrow> int" and D :: "'p set"
  assumes cmp_less: "x \<in> D \<Longrightarrow> y \<in> D \<Longrightarrow> cmp x y < 0 \<longleftrightarrow> key x < key y"
    and cmp_greater: "x \<in> D \<Longrightarrow> y \<in> D \<Longrightarrow> cmp x y > 0 \<longleftrightarrow> key x > key y"
begin

lemma cmp_zero: "x \<in> D \<Longrightarrow> y \<in> D \<Longrightarrow> cmp x y = 0 \<longleftrightarrow> key x = key y"
  using cmp_less [of x y] cmp_greater [of x y] by linarith

lemma cmp_le: "x \<in> D \<Longrightarrow> y \<in> D \<Longrightarrow> cmp x y \<le> 0 \<longleftrightarrow> key x \<le> key y"
  using cmp_greater [of x y] by linarith

lemma cmp_ge: "x \<in> D \<Longrightarrow> y \<in> D \<Longrightarrow> cmp x y \<ge> 0 \<longleftrightarrow> key x \<ge> key y"
  using cmp_less [of x y] by linarith

end

end
