(* ===== verification/Fk_Util.thy ===== *)
theory Fk_Util
  imports Fk_Prelude
begin

text \<open>
  The helpers of \<^verbatim>\<open>fk_util.c\<close> and \<^verbatim>\<open>fk_util.h\<close>: the digit-sequence checks the request parser
  relies on, \<^verbatim>\<open>fk_util_min_power\<close> (buffer growth), \<^verbatim>\<open>fk_util_decimal_digit\<close> (reply sizes) and the
  \<^verbatim>\<open>struct timeval\<close> arithmetic behind timers and key expiry. A \<open>0/1\<close> result of the C code is
  a \<^typ>\<open>bool\<close>.
\<close>

subsection \<open>Digit sequences\<close>

fun positive_seq_loop :: "bool \<Rightarrow> string \<Rightarrow> bool" where
  "positive_seq_loop first [] = True"
| "positive_seq_loop first (c # cs) =
     (if first
      then (if schar c \<le> 48 \<or> schar c > 57 then False else positive_seq_loop False cs)
      else (if schar c < 48 \<or> schar c > 57 then False else positive_seq_loop False cs))"

definition fk_util_is_positive_seq :: "string \<Rightarrow> bool" where
  "fk_util_is_positive_seq s = (if length s \<le> 0 then False else positive_seq_loop True s)"

fun nonminus_seq_loop :: "nat \<Rightarrow> bool \<Rightarrow> string \<Rightarrow> bool" where
  "nonminus_seq_loop len first [] = True"
| "nonminus_seq_loop len first (c # cs) =
     (if first
      then (if schar c < 48 \<or> schar c > 57 then False
            else if schar c = 48 then (if len = 1 then True else False)
            else nonminus_seq_loop len False cs)
      else (if schar c < 48 \<or> schar c > 57 then False else nonminus_seq_loop len False cs))"

definition fk_util_is_nonminus_seq :: "string \<Rightarrow> bool" where
  "fk_util_is_nonminus_seq s = (if length s \<le> 0 then False else nonminus_seq_loop (length s) True s)"

fun digit_seq_loop :: "nat \<Rightarrow> nat \<Rightarrow> string \<Rightarrow> bool" where
  "digit_seq_loop len i [] = True"
| "digit_seq_loop len i (c # cs) =
     (if i = 0
      then (if c \<noteq> CHR ''-'' \<and> c \<noteq> CHR ''+'' \<and> (schar c \<le> 48 \<or> schar c > 57) then False
            else if (c = CHR ''-'' \<or> c = CHR ''+'') \<and> len \<le> 1 then False
            else digit_seq_loop len (Suc i) cs)
      else (if schar c < 48 \<or> schar c > 57 then False else digit_seq_loop len (Suc i) cs))"

definition fk_util_is_digit_seq :: "string \<Rightarrow> bool" where
  "fk_util_is_digit_seq s = (if length s \<le> 0 then False else digit_seq_loop (length s) 0 s)"

lemma positive_seq_loop_rest: "positive_seq_loop False cs \<longleftrightarrow> (\<forall>c \<in> set cs. is_digit c)"
  by (induction cs) (auto simp: is_digit_def)

lemma nonminus_seq_loop_rest: "nonminus_seq_loop n False cs \<longleftrightarrow> (\<forall>c \<in> set cs. is_digit c)"
  by (induction cs) (auto simp: is_digit_def)

lemma digit_seq_loop_rest: "i > 0 \<Longrightarrow> digit_seq_loop n i cs \<longleftrightarrow> (\<forall>c \<in> set cs. is_digit c)"
  by (induction cs arbitrary: i) (auto simp: is_digit_def)

lemma schar_zero_iff: "schar c = 48 \<longleftrightarrow> c = CHR ''0''"
proof -
  have "schar (CHR ''0'') = 48"
    by (simp add: schar_def)
  then show ?thesis
    using schar_inj [of c "CHR ''0''"] by simp
qed

lemma positive_seq_iff:
  "fk_util_is_positive_seq s \<longleftrightarrow> s \<noteq> [] \<and> hd s \<noteq> CHR ''0'' \<and> (\<forall>c \<in> set s. is_digit c)"
proof (cases s)
  case (Cons c cs)
  have "(\<not> (schar c \<le> 48 \<or> schar c > 57)) \<longleftrightarrow> is_digit c \<and> c \<noteq> CHR ''0''"
    using schar_zero_iff [of c] by (auto simp: is_digit_def)
  with Cons show ?thesis
    by (auto simp: fk_util_is_positive_seq_def positive_seq_loop_rest)
qed (simp add: fk_util_is_positive_seq_def)

lemma nonminus_seq_iff:
  "fk_util_is_nonminus_seq s \<longleftrightarrow>
     s \<noteq> [] \<and> (\<forall>c \<in> set s. is_digit c) \<and> (hd s = CHR ''0'' \<longrightarrow> length s = 1)"
proof (cases s)
  case (Cons c cs)
  then show ?thesis
    using schar_zero_iff [of c]
    by (auto simp: fk_util_is_nonminus_seq_def nonminus_seq_loop_rest is_digit_def)
qed (simp add: fk_util_is_nonminus_seq_def)

lemma digit_char_zero_iff: "d < 10 \<Longrightarrow> digit_char d = CHR ''0'' \<longleftrightarrow> d = 0"
  using schar_digit_char [of d] schar_zero_iff [of "digit_char d"] by auto

lemma hd_print_nat_zero: "hd (print_nat n) = CHR ''0'' \<longleftrightarrow> n = 0"
proof (induction n rule: print_nat.induct)
  case (1 n)
  show ?case
  proof (cases "n < 10")
    case True
    then show ?thesis by (subst print_nat.simps) (simp add: digit_char_zero_iff)
  next
    case False
    then have "hd (print_nat n) = hd (print_nat (n div 10))"
      by (subst print_nat.simps) simp
    with 1 [OF False] False show ?thesis by auto
  qed
qed

lemma print_nat_0: "print_nat 0 = ''0''"
  by (subst print_nat.simps) (simp add: digit_char_zero_iff)

text \<open>Every printed length is accepted by the parser's check, and every printed count
  except zero.\<close>

lemma nonminus_seq_print_nat: "fk_util_is_nonminus_seq (print_nat n)"
  by (auto simp: nonminus_seq_iff hd_print_nat_zero print_nat_digits print_nat_0)

lemma positive_seq_print_nat: "fk_util_is_positive_seq (print_nat n) \<longleftrightarrow> 0 < n"
  by (auto simp: positive_seq_iff hd_print_nat_zero print_nat_digits)

lemma is_positive_value:
  assumes "fk_util_is_positive_seq s"
  shows "digits_val 0 s > 0"
proof -
  have mono: "digits_val acc cs \<ge> acc" if "acc \<ge> 0" and "\<forall>c \<in> set cs. is_digit c" for acc cs
    using that
  proof (induction cs arbitrary: acc)
    case (Cons c cs)
    then have "acc \<le> 10 * acc + (schar c - 48)" and "is_digit c"
      by (auto simp: is_digit_def)
    moreover have "10 * acc + (schar c - 48) \<le> digits_val (10 * acc + (schar c - 48)) cs"
      using calculation Cons.prems by (intro Cons.IH) auto
    ultimately show ?case
      by simp
  qed simp
  obtain c cs where s: "s = c # cs"
    using assms by (cases s) (auto simp: positive_seq_iff)
  have "is_digit c" and "c \<noteq> CHR ''0''" and cs: "\<forall>c \<in> set cs. is_digit c"
    using assms s by (auto simp: positive_seq_iff)
  then have "schar c - 48 > 0"
    using schar_zero_iff [of c] by (auto simp: is_digit_def)
  then show ?thesis
    using s mono [of "schar c - 48" cs] cs \<open>is_digit c\<close> by simp
qed

subsection \<open>\<^verbatim>\<open>fk_util_min_power\<close>\<close>

function min_power_loop :: "nat \<Rightarrow> int \<Rightarrow> nat" where
  "min_power_loop q n = (if n > 0 then min_power_loop (Suc q) (n div 2) else q)"
  by pat_completeness auto
termination
  by (relation "measure (\<lambda>(q, n). nat n)") auto

declare min_power_loop.simps [simp del]

definition fk_util_min_power :: "int \<Rightarrow> int" where
  "fk_util_min_power n = s32 (2 ^ min_power_loop 0 n)"

lemma min_power_loop_step: "0 < n \<Longrightarrow> min_power_loop q n = min_power_loop (Suc q) (n div 2)"
  by (subst min_power_loop.simps) simp

lemma min_power_loop_stop: "n \<le> 0 \<Longrightarrow> min_power_loop q n = q"
  by (subst min_power_loop.simps) simp

lemma min_power_loop_add: "min_power_loop q n = q + min_power_loop 0 n"
proof (induction "nat n" arbitrary: q n rule: less_induct)
  case less
  show ?case
  proof (cases "0 < n")
    case True
    then have "nat (n div 2) < nat n"
      by simp
    then have "min_power_loop (Suc q) (n div 2) = Suc q + min_power_loop 0 (n div 2)"
      and "min_power_loop (Suc 0) (n div 2) = Suc 0 + min_power_loop 0 (n div 2)"
      using less by blast+
    with True show ?thesis
      by (simp add: min_power_loop_step)
  qed (simp add: min_power_loop_stop)
qed

lemma min_power_loop_bounds:
  "0 < n \<Longrightarrow> n < 2 ^ min_power_loop 0 n \<and> 2 ^ min_power_loop 0 n \<le> 2 * n"
proof (induction "nat n" arbitrary: n rule: less_induct)
  case less
  let ?m = "n div 2"
  have step: "min_power_loop 0 n = Suc (min_power_loop 0 ?m)"
    using less.prems min_power_loop_add [of "Suc 0" ?m] by (simp add: min_power_loop_step)
  show ?case
  proof (cases "0 < ?m")
    case True
    then have "nat ?m < nat n"
      using less.prems by simp
    then have "?m < 2 ^ min_power_loop 0 ?m" and "2 ^ min_power_loop 0 ?m \<le> 2 * ?m"
      using less.hyps True by blast+
    then show ?thesis
      using step by simp linarith
  next
    case False
    then have "n = 1"
      using less.prems by linarith
    then show ?thesis
      using step by (simp add: min_power_loop_stop)
  qed
qed

lemma min_power_spec:
  assumes "0 < n" and "n < 1073741824"
  shows "n < fk_util_min_power n" and "fk_util_min_power n \<le> 2 * n"
    and "\<exists>k. fk_util_min_power n = 2 ^ k"
proof -
  have b: "n < 2 ^ min_power_loop 0 n" "(2::int) ^ min_power_loop 0 n \<le> 2 * n"
    using min_power_loop_bounds [OF assms(1)] by auto
  then have "fk_util_min_power n = 2 ^ min_power_loop 0 n"
    using assms by (simp add: fk_util_min_power_def s32_id)
  then show "n < fk_util_min_power n" and "fk_util_min_power n \<le> 2 * n"
    and "\<exists>k. fk_util_min_power n = 2 ^ k"
    using b by auto
qed

subsection \<open>\<^verbatim>\<open>fk_util_decimal_digit\<close>\<close>

function decimal_digit_loop :: "nat \<Rightarrow> int \<Rightarrow> nat" where
  "decimal_digit_loop len num =
     (let len' = Suc len; num' = quot num 10
      in if num' \<noteq> 0 then decimal_digit_loop len' num' else len')"
  by pat_completeness auto
termination
proof (relation "measure (\<lambda>(len, num). nat \<bar>num\<bar>)", goal_cases)
  case (2 len num x xa)
  then have "0 < \<bar>num\<bar> div 10"
    using abs_quot [of 10 num] by auto
  then have nz: "num \<noteq> 0"
    by auto
  moreover have "\<bar>num\<bar> div 10 < \<bar>num\<bar>"
    using nz by linarith
  ultimately show ?case
    using 2 abs_quot [of 10 num] by simp
qed simp

declare decimal_digit_loop.simps [simp del]

definition fk_util_decimal_digit :: "int \<Rightarrow> nat" where
  "fk_util_decimal_digit num = decimal_digit_loop (if num < 0 then 1 else 0) num"

lemma decimal_digit_loop_eq: "decimal_digit_loop len num = len + length (print_nat (nat \<bar>num\<bar>))"
proof (induction len num rule: decimal_digit_loop.induct)
  case (1 len num)
  have q: "nat \<bar>quot num 10\<bar> = nat \<bar>num\<bar> div 10"
    by (simp add: abs_quot nat_div_distrib)
  show ?case
  proof (cases "quot num 10 = 0")
    case True
    then have "nat \<bar>num\<bar> < 10"
      using q by (simp add: div_eq_0_iff)
    with True show ?thesis
      by (simp add: decimal_digit_loop.simps [of len] print_nat.simps [of "nat \<bar>num\<bar>"])
  next
    case False
    then have "\<not> nat \<bar>num\<bar> < 10"
      using q by (metis div_less nat_0_iff abs_le_zero_iff)
    with False 1 [OF refl refl False] q show ?thesis
      by (simp add: decimal_digit_loop.simps [of len] print_nat.simps [of "nat \<bar>num\<bar>"])
  qed
qed

lemma decimal_digit_eq: "fk_util_decimal_digit num = length (print_int num)"
  by (simp add: fk_util_decimal_digit_def decimal_digit_loop_eq print_int_def)

subsection \<open>\<^verbatim>\<open>struct timeval\<close>\<close>

record timeval =
  tv_sec :: int
  tv_usec :: int

definition fk_util_tv2millis :: "timeval \<Rightarrow> int" where
  "fk_util_tv2millis tv = tv_sec tv * 1000 + quot (tv_usec tv) 1000"

definition fk_util_millis2tv :: "int \<Rightarrow> timeval" where
  "fk_util_millis2tv ms = \<lparr>tv_sec = ms div 1000, tv_usec = (ms mod 1000) * 1000\<rparr>"

definition fk_util_tmval_cmp :: "timeval \<Rightarrow> timeval \<Rightarrow> int" where
  "fk_util_tmval_cmp t1 t2 =
     (if tv_sec t1 = tv_sec t2 then tv_usec t1 - tv_usec t2 else tv_sec t1 - tv_sec t2)"

definition fk_util_tmval_add :: "timeval \<Rightarrow> timeval \<Rightarrow> timeval" where
  "fk_util_tmval_add a b =
     (let s = tv_sec a + tv_sec b; u = tv_usec a + tv_usec b
      in if u \<ge> 1000000 then \<lparr>tv_sec = s + 1, tv_usec = u - 1000000\<rparr>
         else \<lparr>tv_sec = s, tv_usec = u\<rparr>)"

definition fk_util_tmval_sub :: "timeval \<Rightarrow> timeval \<Rightarrow> timeval" where
  "fk_util_tmval_sub a b =
     (let s = tv_sec a - tv_sec b; u = tv_usec a - tv_usec b
      in if u < 0 then \<lparr>tv_sec = s - 1, tv_usec = u + 1000000\<rparr>
         else \<lparr>tv_sec = s, tv_usec = u\<rparr>)"

text \<open>\<^verbatim>\<open>fk_util_cal_expire\<close>: the expiry point \<open>interval\<close> milliseconds after the clock reading.\<close>

definition fk_util_cal_expire :: "timeval \<Rightarrow> int \<Rightarrow> timeval" where
  "fk_util_cal_expire now interval = fk_util_tmval_add now (fk_util_millis2tv interval)"

definition tv_norm :: "timeval \<Rightarrow> bool" where
  "tv_norm t \<longleftrightarrow> 0 \<le> tv_usec t \<and> tv_usec t < 1000000"

definition tv_micros :: "timeval \<Rightarrow> int" where
  "tv_micros t = tv_sec t * 1000000 + tv_usec t"

lemma tmval_cmp_micros:
  assumes "tv_norm a" and "tv_norm b"
  shows "(0 < fk_util_tmval_cmp a b \<longleftrightarrow> tv_micros b < tv_micros a)
    \<and> (fk_util_tmval_cmp a b = 0 \<longleftrightarrow> tv_micros a = tv_micros b)"
proof (cases "tv_sec a = tv_sec b")
  case False
  with assms show ?thesis
    by (auto simp: fk_util_tmval_cmp_def tv_norm_def tv_micros_def)
qed (auto simp: fk_util_tmval_cmp_def tv_micros_def)

lemma tmval_add_norm: "tv_norm a \<Longrightarrow> tv_norm b \<Longrightarrow> tv_norm (fk_util_tmval_add a b)"
  by (auto simp: fk_util_tmval_add_def tv_norm_def Let_def)

lemma tmval_add_micros: "tv_micros (fk_util_tmval_add a b) = tv_micros a + tv_micros b"
  by (simp add: fk_util_tmval_add_def tv_micros_def Let_def algebra_simps)

lemma tmval_sub_norm: "tv_norm a \<Longrightarrow> tv_norm b \<Longrightarrow> tv_norm (fk_util_tmval_sub a b)"
  by (auto simp: fk_util_tmval_sub_def tv_norm_def Let_def)

lemma tmval_sub_micros: "tv_micros (fk_util_tmval_sub a b) = tv_micros a - tv_micros b"
  by (simp add: fk_util_tmval_sub_def tv_micros_def Let_def algebra_simps)

lemma millis2tv_norm: "tv_norm (fk_util_millis2tv ms)"
  using pos_mod_bound [of 1000 ms] by (simp add: fk_util_millis2tv_def tv_norm_def)

lemma millis2tv_micros: "tv_micros (fk_util_millis2tv ms) = ms * 1000"
  by (simp add: fk_util_millis2tv_def tv_micros_def) presburger

lemma tv2millis_micros: "tv_norm t \<Longrightarrow> fk_util_tv2millis t = tv_micros t div 1000"
  by (auto simp: fk_util_tv2millis_def tv_micros_def tv_norm_def quot_nonneg)

lemma cal_expire_norm: "tv_norm now \<Longrightarrow> tv_norm (fk_util_cal_expire now ms)"
  by (simp add: fk_util_cal_expire_def tmval_add_norm millis2tv_norm)

lemma cal_expire_micros: "tv_micros (fk_util_cal_expire now ms) = tv_micros now + ms * 1000"
  by (simp add: fk_util_cal_expire_def tmval_add_micros millis2tv_micros)

lemmas tv_facts =
  tmval_cmp_micros tmval_add_norm tmval_add_micros tmval_sub_norm tmval_sub_micros
  millis2tv_norm millis2tv_micros cal_expire_norm cal_expire_micros

end
