(* ===== verification/Fk_Buf.thy ===== *)
theory Fk_Buf
  imports Fk_Util
begin

text \<open>
  \<^verbatim>\<open>fk_buf.h\<close>, \<^verbatim>\<open>fk_buf.c\<close>: the read and write buffers of a connection, and \<^verbatim>\<open>fk_vtr.h\<close>,
  \<^verbatim>\<open>fk_vtr.c\<close>: the argument vector. The flexible array member of \<^verbatim>\<open>fk_buf_t\<close> is the list
  \<open>buffer\<close>, as long as the allocation; \<open>fresh\<close> gives the bytes that \<^verbatim>\<open>malloc\<close> and
  \<^verbatim>\<open>realloc\<close> leave uninitialised. \<open>byte_queue\<close> is the contract of a buffer: a queue of bytes.
\<close>

subsection \<open>State\<close>

record fk_buf =
  highwat :: nat
  init_len :: nat
  blen :: nat
  low :: nat
  high :: nat
  buffer :: string
  fresh :: "nat \<Rightarrow> char"

text \<open>The C code asserts \<open>highwat \<ge> init_len\<close>; \<open>None\<close> is the failed assertion.\<close>

definition fk_buf_create :: "(nat \<Rightarrow> char) \<Rightarrow> nat \<Rightarrow> nat \<Rightarrow> fk_buf option" where
  "fk_buf_create fr ilen hw =
     (if \<not> ilen \<le> hw then None
      else Some \<lparr>highwat = hw, init_len = ilen, blen = ilen, low = 0, high = 0,
                 buffer = map fr [0..<ilen], fresh = fr\<rparr>)"

definition buf_realloc :: "fk_buf \<Rightarrow> nat \<Rightarrow> fk_buf" where
  "buf_realloc b n = b\<lparr>buffer := take n (buffer b) @ map (fresh b) [length (buffer b)..<n]\<rparr>"

subsection \<open>Operations\<close>

definition fk_buf_free_len :: "fk_buf \<Rightarrow> nat" where
  "fk_buf_free_len b = blen b - high b"

definition fk_buf_payload_len :: "fk_buf \<Rightarrow> nat" where
  "fk_buf_payload_len b = high b - low b"

definition fk_buf_high_inc :: "fk_buf \<Rightarrow> nat \<Rightarrow> fk_buf" where
  "fk_buf_high_inc b off = (let h = high b + off in b\<lparr>high := if h > blen b then blen b else h\<rparr>)"

definition fk_buf_low_inc :: "fk_buf \<Rightarrow> nat \<Rightarrow> fk_buf" where
  "fk_buf_low_inc b off = (let l = low b + off in b\<lparr>low := if l > high b then high b else l\<rparr>)"

definition fk_buf_stretch :: "fk_buf \<Rightarrow> fk_buf" where
  "fk_buf_stretch b =
     (if blen b < highwat b then (let b1 = b\<lparr>blen := blen b * 2\<rparr> in buf_realloc b1 (blen b1)) else b)"

text \<open>\<^verbatim>\<open>memmove\<close> within the buffer; \<open>None\<close> when the source leaves the allocation.\<close>

definition fk_buf_shift :: "fk_buf \<Rightarrow> fk_buf option" where
  "fk_buf_shift b =
     (if low b > 0 then
        do { src \<leftarrow> mem_slice (buffer b) (low b) (high b - low b);
             m \<leftarrow> mem_write (buffer b) 0 src;
             Some (b\<lparr>buffer := m, high := high b - low b, low := 0\<rparr>) }
      else Some b)"

definition fk_buf_shrink :: "fk_buf \<Rightarrow> fk_buf option" where
  "fk_buf_shrink b =
     (if blen b \<ge> init_len b \<and> fk_buf_payload_len b < init_len b then
        do { b1 \<leftarrow> fk_buf_shift b;
             Some ((buf_realloc b1 (init_len b1))\<lparr>blen := init_len b1\<rparr>) }
      else Some b)"

text \<open>The new length passes through the \<^verbatim>\<open>int\<close> parameter and result of \<^verbatim>\<open>fk_util_min_power\<close>.\<close>

definition fk_buf_alloc :: "fk_buf \<Rightarrow> nat \<Rightarrow> fk_buf option" where
  "fk_buf_alloc b len =
     do { b1 \<leftarrow> (if fk_buf_free_len b < len then fk_buf_shift b else Some b);
          if fk_buf_free_len b1 < len \<and> blen b1 < highwat b1 then
            (let n = size_of_int (fk_util_min_power (s32 (int (blen b1 + len - fk_buf_free_len b1))))
             in Some (buf_realloc (b1\<lparr>blen := n\<rparr>) n))
          else Some b1 }"

text \<open>\<^verbatim>\<open>memcpy(fk_buf_free_start(buf), bytes, n)\<close> followed by \<^verbatim>\<open>fk_buf_high_inc(buf, n)\<close>.\<close>

definition buf_put :: "fk_buf \<Rightarrow> string \<Rightarrow> fk_buf option" where
  "buf_put b bs =
     do { m \<leftarrow> mem_write (buffer b) (high b) bs;
          Some (fk_buf_high_inc (b\<lparr>buffer := m\<rparr>) (length bs)) }"

subsection \<open>Invariant and contents\<close>

definition buf_inv :: "fk_buf \<Rightarrow> bool" where
  "buf_inv b \<longleftrightarrow> low b \<le> high b \<and> high b \<le> blen b \<and> length (buffer b) = blen b
     \<and> 0 < init_len b \<and> init_len b \<le> blen b"

definition payload :: "fk_buf \<Rightarrow> string" where
  "payload b = take (high b - low b) (drop (low b) (buffer b))"

lemma length_payload: "buf_inv b \<Longrightarrow> length (payload b) = fk_buf_payload_len b"
  by (auto simp: buf_inv_def payload_def fk_buf_payload_len_def)

lemma buf_inv_create:
  "0 < ilen \<Longrightarrow> ilen \<le> hw \<Longrightarrow> \<exists>b. fk_buf_create fr ilen hw = Some b \<and> buf_inv b \<and> payload b = []
     \<and> highwat b = hw \<and> init_len b = ilen \<and> blen b = ilen"
  by (simp add: fk_buf_create_def buf_inv_def payload_def)

lemma low_inc_spec:
  assumes "buf_inv b"
  shows "buf_inv (fk_buf_low_inc b n)" and "payload (fk_buf_low_inc b n) = drop n (payload b)"
  using assms by (auto simp: fk_buf_low_inc_def buf_inv_def payload_def Let_def drop_take add.commute)

lemma put_spec:
  assumes inv: "buf_inv b" and room: "length bs \<le> fk_buf_free_len b"
  shows "\<exists>b'. buf_put b bs = Some b' \<and> buf_inv b' \<and> payload b' = payload b @ bs
    \<and> highwat b' = highwat b \<and> blen b' = blen b"
proof -
  have *: "low b \<le> high b" "high b \<le> blen b" "length (buffer b) = blen b" "high b + length bs \<le> blen b"
    using inv room by (auto simp: buf_inv_def fk_buf_free_len_def)
  then have "payload (fk_buf_high_inc (b\<lparr>buffer := take (high b) (buffer b) @ bs
      @ drop (high b + length bs) (buffer b)\<rparr>) (length bs)) = payload b @ bs"
    using take_drop_append_slice [of "low b" "high b" "buffer b" bs]
    by (simp add: payload_def fk_buf_high_inc_def Let_def)
  then show ?thesis
    using inv * by (simp add: buf_put_def mem_write_in_range fk_buf_high_inc_def Let_def buf_inv_def)
qed

lemma shift_spec:
  assumes inv: "buf_inv b"
  shows "\<exists>b'. fk_buf_shift b = Some b' \<and> buf_inv b' \<and> payload b' = payload b \<and> low b' = 0
    \<and> highwat b' = highwat b \<and> blen b' = blen b \<and> init_len b' = init_len b \<and> fresh b' = fresh b"
proof (cases "low b > 0")
  case True
  then have "mem_slice (buffer b) (low b) (high b - low b) = Some (payload b)"
    using inv by (simp add: mem_slice_def buf_inv_def payload_def)
  moreover have l: "length (payload b) = high b - low b" "high b - low b \<le> length (buffer b)"
    using inv by (auto simp: length_payload fk_buf_payload_len_def buf_inv_def)
  ultimately show ?thesis
    using True inv by (auto simp: fk_buf_shift_def mem_write_def buf_inv_def payload_def)
next
  case False
  then show ?thesis using inv by (simp add: fk_buf_shift_def)
qed

lemma realloc_grow:
  assumes "buf_inv b" and "blen b \<le> n"
  shows "buf_inv (buf_realloc (b\<lparr>blen := n\<rparr>) n)" and "payload (buf_realloc (b\<lparr>blen := n\<rparr>) n) = payload b"
  using assms by (auto simp: buf_realloc_def buf_inv_def payload_def)

lemma buf_stretch_spec:
  assumes "buf_inv b"
  shows "buf_inv (fk_buf_stretch b)" and "payload (fk_buf_stretch b) = payload b"
    and "blen b < highwat b \<Longrightarrow> fk_buf_free_len b < fk_buf_free_len (fk_buf_stretch b)"
  using assms realloc_grow [OF assms, of "blen b * 2"]
  by (auto simp: fk_buf_stretch_def Let_def) (auto simp: buf_realloc_def buf_inv_def fk_buf_free_len_def)

lemma shrink_spec:
  assumes inv: "buf_inv b"
  shows "\<exists>b'. fk_buf_shrink b = Some b' \<and> buf_inv b' \<and> payload b' = payload b \<and> highwat b' = highwat b
    \<and> blen b' \<le> blen b"
proof (cases "blen b \<ge> init_len b \<and> fk_buf_payload_len b < init_len b")
  case True
  obtain b1 where b1: "fk_buf_shift b = Some b1" "buf_inv b1" "payload b1 = payload b" "low b1 = 0"
    "highwat b1 = highwat b" "blen b1 = blen b" "init_len b1 = init_len b"
    using shift_spec [OF inv] by blast
  have "high b1 < init_len b1"
    using True b1 length_payload [OF inv] length_payload [OF b1(2)] by (simp add: fk_buf_payload_len_def)
  then show ?thesis
    using True b1 by (auto simp: fk_buf_shrink_def buf_realloc_def buf_inv_def payload_def)
next
  case False
  then show ?thesis using inv by (auto simp: fk_buf_shrink_def)
qed

lemma alloc_spec:
  assumes inv: "buf_inv b" and small: "length (payload b) + len < 1073741824"
  shows "\<exists>b'. fk_buf_alloc b len = Some b' \<and> buf_inv b' \<and> payload b' = payload b \<and> highwat b' = highwat b
    \<and> (len \<le> fk_buf_free_len b' \<or> highwat b < length (payload b) + len)"
proof -
  obtain b1 where b1: "(if fk_buf_free_len b < len then fk_buf_shift b else Some b) = Some b1"
    "buf_inv b1" "payload b1 = payload b" "highwat b1 = highwat b" "blen b1 = blen b"
    "fk_buf_free_len b1 < len \<Longrightarrow> low b1 = 0"
    using shift_spec [OF inv] inv by (cases "fk_buf_free_len b < len") auto
  show ?thesis
  proof (cases "fk_buf_free_len b1 < len \<and> blen b1 < highwat b1")
    case True
    let ?need = "blen b1 + len - fk_buf_free_len b1"
    have hi: "high b1 = length (payload b)" "high b1 \<le> blen b1"
      using b1 True length_payload [OF b1(2)] by (auto simp: fk_buf_payload_len_def buf_inv_def)
    then have need: "?need = length (payload b) + len"
      by (simp add: fk_buf_free_len_def)
    have "blen b1 < ?need"
      using True by linarith
    have "0 < int ?need" "int ?need < 1073741824"
      using need small \<open>blen b1 < ?need\<close> by linarith+
    note mp = min_power_spec [OF this]
    define n where "n = size_of_int (fk_util_min_power (s32 (int ?need)))"
    have s: "s32 (int ?need) = int ?need"
      using \<open>int ?need < 1073741824\<close> by (simp add: s32_id)
    have n: "n = nat (fk_util_min_power (int ?need))"
      unfolding n_def s using mp(1,2) \<open>int ?need < 1073741824\<close> by (intro size_of_int_id) linarith+
    then have "?need < n"
      using mp(1) by linarith
    then have g: "blen b1 \<le> n" "len \<le> n - high b1"
      using need hi \<open>blen b1 < ?need\<close> by linarith+
    have "fk_buf_alloc b len = Some (buf_realloc (b1\<lparr>blen := n\<rparr>) n)"
      using b1(1) True by (simp add: fk_buf_alloc_def n_def Let_def)
    moreover have "len \<le> fk_buf_free_len (buf_realloc (b1\<lparr>blen := n\<rparr>) n)"
      using g(2) by (simp add: fk_buf_free_len_def buf_realloc_def)
    moreover have "highwat (buf_realloc (b1\<lparr>blen := n\<rparr>) n) = highwat b"
      using b1(4) by (simp add: buf_realloc_def)
    ultimately show ?thesis
      using realloc_grow [OF b1(2) g(1)] b1(3) by simp
  next
    case False
    then have "len \<le> fk_buf_free_len b1 \<or> highwat b < length (payload b) + len"
      using b1(3-6) length_payload [OF b1(2)]
      by (cases "fk_buf_free_len b1 < len") (auto simp: fk_buf_free_len_def fk_buf_payload_len_def)
    then show ?thesis
      using False b1 by (auto simp: fk_buf_alloc_def)
  qed
qed

subsection \<open>The contract: a bounded queue of bytes\<close>

locale byte_queue =
  fixes inv :: "'b \<Rightarrow> bool" and content :: "'b \<Rightarrow> string" and avail :: "'b \<Rightarrow> nat" and cap :: "'b \<Rightarrow> nat"
    and reserve :: "'b \<Rightarrow> nat \<Rightarrow> 'b option"
    and put :: "'b \<Rightarrow> string \<Rightarrow> 'b option" and consume :: "'b \<Rightarrow> nat \<Rightarrow> 'b"
  assumes reserve_ret: "inv b \<Longrightarrow> length (content b) + n < 1073741824 \<Longrightarrow>
      \<exists>b'. reserve b n = Some b' \<and> inv b' \<and> content b' = content b \<and> cap b' = cap b 
      \<and> (n \<le> avail b' \<or> cap b < length (content b) + n)"
    and put_ret: "inv b \<Longrightarrow> length bs \<le> avail b \<Longrightarrow>
      \<exists>b'. put b bs = Some b' \<and> inv b' \<and> content b' = content b @ bs \<and> cap b' = cap b"
    and consume_inv: "inv b \<Longrightarrow> inv (consume b n)"
    and consume_content: "inv b \<Longrightarrow> content (consume b n) = drop n (content b)"
begin

text \<open>Reserving room and writing: either the bytes are appended, or the queue is full and unchanged.\<close>

lemma emit_cases:
  assumes "inv b" and "length (content b) + length bs < 1073741824"
  obtains b1 b2 where "reserve b (length bs) = Some b1" "length bs \<le> avail b1" "put b1 bs = Some b2"
      "inv b2" "content b2 = content b @ bs" "cap b2 = cap b"
    | b1 where "reserve b (length bs) = Some b1" "avail b1 < length bs" "cap b < length (content b) + length bs" "inv b1"
      "content b1 = content b" "cap b1 = cap b"
proof -
  obtain b1 where b1: "reserve b (length bs) = Some b1" "inv b1" "content b1 = content b" "cap b1 = cap b"
    "length bs \<le> avail b1 \<or> cap b < length (content b) + length bs"
    using reserve_ret [OF assms] by blast
  show thesis
  proof (cases "length bs \<le> avail b1")
    case True
    then show thesis
      using put_ret [OF b1(2) True] b1 that(1) by auto
  next
    case False
    then show thesis
      using b1 that(2) by simp
  qed
qed

lemma consume_all: "inv b \<Longrightarrow> length (content b) \<le> n \<Longrightarrow> content (consume b n) = []"
  by (simp add: consume_content)

end

interpretation bufq: byte_queue buf_inv payload fk_buf_free_len highwat
  fk_buf_alloc buf_put fk_buf_low_inc
proof (unfold_locales, goal_cases)
  case (1 b n)
  then show ?case by (rule alloc_spec)
next
  case (2 b bs)
  then show ?case using put_spec by blast
next
  case (3 b n)
  then show ?case by (rule low_inc_spec)
next
  case (4 b n)
  then show ?case by (rule low_inc_spec)
qed

subsection \<open>The argument vector\<close>

record 'a fk_vtr =
  vinit_len :: nat
  vlen :: nat
  varray :: "'a option list"

definition fk_vtr_create :: "nat \<Rightarrow> 'a fk_vtr" where
  "fk_vtr_create n = \<lparr>vinit_len = n, vlen = n, varray = replicate n None\<rparr>"

definition fk_vtr_set :: "'a fk_vtr \<Rightarrow> nat \<Rightarrow> 'a option \<Rightarrow> 'a fk_vtr option" where
  "fk_vtr_set v i x = map_option (\<lambda>a. v\<lparr>varray := a\<rparr>) (upd_opt (varray v) i x)"

definition fk_vtr_get :: "'a fk_vtr \<Rightarrow> nat \<Rightarrow> 'a option option" where
  "fk_vtr_get v i = nth_opt (varray v) i"

definition fk_vtr_stretch :: "'a fk_vtr \<Rightarrow> nat \<Rightarrow> 'a fk_vtr" where
  "fk_vtr_stretch v n =
     (if n > vlen v then v\<lparr>varray := varray v @ replicate (n - vlen v) None, vlen := n\<rparr> else v)"

definition fk_vtr_shrink :: "'a fk_vtr \<Rightarrow> 'a fk_vtr" where
  "fk_vtr_shrink v =
     (if vlen v > vinit_len v then v\<lparr>varray := take (vinit_len v) (varray v), vlen := vinit_len v\<rparr> else v)"

definition vtr_inv :: "'a fk_vtr \<Rightarrow> bool" where
  "vtr_inv v \<longleftrightarrow> length (varray v) = vlen v \<and> vinit_len v \<le> vlen v"

lemma vtr_inv_ops [simp]:
  "vtr_inv (fk_vtr_create n)"
  "vtr_inv v \<Longrightarrow> vtr_inv (fk_vtr_stretch v n)"
  "vtr_inv v \<Longrightarrow> vtr_inv (fk_vtr_shrink v)"
  by (auto simp: vtr_inv_def fk_vtr_create_def fk_vtr_stretch_def fk_vtr_shrink_def)

lemma vtr_stretch_room: "n \<le> vlen (fk_vtr_stretch v n)"
  by (simp add: fk_vtr_stretch_def)

lemma vtr_stretch_nth:
  "vtr_inv v \<Longrightarrow> i < vlen (fk_vtr_stretch v n) \<Longrightarrow>
   varray (fk_vtr_stretch v n) ! i = (if i < vlen v then varray v ! i else None)"
  by (auto simp: fk_vtr_stretch_def vtr_inv_def nth_append)

end
