(* ===== verification/Fk_Str.thy ===== *)
theory Fk_Str
  imports Fk_Util
begin

text \<open>
  \<^verbatim>\<open>fk_str.c\<close>: the counted byte strings used for keys, values and command names. A \<^verbatim>\<open>fk_str_t\<close>
  is a \<^typ>\<open>string\<close> whose length is the field \<^verbatim>\<open>len\<close>; \<^verbatim>\<open>fk_str_create\<close> and \<^verbatim>\<open>fk_str_clone\<close> copy
  bytes and are the identity on values.
\<close>

unbundle bit_operations_syntax

definition fk_str_create :: "string \<Rightarrow> nat \<Rightarrow> string option" where
  "fk_str_create src len = mem_slice src 0 len"

definition fk_str_cmp :: "string \<Rightarrow> string \<Rightarrow> int" where
  "fk_str_cmp s1 s2 =
     (if length s1 \<noteq> length s2 then s32 (int (length s1) - int (length s2))
      else memcmp s1 s2)"

definition fk_str_is_positive :: "string \<Rightarrow> bool" where
  "fk_str_is_positive s = (if length s < 1 then False else fk_util_is_positive_seq s)"

definition fk_str_is_nonminus :: "string \<Rightarrow> bool" where
  "fk_str_is_nonminus s = (if length s < 1 then False else fk_util_is_nonminus_seq s)"

definition fk_str_is_digit :: "string \<Rightarrow> bool" where
  "fk_str_is_digit s = (if length s < 1 then False else fk_util_is_digit_seq s)"

definition char_upper :: "char \<Rightarrow> char" where
  "char_upper c = (if schar c \<ge> 97 \<and> schar c \<le> 122 then char_of (nat (schar c - 32)) else c)"

definition char_lower :: "char \<Rightarrow> char" where
  "char_lower c = (if schar c \<ge> 65 \<and> schar c \<le> 90 then char_of (nat (schar c + 32)) else c)"

definition fk_str_2upper :: "string \<Rightarrow> string" where
  "fk_str_2upper s = map char_upper s"

definition fk_str_2lower :: "string \<Rightarrow> string" where
  "fk_str_2lower s = map char_lower s"

fun str_hash_loop :: "32 word \<Rightarrow> string \<Rightarrow> 32 word" where
  "str_hash_loop hash [] = hash"
| "str_hash_loop hash (c # cs) =
     str_hash_loop ((push_bit 5 hash + hash) + word_of_int (schar c)) cs"

definition fk_str_hash :: "string \<Rightarrow> 32 word" where
  "fk_str_hash s = str_hash_loop 5381 s"

subsection \<open>Comparison\<close>

text \<open>The length difference is truncated to \<^verbatim>\<open>int\<close>; below two gigabytes \<open>0\<close> means equal. The
  request parser keeps every argument far below that (\<^verbatim>\<open>FK_ARG_HIGHWAT\<close>).\<close>

definition str_ok :: "string \<Rightarrow> bool" where
  "str_ok s \<longleftrightarrow> int (length s) < 2147483648"

lemma fk_str_cmp_eq_0_iff:
  assumes "str_ok a" and "str_ok b"
  shows "fk_str_cmp a b = 0 \<longleftrightarrow> a = b"
proof (cases "length a = length b")
  case True
  then show ?thesis by (simp add: fk_str_cmp_def memcmp_eq_0_iff)
next
  case False
  then have "s32 (int (length a) - int (length b)) \<noteq> 0"
    using assms by (subst s32_eq_0_iff) (auto simp: str_ok_def)
  with False show ?thesis by (auto simp: fk_str_cmp_def)
qed

subsection \<open>Case conversion and hash\<close>

lemma schar_upper:
  "schar (char_upper c) = (if 97 \<le> schar c \<and> schar c \<le> 122 then schar c - 32 else schar c)"
  by (auto simp: char_upper_def schar_char_of)

lemma char_upper_idem [simp]: "char_upper (char_upper c) = char_upper c"
  by (rule schar_inj [THEN iffD1]) (simp add: schar_upper)

lemma fk_str_2upper_idem [simp]: "fk_str_2upper (fk_str_2upper s) = fk_str_2upper s"
  by (simp add: fk_str_2upper_def)

lemma length_fk_str_2upper [simp]: "length (fk_str_2upper s) = length s"
  by (simp add: fk_str_2upper_def)

lemma str_hash_loop_append:
  "str_hash_loop h (xs @ ys) = str_hash_loop (str_hash_loop h xs) ys"
  by (induction xs arbitrary: h) auto

text \<open>The shift-and-add step is multiplication by 33 modulo \<open>2^32\<close>: djb2.\<close>

lemma fk_str_hash_snoc: "fk_str_hash (s @ [c]) = 33 * fk_str_hash s + word_of_int (schar c)"
proof -
  have "push_bit 5 h + h = 33 * h" for h :: "32 word"
    by (simp add: push_bit_eq_mult)
  then show ?thesis
    by (simp add: fk_str_hash_def str_hash_loop_append)
qed

end
