(* ===== verification/Fk_Dict.thy ===== *)
theory Fk_Dict
  imports Fk_Str
begin

text \<open>
  \<^verbatim>\<open>fk_dict.c\<close>: the hash table behind the databases, the nested hashes and the command table.
  A bucket pointer is an option (\<^verbatim>\<open>NULL\<close> is \<open>None\<close>) and a bucket the list of its elements in
  the order of the \<^verbatim>\<open>next\<close> pointers; an element pointer is a position in its bucket. The
  function pointers \<^verbatim>\<open>key_hash\<close> and \<^verbatim>\<open>key_cmp\<close> are the record \<open>fk_elt_op\<close>.
  The theory ends with the contract \<open>kv_store\<close> that the commands use and its interpretation.
\<close>

unbundle bit_operations_syntax

subsection \<open>State\<close>

record 'k fk_elt_op =
  key_hash :: "'k \<Rightarrow> 32 word"
  key_cmp :: "'k \<Rightarrow> 'k \<Rightarrow> int"

datatype ('k, 'v) fk_dict =
  Fk_dict (dsize: nat) (size_mask: nat) (used: nat) (limit: nat)
    (buckets: "('k \<times> 'v) list option list")

datatype dict_rc = DICT_OK | DICT_ERR

definition FK_DICT_INIT_SIZE :: nat where
  "FK_DICT_INIT_SIZE = 4"

definition fk_dict_init :: "('k, 'v) fk_dict \<Rightarrow> ('k, 'v) fk_dict" where
  "fk_dict_init d =
     (let sz = FK_DICT_INIT_SIZE
      in Fk_dict sz (sz - 1) 0 (sz div 2) (replicate FK_DICT_INIT_SIZE None))"

text \<open>The struct \<^verbatim>\<open>fk_dict_create\<close> allocates is overwritten field by field.\<close>

definition fk_dict_create :: "('k, 'v) fk_dict" where
  "fk_dict_create = fk_dict_init (Fk_dict 0 0 0 0 [])"

subsection \<open>Operations\<close>

definition bucket_list :: "'a list option \<Rightarrow> 'a list" where
  "bucket_list b = (case b of None \<Rightarrow> [] | Some l \<Rightarrow> l)"

text \<open>\<^verbatim>\<open>(size_t)hash & mask\<close>\<close>

definition bucket_idx :: "'k fk_elt_op \<Rightarrow> nat \<Rightarrow> 'k \<Rightarrow> nat" where
  "bucket_idx eop msk k = (unat (key_hash eop k) AND msk)"

fun elt_find :: "'k fk_elt_op \<Rightarrow> 'k \<Rightarrow> ('k \<times> 'v) list \<Rightarrow> nat option" where
  "elt_find eop k [] = None"
| "elt_find eop k (nd # nds) =
     (if key_cmp eop (fst nd) k = 0 then Some 0 else map_option Suc (elt_find eop k nds))"

definition fk_dict_search :: "'k fk_elt_op \<Rightarrow> ('k, 'v) fk_dict \<Rightarrow> 'k \<Rightarrow> (nat \<times> nat option) option" where
  "fk_dict_search eop d k =
     (let idx = bucket_idx eop (size_mask d) k
      in do { lst \<leftarrow> nth_opt (buckets d) idx;
              Some (idx, case lst of None \<Rightarrow> None | Some l \<Rightarrow> elt_find eop k l) })"

definition fk_dict_get :: "'k fk_elt_op \<Rightarrow> ('k, 'v) fk_dict \<Rightarrow> 'k \<Rightarrow> 'v option option" where
  "fk_dict_get eop d k =
     do { (idx, elt) \<leftarrow> fk_dict_search eop d k;
          case elt of
            None \<Rightarrow> Some None
          | Some p \<Rightarrow> do { lst \<leftarrow> nth_opt (buckets d) idx;
                           nd \<leftarrow> nth_opt (bucket_list lst) p;
                           Some (Some (snd nd)) } }"

text \<open>\<^verbatim>\<open>fk_dict_stretch\<close>: one element after the other moves to the head of its new bucket.\<close>

fun rehash_list ::
  "'k fk_elt_op \<Rightarrow> nat \<Rightarrow> ('k \<times> 'v) list \<Rightarrow> ('k \<times> 'v) list option list \<Rightarrow> ('k \<times> 'v) list option list option"
where
  "rehash_list eop msk [] bks = Some bks"
| "rehash_list eop msk (nd # nds) bks =
     do { b \<leftarrow> nth_opt bks (bucket_idx eop msk (fst nd));
          bks' \<leftarrow> upd_opt bks (bucket_idx eop msk (fst nd)) (Some (nd # bucket_list b));
          rehash_list eop msk nds bks' }"

fun rehash_buckets ::
  "'k fk_elt_op \<Rightarrow> nat \<Rightarrow> ('k \<times> 'v) list option list \<Rightarrow> ('k \<times> 'v) list option list
     \<Rightarrow> ('k \<times> 'v) list option list option"
where
  "rehash_buckets eop msk [] bks = Some bks"
| "rehash_buckets eop msk (b # bs) bks =
     do { bks' \<leftarrow> (case b of None \<Rightarrow> Some bks | Some l \<Rightarrow> rehash_list eop msk l bks);
          rehash_buckets eop msk bs bks' }"

definition fk_dict_stretch :: "'k fk_elt_op \<Rightarrow> ('k, 'v) fk_dict \<Rightarrow> ('k, 'v) fk_dict option" where
  "fk_dict_stretch eop d =
     (if used d < limit d then Some d
      else
        (let new_size = dsize d * 2
         in do { bks \<leftarrow> rehash_buckets eop (new_size - 1) (buckets d) (replicate new_size None);
                 Some (Fk_dict new_size (new_size - 1) (used d) (new_size div 2) bks) }))"

definition fk_dict_add ::
  "'k fk_elt_op \<Rightarrow> ('k, 'v) fk_dict \<Rightarrow> 'k \<Rightarrow> 'v \<Rightarrow> (dict_rc \<times> ('k, 'v) fk_dict) option" where
  "fk_dict_add eop d0 k v =
     do { d \<leftarrow> (if used d0 = limit d0 then fk_dict_stretch eop d0 else Some d0);
          (idx, elt) \<leftarrow> fk_dict_search eop d k;
          case elt of
            Some _ \<Rightarrow> Some (DICT_ERR, d)
          | None \<Rightarrow>
              do { lst \<leftarrow> nth_opt (buckets d) idx;
                   bks \<leftarrow> upd_opt (buckets d) idx (Some ((k, v) # bucket_list lst));
                   Some (DICT_OK,
                         Fk_dict (dsize d) (size_mask d) (used d + 1) (limit d) bks) } }"

text \<open>The value of an element that is found is changed in place; so does a client that mutates the
  object a value points to.\<close>

definition dict_poke :: "'k fk_elt_op \<Rightarrow> ('k, 'v) fk_dict \<Rightarrow> 'k \<Rightarrow> 'v \<Rightarrow> ('k, 'v) fk_dict option" where
  "dict_poke eop d k v =
     do { (idx, elt) \<leftarrow> fk_dict_search eop d k;
          p \<leftarrow> elt;
          lst \<leftarrow> nth_opt (buckets d) idx;
          nd \<leftarrow> nth_opt (bucket_list lst) p;
          bks \<leftarrow> upd_opt (buckets d) idx (Some ((bucket_list lst)[p := (fst nd, v)]));
          Some (Fk_dict (dsize d) (size_mask d) (used d) (limit d) bks) }"

text \<open>The result tells whether the key was there (\<open>1\<close> in the code).\<close>

definition fk_dict_replace ::
  "'k fk_elt_op \<Rightarrow> ('k, 'v) fk_dict \<Rightarrow> 'k \<Rightarrow> 'v \<Rightarrow> (bool \<times> ('k, 'v) fk_dict) option" where
  "fk_dict_replace eop d0 k v =
     do { (rt, d) \<leftarrow> fk_dict_add eop d0 k v;
          if rt = DICT_OK then Some (False, d)
          else do { d' \<leftarrow> dict_poke eop d k v; Some (True, d') } }"

definition fk_dict_remove ::
  "'k fk_elt_op \<Rightarrow> ('k, 'v) fk_dict \<Rightarrow> 'k \<Rightarrow> (dict_rc \<times> ('k, 'v) fk_dict) option" where
  "fk_dict_remove eop d k =
     do { (idx, elt) \<leftarrow> fk_dict_search eop d k;
          case elt of
            None \<Rightarrow> Some (DICT_ERR, d)
          | Some p \<Rightarrow>
              do { lst \<leftarrow> nth_opt (buckets d) idx;
                   let l = bucket_list lst;
                   bks \<leftarrow> upd_opt (buckets d) idx (Some (take p l @ drop (Suc p) l));
                   Some (DICT_OK, Fk_dict (dsize d) (size_mask d) (used d - 1) (limit d) bks) } }"

text \<open>\<^verbatim>\<open>fk_dict_clear\<close> releases every element and the bucket array (each removal decrements
  \<^verbatim>\<open>used\<close>), \<^verbatim>\<open>fk_dict_empty\<close> then initialises again.\<close>

fun clear_buckets :: "nat \<Rightarrow> 'a list option list \<Rightarrow> nat" where
  "clear_buckets u [] = u"
| "clear_buckets u (b # bs) = clear_buckets (u - length (bucket_list b)) bs"

definition fk_dict_clear :: "('k, 'v) fk_dict \<Rightarrow> ('k, 'v) fk_dict" where
  "fk_dict_clear d = Fk_dict (dsize d) (size_mask d) (clear_buckets (used d) (buckets d)) (limit d) []"

definition fk_dict_empty :: "('k, 'v) fk_dict \<Rightarrow> ('k, 'v) fk_dict" where
  "fk_dict_empty d = fk_dict_init (fk_dict_clear d)"

definition fk_dict_len :: "('k, 'v) fk_dict \<Rightarrow> nat" where
  "fk_dict_len d = used d"

subsection \<open>Iteration\<close>

text \<open>An element pointer of an iterator is the rest of the bucket from that element on; \<open>[]\<close> is
  \<^verbatim>\<open>NULL\<close>. The index is signed and starts at \<open>-1\<close>.\<close>

record ('k, 'v) fk_dict_iter =
  it_idx :: int
  it_cur :: "('k \<times> 'v) list"
  it_next :: "('k \<times> 'v) list"

definition fk_dict_iter_begin :: "('k, 'v) fk_dict_iter" where
  "fk_dict_iter_begin = \<lparr>it_idx = -1, it_cur = [], it_next = []\<rparr>"

function fk_dict_iter_next ::
  "('k, 'v) fk_dict \<Rightarrow> ('k, 'v) fk_dict_iter \<Rightarrow> (('k \<times> 'v) option \<times> ('k, 'v) fk_dict_iter) option" where
  "fk_dict_iter_next d it =
     (if it_cur it = [] then
        if it_idx it + 1 = int (dsize d) then Some (None, it\<lparr>it_idx := it_idx it + 1\<rparr>)
        else if it_idx it + 1 < 0 then None
        else (case nth_opt (buckets d) (nat (it_idx it + 1)) of
            None \<Rightarrow> None
          | Some elst \<Rightarrow>
              (case bucket_list elst of
                 [] \<Rightarrow> fk_dict_iter_next d (it\<lparr>it_idx := it_idx it + 1\<rparr>)
               | e # es \<Rightarrow> Some (Some e, \<lparr>it_idx = it_idx it + 1, it_cur = e # es, it_next = es\<rparr>)))
      else
        (case it_next it of
           [] \<Rightarrow> fk_dict_iter_next d (it\<lparr>it_cur := []\<rparr>)
         | e # es \<Rightarrow> Some (Some e, it\<lparr>it_cur := e # es, it_next := es\<rparr>)))"
  by pat_completeness auto
termination
  by (relation "measure (\<lambda>(d, it). 2 * nat (int (length (buckets d)) - it_idx it) + (if it_cur it = [] then 0 else 1))")
    (auto simp: nth_opt_def split: if_splits)

declare fk_dict_iter_next.simps [simp del]

text \<open>The elements the loop \<^verbatim>\<open>while ((elt = fk_dict_iter_next(iter)) != NULL)\<close> visits; \<open>fuel\<close>
  bounds the number of calls, one more than the number of elements is enough.\<close>

fun iter_collect :: "nat \<Rightarrow> ('k, 'v) fk_dict \<Rightarrow> ('k, 'v) fk_dict_iter \<Rightarrow> ('k \<times> 'v) list option" where
  "iter_collect 0 d it = None"
| "iter_collect (Suc n) d it =
     do { (r, it') \<leftarrow> fk_dict_iter_next d it;
          case r of None \<Rightarrow> Some [] | Some e \<Rightarrow> map_option (Cons e) (iter_collect n d it') }"

definition dict_iter_list :: "('k, 'v) fk_dict \<Rightarrow> ('k \<times> 'v) list option" where
  "dict_iter_list d = iter_collect (Suc (used d)) d fk_dict_iter_begin"

text \<open>\<^verbatim>\<open>fk_dict_random\<close>; \<open>r\<close> is what \<^verbatim>\<open>rand()\<close> returned. An empty dictionary divides by zero.
  Without an iteration \<^verbatim>\<open>elt\<close> would be uninitialised.\<close>

fun iter_nth :: "nat \<Rightarrow> ('k, 'v) fk_dict \<Rightarrow> ('k, 'v) fk_dict_iter \<Rightarrow> ('k \<times> 'v) option option" where
  "iter_nth 0 d it = None"
| "iter_nth (Suc n) d it =
     do { (r, it') \<leftarrow> fk_dict_iter_next d it;
          if n = 0 then Some r else iter_nth n d it' }"

definition fk_dict_random :: "nat \<Rightarrow> ('k, 'v) fk_dict \<Rightarrow> ('k \<times> 'v) option option" where
  "fk_dict_random r d =
     (if fk_dict_len d = 0 then None
      else iter_nth (nat (s32 (int (r mod fk_dict_len d + 1)))) d fk_dict_iter_begin)"

subsection \<open>Abstraction and invariant\<close>

definition elts_of :: "'a list option list \<Rightarrow> 'a list" where
  "elts_of bks = concat (map bucket_list bks)"

definition dict_elts :: "('k, 'v) fk_dict \<Rightarrow> ('k \<times> 'v) list" where
  "dict_elts d = elts_of (buckets d)"

definition dict_map :: "('k, 'v) fk_dict \<Rightarrow> ('k \<rightharpoonup> 'v)" where
  "dict_map d = map_of (dict_elts d)"

definition placed :: "'k fk_elt_op \<Rightarrow> nat \<Rightarrow> ('k \<times> 'v) list option list \<Rightarrow> bool" where
  "placed eop msk bks \<longleftrightarrow>
     (\<forall>i < length bks. \<forall>nd \<in> set (bucket_list (bks ! i)). bucket_idx eop msk (fst nd) = i)"

definition dict_inv :: "'k fk_elt_op \<Rightarrow> ('k \<Rightarrow> bool) \<Rightarrow> ('k, 'v) fk_dict \<Rightarrow> bool" where
  "dict_inv eop ok d \<longleftrightarrow>
     (\<exists>n. dsize d = 2 ^ n) \<and> size_mask d = dsize d - 1 \<and> limit d = dsize d div 2
     \<and> length (buckets d) = dsize d \<and> used d = length (dict_elts d) \<and> used d \<le> limit d
     \<and> placed eop (size_mask d) (buckets d)
     \<and> distinct (map fst (dict_elts d)) \<and> (\<forall>nd \<in> set (dict_elts d). ok (fst nd))"

lemma bucket_list_simps [simp]: "bucket_list None = []" "bucket_list (Some l) = l"
  by (simp_all add: bucket_list_def)

lemma elts_of_simps [simp]: "elts_of [] = []" "elts_of (b # bs) = bucket_list b @ elts_of bs"
  by (simp_all add: elts_of_def)

lemma elts_of_replicate_None [simp]: "elts_of (replicate n None) = []"
  by (induction n) auto

lemma in_elts_of: "x \<in> set (elts_of bks) \<longleftrightarrow> (\<exists>i < length bks. x \<in> set (bucket_list (bks ! i)))"
  by (auto simp: elts_of_def set_conv_nth [of bks])

lemma mset_elts_of_update:
  "i < length bks \<Longrightarrow>
   mset (elts_of (bks[i := b])) + mset (bucket_list (bks ! i)) = mset (elts_of bks) + mset (bucket_list b)"
proof (induction bks arbitrary: i)
  case (Cons c bks)
  then show ?case by (cases i) auto
qed simp

lemma bucket_idx_less: "bucket_idx eop (2 ^ n - 1) k < 2 ^ n"
proof -
  have "bucket_idx eop (2 ^ n - 1) k = take_bit n (unat (key_hash eop k))"
    unfolding bucket_idx_def mask_eq_exp_minus_1 [symmetric] take_bit_eq_mask ..
  then show ?thesis by simp
qed

lemma map_of_mset_cong:
  assumes "mset xs = mset ys" and "distinct (map fst xs)"
  shows "map_of xs = map_of ys"
proof -
  have "mset (map fst xs) = mset (map fst ys)"
    using assms(1) by simp
  then have "distinct (map fst ys)"
    using assms(2) mset_eq_imp_distinct_iff by blast
  then show ?thesis
    using assms mset_eq_setD [OF assms(1)] by (simp add: map_of_inject_set)
qed

lemma map_of_swap_value:
  assumes m: "add_mset (k, old) (mset xs) = add_mset (k, v) (mset ys)"
    and d: "distinct (map fst xs)" and kv: "(k, v) \<in> set xs"
  shows "map_of xs = (map_of ys)(k \<mapsto> v)"
proof -
  let ?r = "remove1 (k, v) xs"
  have xs: "mset xs = mset ((k, v) # ?r)"
    using kv by simp
  then have "add_mset (k, v) (add_mset (k, old) (mset ?r)) = add_mset (k, v) (mset ys)"
    using m by (metis add_mset_commute mset.simps(2))
  then have ys: "mset ((k, old) # ?r) = mset ys"
    by simp
  have "mset (map fst xs) = mset (map fst ((k, v) # ?r))"
    using xs by (metis mset_map)
  then have dr: "distinct (map fst ((k, old) # ?r))"
    using d mset_eq_imp_distinct_iff by fastforce
  then show ?thesis
    using map_of_mset_cong [OF xs d] map_of_mset_cong [OF ys dr, symmetric] by simp
qed

lemma mset_list_update_add:
  "i < length xs \<Longrightarrow> add_mset (xs ! i) (mset (xs[i := x])) = add_mset x (mset xs)"
proof (induction xs arbitrary: i)
  case (Cons y xs)
  then show ?case by (cases i) (auto simp: add_mset_commute)
qed simp

lemma mset_swap:
  assumes "(X :: 'a multiset) + A = Y + B" and "add_mset a B = add_mset b A"
  shows "add_mset a X = add_mset b Y"
proof -
  have "add_mset a X + A = Y + add_mset a B"
    using assms(1) by simp
  also have "\<dots> = add_mset b Y + A"
    using assms(2) by simp
  finally show ?thesis
    by (simp only: add_right_cancel)
qed

lemma placedD:
  "placed eop msk bks \<Longrightarrow> i < length bks \<Longrightarrow> nd \<in> set (bucket_list (bks ! i)) \<Longrightarrow>
   bucket_idx eop msk (fst nd) = i"
  by (simp add: placed_def)

lemma placed_update:
  assumes "placed eop msk bks" and "\<And>nd. nd \<in> set (bucket_list b) \<Longrightarrow> bucket_idx eop msk (fst nd) = i"
  shows "placed eop msk (bks[i := b])"
  unfolding placed_def
proof (intro allI impI ballI)
  fix j nd
  assume "j < length (bks[i := b])" and "nd \<in> set (bucket_list (bks[i := b] ! j))"
  then show "bucket_idx eop msk (fst nd) = j"
    using assms by (cases "j = i") (auto simp: placed_def)
qed

lemma placed_replicate [simp]: "placed eop msk (replicate n None)"
  by (auto simp: placed_def)

text \<open>A key present anywhere is present in its own bucket.\<close>

lemma placed_key_iff:
  assumes "placed eop msk bks" and "bucket_idx eop msk k < length bks"
  shows "(k, v) \<in> set (elts_of bks) \<longleftrightarrow> (k, v) \<in> set (bucket_list (bks ! bucket_idx eop msk k))"
  using assms placedD [OF assms(1)] unfolding in_elts_of by (metis fst_conv)

lemma rehash_list_spec:
  assumes "placed eop msk bks" and "\<And>k. bucket_idx eop msk k < length bks"
  shows "\<exists>bks'. rehash_list eop msk nds bks = Some bks' \<and> length bks' = length bks
     \<and> placed eop msk bks' \<and> mset (elts_of bks') = mset nds + mset (elts_of bks)"
  using assms
proof (induction nds arbitrary: bks)
  case (Cons nd nds)
  let ?i = "bucket_idx eop msk (fst nd)"
  let ?b = "Some (nd # bucket_list (bks ! ?i))"
  have i: "?i < length bks"
    using Cons.prems by blast
  have "placed eop msk (bks[?i := ?b])"
    using Cons.prems(1) i by (intro placed_update) (auto simp: placed_def)
  moreover have "bucket_idx eop msk k < length (bks[?i := ?b])" for k
    using Cons.prems(2) by simp
  ultimately obtain bks' where
    "rehash_list eop msk nds (bks[?i := ?b]) = Some bks'" "length bks' = length bks"
    "placed eop msk bks'" "mset (elts_of bks') = mset nds + mset (elts_of (bks[?i := ?b]))"
    using Cons.IH [of "bks[?i := ?b]"] by auto
  moreover have "mset (elts_of (bks[?i := ?b])) = add_mset nd (mset (elts_of bks))"
    using mset_elts_of_update [OF i, of ?b] by simp
  ultimately show ?case
    using i by (auto simp: cmem)
qed auto

lemma rehash_buckets_spec:
  assumes "placed eop msk bks" and "\<And>k. bucket_idx eop msk k < length bks"
  shows "\<exists>bks'. rehash_buckets eop msk bs bks = Some bks' \<and> length bks' = length bks
     \<and> placed eop msk bks' \<and> mset (elts_of bks') = mset (elts_of bs) + mset (elts_of bks)"
  using assms
proof (induction bs arbitrary: bks)
  case (Cons b bs)
  obtain bks1 where 1: "(case b of None \<Rightarrow> Some bks | Some l \<Rightarrow> rehash_list eop msk l bks) = Some bks1"
    "length bks1 = length bks" "placed eop msk bks1"
    "mset (elts_of bks1) = mset (bucket_list b) + mset (elts_of bks)"
    using rehash_list_spec [OF Cons.prems] Cons.prems(1) by (cases b) auto
  then obtain bks2 where "rehash_buckets eop msk bs bks1 = Some bks2" "length bks2 = length bks1"
    "placed eop msk bks2" "mset (elts_of bks2) = mset (elts_of bs) + mset (elts_of bks1)"
    using Cons.IH [of bks1] Cons.prems by auto
  with 1 show ?case by auto
qed auto

subsection \<open>Operations on a well-formed dictionary\<close>

lemma dict_inv_idx: "dict_inv eop ok d \<Longrightarrow> bucket_idx eop (size_mask d) k < length (buckets d)"
  using bucket_idx_less [of eop _ k] by (auto simp: dict_inv_def)

lemma dict_inv_bucket:
  assumes "dict_inv eop ok d" and "i < length (buckets d)" and "nd \<in> set (bucket_list (buckets d ! i))"
  shows "bucket_idx eop (size_mask d) (fst nd) = i \<and> ok (fst nd)"
proof -
  have "placed eop (size_mask d) (buckets d)" and "\<forall>nd \<in> set (dict_elts d). ok (fst nd)"
    using assms(1) unfolding dict_inv_def by blast+
  moreover have "nd \<in> set (dict_elts d)"
    using assms(2,3) by (auto simp: dict_elts_def in_elts_of)
  ultimately show ?thesis
    using placedD assms(2,3) by blast
qed

lemma dict_inv_create: "dict_inv eop ok fk_dict_create"
  by (auto simp: dict_inv_def fk_dict_create_def fk_dict_init_def Let_def FK_DICT_INIT_SIZE_def
      dict_elts_def intro: exI [of _ 2])

lemma dict_map_create [simp]: "dict_map fk_dict_create = Map.empty"
  by (simp add: dict_map_def dict_elts_def fk_dict_create_def fk_dict_init_def Let_def)

lemma used_create [simp]: "used fk_dict_create = 0"
  by (simp add: fk_dict_create_def fk_dict_init_def Let_def)

lemma fk_dict_empty_eq: "fk_dict_empty d = fk_dict_create"
  by (simp add: fk_dict_empty_def fk_dict_create_def fk_dict_init_def)

text \<open>Replacing the bucket of one key by a list that differs from it as stated keeps the
  invariant. The three ways the operations use it: one element more, one less, one changed.\<close>

lemma dict_inv_set_bucket:
  assumes inv: "dict_inv eop ok d" and i: "i = bucket_idx eop (size_mask d) k"
    and keys: "\<And>nd. nd \<in> set l \<Longrightarrow> bucket_idx eop (size_mask d) (fst nd) = i \<and> ok (fst nd)"
    and dist: "distinct (map fst (elts_of ((buckets d)[i := Some l])))"
    and u: "u = length (elts_of ((buckets d)[i := Some l]))" "u \<le> limit d"
  shows "dict_inv eop ok (Fk_dict (dsize d) (size_mask d) u (limit d) ((buckets d)[i := Some l]))"
proof -
  have "placed eop (size_mask d) ((buckets d)[i := Some l])"
    using inv keys by (intro placed_update) (auto simp: dict_inv_def)
  moreover have "ok (fst nd)" if nd: "nd \<in> set (elts_of ((buckets d)[i := Some l]))" for nd
  proof -
    obtain j where j: "j < length (buckets d)" "nd \<in> set (bucket_list ((buckets d)[i := Some l] ! j))"
      using nd by (auto simp: in_elts_of)
    then have "nd \<in> set l \<or> nd \<in> set (dict_elts d)"
      by (cases "j = i") (auto simp: in_elts_of dict_elts_def)
    then show ?thesis
      using keys inv unfolding dict_inv_def by blast
  qed
  ultimately show ?thesis
    using inv dist u by (simp add: dict_inv_def dict_elts_def)
qed

lemma dict_elts_set_bucket:
  assumes "i < length (buckets d)"
  shows "mset (elts_of ((buckets d)[i := Some l])) + mset (bucket_list (buckets d ! i))
    = mset (dict_elts d) + mset l"
  using mset_elts_of_update [OF assms, of "Some l"] by (simp add: dict_elts_def)

locale dict_keys =
  fixes eop :: "'k fk_elt_op" and ok :: "'k \<Rightarrow> bool"
  assumes cmp_iff: "ok a \<Longrightarrow> ok b \<Longrightarrow> key_cmp eop a b = 0 \<longleftrightarrow> a = b"
begin

lemma elt_find_None:
  "ok k \<Longrightarrow> (\<And>nd. nd \<in> set l \<Longrightarrow> ok (fst nd)) \<Longrightarrow> elt_find eop k l = None \<longleftrightarrow> k \<notin> fst ` set l"
  by (induction l) (auto simp: cmp_iff)

lemma elt_find_Some:
  "ok k \<Longrightarrow> (\<And>nd. nd \<in> set l \<Longrightarrow> ok (fst nd)) \<Longrightarrow> elt_find eop k l = Some p \<Longrightarrow>
   p < length l \<and> fst (l ! p) = k"
proof (induction l arbitrary: p)
  case (Cons nd l)
  then show ?case by (cases p) (auto simp: cmp_iff split: if_splits)
qed simp

lemma search_cases:
  assumes inv: "dict_inv eop ok d" and "ok k"
  defines "i \<equiv> bucket_idx eop (size_mask d) k"
  defines "l \<equiv> bucket_list (buckets d ! i)"
  obtains (absent) "fk_dict_search eop d k = Some (i, None)" "dict_map d k = None"
      "k \<notin> fst ` set (dict_elts d)" "i < length (buckets d)"
    | (present) p where "fk_dict_search eop d k = Some (i, Some p)" "p < length l" "fst (l ! p) = k"
      "dict_map d k = Some (snd (l ! p))" "i < length (buckets d)"
proof -
  have i: "i < length (buckets d)"
    using dict_inv_idx [OF inv] by (simp add: i_def)
  have pl: "placed eop (size_mask d) (buckets d)"
    using inv unfolding dict_inv_def by blast
  have ok: "ok (fst nd)" if "nd \<in> set l" for nd
    using that inv i by (auto simp: dict_inv_def dict_elts_def in_elts_of l_def)
  have s: "fk_dict_search eop d k = Some (i, elt_find eop k l)"
    using i by (cases "buckets d ! i") (simp_all add: fk_dict_search_def cmem l_def flip: i_def)
  have mem: "(k, v) \<in> set (dict_elts d) \<longleftrightarrow> (k, v) \<in> set l" for v
    using placed_key_iff [OF pl, of k v] i by (simp add: dict_elts_def l_def i_def)
  show thesis
  proof (cases "elt_find eop k l")
    case None
    then have "k \<notin> fst ` set l"
      using elt_find_None [OF \<open>ok k\<close> ok] by simp
    then have "k \<notin> fst ` set (dict_elts d)"
      using mem by force
    then show thesis
      using absent s None i by (simp add: dict_map_def map_of_eq_None_iff)
  next
    case (Some p)
    then have p: "p < length l" "fst (l ! p) = k"
      using elt_find_Some [OF \<open>ok k\<close> ok Some] by auto
    then have "(k, snd (l ! p)) \<in> set l"
      by (metis nth_mem prod.collapse)
    then have "dict_map d k = Some (snd (l ! p))"
      using inv mem by (simp add: dict_map_def dict_inv_def)
    then show thesis
      using present s Some p i by simp
  qed
qed

lemma get_spec:
  assumes "dict_inv eop ok d" and "ok k"
  shows "fk_dict_get eop d k = Some (dict_map d k)"
  using assms
proof (cases rule: search_cases)
  case absent
  then show ?thesis by (simp add: fk_dict_get_def)
next
  case (present p)
  then show ?thesis by (simp add: fk_dict_get_def cmem)
qed

lemma stretch_spec:
  assumes inv: "dict_inv eop ok d" and full: "used d = limit d"
  shows "\<exists>d'. fk_dict_stretch eop d = Some d' \<and> dict_inv eop ok d' \<and> dict_map d' = dict_map d
    \<and> used d' = used d \<and> used d' < limit d'"
proof -
  let ?n = "dsize d * 2"
  obtain n where n: "dsize d = 2 ^ n"
    using inv by (auto simp: dict_inv_def)
  have idx: "bucket_idx eop (?n - 1) k < length (replicate ?n None)" for k
    using bucket_idx_less [of eop "Suc n" k] n by (simp add: mult.commute)
  obtain bks where bks: "rehash_buckets eop (?n - 1) (buckets d) (replicate ?n None) = Some bks"
    "length bks = ?n" "placed eop (?n - 1) bks" "mset (elts_of bks) = mset (dict_elts d)"
    using rehash_buckets_spec [OF placed_replicate idx, of "buckets d"]
    by (auto simp: dict_elts_def)
  let ?d = "Fk_dict ?n (?n - 1) (used d) (?n div 2) bks"
  have elts: "mset (dict_elts ?d) = mset (dict_elts d)"
    using bks by (simp add: dict_elts_def)
  then have "mset (map fst (dict_elts ?d)) = mset (map fst (dict_elts d))"
    by simp
  then have dist: "distinct (map fst (dict_elts ?d))"
    using inv by (metis dict_inv_def mset_eq_imp_distinct_iff)
  have len: "length (dict_elts ?d) = length (dict_elts d)" and set: "set (dict_elts ?d) = set (dict_elts d)"
    using elts by (metis size_mset, metis set_mset_mset)
  have "used d \<le> 2 ^ n div 2"
    using inv n by (simp add: dict_inv_def)
  moreover have "(2::nat) ^ n div 2 < 2 ^ n"
    by simp
  ultimately have "used d < 2 ^ n"
    by (rule le_less_trans)
  then have "used d < ?n div 2"
    using n by simp
  moreover have "\<exists>m. ?n = 2 ^ m"
    using n by (intro exI [of _ "Suc n"]) simp
  ultimately have "dict_inv eop ok ?d"
    using inv bks dist len set by (auto simp: dict_inv_def)
  moreover have "dict_map ?d = dict_map d"
    using map_of_mset_cong [OF elts dist] by (simp add: dict_map_def)
  ultimately show ?thesis
    using bks full \<open>used d < ?n div 2\<close> by (simp add: fk_dict_stretch_def Let_def)
qed

lemma add_spec:
  assumes inv: "dict_inv eop ok d" and k: "ok k"
  shows "\<exists>d'. fk_dict_add eop d k v = Some (if dict_map d k = None then DICT_OK else DICT_ERR, d')
    \<and> dict_inv eop ok d'
    \<and> dict_map d' = (if dict_map d k = None then (dict_map d)(k \<mapsto> v) else dict_map d)
    \<and> used d' = (if dict_map d k = None then used d + 1 else used d)"
proof -
  obtain d1 where d1: "(if used d = limit d then fk_dict_stretch eop d else Some d) = Some d1"
    "dict_inv eop ok d1" "dict_map d1 = dict_map d" "used d1 = used d" "used d1 < limit d1"
  proof (cases "used d = limit d")
    case False
    then have "used d < limit d"
      using inv by (simp add: dict_inv_def)
    with False inv that show thesis by simp
  qed (use stretch_spec [OF inv] that in auto)
  let ?i = "bucket_idx eop (size_mask d1) k"
  let ?l = "(k, v) # bucket_list (buckets d1 ! ?i)"
  let ?d = "Fk_dict (dsize d1) (size_mask d1) (used d1 + 1) (limit d1) ((buckets d1)[?i := Some ?l])"
  show ?thesis
    using d1(2) k
  proof (cases rule: search_cases)
    case absent
    have m: "mset (dict_elts ?d) = add_mset (k, v) (mset (dict_elts d1))"
      using dict_elts_set_bucket [OF absent(4), of ?l] by (simp add: dict_elts_def)
    then have "mset (map fst (dict_elts ?d)) = mset (map fst ((k, v) # dict_elts d1))"
      by simp
    moreover have dist1: "distinct (map fst ((k, v) # dict_elts d1))"
      using absent(3) d1(2) by (auto simp: dict_inv_def)
    ultimately have dist: "distinct (map fst (dict_elts ?d))"
      using mset_eq_imp_distinct_iff by blast
    have "length (dict_elts ?d) = used d1 + 1"
      using arg_cong [OF m, of size] d1(2) by (simp add: dict_inv_def)
    moreover have "bucket_idx eop (size_mask d1) (fst nd) = ?i \<and> ok (fst nd)" if "nd \<in> set ?l" for nd
      using that k d1(2) absent(4) by (auto simp: dict_inv_def placed_def dict_elts_def in_elts_of)
    ultimately have "dict_inv eop ok ?d"
      using dist d1(5) by (intro dict_inv_set_bucket [OF d1(2) refl]) (auto simp: dict_elts_def)
    moreover have "dict_map ?d = (dict_map d1)(k \<mapsto> v)"
      using map_of_mset_cong [of "dict_elts ?d" "(k, v) # dict_elts d1"] m dist
      by (simp add: dict_map_def)
    ultimately show ?thesis
      using absent d1 by (auto simp: fk_dict_add_def cmem)
  next
    case (present p)
    then show ?thesis
      using d1 by (auto simp: fk_dict_add_def)
  qed
qed

lemma remove_spec:
  assumes inv: "dict_inv eop ok d" and k: "ok k"
  shows "\<exists>d'. fk_dict_remove eop d k = Some (if dict_map d k = None then DICT_ERR else DICT_OK, d')
    \<and> dict_inv eop ok d' \<and> dict_map d' = (dict_map d)(k := None)
    \<and> used d' = (if dict_map d k = None then used d else used d - 1)"
  using inv k
proof (cases rule: search_cases)
  case absent
  then show ?thesis
    using inv by (auto simp: fk_dict_remove_def)
next
  case (present p)
  let ?i = "bucket_idx eop (size_mask d) k"
  let ?l = "bucket_list (buckets d ! ?i)"
  let ?l' = "take p ?l @ drop (Suc p) ?l"
  let ?d = "Fk_dict (dsize d) (size_mask d) (used d - 1) (limit d) ((buckets d)[?i := Some ?l'])"
  have l: "?l = take p ?l @ (k, snd (?l ! p)) # drop (Suc p) ?l"
    using id_take_nth_drop [OF present(2)] present(3) by (metis prod.collapse)
  have "mset ?l = add_mset (k, snd (?l ! p)) (mset ?l')"
    by (subst l) simp
  then have m: "mset (dict_elts d) = add_mset (k, snd (?l ! p)) (mset (dict_elts ?d))"
    using dict_elts_set_bucket [OF present(5), of ?l'] by (simp add: dict_elts_def)
  then have "mset (map fst (dict_elts d)) = mset (map fst ((k, snd (?l ! p)) # dict_elts ?d))"
    by simp
  moreover have "distinct (map fst (dict_elts d))"
    using inv by (simp add: dict_inv_def)
  ultimately have dist: "distinct (map fst ((k, snd (?l ! p)) # dict_elts ?d))"
    using mset_eq_imp_distinct_iff by blast
  have u: "used d = length (dict_elts d)" and lim: "used d \<le> limit d"
    using inv unfolding dict_inv_def by blast+
  have len: "length (dict_elts ?d) = used d - 1"
    using arg_cong [OF m, of size] u by simp
  moreover have "bucket_idx eop (size_mask d) (fst nd) = ?i \<and> ok (fst nd)" if "nd \<in> set ?l'" for nd
  proof -
    have "nd \<in> set ?l"
      using that by (auto dest: in_set_takeD in_set_dropD)
    then show ?thesis
      using dict_inv_bucket [OF inv present(5)] by simp
  qed
  moreover have "used d - 1 \<le> limit d"
    using lim by simp
  ultimately have "dict_inv eop ok ?d"
    using dist by (intro dict_inv_set_bucket [OF inv refl]) (auto simp: dict_elts_def)
  moreover have "dict_map d = (dict_map ?d)(k \<mapsto> snd (?l ! p))"
    using map_of_mset_cong [of "(k, snd (?l ! p)) # dict_elts ?d" "dict_elts d"] m dist
    by (simp add: dict_map_def)
  moreover have "dict_map ?d k = None"
    using dist by (simp add: dict_map_def map_of_eq_None_iff)
  ultimately show ?thesis
    using present by (auto simp: fk_dict_remove_def cmem Let_def fun_upd_idem)
qed

lemma poke_spec:
  assumes inv: "dict_inv eop ok d" and k: "ok k" and old: "dict_map d k \<noteq> None"
  shows "\<exists>d'. dict_poke eop d k v = Some d' \<and> dict_inv eop ok d' \<and> dict_map d' = (dict_map d)(k \<mapsto> v)
    \<and> used d' = used d"
  using inv k
proof (cases rule: search_cases)
  case absent
  then show ?thesis
    using old by simp
next
  case (present p)
  let ?i = "bucket_idx eop (size_mask d) k"
  let ?l = "bucket_list (buckets d ! ?i)"
  let ?l' = "?l[p := (k, v)]"
  let ?d = "Fk_dict (dsize d) (size_mask d) (used d) (limit d) ((buckets d)[?i := Some ?l'])"
  let ?old = "snd (?l ! p)"
  have at_p: "?l ! p = (k, ?old)"
    using present(3) by (metis prod.collapse)
  then have m: "add_mset (k, ?old) (mset (dict_elts ?d)) = add_mset (k, v) (mset (dict_elts d))"
    using mset_swap [OF dict_elts_set_bucket [OF present(5), of ?l']]
      mset_list_update_add [OF present(2), of "(k, v)"]
    by (metis dict_elts_def fk_dict.sel(5))
  have "mset (map fst (dict_elts ?d)) = mset (map fst (dict_elts d))"
    using arg_cong [OF m, of "image_mset fst"] by simp
  then have dist: "distinct (map fst (dict_elts ?d))"
    using inv by (metis dict_inv_def mset_eq_imp_distinct_iff)
  have u: "used d = length (dict_elts d)" "used d \<le> limit d"
    using inv unfolding dict_inv_def by blast+
  have len: "length (dict_elts ?d) = used d"
    using arg_cong [OF m, of size] u by simp
  have "bucket_idx eop (size_mask d) (fst nd) = ?i \<and> ok (fst nd)" if nd: "nd \<in> set ?l'" for nd
  proof -
    have "nd = (k, v) \<or> nd \<in> set ?l"
      using nd set_update_subset_insert [of ?l p "(k, v)"] by blast
    then show ?thesis
      using dict_inv_bucket [OF inv present(5), of nd] k by auto
  qed
  then have inv': "dict_inv eop ok ?d"
    using dist len u by (intro dict_inv_set_bucket [OF inv refl]) (auto simp: dict_elts_def)
  have "(k, v) \<in> set ?l'"
    using present(2) by (metis length_list_update nth_list_update_eq nth_mem)
  then have kv: "(k, v) \<in> set (dict_elts ?d)"
    using present(5) unfolding dict_elts_def in_elts_of by (intro exI [of _ ?i]) simp
  have "dict_map ?d = (dict_map d)(k \<mapsto> v)"
    using map_of_swap_value [OF m dist] kv by (simp add: dict_map_def)
  then show ?thesis
    using inv' present by (auto simp: dict_poke_def cmem)
qed

lemma replace_spec:
  assumes inv: "dict_inv eop ok d" and k: "ok k"
  shows "\<exists>d'. fk_dict_replace eop d k v = Some (dict_map d k \<noteq> None, d') \<and> dict_inv eop ok d'
    \<and> dict_map d' = (dict_map d)(k \<mapsto> v)
    \<and> used d' = (if dict_map d k = None then used d + 1 else used d)"
proof -
  obtain d1 where d1: "fk_dict_add eop d k v = Some (if dict_map d k = None then DICT_OK else DICT_ERR, d1)"
    "dict_inv eop ok d1"
    "dict_map d1 = (if dict_map d k = None then (dict_map d)(k \<mapsto> v) else dict_map d)"
    "used d1 = (if dict_map d k = None then used d + 1 else used d)"
    using add_spec [OF inv k] by blast
  show ?thesis
  proof (cases "dict_map d k = None")
    case True
    then show ?thesis
      using d1 by (auto simp: fk_dict_replace_def)
  next
    case False
    then show ?thesis
      using d1 poke_spec [OF d1(2) k, of v] by (auto simp: fk_dict_replace_def)
  qed
qed

end

text \<open>What an iterator has still to visit.\<close>

definition iter_rest :: "('k, 'v) fk_dict \<Rightarrow> ('k, 'v) fk_dict_iter \<Rightarrow> ('k \<times> 'v) list" where
  "iter_rest d it =
     (if it_cur it = [] then [] else it_next it) @ elts_of (drop (nat (it_idx it + 1)) (buckets d))"

lemma iter_next_spec:
  assumes "dsize d = length (buckets d)" and "- 1 \<le> it_idx it" and "it_idx it < int (length (buckets d))"
  shows "\<exists>it'. fk_dict_iter_next d it = Some (case iter_rest d it of [] \<Rightarrow> None | e # es \<Rightarrow> Some e, it')
    \<and> (iter_rest d it \<noteq> [] \<longrightarrow> iter_rest d it' = tl (iter_rest d it)
        \<and> - 1 \<le> it_idx it' \<and> it_idx it' < int (length (buckets d)))"
  using assms
proof (induction d it rule: fk_dict_iter_next.induct)
  case (1 d it)
  let ?i = "nat (it_idx it + 1)"
  show ?case
  proof (cases "it_cur it = []")
    case cur: False
    show ?thesis
    proof (cases "it_next it")
      case Nil
      let ?it = "it\<lparr>it_cur := []\<rparr>"
      have "fk_dict_iter_next d it = fk_dict_iter_next d ?it"
        using cur Nil by (subst fk_dict_iter_next.simps) simp
      moreover have "iter_rest d it = iter_rest d ?it"
        using cur Nil by (simp add: iter_rest_def)
      ultimately show ?thesis
        using 1(2) [OF cur Nil] 1(3-) by simp
    next
      case (Cons e es)
      then show ?thesis
        using cur 1(4,5) by (subst fk_dict_iter_next.simps) (simp add: iter_rest_def)
    qed
  next
    case cur: True
    show ?thesis
    proof (cases "?i < length (buckets d)")
      case False
      then have "it_idx it + 1 = int (dsize d)"
        using 1(3-) by auto
      then show ?thesis
        using cur False by (subst fk_dict_iter_next.simps) (simp add: iter_rest_def)
    next
      case True
      then have neq: "it_idx it + 1 \<noteq> int (dsize d)" "\<not> it_idx it + 1 < 0"
        using 1(3-) by auto
      have d: "drop ?i (buckets d) = buckets d ! ?i # drop (Suc ?i) (buckets d)"
        using True by (simp add: Cons_nth_drop_Suc)
      have s: "nat (it_idx it + 2) = Suc ?i"
        using neq by linarith
      show ?thesis
      proof (cases "bucket_list (buckets d ! ?i)")
        case Nil
        let ?it = "it\<lparr>it_idx := it_idx it + 1\<rparr>"
        have "fk_dict_iter_next d it = fk_dict_iter_next d ?it"
          using cur neq True Nil by (subst fk_dict_iter_next.simps) (simp add: cmem)
        moreover have "iter_rest d it = iter_rest d ?it"
          using cur Nil d s by (simp add: iter_rest_def add.commute)
        ultimately show ?thesis
          using 1(1) [OF cur neq nth_opt_in_range [OF True] Nil] 1(3-) neq True by simp
      next
        case (Cons e es)
        let ?it = "\<lparr>it_idx = it_idx it + 1, it_cur = e # es, it_next = es\<rparr>"
        have "fk_dict_iter_next d it = Some (Some e, ?it)"
          using cur neq True Cons by (subst fk_dict_iter_next.simps) (simp add: cmem)
        moreover have "iter_rest d it = e # iter_rest d ?it"
          using cur Cons d s by (simp add: iter_rest_def add.commute)
        ultimately show ?thesis
          using neq True by simp
      qed
    qed
  qed
qed

lemma iter_collect_spec:
  assumes "dsize d = length (buckets d)" and "- 1 \<le> it_idx it" and "it_idx it < int (length (buckets d))"
    and "length (iter_rest d it) < n"
  shows "iter_collect n d it = Some (iter_rest d it)"
  using assms(2-)
proof (induction n arbitrary: it)
  case (Suc n)
  then show ?case
    using iter_next_spec [OF assms(1) Suc.prems(1,2)] by (cases "iter_rest d it") auto
qed simp

lemma iter_nth_spec:
  assumes "dsize d = length (buckets d)" and "- 1 \<le> it_idx it" and "it_idx it < int (length (buckets d))"
    and "n < length (iter_rest d it)"
  shows "iter_nth (Suc n) d it = Some (Some (iter_rest d it ! n))"
  using assms(2-)
proof (induction n arbitrary: it)
  case (Suc n)
  then show ?case
    using iter_next_spec [OF assms(1) Suc.prems(1,2)] by (cases "iter_rest d it") auto
next
  case 0
  then show ?case
    using iter_next_spec [OF assms(1) 0(1,2)] by (cases "iter_rest d it") auto
qed

lemma iter_begin_rest:
  "dict_inv eop ok d \<Longrightarrow> dsize d = length (buckets d) \<and> used d = length (dict_elts d)
     \<and> 0 < length (buckets d) \<and> iter_rest d fk_dict_iter_begin = dict_elts d"
  by (auto simp: dict_inv_def iter_rest_def fk_dict_iter_begin_def dict_elts_def)

lemma dict_iter_list_eq: "dict_inv eop ok d \<Longrightarrow> dict_iter_list d = Some (dict_elts d)"
  using iter_begin_rest [of eop ok d] iter_collect_spec [of d fk_dict_iter_begin "Suc (used d)"]
  by (simp add: dict_iter_list_def) (simp add: fk_dict_iter_begin_def)

lemma fk_dict_random_eq:
  assumes inv: "dict_inv eop ok d" and "0 < used d" and small: "used d < 2147483648"
  shows "fk_dict_random r d = Some (Some (dict_elts d ! (r mod used d)))"
proof -
  have "r mod used d < used d"
    using assms by simp
  then have "nat (s32 (int (r mod used d + 1))) = Suc (r mod used d)"
    using small by (simp add: s32_id)
  moreover have "iter_nth (Suc (r mod used d)) d fk_dict_iter_begin = Some (Some (dict_elts d ! (r mod used d)))"
    using iter_begin_rest [OF inv] \<open>r mod used d < used d\<close>
      iter_nth_spec [of d fk_dict_iter_begin "r mod used d"]
    by (simp add: fk_dict_iter_begin_def)
  ultimately show ?thesis
    using assms(2) by (simp add: fk_dict_random_def fk_dict_len_def)
qed

subsection \<open>The contract of a key-value store\<close>

text \<open>What the clients of a dictionary rely on. Every operation returns on a well-formed store;
  what it returns is determined by the abstract map.\<close>

locale kv_store =
  fixes inv :: "'s \<Rightarrow> bool" and ok :: "'k \<Rightarrow> bool" and absm :: "'s \<Rightarrow> 'k \<rightharpoonup> 'v" and cnt :: "'s \<Rightarrow> nat"
    and empty :: 's and get :: "'s \<Rightarrow> 'k \<Rightarrow> 'v option option"
    and add :: "'s \<Rightarrow> 'k \<Rightarrow> 'v \<Rightarrow> (dict_rc \<times> 's) option"
    and replace :: "'s \<Rightarrow> 'k \<Rightarrow> 'v \<Rightarrow> (bool \<times> 's) option"
    and remove :: "'s \<Rightarrow> 'k \<Rightarrow> (dict_rc \<times> 's) option"
    and elts :: "'s \<Rightarrow> ('k \<times> 'v) list option"
  assumes inv_empty: "inv empty" and absm_empty: "absm empty = Map.empty"
    and get_ret: "inv s \<Longrightarrow> ok k \<Longrightarrow> get s k = Some (absm s k)"
    and add_ret: "inv s \<Longrightarrow> ok k \<Longrightarrow> \<exists>s'. add s k v = Some (if absm s k = None then DICT_OK else DICT_ERR, s')
      \<and> inv s' \<and> absm s' = (if absm s k = None then (absm s)(k \<mapsto> v) else absm s)"
    and replace_ret: "inv s \<Longrightarrow> ok k \<Longrightarrow> \<exists>s'. replace s k v = Some (absm s k \<noteq> None, s')
      \<and> inv s' \<and> absm s' = (absm s)(k \<mapsto> v)"
    and remove_ret: "inv s \<Longrightarrow> ok k \<Longrightarrow> \<exists>s'. remove s k = Some (if absm s k = None then DICT_ERR else DICT_OK, s')
      \<and> inv s' \<and> absm s' = (absm s)(k := None)"
    and elts_ret: "inv s \<Longrightarrow> \<exists>l. elts s = Some l \<and> absm s = map_of l \<and> distinct (map fst l)
      \<and> (\<forall>k \<in> fst ` set l. ok k) \<and> cnt s = length l"
begin

lemma cnt_card: "inv s \<Longrightarrow> cnt s = card (dom (absm s))"
  using elts_ret [of s] by (metis distinct_card dom_map_of_conv_image_fst length_map set_map)

lemma keys_ok: "inv s \<Longrightarrow> absm s k = Some v \<Longrightarrow> ok k"
  using elts_ret [of s] by (metis map_of_SomeD image_eqI fst_conv)

lemma finite_absm: "inv s \<Longrightarrow> finite (dom (absm s))"
  using elts_ret [of s] by (metis finite_dom_map_of)

text \<open>Inserting the entries of a list one by one, as the loaders do, builds their map.\<close>

lemma foldl_add_ret:
  assumes "inv s" and "distinct (map fst kvs)" and "\<And>k. k \<in> fst ` set kvs \<Longrightarrow> ok k \<and> absm s k = None"
  shows "\<exists>s'. foldl (\<lambda>r (k, v). do { s \<leftarrow> r; (rc, s') \<leftarrow> add s k v; Some s' }) (Some s) kvs = Some s'
    \<and> inv s' \<and> absm s' = absm s ++ map_of kvs"
  using assms
proof (induction kvs arbitrary: s)
  case (Cons kv kvs)
  obtain k v where kv: "kv = (k, v)" by fastforce
  then obtain s1 where s1: "add s k v = Some (DICT_OK, s1)" "inv s1" "absm s1 = (absm s)(k \<mapsto> v)"
    using add_ret [OF Cons.prems(1), of k v] Cons.prems(3) by auto
  have "\<And>j. j \<in> fst ` set kvs \<Longrightarrow> ok j \<and> absm s1 j = None"
    using Cons.prems kv s1(3) by auto
  then obtain s2 where "foldl (\<lambda>r (k, v). do { s \<leftarrow> r; (rc, s') \<leftarrow> add s k v; Some s' }) (Some s1) kvs = Some s2"
    "inv s2" "absm s2 = absm s1 ++ map_of kvs"
    using Cons.IH [OF s1(2)] Cons.prems(2) by auto
  moreover have "k \<notin> dom (map_of kvs)"
    using Cons.prems(2) kv by (simp add: dom_map_of_conv_image_fst)
  then have "absm s1 ++ map_of kvs = absm s ++ map_of (kv # kvs)"
    by (simp add: s1(3) kv map_add_upd_left)
  moreover have "foldl (\<lambda>r (k, v). do { s \<leftarrow> r; (rc, s') \<leftarrow> add s k v; Some s' }) (Some s) (kv # kvs)
    = foldl (\<lambda>r (k, v). do { s \<leftarrow> r; (rc, s') \<leftarrow> add s k v; Some s' }) (Some s1) kvs"
    by (simp add: kv s1(1))
  ultimately show ?case
    by (simp only:) blast
qed simp

end

sublocale dict_keys \<subseteq> store: kv_store "dict_inv eop ok" ok dict_map used fk_dict_create
  "fk_dict_get eop" "fk_dict_add eop" "fk_dict_replace eop" "fk_dict_remove eop" dict_iter_list
proof (unfold_locales, goal_cases)
  case 1
  show ?case by (rule dict_inv_create)
next
  case 2
  show ?case by simp
next
  case (3 d k)
  then show ?case by (rule get_spec)
next
  case (4 d k v)
  then show ?case using add_spec [OF 4, of v]
    by (elim exE conjE) (intro exI conjI; assumption)
next
  case (5 d k v)
  then show ?case using replace_spec [OF 5, of v]
    by (elim exE conjE) (intro exI conjI; assumption)
next
  case (6 d k)
  then show ?case using remove_spec [OF 6]
    by (elim exE conjE) (intro exI conjI; assumption)
next
  case (7 d)
  then have "used d = length (dict_elts d)" "distinct (map fst (dict_elts d))"
    "\<forall>nd \<in> set (dict_elts d). ok (fst nd)"
    unfolding dict_inv_def by blast+
  then show ?case
    by (simp add: dict_iter_list_eq [OF 7] dict_map_def)
qed

text \<open>The dictionaries of the program are keyed by \<^verbatim>\<open>fk_str_t\<close> values.\<close>

definition str_eop :: "string fk_elt_op" where
  "str_eop = \<lparr>key_hash = fk_str_hash, key_cmp = fk_str_cmp\<rparr>"

interpretation strd: dict_keys str_eop str_ok
  by unfold_locales (simp add: str_eop_def fk_str_cmp_eq_0_iff)

subsection \<open>Sequences of operations\<close>

datatype 'v dict_op =
    Get string
  | Add string 'v
  | Replace string 'v
  | Remove string
  | Clear

datatype 'v dict_out = Value "'v option" | Rc dict_rc | Existed bool | Done

fun dict_exec :: "'v dict_op \<Rightarrow> (string, 'v) fk_dict \<Rightarrow> ('v dict_out \<times> (string, 'v) fk_dict) option" where
  "dict_exec (Get k) d = map_option (\<lambda>r. (Value r, d)) (fk_dict_get str_eop d k)"
| "dict_exec (Add k v) d = map_option (map_prod Rc id) (fk_dict_add str_eop d k v)"
| "dict_exec (Replace k v) d = map_option (map_prod Existed id) (fk_dict_replace str_eop d k v)"
| "dict_exec (Remove k) d = map_option (map_prod Rc id) (fk_dict_remove str_eop d k)"
| "dict_exec Clear d = Some (Done, fk_dict_empty d)"

fun dict_run :: "'v dict_op list \<Rightarrow> (string, 'v) fk_dict \<Rightarrow> ('v dict_out list \<times> (string, 'v) fk_dict) option" where
  "dict_run [] d = Some ([], d)"
| "dict_run (p # ps) d =
     do { (x, d1) \<leftarrow> dict_exec p d; (xs, d2) \<leftarrow> dict_run ps d1; Some (x # xs, d2) }"

text \<open>The specification: the same operations on a finite map.\<close>

fun map_exec :: "'v dict_op \<Rightarrow> (string \<rightharpoonup> 'v) \<Rightarrow> 'v dict_out \<times> (string \<rightharpoonup> 'v)" where
  "map_exec (Get k) m = (Value (m k), m)"
| "map_exec (Add k v) m = (if m k = None then (Rc DICT_OK, m(k \<mapsto> v)) else (Rc DICT_ERR, m))"
| "map_exec (Replace k v) m = (Existed (m k \<noteq> None), m(k \<mapsto> v))"
| "map_exec (Remove k) m = (Rc (if m k = None then DICT_ERR else DICT_OK), m(k := None))"
| "map_exec Clear m = (Done, Map.empty)"

fun map_run :: "'v dict_op list \<Rightarrow> (string \<rightharpoonup> 'v) \<Rightarrow> 'v dict_out list \<times> (string \<rightharpoonup> 'v)" where
  "map_run [] m = ([], m)"
| "map_run (p # ps) m =
     (let (x, m1) = map_exec p m; (xs, m2) = map_run ps m1 in (x # xs, m2))"

fun op_key_ok :: "'v dict_op \<Rightarrow> bool" where
  "op_key_ok (Get k) = str_ok k"
| "op_key_ok (Add k v) = str_ok k"
| "op_key_ok (Replace k v) = str_ok k"
| "op_key_ok (Remove k) = str_ok k"
| "op_key_ok Clear = True"

lemma dict_exec_spec:
  assumes "dict_inv str_eop str_ok d" and "op_key_ok p"
  shows "\<exists>d'. dict_exec p d = Some (fst (map_exec p (dict_map d)), d') \<and> dict_inv str_eop str_ok d'
    \<and> dict_map d' = snd (map_exec p (dict_map d))"
proof (cases p)
  case (Get k)
  then show ?thesis
    using strd.get_spec [OF assms(1)] assms by auto
next
  case (Add k v)
  then show ?thesis
    using strd.add_spec [OF assms(1), of k v] assms by auto
next
  case (Replace k v)
  then show ?thesis
    using strd.replace_spec [OF assms(1), of k v] assms by auto
next
  case (Remove k)
  then show ?thesis
    using strd.remove_spec [OF assms(1), of k] assms by auto
next
  case Clear
  then show ?thesis
    by (simp add: fk_dict_empty_eq dict_inv_create)
qed

lemma dict_run_spec:
  assumes "dict_inv str_eop str_ok d" and "list_all op_key_ok ps"
  shows "\<exists>d'. dict_run ps d = Some (fst (map_run ps (dict_map d)), d') \<and> dict_inv str_eop str_ok d'
    \<and> dict_map d' = snd (map_run ps (dict_map d))"
  using assms
proof (induction ps arbitrary: d)
  case (Cons p ps)
  obtain d1 where d1: "dict_exec p d = Some (fst (map_exec p (dict_map d)), d1)"
    "dict_inv str_eop str_ok d1" "dict_map d1 = snd (map_exec p (dict_map d))"
    using dict_exec_spec [OF Cons.prems(1), of p] Cons.prems(2) by auto
  show ?case
    using Cons.IH [OF d1(2)] Cons.prems(2) d1(1,3) by (auto simp: split_beta)
qed simp

subsection \<open>Properties\<close>

text \<open>
  C3. Refinement of the hash table: any sequence of lookups, insertions, replacements, removals and
  clearings, started on a fresh dictionary, runs without leaving the bucket array, returns exactly
  what the same sequence returns on a finite map, and ends in a well-formed dictionary (power-of-two
  size, mask, load at most one half, every element in the bucket of its hash) that represents that map.
\<close>

theorem dict_run_refines:
  assumes "list_all op_key_ok ps"
  shows "\<exists>d. dict_run ps fk_dict_create = Some (fst (map_run ps Map.empty), d)
    \<and> dict_inv str_eop str_ok d \<and> dict_map d = snd (map_run ps Map.empty)"
  using dict_run_spec [OF dict_inv_create assms] by simp

theorem dict_run_refines_witness:
  "\<exists>d. dict_run [Add ''a'' (1::int), Add ''b'' 2, Add ''a'' 3, Remove ''b'', Get ''a''] fk_dict_create
     = Some ([Rc DICT_OK, Rc DICT_OK, Rc DICT_ERR, Rc DICT_OK, Value (Some 1)], d)
   \<and> dict_inv str_eop str_ok d \<and> dict_map d = [''a'' \<mapsto> 1]"
  using dict_run_refines [of "[Add ''a'' (1::int), Add ''b'' 2, Add ''a'' 3, Remove ''b'', Get ''a'']"]
  by (simp add: str_ok_def fun_upd_twist)

text \<open>
  C18. The iterator visits every entry of a well-formed dictionary exactly once and then returns NULL:
  the loop over it ends, without reading beyond the bucket array, with the entries of the map.
\<close>

theorem dict_iter_complete:
  assumes "dict_inv str_eop str_ok d"
  shows "\<exists>l. dict_iter_list d = Some l \<and> distinct (map fst l) \<and> map_of l = dict_map d
    \<and> length l = fk_dict_len d"
  using strd.store.elts_ret [OF assms] unfolding fk_dict_len_def by metis

theorem dict_iter_complete_witness:
  "\<exists>d l. fk_dict_add str_eop fk_dict_create ''k'' (7::int) = Some (DICT_OK, d)
     \<and> dict_iter_list d = Some l \<and> map_of l ''k'' = Some 7 \<and> length l = 1"
proof -
  obtain d where d: "fk_dict_add str_eop fk_dict_create ''k'' (7::int) = Some (DICT_OK, d)"
    "dict_inv str_eop str_ok d" "dict_map d = [''k'' \<mapsto> 7]" "used d = 1"
    using strd.add_spec [OF dict_inv_create, of "''k''" "7::int"] by (auto simp: str_ok_def)
  show ?thesis
    using dict_iter_complete [OF d(2)] d by (auto simp: fk_dict_len_def)
qed

end
