(* ===== verification/Fk_Item.thy ===== *)
theory Fk_Item
  imports Fk_Dict
begin

text \<open>
  \<^verbatim>\<open>fk_item.h\<close>: the values of the databases. The type tag of a \<^verbatim>\<open>fk_item_t\<close> is the constructor
  and its \<^verbatim>\<open>entity\<close> the argument; a \<^verbatim>\<open>fk_list_t\<close> of items is the list of its nodes from head
  to tail.
\<close>

datatype fk_item =
    Nil_item
  | Str string
  | List "fk_item list"
  | Dict "(string, fk_item) fk_dict"
  | Sklist
  | Num int

datatype item_type =
  FK_ITEM_NIL | FK_ITEM_STR | FK_ITEM_LIST | FK_ITEM_DICT | FK_ITEM_SKLIST | FK_ITEM_NUM

fun fk_item_type :: "fk_item \<Rightarrow> item_type" where
  "fk_item_type Nil_item = FK_ITEM_NIL"
| "fk_item_type (Str s) = FK_ITEM_STR"
| "fk_item_type (List l) = FK_ITEM_LIST"
| "fk_item_type (Dict d) = FK_ITEM_DICT"
| "fk_item_type Sklist = FK_ITEM_SKLIST"
| "fk_item_type (Num n) = FK_ITEM_NUM"

text \<open>The number of the tag, as it is stored in a file.\<close>

fun type_tag :: "item_type \<Rightarrow> nat" where
  "type_tag FK_ITEM_NIL = 0"
| "type_tag FK_ITEM_STR = 1"
| "type_tag FK_ITEM_LIST = 2"
| "type_tag FK_ITEM_DICT = 3"
| "type_tag FK_ITEM_SKLIST = 4"
| "type_tag FK_ITEM_NUM = 5"

text \<open>\<^verbatim>\<open>fk_item_raw\<close> with the cast the caller makes; another type of item is outside the
  defined behaviour.\<close>

fun raw_str :: "fk_item \<Rightarrow> string option" where
  "raw_str (Str s) = Some s"
| "raw_str _ = None"

fun raw_list :: "fk_item \<Rightarrow> fk_item list option" where
  "raw_list (List l) = Some l"
| "raw_list _ = None"

fun raw_dict :: "fk_item \<Rightarrow> (string, fk_item) fk_dict option" where
  "raw_dict (Dict d) = Some d"
| "raw_dict _ = None"

fun raw_num :: "fk_item \<Rightarrow> int option" where
  "raw_num (Num n) = Some n"
| "raw_num _ = None"

lemma raw_by_type:
  "fk_item_type v = FK_ITEM_STR \<longleftrightarrow> (\<exists>s. v = Str s)"
  "fk_item_type v = FK_ITEM_LIST \<longleftrightarrow> (\<exists>l. v = List l)"
  "fk_item_type v = FK_ITEM_DICT \<longleftrightarrow> (\<exists>d. v = Dict d)"
  "fk_item_type v = FK_ITEM_NUM \<longleftrightarrow> (\<exists>n. v = Num n)"
  by (cases v; simp)+

end
