(* ===== verification/Fk_Conn.thy ===== *)
theory Fk_Conn
  imports Fk_Buf Fk_Item
begin

text \<open>
  \<^verbatim>\<open>fk_svr_conn.c\<close>: a client connection, the request parser and the functions that write
  replies. The socket is an explicit queue of what \<^verbatim>\<open>recv\<close> will deliver.
\<close>

subsection \<open>State\<close>

datatype svr_rc = SVR_OK | SVR_ERR | SVR_AGAIN | SVR_DONE

datatype conn_type = CONN_REAL | CONN_FAKE

record fk_conn =
  fd :: int
  ctype :: conn_type
  write_added :: int
  rbuf :: fk_buf
  wbuf :: fk_buf
  last_recv :: int
  arg_vtr :: "fk_item fk_vtr"
  arg_parsed :: int
  arg_cnt :: int
  cur_arglen :: int
  parse_done :: int
  db_idx :: int

definition FK_BUF_HIGHWAT :: nat where
  "FK_BUF_HIGHWAT = 4 * 1024 * 1024"

definition FK_BUF_INIT_LEN :: nat where
  "FK_BUF_INIT_LEN = 16"

definition FK_ARG_HIGHWAT :: int where
  "FK_ARG_HIGHWAT = 1024 * 1024"

definition FK_ARG_CNT_HIGHWAT :: int where
  "FK_ARG_CNT_HIGHWAT = 128"

definition FK_ARG_CNT_LINE_HIGHWAT :: nat where
  "FK_ARG_CNT_LINE_HIGHWAT = 5"

definition FK_ARG_LEN_LINE_HIGHWAT :: nat where
  "FK_ARG_LEN_LINE_HIGHWAT = 9"

definition FK_VTR_INIT_LEN :: nat where
  "FK_VTR_INIT_LEN = 4"

definition FK_CONN_FAKE_FD :: int where
  "FK_CONN_FAKE_FD = -1"

lemmas fk_consts =
  FK_BUF_HIGHWAT_def FK_BUF_INIT_LEN_def FK_ARG_HIGHWAT_def FK_ARG_CNT_HIGHWAT_def
  FK_ARG_CNT_LINE_HIGHWAT_def FK_ARG_LEN_LINE_HIGHWAT_def FK_VTR_INIT_LEN_def FK_CONN_FAKE_FD_def

text \<open>\<^verbatim>\<open>fk_conn_create\<close> without the events of a real connection, which belong to the event
  manager; \<open>max_wbuf\<close> is the setting, \<open>now\<close> the result of \<^verbatim>\<open>time(NULL)\<close>.\<close>

definition fk_conn_create :: "(nat \<Rightarrow> char) \<Rightarrow> nat \<Rightarrow> int \<Rightarrow> int \<Rightarrow> fk_conn option" where
  "fk_conn_create fr max_wbuf now fd0 =
     do { rb \<leftarrow> fk_buf_create fr FK_BUF_INIT_LEN FK_BUF_HIGHWAT;
          wb \<leftarrow> fk_buf_create fr FK_BUF_INIT_LEN max_wbuf;
          Some \<lparr>fd = fd0, ctype = (if fd0 \<noteq> FK_CONN_FAKE_FD then CONN_REAL else CONN_FAKE),
                write_added = 0, rbuf = rb, wbuf = wb, last_recv = now,
                arg_vtr = fk_vtr_create FK_VTR_INIT_LEN, arg_parsed = 0, arg_cnt = 0,
                cur_arglen = -1, parse_done = 0, db_idx = 0\<rparr> }"

definition fk_conn_set_arg :: "fk_conn \<Rightarrow> int \<Rightarrow> fk_item option \<Rightarrow> fk_conn option" where
  "fk_conn_set_arg c i x =
     (if i < 0 then None else map_option (\<lambda>v. c\<lparr>arg_vtr := v\<rparr>) (fk_vtr_set (arg_vtr c) (nat i) x))"

definition fk_conn_get_arg :: "fk_conn \<Rightarrow> int \<Rightarrow> fk_item option option" where
  "fk_conn_get_arg c i = (if i < 0 then None else fk_vtr_get (arg_vtr c) (nat i))"

subsection \<open>Receiving\<close>

text \<open>What a socket will deliver: chunks of data, then nothing more for now (the empty list,
  \<^verbatim>\<open>EAGAIN\<close>), the end of the stream or an error. A call of \<^verbatim>\<open>recv\<close> for \<open>n\<close> bytes takes at
  most \<open>n\<close> bytes of one chunk.\<close>

datatype sock_ev = Chunk string | Eof | Fail

datatype recv_res = Got string | Closed | Error | Would_block

fun recv :: "sock_ev list \<Rightarrow> nat \<Rightarrow> recv_res \<times> sock_ev list" where
  "recv [] n = (Would_block, [])"
| "recv (Chunk bs # es) n =
     (if bs = [] then recv es n
      else if length bs \<le> n then (Got bs, es)
      else (Got (take n bs), Chunk (drop n bs) # es))"
| "recv (Eof # es) n = (Closed, Eof # es)"
| "recv (Fail # es) n = (Error, Fail # es)"

definition fk_conn_recv_data :: "int \<Rightarrow> sock_ev list \<Rightarrow> fk_conn \<Rightarrow> (svr_rc \<times> sock_ev list \<times> fk_conn) option" where
  "fk_conn_recv_data now sock c =
     do { b1 \<leftarrow> (if fk_buf_payload_len (rbuf c) > 3 * (blen (rbuf c) div 4)
                 then fk_buf_shift (rbuf c) else Some (rbuf c));
          let b2 = (if fk_buf_free_len b1 = 0 then fk_buf_stretch b1 else b1);
          if fk_buf_free_len b2 = 0 then Some (SVR_ERR, sock, c\<lparr>rbuf := b2\<rparr>)
          else
            (let free_len = fk_buf_free_len b2
             in case recv sock free_len of
                  (Closed, sock') \<Rightarrow> Some (SVR_ERR, sock', c\<lparr>rbuf := b2\<rparr>)
                | (Error, sock') \<Rightarrow> Some (SVR_ERR, sock', c\<lparr>rbuf := b2\<rparr>)
                | (Would_block, sock') \<Rightarrow> Some (SVR_AGAIN, sock', c\<lparr>rbuf := b2\<rparr>)
                | (Got bs, sock') \<Rightarrow>
                    do { b3 \<leftarrow> buf_put b2 bs;
                         Some (if length bs < free_len then SVR_DONE else SVR_OK, sock',
                               c\<lparr>rbuf := b3, last_recv := now\<rparr>) }) }"

subsection \<open>Parsing\<close>

datatype hdr = Hdr_err | Hdr_again | Hdr int nat

text \<open>The two header lines (\<^verbatim>\<open>*<count>\<close> and \<^verbatim>\<open>$<length>\<close>) are parsed by the same code with
  other constants: the first byte, the search limit, the check of the digits and the range.
  The result is the number and the length of the line.\<close>

definition parse_hdr :: "char \<Rightarrow> nat \<Rightarrow> (string \<Rightarrow> bool) \<Rightarrow> (int \<Rightarrow> bool) \<Rightarrow> fk_buf \<Rightarrow> hdr option" where
  "parse_hdr mark hw is_seq bad b =
     do { start \<leftarrow> nth_opt (buffer b) (low b);
          if start \<noteq> mark then Some Hdr_err
          else
            (let search_len = min (fk_buf_payload_len b - 1) hw
             in do { area \<leftarrow> mem_slice (buffer b) (low b + 1) search_len;
                     case memchr (CHR 0x0A) area of
                       None \<Rightarrow> Some (if search_len = hw then Hdr_err else Hdr_again)
                     | Some j \<Rightarrow>
                         do { prev \<leftarrow> nth_opt (buffer b) (low b + j);
                              if prev \<noteq> CHR 0x0D then Some Hdr_err
                              else if j < 2 then Some Hdr_err
                              else
                                do { sq \<leftarrow> mem_slice (buffer b) (low b + 1) (j - 1);
                                     if \<not> is_seq sq then Some Hdr_err
                                     else (let n = atoi (drop (low b + 1) (buffer b))
                                           in Some (if bad n then Hdr_err else Hdr n (j + 2))) } } }) }"

text \<open>The first part of \<^verbatim>\<open>fk_conn_parse_req\<close>; \<open>Inl\<close> is an early return.\<close>

definition parse_count :: "fk_conn \<Rightarrow> (svr_rc + fk_conn) option" where
  "parse_count c =
     (if arg_parsed c = 0 \<and> fk_buf_payload_len (rbuf c) > 0 then
        do { h \<leftarrow> parse_hdr (CHR ''*'') FK_ARG_CNT_LINE_HIGHWAT fk_util_is_positive_seq
                   (\<lambda>argc. argc \<le> 0 \<or> argc > FK_ARG_CNT_HIGHWAT) (rbuf c);
             Some (case h of
                     Hdr_err \<Rightarrow> Inl SVR_ERR
                   | Hdr_again \<Rightarrow> Inl SVR_AGAIN
                   | Hdr argc n \<Rightarrow>
                       Inr (c\<lparr>arg_parsed := argc, arg_vtr := fk_vtr_stretch (arg_vtr c) (size_of_int argc),
                              rbuf := fk_buf_low_inc (rbuf c) n\<rparr>)) }
      else Some (Inr c))"

definition parse_arglen :: "fk_conn \<Rightarrow> (svr_rc + fk_conn) option" where
  "parse_arglen c =
     (if cur_arglen c = -1 then
        do { h \<leftarrow> parse_hdr (CHR ''$'') FK_ARG_LEN_LINE_HIGHWAT fk_util_is_nonminus_seq
                   (\<lambda>argl. argl < 0 \<or> argl > FK_ARG_HIGHWAT) (rbuf c);
             Some (case h of
                     Hdr_err \<Rightarrow> Inl SVR_ERR
                   | Hdr_again \<Rightarrow> Inl SVR_AGAIN
                   | Hdr argl n \<Rightarrow> Inr (c\<lparr>cur_arglen := argl, rbuf := fk_buf_low_inc (rbuf c) n\<rparr>)) }
      else Some (Inr c))"

definition parse_arg :: "fk_conn \<Rightarrow> (svr_rc option \<times> fk_conn) option" where
  "parse_arg c =
     (if cur_arglen c \<noteq> -1 then
        (let arg_len = size_of_int (cur_arglen c); b = rbuf c
         in if fk_buf_payload_len b \<ge> arg_len + 2 then
              do { c1 \<leftarrow> nth_opt (buffer b) (low b + arg_len);
                   c2 \<leftarrow> nth_opt (buffer b) (low b + arg_len + 1);
                   if c1 \<noteq> CHR 0x0D \<or> c2 \<noteq> CHR 0x0A then Some (Some SVR_ERR, c)
                   else
                     do { s \<leftarrow> fk_str_create (drop (low b) (buffer b)) arg_len;
                          c' \<leftarrow> fk_conn_set_arg c (arg_cnt c) (Some (Str s));
                          let c'' = c'\<lparr>arg_cnt := s32 (arg_cnt c + 1), cur_arglen := -1,
                                       rbuf := fk_buf_low_inc b (arg_len + 2)\<rparr>;
                          if arg_parsed c'' = arg_cnt c'' then Some (Some SVR_OK, c''\<lparr>parse_done := 1\<rparr>)
                          else Some (None, c'') } }
            else Some (Some SVR_AGAIN, c))
      else Some (None, c))"

text \<open>One iteration of the loop; \<open>Some rc\<close> is a return.\<close>

definition parse_step :: "fk_conn \<Rightarrow> (svr_rc option \<times> fk_conn) option" where
  "parse_step c =
     do { r \<leftarrow> parse_arglen c;
          case r of Inl rc \<Rightarrow> Some (Some rc, c) | Inr c1 \<Rightarrow> parse_arg c1 }"

lemma low_inc_payload_len: "fk_buf_payload_len (fk_buf_low_inc b n) = fk_buf_payload_len b - n"
  by (auto simp: fk_buf_payload_len_def fk_buf_low_inc_def Let_def)

lemma parse_arg_progress:
  assumes "parse_arg c = Some (None, c')" and "cur_arglen c \<noteq> -1"
  shows "fk_buf_payload_len (rbuf c') + 2 \<le> fk_buf_payload_len (rbuf c)"
  using assms
  by (auto simp: parse_arg_def Let_def low_inc_payload_len bind_eq_Some_conv split: if_splits)

lemma parse_hdr_Hdr:
  assumes "parse_hdr mark hw is_seq bad b = Some (Hdr n k)"
  shows "4 \<le> k \<and> \<not> bad n"
  using assms by (auto simp: parse_hdr_def bind_eq_Some_conv Let_def split: if_splits option.splits)

lemma parse_arglen_cases:
  assumes "parse_arglen c = Some (Inr c1)"
  obtains "cur_arglen c \<noteq> -1" "c1 = c"
    | argl n where "cur_arglen c = -1" "0 \<le> argl" "argl \<le> FK_ARG_HIGHWAT" "4 \<le> n"
      "c1 = c\<lparr>cur_arglen := argl, rbuf := fk_buf_low_inc (rbuf c) n\<rparr>"
proof (cases "cur_arglen c = -1")
  case True
  then obtain h where h: "parse_hdr (CHR ''$'') FK_ARG_LEN_LINE_HIGHWAT fk_util_is_nonminus_seq
                   (\<lambda>argl. argl < 0 \<or> argl > FK_ARG_HIGHWAT) (rbuf c) = Some h"
    using assms by (auto simp: parse_arglen_def bind_eq_Some_conv)
  then obtain argl n where hd: "h = Hdr argl n"
    "c1 = c\<lparr>cur_arglen := argl, rbuf := fk_buf_low_inc (rbuf c) n\<rparr>"
    using assms True by (cases h) (auto simp: parse_arglen_def)
  then show thesis
    using parse_hdr_Hdr [OF h [unfolded hd(1)]] True hd(2) by (intro that(2) [of argl n]) auto
next
  case False
  then show thesis
    using assms by (intro that(1)) (auto simp: parse_arglen_def)
qed

lemma parse_step_progress:
  assumes "parse_step c = Some (None, c')" and "0 < fk_buf_payload_len (rbuf c)"
  shows "fk_buf_payload_len (rbuf c') < fk_buf_payload_len (rbuf c)"
proof -
  obtain c1 where c1: "parse_arglen c = Some (Inr c1)" "parse_arg c1 = Some (None, c')"
    using assms(1) by (cases "parse_arglen c"; cases "the (parse_arglen c)") (auto simp: parse_step_def)
  from c1(1) show ?thesis
  proof (cases rule: parse_arglen_cases)
    case 1
    then show ?thesis
      using parse_arg_progress [OF c1(2)] by simp
  next
    case (2 argl n)
    then have "fk_buf_payload_len (rbuf c') + 2 \<le> fk_buf_payload_len (rbuf c1)"
      using parse_arg_progress [OF c1(2)] by simp
    then show ?thesis
      using 2 by (simp add: low_inc_payload_len)
  qed
qed

function parse_args :: "fk_conn \<Rightarrow> (svr_rc \<times> fk_conn) option" where
  "parse_args c =
     (if fk_buf_payload_len (rbuf c) > 0 then
        (case parse_step c of
           None \<Rightarrow> None
         | Some (Some rc, c') \<Rightarrow> Some (rc, c')
         | Some (None, c') \<Rightarrow> parse_args c')
      else Some (SVR_AGAIN, c))"
  by pat_completeness auto
termination
  by (relation "measure (\<lambda>c. fk_buf_payload_len (rbuf c))") (auto intro: parse_step_progress)

declare parse_args.simps [simp del]

definition fk_conn_parse_req :: "fk_conn \<Rightarrow> (svr_rc \<times> fk_conn) option" where
  "fk_conn_parse_req c =
     do { r \<leftarrow> parse_count c;
          case r of Inl rc \<Rightarrow> Some (rc, c) | Inr c1 \<Rightarrow> parse_args c1 }"

text \<open>\<^verbatim>\<open>fk_conn_free_args\<close>; the references the vector held are given up.\<close>

fun free_args_loop :: "nat list \<Rightarrow> fk_conn \<Rightarrow> fk_conn option" where
  "free_args_loop [] c = Some c"
| "free_args_loop (i # is) c =
     do { arg_itm \<leftarrow> fk_conn_get_arg c (int i);
          c' \<leftarrow> (if arg_itm \<noteq> None then fk_conn_set_arg c (int i) None else Some c);
          free_args_loop is c' }"

definition fk_conn_free_args :: "fk_conn \<Rightarrow> fk_conn option" where
  "fk_conn_free_args c =
     do { c' \<leftarrow> free_args_loop [0..<nat (arg_cnt c)] c;
          Some (c'\<lparr>cur_arglen := -1, arg_parsed := 0, parse_done := 0, arg_cnt := 0,
                   arg_vtr := fk_vtr_shrink (arg_vtr c')\<rparr>) }"

subsection \<open>Replies\<close>

definition crlf :: string where
  "crlf = [CHR 0x0D, CHR 0x0A]"

text \<open>The six functions below share their body: reserve \<open>len\<close> bytes, format into a temporary
  block of \<open>len + 1\<close> bytes, copy \<open>len\<close> bytes of it.\<close>

definition add_rsp :: "nat \<Rightarrow> string \<Rightarrow> fk_conn \<Rightarrow> (svr_rc \<times> fk_conn) option" where
  "add_rsp len text c =
     do { b1 \<leftarrow> fk_buf_alloc (wbuf c) len;
          if fk_buf_free_len b1 < len then Some (SVR_ERR, c\<lparr>wbuf := b1\<rparr>)
          else
            do { b2 \<leftarrow> buf_put b1 (take len (snprintf_block (fresh b1) (len + 1) text));
                 Some (SVR_OK, c\<lparr>wbuf := b2\<rparr>) } }"

definition fk_conn_add_status_rsp :: "string \<Rightarrow> nat \<Rightarrow> fk_conn \<Rightarrow> (svr_rc \<times> fk_conn) option" where
  "fk_conn_add_status_rsp stat stat_len = add_rsp (stat_len + 3) (CHR ''+'' # cstr stat @ crlf)"

definition fk_conn_add_error_rsp :: "string \<Rightarrow> nat \<Rightarrow> fk_conn \<Rightarrow> (svr_rc \<times> fk_conn) option" where
  "fk_conn_add_error_rsp err err_len = add_rsp (err_len + 3) (CHR ''-'' # cstr err @ crlf)"

definition fk_conn_add_content_rsp :: "string \<Rightarrow> nat \<Rightarrow> fk_conn \<Rightarrow> (svr_rc \<times> fk_conn) option" where
  "fk_conn_add_content_rsp content content_len = add_rsp (content_len + 2) (cstr content @ crlf)"

definition fk_conn_add_int_rsp :: "int \<Rightarrow> fk_conn \<Rightarrow> (svr_rc \<times> fk_conn) option" where
  "fk_conn_add_int_rsp num = add_rsp (fk_util_decimal_digit num + 3) (CHR '':'' # print_int num @ crlf)"

definition fk_conn_add_bulk_rsp :: "int \<Rightarrow> fk_conn \<Rightarrow> (svr_rc \<times> fk_conn) option" where
  "fk_conn_add_bulk_rsp n = add_rsp (fk_util_decimal_digit n + 3) (CHR ''$'' # print_int n @ crlf)"

definition fk_conn_add_mbulk_rsp :: "int \<Rightarrow> fk_conn \<Rightarrow> (svr_rc \<times> fk_conn) option" where
  "fk_conn_add_mbulk_rsp n = add_rsp (fk_util_decimal_digit n + 3) (CHR ''*'' # print_int n @ crlf)"

subsection \<open>The invariant of a connection\<close>

text \<open>\<open>args_inv\<close>: the counters and the vector between two calls of the parser.\<close>

definition arg_ok :: "string \<Rightarrow> bool" where
  "arg_ok s \<longleftrightarrow> int (length s) \<le> FK_ARG_HIGHWAT"

definition args_inv :: "fk_conn \<Rightarrow> string list \<Rightarrow> bool" where
  "args_inv c as \<longleftrightarrow>
     vtr_inv (arg_vtr c) \<and> vinit_len (arg_vtr c) = FK_VTR_INIT_LEN
     \<and> arg_cnt c = int (length as) \<and> list_all arg_ok as
     \<and> arg_cnt c \<le> arg_parsed c \<and> arg_parsed c \<le> FK_ARG_CNT_HIGHWAT \<and> arg_parsed c \<le> int (vlen (arg_vtr c))
     \<and> vlen (arg_vtr c) \<le> max FK_VTR_INIT_LEN (nat (arg_parsed c))
     \<and> varray (arg_vtr c) = map (Some \<circ> Str) as @ replicate (vlen (arg_vtr c) - length as) None
     \<and> cur_arglen c \<le> FK_ARG_HIGHWAT \<and> - 1 \<le> cur_arglen c
     \<and> (arg_parsed c = 0 \<longrightarrow> cur_arglen c = - 1)
     \<and> (parse_done c = 0 \<and> (arg_cnt c < arg_parsed c \<or> arg_parsed c = 0)
        \<or> parse_done c = 1 \<and> 0 < arg_cnt c \<and> arg_cnt c = arg_parsed c \<and> cur_arglen c = - 1)"

definition conn_inv :: "fk_conn \<Rightarrow> bool" where
  "conn_inv c \<longleftrightarrow> buf_inv (rbuf c) \<and> buf_inv (wbuf c) \<and> (\<exists>as. args_inv c as)"

definition args_of :: "fk_conn \<Rightarrow> string list" where
  "args_of c = map (\<lambda>x. case x of Some (Str s) \<Rightarrow> s | _ \<Rightarrow> []) (take (nat (arg_cnt c)) (varray (arg_vtr c)))"

lemma args_of_eq: "args_inv c as \<Longrightarrow> args_of c = as"
  by (auto simp: args_inv_def args_of_def o_def)

subsection \<open>Header lines\<close>

lemma buf_split:
  assumes "buf_inv b"
  obtains post where "drop (low b) (buffer b) = payload b @ post" "length (buffer b) = low b + length (payload b) + length post"
proof
  show "drop (low b) (buffer b) = payload b @ drop (high b) (buffer b)"
    using assms append_take_drop_id [of "high b - low b" "drop (low b) (buffer b)"]
    by (simp add: buf_inv_def payload_def)
  show "length (buffer b) = low b + length (payload b) + length (drop (high b) (buffer b))"
    using assms by (auto simp: buf_inv_def payload_def)
qed

lemma buf_read:
  assumes "buf_inv b" and "i < length (payload b)"
  shows "nth_opt (buffer b) (low b + i) = Some (payload b ! i)"
  using assms by (auto simp: buf_inv_def payload_def nth_opt_def)

lemma buf_slice:
  assumes "buf_inv b" and "off + n \<le> length (payload b)"
  shows "mem_slice (buffer b) (low b + off) n = Some (take n (drop off (payload b)))"
proof -
  have "low b + off + n \<le> high b" "length (buffer b) = blen b" "high b \<le> blen b"
    using assms length_payload [OF assms(1)] by (auto simp: buf_inv_def fk_buf_payload_len_def)
  then show ?thesis
    by (simp add: payload_def mem_slice_def drop_take min_def add.commute)
qed

text \<open>On a well-formed buffer the header parser stays inside the payload.\<close>

lemma parse_hdr_total:
  assumes inv: "buf_inv b" and ne: "0 < fk_buf_payload_len b"
  shows "\<exists>h. parse_hdr mark hw is_seq bad b = Some h \<and> (\<forall>n k. h = Hdr n k \<longrightarrow> k \<le> fk_buf_payload_len b)"
proof -
  let ?p = "payload b"
  let ?s = "min (fk_buf_payload_len b - 1) hw"
  have len: "length ?p = fk_buf_payload_len b"
    by (rule length_payload [OF inv])
  have r0: "nth_opt (buffer b) (low b) = Some (?p ! 0)"
    using buf_read [OF inv, of 0] ne len by simp
  have ar: "mem_slice (buffer b) (Suc (low b)) ?s = Some (take ?s (drop 1 ?p))"
    using buf_slice [OF inv, of 1 ?s] ne len by simp
  show ?thesis
  proof (cases "memchr (CHR 0x0A) (take ?s (drop 1 ?p))")
    case None
    then show ?thesis
      using r0 ar by (simp add: parse_hdr_def Let_def)
  next
    case (Some j)
    then have j: "j < ?s"
      using memchr_Some [OF Some] by simp
    have rj: "nth_opt (buffer b) (low b + j) = Some (?p ! j)"
      using buf_read [OF inv, of j] j len by (simp add: less_diff_conv)
    have sl: "mem_slice (buffer b) (Suc (low b)) (j - 1) = Some (take (j - 1) (drop 1 ?p))"
      using buf_slice [OF inv, of 1 "j - 1"] j len by (cases j) (auto simp: less_diff_conv)
    show ?thesis
      using r0 ar rj sl Some j by (auto simp: parse_hdr_def Let_def)
  qed
qed

lemma memchr_line: "c \<notin> set xs \<Longrightarrow> memchr c (xs @ c # ys) = Some (length xs)"
  by (simp add: memchr_append_notin)

lemma take_line:
  "length xs + 2 \<le> n \<Longrightarrow> take n (xs @ a # b # ys) = xs @ a # b # take (n - length xs - 2) ys"
  by (auto simp: take_Cons' Suc_le_eq)

lemma print_nat_no_eol: "CHR 0x0A \<notin> set (print_nat n)" "CHR 0x0D \<notin> set (print_nat n)"
  using print_nat_digits is_digit_not_special by blast+

lemma parse_hdr_line:
  assumes inv: "buf_inv b" and p: "payload b = mark # print_nat n @ crlf @ rest"
    and hw: "length (print_nat n) + 2 \<le> hw" and sq: "is_seq (print_nat n)" and ok: "\<not> bad (int n)"
    and small: "int n < 2147483648"
  shows "parse_hdr mark hw is_seq bad b = Some (Hdr (int n) (length (print_nat n) + 3))"
proof -
  let ?ds = "print_nat n"
  let ?s = "min (fk_buf_payload_len b - 1) hw"
  have len: "fk_buf_payload_len b = length ?ds + 3 + length rest"
    using length_payload [OF inv] p by (simp add: crlf_def)
  then have s: "length ?ds + 2 \<le> ?s" "?s + 1 \<le> length (payload b)"
    using hw p by (auto simp: crlf_def)
  have r0: "nth_opt (buffer b) (low b) = Some mark"
    using buf_read [OF inv, of 0] p by simp
  have "take ?s (drop 1 (payload b)) = ?ds @ CHR 0x0D # CHR 0x0A # take (?s - length ?ds - 2) rest"
    using take_line [of ?ds ?s "CHR 0x0D" "CHR 0x0A" rest] s(1) by (simp add: p crlf_def)
  then have ar: "mem_slice (buffer b) (Suc (low b)) ?s
      = Some ((?ds @ [CHR 0x0D]) @ CHR 0x0A # take (?s - length ?ds - 2) rest)"
    using buf_slice [OF inv, of 1 ?s] s(2) by simp
  have mc: "memchr (CHR 0x0A) ((?ds @ [CHR 0x0D]) @ CHR 0x0A # take (?s - length ?ds - 2) rest) = Some (length ?ds + 1)"
    using memchr_line [of "CHR 0x0A" "?ds @ [CHR 0x0D]"] print_nat_no_eol(1) by simp
  have rj: "nth_opt (buffer b) (Suc (low b + length ?ds)) = Some (CHR 0x0D)"
    using buf_read [OF inv, of "Suc (length ?ds)"] p by (simp add: crlf_def nth_append)
  have sl: "mem_slice (buffer b) (Suc (low b)) (length ?ds) = Some ?ds"
    using buf_slice [OF inv, of 1 "length ?ds"] p by simp
  obtain post where "drop (low b) (buffer b) = payload b @ post"
    using buf_split [OF inv] by blast
  then have "drop (Suc (low b)) (buffer b) = ?ds @ crlf @ rest @ post"
    using p by (metis append.assoc append_Cons drop_Suc list.sel(3) tl_drop)
  moreover have "crlf @ rest @ post \<noteq> [] \<and> \<not> is_digit (hd (crlf @ rest @ post))"
    by (auto simp: crlf_def is_digit_def schar_def)
  ultimately have at: "atoi (drop (Suc (low b)) (buffer b)) = int n"
    using atoi_print_nat [OF small, of "crlf @ rest @ post"] by simp
  have "length ?ds \<noteq> 0"
    by simp
  then show ?thesis
    using r0 ar mc rj sl at sq ok by (simp add: parse_hdr_def Let_def)
qed

lemma parse_hdr_prefix:
  assumes inv: "buf_inv b" and p: "payload b = take k (mark # print_nat n @ crlf)"
    and k: "0 < k" "k < length (print_nat n) + 3" and hw: "length (print_nat n) + 2 \<le> hw"
  shows "parse_hdr mark hw is_seq bad b = Some Hdr_again"
proof -
  let ?s = "min (fk_buf_payload_len b - 1) hw"
  have len: "fk_buf_payload_len b = k"
    using length_payload [OF inv] p k by (simp add: crlf_def)
  then have s: "?s = k - 1" "?s \<noteq> hw"
    using k hw by auto
  have r0: "nth_opt (buffer b) (low b) = Some mark"
    using buf_read [OF inv, of 0] p k by (simp add: crlf_def)
  have "drop 1 (payload b) = take (k - 1) (print_nat n @ [CHR 0x0D])"
    using k by (cases k) (auto simp: p crlf_def take_Cons')
  then have "CHR 0x0A \<notin> set (drop 1 (payload b))"
    using print_nat_no_eol(1) [of n] by (auto dest: in_set_takeD)
  then have "memchr (CHR 0x0A) (take ?s (drop 1 (payload b))) = None"
    by (auto simp: memchr_None_iff dest: in_set_takeD)
  moreover have "mem_slice (buffer b) (Suc (low b)) ?s = Some (take ?s (drop 1 (payload b)))"
    using buf_slice [OF inv, of 1 ?s] s k length_payload [OF inv] len by simp
  ultimately show ?thesis
    using r0 s(2) by (simp add: parse_hdr_def Let_def)
qed

subsection \<open>Parsing arbitrary bytes\<close>

text \<open>What the parser never touches.\<close>

definition same_io :: "fk_conn \<Rightarrow> fk_conn \<Rightarrow> bool" where
  "same_io c c' \<longleftrightarrow> fd c' = fd c \<and> ctype c' = ctype c \<and> write_added c' = write_added c \<and> wbuf c' = wbuf c
     \<and> last_recv c' = last_recv c \<and> db_idx c' = db_idx c
     \<and> blen (rbuf c') = blen (rbuf c) \<and> highwat (rbuf c') = highwat (rbuf c) \<and> high (rbuf c') = high (rbuf c)"

lemma same_io_refl [simp]: "same_io c c"
  by (simp add: same_io_def)

lemma same_io_trans: "same_io a b \<Longrightarrow> same_io b c \<Longrightarrow> same_io a c"
  by (simp add: same_io_def)

lemma low_inc_fields [simp]:
  "blen (fk_buf_low_inc b n) = blen b" "highwat (fk_buf_low_inc b n) = highwat b"
  "high (fk_buf_low_inc b n) = high b" "buffer (fk_buf_low_inc b n) = buffer b"
  by (simp_all add: fk_buf_low_inc_def Let_def)

lemma replicate_update_head:
  "0 < n \<Longrightarrow> (xs @ replicate n None)[length xs := Some y] = (xs @ [Some y]) @ replicate (n - 1) None"
  by (cases n) simp_all

lemma args_inv_push:
  assumes inv: "args_inv c as" and lt: "arg_cnt c < arg_parsed c" and a: "arg_ok a"
  shows "\<exists>v. fk_conn_set_arg c (arg_cnt c) (Some (Str a)) = Some (c\<lparr>arg_vtr := v\<rparr>)
    \<and> args_inv (c\<lparr>arg_vtr := v, arg_cnt := s32 (arg_cnt c + 1), cur_arglen := - 1, rbuf := b,
        parse_done := if arg_parsed c = s32 (arg_cnt c + 1) then 1 else 0\<rparr>) (as @ [a])"
proof -
  let ?v = "arg_vtr c"
  let ?w = "?v\<lparr>varray := map (Some \<circ> Str) (as @ [a]) @ replicate (vlen ?v - Suc (length as)) None\<rparr>"
  have n: "length as < vlen ?v" "arg_cnt c = int (length as)" "arg_parsed c \<le> 128"
    using inv lt by (auto simp: args_inv_def fk_consts)
  then have s: "s32 (arg_cnt c + 1) = int (length as) + 1"
    using lt by (simp add: s32_id)
  have "(varray ?v)[length as := Some (Str a)] = varray ?w"
    using inv n(1) replicate_update_head [of "vlen ?v - length as" "map (Some \<circ> Str) as" "Str a"]
    by (simp add: args_inv_def)
  then have set: "fk_conn_set_arg c (arg_cnt c) (Some (Str a)) = Some (c\<lparr>arg_vtr := ?w\<rparr>)"
    using inv n by (simp add: fk_conn_set_arg_def fk_vtr_set_def upd_opt_def args_inv_def)
  have "args_inv (c\<lparr>arg_vtr := ?w, arg_cnt := s32 (arg_cnt c + 1), cur_arglen := - 1, rbuf := b,
        parse_done := if arg_parsed c = s32 (arg_cnt c + 1) then 1 else 0\<rparr>) (as @ [a])"
    using inv lt a n unfolding s by (auto simp: args_inv_def vtr_inv_def fk_consts)
  with set show ?thesis by blast
qed

lemma size_of_arglen: "args_inv c as \<Longrightarrow> cur_arglen c \<noteq> - 1 \<Longrightarrow> size_of_int (cur_arglen c) = nat (cur_arglen c)"
  by (auto simp: args_inv_def size_of_int_id fk_consts)

lemma parse_arg_total:
  assumes inv: "conn_inv c" and pd: "parse_done c = 0" and ap: "arg_parsed c \<noteq> 0"
  shows "\<exists>r c'. parse_arg c = Some (r, c') \<and> conn_inv c' \<and> same_io c c' \<and> arg_parsed c' = arg_parsed c
    \<and> r \<noteq> Some SVR_DONE \<and> (parse_done c' = (if r = Some SVR_OK then 1 else 0))"
proof -
  obtain as where as: "args_inv c as" and b: "buf_inv (rbuf c)" "buf_inv (wbuf c)"
    using inv by (auto simp: conn_inv_def)
  have lt: "arg_cnt c < arg_parsed c"
    using as pd ap by (auto simp: args_inv_def)
  let ?n = "nat (cur_arglen c)"
  show ?thesis
  proof (cases "cur_arglen c = -1 \<or> fk_buf_payload_len (rbuf c) < ?n + 2")
    case True
    then show ?thesis
      using inv pd size_of_arglen [OF as] by (auto simp: parse_arg_def Let_def)
  next
    case False
    then have sz: "size_of_int (cur_arglen c) = ?n" and len: "?n + 2 \<le> length (payload (rbuf c))"
      using size_of_arglen [OF as] length_payload [OF b(1)] by auto
    let ?p = "payload (rbuf c)"
    let ?b = "fk_buf_low_inc (rbuf c) (?n + 2)"
    have r: "nth_opt (buffer (rbuf c)) (low (rbuf c) + ?n) = Some (?p ! ?n)"
      "nth_opt (buffer (rbuf c)) (Suc (low (rbuf c) + ?n)) = Some (?p ! Suc ?n)"
      using buf_read [OF b(1), of ?n] buf_read [OF b(1), of "Suc ?n"] len by simp_all
    obtain post where post: "drop (low (rbuf c)) (buffer (rbuf c)) = ?p @ post"
      using buf_split [OF b(1)] by blast
    then have st: "fk_str_create (drop (low (rbuf c)) (buffer (rbuf c))) ?n = Some (take ?n ?p)"
      using len by (simp add: fk_str_create_def mem_slice_def)
    have "int ?n \<le> FK_ARG_HIGHWAT"
      using as by (auto simp: args_inv_def fk_consts)
    then have "arg_ok (take ?n ?p)"
      using len by (simp add: arg_ok_def)
    then obtain v where v: "fk_conn_set_arg c (arg_cnt c) (Some (Str (take ?n ?p))) = Some (c\<lparr>arg_vtr := v\<rparr>)"
      "args_inv (c\<lparr>arg_vtr := v, arg_cnt := s32 (arg_cnt c + 1), cur_arglen := - 1, rbuf := ?b,
        parse_done := if arg_parsed c = s32 (arg_cnt c + 1) then 1 else 0\<rparr>) (as @ [take ?n ?p])"
      using args_inv_push [OF as lt] by blast
    show ?thesis
    proof (cases "?p ! ?n \<noteq> CHR 0x0D \<or> ?p ! Suc ?n \<noteq> CHR 0x0A")
      case True
      then show ?thesis
        using inv pd False sz r by (auto simp: parse_arg_def Let_def)
    next
      case line: False
      let ?c = "c\<lparr>arg_vtr := v, arg_cnt := s32 (arg_cnt c + 1), cur_arglen := - 1, rbuf := ?b,
        parse_done := if arg_parsed c = s32 (arg_cnt c + 1) then 1 else 0\<rparr>"
      have ci: "conn_inv ?c"
        using v(2) b low_inc_spec(1) [OF b(1)] unfolding conn_inv_def by auto
      have "parse_arg c = Some (if arg_parsed c = s32 (arg_cnt c + 1) then Some SVR_OK else None, ?c)"
        using line False sz r st v(1) pd by (auto simp: parse_arg_def Let_def)
      then show ?thesis
        using ci by (auto simp: same_io_def)
    qed
  qed
qed

lemma conn_inv_rbuf_low:
  assumes "conn_inv c" and "buf_inv b" and "args_inv c as"
    and "0 \<le> n" "n \<le> FK_ARG_HIGHWAT" "arg_parsed c \<noteq> 0" "parse_done c = 0"
  shows "conn_inv (c\<lparr>cur_arglen := n, rbuf := b\<rparr>)"
  using assms by (auto simp: conn_inv_def args_inv_def intro!: exI [of _ as])

lemma parse_arglen_total:
  assumes inv: "conn_inv c" and pd: "parse_done c = 0" and ap: "arg_parsed c \<noteq> 0"
    and ne: "0 < fk_buf_payload_len (rbuf c)"
  shows "\<exists>r. parse_arglen c = Some r \<and> (case r of Inl rc \<Rightarrow> rc = SVR_ERR \<or> rc = SVR_AGAIN
    | Inr c' \<Rightarrow> conn_inv c' \<and> same_io c c' \<and> arg_parsed c' = arg_parsed c \<and> parse_done c' = 0)"
proof (cases "cur_arglen c = -1")
  case True
  obtain as where as: "args_inv c as" and b: "buf_inv (rbuf c)"
    using inv by (auto simp: conn_inv_def)
  obtain h where h: "parse_hdr (CHR ''$'') FK_ARG_LEN_LINE_HIGHWAT fk_util_is_nonminus_seq
                   (\<lambda>argl. argl < 0 \<or> argl > FK_ARG_HIGHWAT) (rbuf c) = Some h"
    using parse_hdr_total [OF b ne] by blast
  show ?thesis
  proof (cases h)
    case (Hdr argl n)
    then have "0 \<le> argl" "argl \<le> FK_ARG_HIGHWAT"
      using parse_hdr_Hdr [OF h [unfolded Hdr]] by auto
    then have "conn_inv (c\<lparr>cur_arglen := argl, rbuf := fk_buf_low_inc (rbuf c) n\<rparr>)"
      using inv as ap pd low_inc_spec(1) [OF b] by (intro conn_inv_rbuf_low)
    then show ?thesis
      using True h Hdr pd by (simp add: parse_arglen_def same_io_def)
  qed (use True h in \<open>simp_all add: parse_arglen_def\<close>)
next
  case False
  then show ?thesis
    using inv pd by (simp add: parse_arglen_def)
qed

lemma parse_args_total:
  assumes "conn_inv c" and "parse_done c = 0" and "arg_parsed c \<noteq> 0 \<or> fk_buf_payload_len (rbuf c) = 0"
  shows "\<exists>rc c'. parse_args c = Some (rc, c') \<and> conn_inv c' \<and> same_io c c'
    \<and> rc \<noteq> SVR_DONE \<and> parse_done c' = (if rc = SVR_OK then 1 else 0)"
  using assms
proof (induction c rule: parse_args.induct)
  case (1 c)
  show ?case
  proof (cases "fk_buf_payload_len (rbuf c) = 0")
    case True
    then show ?thesis
      using 1(2,3) by (simp add: parse_args.simps [of c])
  next
    case False
    then have ne: "0 < fk_buf_payload_len (rbuf c)" and ap: "arg_parsed c \<noteq> 0"
      using 1(4) by auto
    obtain r where r: "parse_arglen c = Some r" "case r of Inl rc \<Rightarrow> rc = SVR_ERR \<or> rc = SVR_AGAIN
      | Inr c' \<Rightarrow> conn_inv c' \<and> same_io c c' \<and> arg_parsed c' = arg_parsed c \<and> parse_done c' = 0"
      using parse_arglen_total [OF 1(2,3) ap ne] by blast
    show ?thesis
    proof (cases r)
      case (Inl rc)
      then show ?thesis
        using r ne 1(2,3) by (auto simp: parse_args.simps [of c] parse_step_def)
    next
      case (Inr c1)
      then have c1: "conn_inv c1" "same_io c c1" "arg_parsed c1 \<noteq> 0" "parse_done c1 = 0"
        using r(2) ap by auto
      obtain q c2 where c2: "parse_arg c1 = Some (q, c2)" "conn_inv c2" "same_io c1 c2"
        "arg_parsed c2 = arg_parsed c1" "q \<noteq> Some SVR_DONE" "parse_done c2 = (if q = Some SVR_OK then 1 else 0)"
        using parse_arg_total [OF c1(1,4,3)] by blast
      have st: "parse_step c = Some (q, c2)"
        using r(1) Inr c2(1) by (simp add: parse_step_def)
      have io: "same_io c c2"
        using c1(2) c2(3) by (rule same_io_trans)
      show ?thesis
      proof (cases q)
        case None
        then obtain rc c' where "parse_args c2 = Some (rc, c')" "conn_inv c'" "same_io c2 c'"
          "rc \<noteq> SVR_DONE" "parse_done c' = (if rc = SVR_OK then 1 else 0)"
          using 1(1) [OF ne st [unfolded None] refl refl] c2 c1(3) by auto
        then show ?thesis
          using ne st None same_io_trans [OF io] by (auto simp: parse_args.simps [of c])
      next
        case (Some rc)
        then show ?thesis
          using ne st c2 io by (auto simp: parse_args.simps [of c])
      qed
    qed
  qed
qed

lemma parse_count_total:
  assumes inv: "conn_inv c" and pd: "parse_done c = 0"
  shows "\<exists>r. parse_count c = Some r \<and> (case r of Inl rc \<Rightarrow> rc = SVR_ERR \<or> rc = SVR_AGAIN
    | Inr c' \<Rightarrow> conn_inv c' \<and> same_io c c' \<and> (arg_parsed c' \<noteq> 0 \<or> fk_buf_payload_len (rbuf c') = 0)
        \<and> parse_done c' = 0)"
proof (cases "arg_parsed c = 0 \<and> fk_buf_payload_len (rbuf c) > 0")
  case True
  obtain as where as: "args_inv c as" and b: "buf_inv (rbuf c)" "buf_inv (wbuf c)"
    using inv by (auto simp: conn_inv_def)
  obtain h where h: "parse_hdr (CHR ''*'') FK_ARG_CNT_LINE_HIGHWAT fk_util_is_positive_seq
                   (\<lambda>argc. argc \<le> 0 \<or> argc > FK_ARG_CNT_HIGHWAT) (rbuf c) = Some h"
    using parse_hdr_total [OF b(1)] True by blast
  show ?thesis
  proof (cases h)
    case (Hdr argc n)
    then have n: "0 < argc" "argc \<le> 128"
      using parse_hdr_Hdr [OF h [unfolded Hdr]] by (auto simp: fk_consts)
    let ?v = "fk_vtr_stretch (arg_vtr c) (size_of_int argc)"
    let ?c = "c\<lparr>arg_parsed := argc, arg_vtr := ?v, rbuf := fk_buf_low_inc (rbuf c) n\<rparr>"
    have sz: "size_of_int argc = nat argc"
      using n by (simp add: size_of_int_id)
    have "as = []"
      using as True by (auto simp: args_inv_def)
    then have "args_inv ?c []"
      using as n True pd vtr_stretch_room [of "nat argc" "arg_vtr c"]
      by (auto simp: args_inv_def sz fk_consts fk_vtr_stretch_def vtr_inv_def replicate_add [symmetric])
    then have "conn_inv ?c"
      using b low_inc_spec(1) [OF b(1)] by (auto simp: conn_inv_def)
    then show ?thesis
      using True h Hdr n pd by (simp add: parse_count_def same_io_def)
  qed (use True h in \<open>simp_all add: parse_count_def\<close>)
next
  case False
  then show ?thesis
    using inv pd by (auto simp: parse_count_def)
qed

lemma parse_req_total:
  assumes "conn_inv c" and "parse_done c = 0"
  shows "\<exists>rc c'. fk_conn_parse_req c = Some (rc, c') \<and> conn_inv c' \<and> same_io c c'
    \<and> rc \<noteq> SVR_DONE \<and> parse_done c' = (if rc = SVR_OK then 1 else 0)"
proof -
  obtain r where r: "parse_count c = Some r" "case r of Inl rc \<Rightarrow> rc = SVR_ERR \<or> rc = SVR_AGAIN
    | Inr c' \<Rightarrow> conn_inv c' \<and> same_io c c' \<and> (arg_parsed c' \<noteq> 0 \<or> fk_buf_payload_len (rbuf c') = 0)
        \<and> parse_done c' = 0"
    using parse_count_total [OF assms] by blast
  show ?thesis
  proof (cases r)
    case (Inl rc)
    then show ?thesis
      using r assms by (auto simp: fk_conn_parse_req_def)
  next
    case (Inr c1)
    then have c1: "conn_inv c1" "same_io c c1" "parse_done c1 = 0"
      "arg_parsed c1 \<noteq> 0 \<or> fk_buf_payload_len (rbuf c1) = 0"
      using r(2) by auto
    show ?thesis
      using parse_args_total [OF c1(1,3,4)] same_io_trans [OF c1(2)] r(1) Inr
      by (auto simp: fk_conn_parse_req_def)
  qed
qed

subsection \<open>Releasing the arguments\<close>

lemma free_args_loop_spec:
  assumes "varray (arg_vtr c) = replicate k None @ map (Some \<circ> Str) as @ replicate n None"
  shows "free_args_loop [k..<k + length as] c
    = Some (c\<lparr>arg_vtr := (arg_vtr c)\<lparr>varray := replicate (k + length as) None @ replicate n None\<rparr>\<rparr>)"
  using assms
proof (induction as arbitrary: k c)
  case Nil
  then show ?case by simp
next
  case (Cons a as)
  have upd: "(varray (arg_vtr c))[k := None] = replicate (Suc k) None @ map (Some \<circ> Str) as @ replicate n None"
    unfolding Cons.prems by (simp add: list_update_append replicate_app_Cons_same)
  have get: "varray (arg_vtr c) ! k = Some (Str a)" "k < length (varray (arg_vtr c))"
    unfolding Cons.prems by (simp_all add: nth_append)
  let ?c = "c\<lparr>arg_vtr := (arg_vtr c)\<lparr>varray := (varray (arg_vtr c))[k := None]\<rparr>\<rparr>"
  have "[k..<k + length (a # as)] = k # [Suc k..<Suc k + length as]"
    using upt_conv_Cons [of k "k + length (a # as)"] by (simp del: upt_Suc)
  moreover have "free_args_loop (k # [Suc k..<Suc k + length as]) c = free_args_loop [Suc k..<Suc k + length as] ?c"
    using get by (simp add: fk_conn_get_arg_def fk_vtr_get_def fk_conn_set_arg_def fk_vtr_set_def cmem)
  moreover have "varray (arg_vtr ?c) = replicate (Suc k) None @ map (Some \<circ> Str) as @ replicate n None"
    using upd by simp
  ultimately show ?case
    using Cons.IH [of ?c "Suc k"] by simp
qed

text \<open>Whatever was parsed, the arguments are gone afterwards and a new request can start.\<close>

lemma free_args_spec:
  assumes inv: "conn_inv c"
  shows "\<exists>c'. fk_conn_free_args c = Some c' \<and> conn_inv c' \<and> arg_parsed c' = 0 \<and> parse_done c' = 0
    \<and> rbuf c' = rbuf c \<and> same_io c c'"
proof -
  obtain as where as: "args_inv c as" and b: "buf_inv (rbuf c)" "buf_inv (wbuf c)"
    using inv by (auto simp: conn_inv_def)
  let ?v = "arg_vtr c"
  have va: "varray ?v = replicate 0 None @ map (Some \<circ> Str) as @ replicate (vlen ?v - length as) None"
    and cnt: "nat (arg_cnt c) = length as" and le: "length as \<le> vlen ?v"
    using as by (auto simp: args_inv_def)
  let ?c1 = "c\<lparr>arg_vtr := ?v\<lparr>varray := replicate (vlen ?v) None\<rparr>\<rparr>"
  have "free_args_loop [0..<nat (arg_cnt c)] c = Some ?c1"
    using free_args_loop_spec [OF va] le by (simp add: cnt replicate_add [symmetric])
  then have fr: "fk_conn_free_args c = Some (?c1\<lparr>cur_arglen := -1, arg_parsed := 0, parse_done := 0, arg_cnt := 0,
                   arg_vtr := fk_vtr_shrink (arg_vtr ?c1)\<rparr>)" (is "_ = Some ?c2")
    by (simp add: fk_conn_free_args_def)
  have "args_inv ?c2 []"
    using as by (auto simp: args_inv_def vtr_inv_def fk_vtr_shrink_def fk_consts)
  then have "conn_inv ?c2"
    using b unfolding conn_inv_def by auto
  then show ?thesis
    using fr by (simp add: same_io_def)
qed

subsection \<open>Replies\<close>

text \<open>The bytes that are pending for the client, and a bound that keeps the size arithmetic of
  \<^verbatim>\<open>fk_buf_alloc\<close> within \<^verbatim>\<open>int\<close>.\<close>

abbreviation out :: "fk_conn \<Rightarrow> string" where
  "out c \<equiv> payload (wbuf c)"

text \<open>\<open>replied c rc c' bs\<close>: either \<open>bs\<close> was appended to the output, or the output with \<open>bs\<close> would be
  longer than the limit of the write buffer, a part of \<open>bs\<close> was appended and the result is an error.
  Nothing but the write buffer changed.\<close>

definition replied :: "fk_conn \<Rightarrow> svr_rc \<Rightarrow> fk_conn \<Rightarrow> string \<Rightarrow> bool" where
  "replied c rc c' bs \<longleftrightarrow>
     (rc = SVR_OK \<and> out c' = out c @ bs
      \<or> rc = SVR_ERR \<and> highwat (wbuf c) < length (out c @ bs) \<and> (\<exists>p q. bs = p @ q \<and> out c' = out c @ p))
     \<and> (\<exists>b. c' = c\<lparr>wbuf := b\<rparr> \<and> buf_inv b \<and> highwat b = highwat (wbuf c))"

lemma replied_refl: "conn_inv c \<Longrightarrow> replied c SVR_OK c []"
  by (auto simp: replied_def conn_inv_def intro: exI [of _ "wbuf c"])

lemma replied_trans:
  "replied c SVR_OK c1 bs1 \<Longrightarrow> replied c1 rc c2 bs2 \<Longrightarrow> replied c rc c2 (bs1 @ bs2)"
  by (auto simp: replied_def)

lemma replied_err: "replied c SVR_ERR c1 bs1 \<Longrightarrow> replied c SVR_ERR c1 (bs1 @ bs2)"
  by (auto simp: replied_def)

lemma replied_rc: "replied c rc c' bs \<Longrightarrow> rc = SVR_OK \<or> rc = SVR_ERR"
  by (auto simp: replied_def)

lemma replied_fits:
  "replied c rc c' bs \<Longrightarrow> length (out c) + length bs \<le> highwat (wbuf c) \<Longrightarrow> rc = SVR_OK \<and> out c' = out c @ bs"
  by (auto simp: replied_def)

lemma replied_fields:
  "replied c rc c' bs \<Longrightarrow> fd c' = fd c \<and> ctype c' = ctype c \<and> write_added c' = write_added c \<and> rbuf c' = rbuf c
     \<and> last_recv c' = last_recv c \<and> arg_vtr c' = arg_vtr c \<and> arg_parsed c' = arg_parsed c \<and> arg_cnt c' = arg_cnt c
     \<and> cur_arglen c' = cur_arglen c \<and> parse_done c' = parse_done c \<and> db_idx c' = db_idx c
     \<and> highwat (wbuf c') = highwat (wbuf c)"
  by (auto simp: replied_def)

lemma add_rsp_spec:
  assumes inv: "conn_inv c" and small: "length (out c) + len < 1073741824" and len: "len = length text"
  shows "\<exists>rc c'. add_rsp len text c = Some (rc, c') \<and> replied c rc c' text"
proof -
  have b: "buf_inv (wbuf c)"
    using inv by (simp add: conn_inv_def)
  have cut: "take len (snprintf_block fr (len + 1) text) = text" for fr
    unfolding len by (rule snprintf_block_exact)
  have "length (out c) + length text < 1073741824"
    using small len by simp
  with b show ?thesis
  proof (cases rule: bufq.emit_cases)
    case (1 b1 b2)
    then show ?thesis
      using cut len by (auto simp: add_rsp_def replied_def)
  next
    case (2 b1)
    then show ?thesis
      using len by (auto simp: add_rsp_def replied_def)
  qed
qed

lemma replied_inv: "conn_inv c \<Longrightarrow> replied c rc c' bs \<Longrightarrow> conn_inv c'"
  by (auto simp: replied_def conn_inv_def args_inv_def)

lemma print_int_length: "length (print_int n) = fk_util_decimal_digit n"
  by (simp add: decimal_digit_eq)

lemma cstr_id: "CHR 0x00 \<notin> set s \<Longrightarrow> cstr s = s"
  by (auto simp: cstr_def)

text \<open>The line each function sends; the lengths the callers pass are those of the texts.\<close>

lemma status_rsp_spec:
  assumes "conn_inv c" and "length (out c) + length s + 3 < 1073741824" and "CHR 0x00 \<notin> set s"
  shows "\<exists>rc c'. fk_conn_add_status_rsp s (length s) c = Some (rc, c') \<and> replied c rc c' (CHR ''+'' # s @ crlf)"
  using assms by (simp add: fk_conn_add_status_rsp_def cstr_id add_rsp_spec crlf_def)

lemma error_rsp_spec:
  assumes "conn_inv c" and "length (out c) + length s + 3 < 1073741824" and "CHR 0x00 \<notin> set s"
  shows "\<exists>rc c'. fk_conn_add_error_rsp s (length s) c = Some (rc, c') \<and> replied c rc c' (CHR ''-'' # s @ crlf)"
  using assms by (simp add: fk_conn_add_error_rsp_def cstr_id add_rsp_spec crlf_def)

lemma content_rsp_spec:
  assumes "conn_inv c" and "length (out c) + length s + 2 < 1073741824" and "CHR 0x00 \<notin> set s"
  shows "\<exists>rc c'. fk_conn_add_content_rsp s (length s) c = Some (rc, c') \<and> replied c rc c' (s @ crlf)"
  using assms by (simp add: fk_conn_add_content_rsp_def cstr_id add_rsp_spec crlf_def)

lemma int_rsp_spec:
  assumes "conn_inv c" and "length (out c) + length (print_int n) + 3 < 1073741824"
  shows "\<exists>rc c'. fk_conn_add_int_rsp n c = Some (rc, c') \<and> replied c rc c' (CHR '':'' # print_int n @ crlf)"
  using assms by (simp add: fk_conn_add_int_rsp_def add_rsp_spec crlf_def decimal_digit_eq)

lemma bulk_rsp_spec:
  assumes "conn_inv c" and "length (out c) + length (print_int n) + 3 < 1073741824"
  shows "\<exists>rc c'. fk_conn_add_bulk_rsp n c = Some (rc, c') \<and> replied c rc c' (CHR ''$'' # print_int n @ crlf)"
  using assms by (simp add: fk_conn_add_bulk_rsp_def add_rsp_spec crlf_def decimal_digit_eq)

lemma mbulk_rsp_spec:
  assumes "conn_inv c" and "length (out c) + length (print_int n) + 3 < 1073741824"
  shows "\<exists>rc c'. fk_conn_add_mbulk_rsp n c = Some (rc, c') \<and> replied c rc c' (CHR ''*'' # print_int n @ crlf)"
  using assms by (simp add: fk_conn_add_mbulk_rsp_def add_rsp_spec crlf_def decimal_digit_eq)

lemmas rsp_specs = status_rsp_spec error_rsp_spec content_rsp_spec int_rsp_spec bulk_rsp_spec mbulk_rsp_spec

subsection \<open>Receiving\<close>

text \<open>The data a socket still delivers.\<close>

fun sock_data :: "sock_ev list \<Rightarrow> string" where
  "sock_data (Chunk bs # es) = bs @ sock_data es"
| "sock_data _ = []"

lemma recv_got:
  "recv es n = (Got bs, es') \<Longrightarrow> 0 < n \<Longrightarrow> bs \<noteq> [] \<and> length bs \<le> n \<and> sock_data es = bs @ sock_data es'"
  by (induction es n rule: recv.induct) (auto split: if_splits)

lemma recv_other:
  "recv es n = (r, es') \<Longrightarrow> \<forall>bs. r \<noteq> Got bs \<Longrightarrow> sock_data es = [] \<and> sock_data es' = []"
  by (induction es n rule: recv.induct) (auto split: if_splits)

text \<open>What one call of \<^verbatim>\<open>fk_conn_recv_data\<close> does: it keeps what is in the buffer and appends what
  the socket delivered.\<close>

definition received :: "fk_conn \<Rightarrow> sock_ev list \<Rightarrow> svr_rc \<Rightarrow> fk_conn \<Rightarrow> sock_ev list \<Rightarrow> bool" where
  "received c sock rc c' sock' \<longleftrightarrow>
     (\<exists>bs. payload (rbuf c') = payload (rbuf c) @ bs \<and> sock_data sock = bs @ sock_data sock'
        \<and> ((rc = SVR_OK \<or> rc = SVR_DONE) \<longleftrightarrow> bs \<noteq> []))
     \<and> (\<exists>b t. c' = c\<lparr>rbuf := b, last_recv := t\<rparr>)"

lemma conn_inv_rbuf: "conn_inv c \<Longrightarrow> buf_inv b \<Longrightarrow> conn_inv (c\<lparr>rbuf := b, last_recv := t\<rparr>)"
  by (auto simp: conn_inv_def args_inv_def)

lemma recv_data_spec:
  assumes inv: "conn_inv c"
  shows "\<exists>rc sock' c'. fk_conn_recv_data now sock c = Some (rc, sock', c') \<and> conn_inv c'
    \<and> received c sock rc c' sock'"
proof -
  have b: "buf_inv (rbuf c)"
    using inv by (simp add: conn_inv_def)
  obtain b1 where b1: "(if fk_buf_payload_len (rbuf c) > 3 * (blen (rbuf c) div 4)
      then fk_buf_shift (rbuf c) else Some (rbuf c)) = Some b1" "buf_inv b1" "payload b1 = payload (rbuf c)"
    using shift_spec [OF b] b by (cases "fk_buf_payload_len (rbuf c) > 3 * (blen (rbuf c) div 4)") auto
  define b2 where "b2 = (if fk_buf_free_len b1 = 0 then fk_buf_stretch b1 else b1)"
  have b2: "buf_inv b2" "payload b2 = payload (rbuf c)"
    using b1 buf_stretch_spec [OF b1(2)] by (auto simp: b2_def)
  have ci: "conn_inv (c\<lparr>rbuf := b2\<rparr>)"
    using conn_inv_rbuf [OF inv b2(1), of "last_recv c"] by simp
  have upd: "\<exists>b t. c\<lparr>rbuf := b2\<rparr> = c\<lparr>rbuf := b, last_recv := t\<rparr>"
    by (intro exI [of _ b2] exI [of _ "last_recv c"]) simp
  show ?thesis
  proof (cases "fk_buf_free_len b2 = 0")
    case True
    then have "fk_conn_recv_data now sock c = Some (SVR_ERR, sock, c\<lparr>rbuf := b2\<rparr>)"
      using b1(1) by (simp add: fk_conn_recv_data_def Let_def flip: b2_def)
    then show ?thesis
      using ci b2(2) upd by (simp add: received_def)
  next
    case False
    obtain r sock' where r: "recv sock (fk_buf_free_len b2) = (r, sock')"
      by fastforce
    show ?thesis
    proof (cases r)
      case (Got bs)
      then have bs: "bs \<noteq> []" "length bs \<le> fk_buf_free_len b2" "sock_data sock = bs @ sock_data sock'"
        using recv_got r False by auto
      obtain b3 where b3: "buf_put b2 bs = Some b3" "buf_inv b3" "payload b3 = payload b2 @ bs"
        using put_spec [OF b2(1) bs(2)] by blast
      let ?c = "c\<lparr>rbuf := b3, last_recv := now\<rparr>"
      have "fk_conn_recv_data now sock c
        = Some (if length bs < fk_buf_free_len b2 then SVR_DONE else SVR_OK, sock', ?c)"
        using b1(1) False r Got b3(1) by (simp add: fk_conn_recv_data_def Let_def flip: b2_def)
      moreover have "received c sock (if length bs < fk_buf_free_len b2 then SVR_DONE else SVR_OK) ?c sock'"
        using bs b3 b2(2) unfolding received_def by (intro conjI exI [of _ bs] exI) auto
      ultimately show ?thesis
        using conn_inv_rbuf [OF inv b3(2)] by blast
    qed (use recv_other [OF r] b1(1) False r ci b2(2) upd in
        \<open>simp_all add: fk_conn_recv_data_def Let_def received_def flip: b2_def\<close>)
  qed
qed

end
