(* ===== verification/Fk_Parse.thy ===== *)
theory Fk_Parse
  imports Fk_Conn
begin

text \<open>
  The request parser against the protocol: the encoding of a request, the states the parser
  passes through while it reads one, and the theorems that it accepts every encoded request,
  however its bytes arrive.
\<close>

subsection \<open>The encoding of a request\<close>

definition enc_arg :: "string \<Rightarrow> string" where
  "enc_arg a = CHR ''$'' # print_nat (length a) @ crlf @ a @ crlf"

definition enc_args :: "string list \<Rightarrow> string" where
  "enc_args as = concat (map enc_arg as)"

definition enc_req :: "string list \<Rightarrow> string" where
  "enc_req as = CHR ''*'' # print_nat (length as) @ crlf @ enc_args as"

definition req_ok :: "string list \<Rightarrow> bool" where
  "req_ok as \<longleftrightarrow> 1 \<le> length as \<and> length as \<le> 128 \<and> list_all arg_ok as"

subsection \<open>Positions inside a request\<close>

text \<open>\<open>parse_at c as rem\<close>: the parser has read a part of the request \<open>as\<close> and \<open>rem\<close> is what is
  missing: the whole request, or the arguments from the current one on, or the same without the
  length line of the current one.\<close>

definition parse_at :: "fk_conn \<Rightarrow> string list \<Rightarrow> string \<Rightarrow> bool" where
  "parse_at c as rem \<longleftrightarrow>
     req_ok as \<and> conn_inv c \<and> parse_done c = 0 \<and> args_inv c (take (nat (arg_cnt c)) as)
     \<and> (arg_parsed c = 0 \<and> rem = enc_req as
        \<or> arg_parsed c = int (length as) \<and> cur_arglen c = - 1 \<and> rem = enc_args (drop (nat (arg_cnt c)) as)
        \<or> arg_parsed c = int (length as) \<and> cur_arglen c = int (length (as ! nat (arg_cnt c)))
          \<and> rem = as ! nat (arg_cnt c) @ crlf @ enc_args (drop (Suc (nat (arg_cnt c))) as))"

text \<open>\<open>c'\<close> has read \<open>used\<close> more than \<open>c\<close>.\<close>

definition advanced :: "fk_conn \<Rightarrow> string \<Rightarrow> fk_conn \<Rightarrow> string \<Rightarrow> bool" where
  "advanced c rem c' rem' \<longleftrightarrow>
     (\<exists>used. rem = used @ rem' \<and> payload (rbuf c) = used @ payload (rbuf c')) \<and> same_io c c'"

lemma advanced_refl [simp]: "advanced c rem c rem"
  by (simp add: advanced_def)

lemma advanced_trans: "advanced a r b s \<Longrightarrow> advanced b s c t \<Longrightarrow> advanced a r c t"
  unfolding advanced_def by (metis append.assoc same_io_trans)

lemma length_print_nat_le: "n < 10 ^ k \<Longrightarrow> 0 < k \<Longrightarrow> length (print_nat n) \<le> k"
proof (induction k arbitrary: n)
  case (Suc k)
  show ?case
  proof (cases "n < 10")
    case True
    then show ?thesis by (subst print_nat.simps) simp
  next
    case False
    have lt: "n div 10 < 10 ^ k"
      using Suc.prems by (simp add: less_mult_imp_div_less mult.commute)
    have "0 < k"
      using False Suc.prems by (cases k) auto
    then show ?thesis
      using Suc.IH [OF lt] False by (subst print_nat.simps) simp
  qed
qed simp

lemma count_line_short: "n \<le> 128 \<Longrightarrow> length (print_nat n) + 2 \<le> FK_ARG_CNT_LINE_HIGHWAT"
  using length_print_nat_le [of n 3] by (simp add: fk_consts)

lemma arglen_line_short: "n \<le> 1048576 \<Longrightarrow> length (print_nat n) + 2 \<le> FK_ARG_LEN_LINE_HIGHWAT"
  using length_print_nat_le [of n 7] by (simp add: fk_consts)

lemma enc_args_Cons: "enc_args (a # as) = enc_arg a @ enc_args as"
  by (simp add: enc_args_def)

lemma parse_at_lt:
  assumes "parse_at c as rem" and "arg_parsed c \<noteq> 0"
  shows "nat (arg_cnt c) < length as" and "arg_ok (as ! nat (arg_cnt c))" and "0 \<le> arg_cnt c"
    and "arg_cnt c < arg_parsed c" and "arg_parsed c = int (length as)"
proof -
  have *: "args_inv c (take (nat (arg_cnt c)) as)" "parse_done c = 0" "arg_parsed c = int (length as)" "req_ok as"
    using assms by (auto simp: parse_at_def)
  then show "0 \<le> arg_cnt c" "arg_cnt c < arg_parsed c"
    using assms(2) by (auto simp: args_inv_def)
  with *(3) show lt: "nat (arg_cnt c) < length as"
    by linarith
  then show "arg_ok (as ! nat (arg_cnt c))"
    using *(4) by (auto simp: req_ok_def list_all_length)
  show "arg_parsed c = int (length as)"
    by (fact *(3))
qed

text \<open>The next position, when the length line or the argument has been consumed.\<close>

lemma parse_at_len:
  assumes at: "parse_at c as rem" and ap: "arg_parsed c \<noteq> 0" and ca: "cur_arglen c = -1"
  shows "parse_at (c\<lparr>cur_arglen := int (length (as ! nat (arg_cnt c))), rbuf := fk_buf_low_inc (rbuf c) n\<rparr>) as
    (as ! nat (arg_cnt c) @ crlf @ enc_args (drop (Suc (nat (arg_cnt c))) as))"
proof -
  let ?c = "c\<lparr>cur_arglen := int (length (as ! nat (arg_cnt c))), rbuf := fk_buf_low_inc (rbuf c) n\<rparr>"
  note lt = parse_at_lt [OF at ap]
  have *: "conn_inv c" "buf_inv (rbuf c)" "args_inv c (take (nat (arg_cnt c)) as)" "parse_done c = 0" "req_ok as"
    using at by (auto simp: parse_at_def conn_inv_def)
  have ok: "0 \<le> int (length (as ! nat (arg_cnt c)))" "int (length (as ! nat (arg_cnt c))) \<le> FK_ARG_HIGHWAT"
    using lt(2) by (simp_all add: arg_ok_def)
  have "conn_inv ?c"
    using conn_inv_rbuf_low [OF *(1) low_inc_spec(1) [OF *(2)] *(3) ok ap *(4)] .
  moreover have "args_inv ?c (take (nat (arg_cnt c)) as)"
    using *(3) ok ap \<open>parse_done c = 0\<close> by (simp add: args_inv_def)
  ultimately show ?thesis
    using *(4,5) lt(5) by (simp add: parse_at_def)
qed

text \<open>The length line of the current argument.\<close>

lemma parse_arglen_stream:
  assumes at: "parse_at c as rem" and ap: "arg_parsed c \<noteq> 0" and ca: "cur_arglen c = -1"
    and m: "payload (rbuf c) = take m (rem @ rest)" "0 < m"
  shows "(\<exists>c' rem'. parse_arglen c = Some (Inr c') \<and> parse_at c' as rem' \<and> advanced c rem c' rem'
      \<and> cur_arglen c' \<noteq> -1 \<and> arg_parsed c' = arg_parsed c)
    \<or> parse_arglen c = Some (Inl SVR_AGAIN) \<and> m < length rem"
proof -
  let ?k = "nat (arg_cnt c)"
  define a where "a = as ! ?k"
  define line where "line = CHR ''$'' # print_nat (length a) @ crlf"
  define R where "R = a @ crlf @ enc_args (drop (Suc ?k) as)"
  note lt = parse_at_lt [OF at ap, folded a_def]
  have b: "buf_inv (rbuf c)" "conn_inv c"
    using at by (auto simp: parse_at_def conn_inv_def)
  have "drop ?k as = a # drop (Suc ?k) as"
    using lt(1) by (simp add: Cons_nth_drop_Suc a_def)
  moreover have "rem = enc_args (drop ?k as)"
    using at ap ca by (auto simp: parse_at_def)
  ultimately have rem: "rem = line @ R"
    by (simp add: enc_args_Cons enc_arg_def line_def R_def)
  have alen: "int (length a) \<le> 1048576"
    using lt(2) by (simp add: arg_ok_def fk_consts)
  have hw: "length (print_nat (length a)) + 2 \<le> FK_ARG_LEN_LINE_HIGHWAT"
    using alen by (intro arglen_line_short) linarith
  show ?thesis
  proof (cases "m < length line")
    case True
    then have p: "payload (rbuf c) = take m (CHR ''$'' # print_nat (length a) @ crlf)"
      using m(1) rem by (simp flip: line_def)
    have "m < length (print_nat (length a)) + 3"
      using True by (simp add: crlf_def line_def)
    then have "parse_arglen c = Some (Inl SVR_AGAIN)"
      using parse_hdr_prefix [OF b(1) p m(2) _ hw] ca by (simp add: parse_arglen_def)
    then show ?thesis
      using True rem by simp
  next
    case False
    let ?n = "length line"
    let ?c = "c\<lparr>cur_arglen := int (length a), rbuf := fk_buf_low_inc (rbuf c) ?n\<rparr>"
    have p: "payload (rbuf c) = line @ take (m - ?n) (R @ rest)"
      using False m(1) rem by simp
    then have p': "payload (rbuf c) = CHR ''$'' # print_nat (length a) @ crlf @ take (m - ?n) (R @ rest)"
      by (simp add: line_def)
    have n: "?n = length (print_nat (length a)) + 3"
      by (simp add: line_def crlf_def)
    have "parse_hdr (CHR ''$'') FK_ARG_LEN_LINE_HIGHWAT fk_util_is_nonminus_seq
        (\<lambda>argl. argl < 0 \<or> argl > FK_ARG_HIGHWAT) (rbuf c) = Some (Hdr (int (length a)) ?n)"
      unfolding n using alen
      by (intro parse_hdr_line [OF b(1) p' hw]) (auto simp: fk_consts nonminus_seq_print_nat)
    then have h: "parse_arglen c = Some (Inr ?c)"
      using ca by (simp add: parse_arglen_def)
    have "payload (fk_buf_low_inc (rbuf c) ?n) = take (m - ?n) (R @ rest)"
      using low_inc_spec(2) [OF b(1), of ?n] p by simp
    then have adv: "advanced c rem ?c R"
      using p rem by (simp add: advanced_def same_io_def)
    have "parse_at ?c as R"
      using parse_at_len [OF at ap ca] by (simp add: R_def a_def)
    with h adv show ?thesis by auto
  qed
qed

text \<open>The argument itself, when it has arrived: it is stored and the position moves behind it.\<close>

definition arg_stored :: "fk_conn \<Rightarrow> string list \<Rightarrow> string \<Rightarrow> fk_conn \<Rightarrow> bool" where
  "arg_stored c as a c' \<longleftrightarrow> parse_arg c = Some (if arg_parsed c = arg_cnt c' then Some SVR_OK else None, c') \<and> conn_inv c'
     \<and> args_inv c' (take (Suc (nat (arg_cnt c))) as) \<and> arg_cnt c' = arg_cnt c + 1 \<and> cur_arglen c' = -1 \<and> arg_parsed c' = arg_parsed c
     \<and> parse_done c' = (if arg_parsed c = arg_cnt c' then 1 else 0) \<and> rbuf c' = fk_buf_low_inc (rbuf c) (length a + 2) \<and> same_io c c'"

lemma parse_arg_complete:
  assumes at: "parse_at c as rem" and ap: "arg_parsed c \<noteq> 0" and ca: "cur_arglen c \<noteq> -1" and a: "a = as ! nat (arg_cnt c)"
    and p: "payload (rbuf c) = a @ crlf @ later"
  obtains c' where "arg_stored c as a c'"
proof -
  let ?k = "nat (arg_cnt c)"
  note lt = parse_at_lt [OF at ap, folded a]
  have *: "conn_inv c" "buf_inv (rbuf c)" "args_inv c (take ?k as)" "parse_done c = 0" "req_ok as" and ca': "cur_arglen c = int (length a)"
    using at ap ca unfolding a by (auto simp: parse_at_def conn_inv_def)
  have sz: "size_of_int (cur_arglen c) = length a"
    using size_of_arglen [OF *(3) ca] ca' by simp
  have room: "\<not> fk_buf_payload_len (rbuf c) < length a + 2"
    using length_payload [OF *(2)] p by (simp add: crlf_def)
  let ?b = "fk_buf_low_inc (rbuf c) (length a + 2)"
  obtain post where post: "drop (low (rbuf c)) (buffer (rbuf c)) = payload (rbuf c) @ post"
    using buf_split [OF *(2)] by blast
  then have st: "fk_str_create (drop (low (rbuf c)) (buffer (rbuf c))) (length a) = Some a"
    using p by (simp add: fk_str_create_def mem_slice_def)
  have r: "nth_opt (buffer (rbuf c)) (low (rbuf c) + length a) = Some (CHR 0x0D)"
    "nth_opt (buffer (rbuf c)) (Suc (low (rbuf c) + length a)) = Some (CHR 0x0A)"
    using buf_read [OF *(2), of "length a"] buf_read [OF *(2), of "Suc (length a)"] p by (simp_all add: crlf_def nth_append)
  have cnt: "s32 (arg_cnt c + 1) = arg_cnt c + 1"
    using lt(3-5) *(5) by (simp add: req_ok_def s32_id)
  have "take ?k as @ [a] = take (Suc ?k) as"
    using lt(1) by (simp add: a take_Suc_conv_app_nth)
  then obtain v where v: "fk_conn_set_arg c (arg_cnt c) (Some (Str a)) = Some (c\<lparr>arg_vtr := v\<rparr>)"
    "args_inv (c\<lparr>arg_vtr := v, arg_cnt := arg_cnt c + 1, cur_arglen := - 1, rbuf := ?b,
      parse_done := if arg_parsed c = arg_cnt c + 1 then 1 else 0\<rparr>) (take (Suc ?k) as)"
    using args_inv_push [OF *(3) lt(4) lt(2)] unfolding cnt by metis
  let ?c = "c\<lparr>arg_vtr := v, arg_cnt := arg_cnt c + 1, cur_arglen := - 1, rbuf := ?b,
      parse_done := if arg_parsed c = arg_cnt c + 1 then 1 else 0\<rparr>"
  have "parse_arg c = Some (if arg_parsed c = arg_cnt c + 1 then Some SVR_OK else None, ?c)"
    using ca room sz r st v(1) *(4) cnt by (auto simp: parse_arg_def Let_def)
  moreover have "conn_inv ?c"
    using v(2) *(1,2) low_inc_spec(1) [OF *(2)] unfolding conn_inv_def by auto
  ultimately show thesis
    using v(2) by (intro that [of ?c]) (simp add: arg_stored_def same_io_def)
qed

lemma parse_arg_stream:
  assumes at: "parse_at c as rem" and ap: "arg_parsed c \<noteq> 0" and ca: "cur_arglen c \<noteq> -1"
    and m: "payload (rbuf c) = take m (rem @ rest)"
  shows "(\<exists>c' rem'. parse_arg c = Some (None, c') \<and> parse_at c' as rem' \<and> advanced c rem c' rem'
      \<and> arg_parsed c' = arg_parsed c)
    \<or> (\<exists>c'. parse_arg c = Some (Some SVR_OK, c') \<and> conn_inv c' \<and> args_inv c' as \<and> parse_done c' = 1
        \<and> advanced c rem c' [])
    \<or> parse_arg c = Some (Some SVR_AGAIN, c) \<and> m < length rem"
proof -
  let ?k = "nat (arg_cnt c)"
  define a where "a = as ! ?k"
  define R where "R = enc_args (drop (Suc ?k) as)"
  note lt = parse_at_lt [OF at ap, folded a_def]
  have *: "buf_inv (rbuf c)" "args_inv c (take ?k as)" "req_ok as" and ca': "cur_arglen c = int (length a)" and rem: "rem = a @ crlf @ R"
    using at ap ca unfolding a_def R_def by (auto simp: parse_at_def conn_inv_def)
  show ?thesis
  proof (cases "length a + 2 \<le> m")
    case False
    then have "m < length rem" "fk_buf_payload_len (rbuf c) < length a + 2"
      using m length_payload [OF *(1)] rem by (simp_all add: crlf_def)
    then show ?thesis
      using ca size_of_arglen [OF *(2) ca] ca' by (simp add: parse_arg_def Let_def)
  next
    case True
    then have p: "payload (rbuf c) = a @ crlf @ take (m - length a - 2) (R @ rest)"
      using m rem by (simp add: crlf_def numeral_2_eq_2 take_Cons')
    from parse_arg_complete [OF at ap ca a_def this] obtain c' where c': "arg_stored c as a c'" .
    have "payload (rbuf c') = take (m - length a - 2) (R @ rest)"
      using c' low_inc_spec(2) [OF *(1), of "length a + 2"] p by (simp add: arg_stored_def crlf_def)
    then have adv: "advanced c rem c' R"
      using p rem c' unfolding advanced_def arg_stored_def by (intro conjI exI [of _ "a @ crlf"]) simp_all
    show ?thesis
    proof (cases "arg_parsed c = arg_cnt c'")
      case True
      then have "Suc ?k = length as"
        using lt(3,5) c' by (simp add: arg_stored_def)
      then have "R = []" "take (Suc ?k) as = as"
        by (simp_all add: R_def enc_args_def)
      then show ?thesis
        using c' adv True by (auto simp: arg_stored_def)
    next
      case False
      have "nat (arg_cnt c') = Suc ?k"
        using c' lt(3) by (simp add: arg_stored_def)
      then have "parse_at c' as R"
        using False c' *(3) lt(5) by (simp add: parse_at_def R_def arg_stored_def)
      then show ?thesis
        using c' adv False by (auto simp: arg_stored_def)
    qed
  qed
qed

subsection \<open>Whole requests\<close>

lemma advanced_take:
  assumes "advanced c rem c' rem'" and "payload (rbuf c) = take m (rem @ rest)" and "m \<le> length (rem @ rest)"
  shows "\<exists>m'. payload (rbuf c') = take m' (rem' @ rest) \<and> m' \<le> length (rem' @ rest)
    \<and> (length rem \<le> m \<longleftrightarrow> length rem' \<le> m') \<and> m - length rem = m' - length rem'"
proof -
  obtain u where u: "rem = u @ rem'" "payload (rbuf c) = u @ payload (rbuf c')"
    using assms(1) by (auto simp: advanced_def)
  have lu: "length u \<le> m"
  proof -
    have "length (payload (rbuf c)) = m"
      using assms(2,3) by simp
    then show ?thesis
      using u(2) by simp
  qed
  have "u @ payload (rbuf c') = u @ take (m - length u) (rem' @ rest)"
    using u assms(2) lu by simp
  then show ?thesis
    using u(1) lu assms(3) by (intro exI [of _ "m - length u"]) auto
qed

text \<open>One step of the loop, on any part of the stream that starts with the rest of the request: it goes on, it has the request, or it waits.\<close>

lemma parse_step_stream:
  assumes at: "parse_at c as rem" and ap: "arg_parsed c \<noteq> 0" and m: "payload (rbuf c) = take m (rem @ rest)" "0 < m" "m \<le> length (rem @ rest)"
  shows "(\<exists>c' rem'. parse_step c = Some (None, c') \<and> parse_at c' as rem' \<and> advanced c rem c' rem' \<and> arg_parsed c' \<noteq> 0)
    \<or> (\<exists>c'. parse_step c = Some (Some SVR_OK, c') \<and> conn_inv c' \<and> args_inv c' as \<and> parse_done c' = 1 \<and> advanced c rem c' [])
    \<or> (\<exists>c' rem'. parse_step c = Some (Some SVR_AGAIN, c') \<and> parse_at c' as rem' \<and> advanced c rem c' rem' \<and> m < length rem)"
proof -
  consider (len) c1 rem1 where "parse_arglen c = Some (Inr c1)" "parse_at c1 as rem1" "advanced c rem c1 rem1"
      "cur_arglen c1 \<noteq> -1" "arg_parsed c1 = arg_parsed c"
    | (again) "parse_arglen c = Some (Inl SVR_AGAIN)" "m < length rem"
  proof (cases "cur_arglen c = -1")
    case True
    then show thesis
      using parse_arglen_stream [OF at ap True m(1,2)] len again by blast
  next
    case False
    then show thesis
      using len [of c rem] at by (simp add: parse_arglen_def)
  qed
  then show ?thesis
  proof cases
    case again
    then show ?thesis
      using at by (auto simp: parse_step_def intro!: exI [of _ rem])
  next
    case len
    obtain m1 where m1: "payload (rbuf c1) = take m1 (rem1 @ rest)" "length rem \<le> m \<longleftrightarrow> length rem1 \<le> m1"
      using advanced_take [OF len(3) m(1,3)] by blast
    have ap1: "arg_parsed c1 \<noteq> 0"
      using len(5) ap by simp
    have step: "parse_step c = parse_arg c1"
      using len(1) by (simp add: parse_step_def)
    show ?thesis
      using parse_arg_stream [OF len(2) ap1 len(4) m1(1)] unfolding step
      using advanced_trans [OF len(3)] len(2,3) ap1 m1(2) by (metis not_le)
  qed
qed

lemma parse_args_stream:
  assumes "parse_at c as rem" and "arg_parsed c \<noteq> 0"
    and "payload (rbuf c) = take m (rem @ rest)" and "m \<le> length (rem @ rest)"
  shows "\<exists>c' rem'. advanced c rem c' rem' \<and>
    (if length rem \<le> m
     then parse_args c = Some (SVR_OK, c') \<and> conn_inv c' \<and> args_inv c' as \<and> parse_done c' = 1 \<and> rem' = []
     else parse_args c = Some (SVR_AGAIN, c') \<and> parse_at c' as rem')"
  using assms
proof (induction c arbitrary: rem m rule: parse_args.induct)
  case (1 c)
  have rem: "rem \<noteq> []"
    using 1(2,3) parse_at_lt(1) [OF 1(2,3)]
    by (auto simp: parse_at_def crlf_def enc_args_def enc_arg_def Cons_nth_drop_Suc [symmetric])
  have len: "fk_buf_payload_len (rbuf c) = m"
    using 1(2,4,5) length_payload [of "rbuf c"] by (simp add: parse_at_def conn_inv_def)
  show ?case
  proof (cases "m = 0")
    case True
    then show ?thesis
      using len 1(2) rem by (auto simp: parse_args.simps [of c] intro!: exI [of _ c] exI [of _ rem])
  next
    case False
    then have ne: "0 < fk_buf_payload_len (rbuf c)" and m: "0 < m"
      using len by simp_all
    from parse_step_stream [OF 1(2,3,4) m 1(5)]
    consider (more) c2 rem2 where "parse_step c = Some (None, c2)" "parse_at c2 as rem2" "advanced c rem c2 rem2" "arg_parsed c2 \<noteq> 0"
      | (ok) c2 where "parse_step c = Some (Some SVR_OK, c2)" "conn_inv c2" "args_inv c2 as" "parse_done c2 = 1" "advanced c rem c2 []"
      | (again) c2 rem2 where "parse_step c = Some (Some SVR_AGAIN, c2)" "parse_at c2 as rem2" "advanced c rem c2 rem2" "m < length rem"
      by blast
    then show ?thesis
    proof cases
      case more
      obtain m2 where m2: "payload (rbuf c2) = take m2 (rem2 @ rest)" "m2 \<le> length (rem2 @ rest)" "length rem \<le> m \<longleftrightarrow> length rem2 \<le> m2"
        using advanced_take [OF more(3) 1(4,5)] by blast
      have "parse_args c = parse_args c2"
        using ne more(1) by (simp add: parse_args.simps [of c])
      then show ?thesis
        using 1(1) [OF ne more(1) refl refl more(2,4) m2(1,2)] m2(3) advanced_trans [OF more(3)] by metis
    next
      case ok
      then have "length rem \<le> length (payload (rbuf c))"
        by (auto simp: advanced_def)
      then show ?thesis
        using ok ne 1(4) by (intro exI [of _ c2] exI [of _ "[]"]) (simp add: parse_args.simps [of c])
    next
      case again
      then show ?thesis
        using ne by (intro exI [of _ c2] exI [of _ rem2]) (simp add: parse_args.simps [of c])
    qed
  qed
qed

text \<open>The count line.\<close>

lemma parse_at_args:
  assumes at: "parse_at c as rem" and ap: "arg_parsed c = 0"
  shows "parse_at (c\<lparr>arg_parsed := int (length as),
      arg_vtr := fk_vtr_stretch (arg_vtr c) (size_of_int (int (length as))),
      rbuf := fk_buf_low_inc (rbuf c) n\<rparr>) as (enc_args as)"
proof -
  let ?v = "fk_vtr_stretch (arg_vtr c) (size_of_int (int (length as)))"
  let ?c = "c\<lparr>arg_parsed := int (length as), arg_vtr := ?v, rbuf := fk_buf_low_inc (rbuf c) n\<rparr>"
  have *: "conn_inv c" "buf_inv (rbuf c)" "buf_inv (wbuf c)" "parse_done c = 0" "req_ok as"
    and as: "args_inv c (take (nat (arg_cnt c)) as)"
    using at by (auto simp: parse_at_def conn_inv_def)
  have k: "arg_cnt c = 0" "cur_arglen c = -1"
    using as ap by (auto simp: args_inv_def)
  have n: "0 < length as" "length as \<le> 128" and sz: "size_of_int (int (length as)) = length as"
    using *(5) by (auto simp: req_ok_def size_of_int_id)
  have "args_inv ?c []"
    using as k n ap *(4) vtr_stretch_room [of "length as" "arg_vtr c"]
    by (auto simp: args_inv_def sz fk_consts fk_vtr_stretch_def vtr_inv_def replicate_add [symmetric])
  then show ?thesis
    using * k low_inc_spec(1) [OF *(2)] n by (auto simp: parse_at_def conn_inv_def)
qed

lemma parse_count_stream:
  assumes at: "parse_at c as rem" and m: "payload (rbuf c) = take m (rem @ rest)" "0 < m" "m \<le> length (rem @ rest)"
  shows "(\<exists>c' rem'. parse_count c = Some (Inr c') \<and> parse_at c' as rem' \<and> advanced c rem c' rem'
      \<and> arg_parsed c' \<noteq> 0)
    \<or> parse_count c = Some (Inl SVR_AGAIN) \<and> m < length rem"
proof (cases "arg_parsed c = 0")
  case False
  then show ?thesis
    using at by (auto simp: parse_count_def intro!: exI [of _ rem])
next
  case True
  define line where "line = CHR ''*'' # print_nat (length as) @ crlf"
  have *: "buf_inv (rbuf c)" "req_ok as" and rem: "rem = line @ enc_args as"
    using at True by (auto simp: parse_at_def conn_inv_def enc_req_def line_def req_ok_def)
  have ne: "fk_buf_payload_len (rbuf c) > 0"
    using length_payload [OF *(1)] m by simp
  have hw: "length (print_nat (length as)) + 2 \<le> FK_ARG_CNT_LINE_HIGHWAT"
    using *(2) by (intro count_line_short) (simp add: req_ok_def)
  have n: "length line = length (print_nat (length as)) + 3"
    by (simp add: line_def crlf_def)
  show ?thesis
  proof (cases "m < length line")
    case lt: True
    then have p: "payload (rbuf c) = take m (CHR ''*'' # print_nat (length as) @ crlf)"
      using m(1) rem by (simp flip: line_def)
    have "parse_count c = Some (Inl SVR_AGAIN)"
      using parse_hdr_prefix [OF *(1) p m(2) _ hw] lt n True ne by (simp add: parse_count_def)
    then show ?thesis
      using lt rem by simp
  next
    case False
    let ?n = "length line"
    let ?c = "c\<lparr>arg_parsed := int (length as), arg_vtr := fk_vtr_stretch (arg_vtr c) (size_of_int (int (length as))),
      rbuf := fk_buf_low_inc (rbuf c) ?n\<rparr>"
    have p: "payload (rbuf c) = line @ take (m - ?n) (enc_args as @ rest)"
      using False m(1) rem by simp
    then have p': "payload (rbuf c) = CHR ''*'' # print_nat (length as) @ crlf @ take (m - ?n) (enc_args as @ rest)"
      by (simp add: line_def)
    have "parse_hdr (CHR ''*'') FK_ARG_CNT_LINE_HIGHWAT fk_util_is_positive_seq
        (\<lambda>argc. argc \<le> 0 \<or> argc > FK_ARG_CNT_HIGHWAT) (rbuf c) = Some (Hdr (int (length as)) ?n)"
      unfolding n using *(2)
      by (intro parse_hdr_line [OF *(1) p' hw]) (auto simp: fk_consts positive_seq_print_nat req_ok_def)
    then have h: "parse_count c = Some (Inr ?c)"
      using True ne by (simp add: parse_count_def)
    have "payload (fk_buf_low_inc (rbuf c) ?n) = take (m - ?n) (enc_args as @ rest)"
      using low_inc_spec(2) [OF *(1), of ?n] p by simp
    then have "advanced c rem ?c (enc_args as)"
      using p rem by (simp add: advanced_def same_io_def)
    moreover have "parse_at ?c as (enc_args as)" and "arg_parsed ?c \<noteq> 0"
      using parse_at_args [OF at True] *(2) by (auto simp: req_ok_def)
    ultimately show ?thesis
      using h by blast
  qed
qed

lemma parse_req_stream_gen:
  assumes at: "parse_at c as rem" and p: "payload (rbuf c) = take m (rem @ rest)" and m: "m \<le> length (rem @ rest)"
    and ne: "0 < m"
  shows "\<exists>c' rem'. advanced c rem c' rem' \<and>
    (if length rem \<le> m
     then fk_conn_parse_req c = Some (SVR_OK, c') \<and> conn_inv c' \<and> args_inv c' as \<and> parse_done c' = 1 \<and> rem' = []
     else fk_conn_parse_req c = Some (SVR_AGAIN, c') \<and> parse_at c' as rem')"
  using parse_count_stream [OF at p ne m]
proof (elim disjE exE conjE)
  fix c1 rem1
  assume c1: "parse_count c = Some (Inr c1)" "parse_at c1 as rem1" "advanced c rem c1 rem1" "arg_parsed c1 \<noteq> 0"
  obtain m1 where m1: "payload (rbuf c1) = take m1 (rem1 @ rest)" "m1 \<le> length (rem1 @ rest)"
    "length rem \<le> m \<longleftrightarrow> length rem1 \<le> m1"
    using advanced_take [OF c1(3) p m] by blast
  have "fk_conn_parse_req c = parse_args c1"
    using c1(1) by (simp add: fk_conn_parse_req_def)
  then show ?thesis
    using parse_args_stream [OF c1(2,4) m1(1,2)] m1(3) advanced_trans [OF c1(3)] by metis
next
  assume "parse_count c = Some (Inl SVR_AGAIN)" "m < length rem"
  then show ?thesis
    using at by (auto simp: fk_conn_parse_req_def intro!: exI [of _ c] exI [of _ rem])
qed

lemma parse_at_start:
  assumes "conn_inv c" and "parse_done c = 0" and "arg_parsed c = 0" and "req_ok as"
  shows "parse_at c as (enc_req as)"
proof -
  obtain xs where "args_inv c xs"
    using assms(1) by (auto simp: conn_inv_def)
  moreover have "xs = []" "arg_cnt c = 0"
    using calculation assms(3) by (auto simp: args_inv_def)
  ultimately show ?thesis
    using assms by (simp add: parse_at_def)
qed

subsection \<open>Properties\<close>

text \<open>
  C5. Round trip of the protocol: a connection at the start of a request whose buffer begins with the
  encoding of any admissible request (1 to 128 arguments of at most one mebibyte, any bytes) gets
  exactly these arguments from the parser, which consumes exactly the encoding and leaves what follows.
\<close>

theorem parse_req_roundtrip:
  assumes "conn_inv c" and "parse_done c = 0" and "arg_parsed c = 0" and "req_ok as"
    and "payload (rbuf c) = enc_req as @ rest"
  shows "\<exists>c'. fk_conn_parse_req c = Some (SVR_OK, c') \<and> args_of c' = as \<and> payload (rbuf c') = rest
    \<and> conn_inv c' \<and> parse_done c' = 1 \<and> same_io c c'"
proof -
  have "0 < length (enc_req as @ rest)"
    by (simp add: enc_req_def)
  then obtain c' where c': "advanced c (enc_req as) c' []" "fk_conn_parse_req c = Some (SVR_OK, c')"
    "conn_inv c'" "args_inv c' as" "parse_done c' = 1"
    using parse_req_stream_gen [OF parse_at_start [OF assms(1-4)], of "length (enc_req as @ rest)" rest] assms(5)
    by auto
  then have "payload (rbuf c') = rest" "same_io c c'"
    using assms(5) by (auto simp: advanced_def)
  with c' show ?thesis
    using args_of_eq by blast
qed

text \<open>
  C6. Parsing is incremental: when the bytes of a request arrive in pieces, a call of the parser on
  any proper prefix of what is still missing asks for more (it never reports an error) and stops at a
  later position of the same request, keeping the unread bytes; a call on all that is missing
  completes the request with exactly its arguments and leaves the bytes of the next one.
\<close>

theorem parse_req_incremental:
  assumes "parse_at c as rem" and "payload (rbuf c) = take m (rem @ rest)" and "0 < m" and "m \<le> length (rem @ rest)"
  shows "if m < length rem
    then \<exists>c' rem' used. fk_conn_parse_req c = Some (SVR_AGAIN, c') \<and> parse_at c' as rem'
      \<and> rem = used @ rem' \<and> payload (rbuf c) = used @ payload (rbuf c')
    else \<exists>c'. fk_conn_parse_req c = Some (SVR_OK, c') \<and> args_of c' = as
      \<and> payload (rbuf c') = take (m - length rem) rest \<and> conn_inv c'"
proof -
  obtain c' rem' where *: "advanced c rem c' rem'"
    "if length rem \<le> m
     then fk_conn_parse_req c = Some (SVR_OK, c') \<and> conn_inv c' \<and> args_inv c' as \<and> parse_done c' = 1 \<and> rem' = []
     else fk_conn_parse_req c = Some (SVR_AGAIN, c') \<and> parse_at c' as rem'"
    using parse_req_stream_gen [OF assms(1,2,4,3)] by blast
  show ?thesis
  proof (cases "m < length rem")
    case True
    then show ?thesis
      using * unfolding advanced_def by auto
  next
    case False
    then have c': "fk_conn_parse_req c = Some (SVR_OK, c')" "conn_inv c'" "args_of c' = as" "rem' = []"
      using *(2) args_of_eq by auto
    have "rem @ payload (rbuf c') = rem @ take (m - length rem) rest"
      using *(1) c'(4) assms(2) False by (auto simp: advanced_def)
    then show ?thesis
      using c' False by auto
  qed
qed

text \<open>A connection that has just received some bytes.\<close>

definition conn_with :: "string \<Rightarrow> fk_conn" where
  "conn_with bs =
     \<lparr>fd = 7, ctype = CONN_REAL, write_added = 0,
      rbuf = \<lparr>highwat = FK_BUF_HIGHWAT, init_len = 16, blen = length bs + 16, low = 0, high = length bs,
              buffer = bs @ replicate 16 (CHR 0x00), fresh = (\<lambda>_. CHR 0x00)\<rparr>,
      wbuf = \<lparr>highwat = FK_BUF_HIGHWAT, init_len = 16, blen = 16, low = 0, high = 0,
              buffer = replicate 16 (CHR 0x00), fresh = (\<lambda>_. CHR 0x00)\<rparr>,
      last_recv = 0, arg_vtr = fk_vtr_create FK_VTR_INIT_LEN, arg_parsed = 0, arg_cnt = 0,
      cur_arglen = -1, parse_done = 0, db_idx = 0\<rparr>"

lemma conn_with_facts:
  "conn_inv (conn_with bs)" "payload (rbuf (conn_with bs)) = bs" "out (conn_with bs) = []"
  "parse_done (conn_with bs) = 0" "arg_parsed (conn_with bs) = 0"
  by (auto simp: conn_with_def conn_inv_def buf_inv_def payload_def args_inv_def vtr_inv_def fk_vtr_create_def
      fk_consts intro!: exI [of _ "[]"])

theorem parse_req_roundtrip_witness:
  "\<exists>c'. fk_conn_parse_req (conn_with (enc_req [''GET'', ''k''] @ ''*1'')) = Some (SVR_OK, c')
     \<and> args_of c' = [''GET'', ''k''] \<and> payload (rbuf c') = ''*1''"
  using parse_req_roundtrip [of "conn_with (enc_req [''GET'', ''k''] @ ''*1'')" "[''GET'', ''k'']" "''*1''"]
  by (auto simp: conn_with_facts req_ok_def arg_ok_def fk_consts)

theorem parse_req_incremental_witness:
  "\<exists>c' rem' used. fk_conn_parse_req (conn_with ''*2'') = Some (SVR_AGAIN, c')
     \<and> parse_at c' [''GET'', ''k''] rem' \<and> enc_req [''GET'', ''k''] = used @ rem' \<and> ''*2'' = used @ payload (rbuf c')"
proof -
  have "digit_char (Suc (Suc 0)) = CHR ''2''"
    by code_simp
  then have e: "take 2 (enc_req [''GET'', ''k''] @ []) = ''*2''" "2 < length (enc_req [''GET'', ''k''])"
    by (simp_all add: enc_req_def enc_args_def crlf_def print_nat.simps enc_arg_def)
  have "parse_at (conn_with ''*2'') [''GET'', ''k''] (enc_req [''GET'', ''k''])"
    by (intro parse_at_start) (simp_all add: conn_with_facts req_ok_def arg_ok_def fk_consts)
  then show ?thesis
    using parse_req_incremental [of "conn_with ''*2''" "[''GET'', ''k'']" "enc_req [''GET'', ''k'']" 2 "[]"] e
    by (simp add: conn_with_facts)
qed



end
