(* ===== verification/Fk_State.thy ===== *)
theory Fk_State
  imports Fk_Parse
begin

text \<open>
  The global \<^verbatim>\<open>server\<close> and \<^verbatim>\<open>setting\<close> variables (\<^verbatim>\<open>fk_svr.h\<close>, \<^verbatim>\<open>fk_conf.h\<close>) as one record
  that the handlers pass along, the invariant of the databases, and their abstraction: a map from
  keys to values. What the operating system answers is part of the state: \<open>clock\<close> gives the
  successive results of \<^verbatim>\<open>fk_util_get_time\<close> (a monotonic clock) and \<open>disk\<close> the files with what the next writes will do.
\<close>

type_synonym fk_db = "(string, fk_item) fk_dict"

record fk_conf =
  max_conns :: int
  timeout :: int
  dump :: int
  db_file :: string
  max_wbuf :: nat
  blog_on :: int

text \<open>\<open>room\<close> is the number of bytes the file system still accepts.\<close>

record fk_disk =
  files :: "string \<rightharpoonup> string"
  fopen_ok :: bool
  room :: nat
  rename_ok :: bool

text \<open>What the C code knows of the Lua interpreter \<^verbatim>\<open>server.gL\<close>: the two global tables that it sets, and the memory of
  the interpreter, which only the interpreter reads.\<close>

record lua_state =
  lua_keys :: "string list"
  lua_argv :: "string list"
  lua_mem :: string

record fk_svr =
  setting :: fk_conf
  conn_cnt :: int
  last_save :: int
  timer_cnt :: nat
  conns_tab :: "fk_conn option list"
  dbcnt :: nat
  db :: "fk_db list"
  expdb :: "fk_db list"
  save_pid :: int
  rewrite_pid :: int
  blog :: string
  disk :: fk_disk
  clock :: "nat \<Rightarrow> timeval"
  ticks :: nat
  gL :: lua_state
  lua_conn :: "fk_conn option"

text \<open>\<^verbatim>\<open>fk_lua_init\<close>: \<open>g\<close> is the new interpreter with its libraries; scripts run their commands on a connection of their own.\<close>

definition fk_lua_init :: "lua_state \<Rightarrow> (nat \<Rightarrow> char) \<Rightarrow> int \<Rightarrow> fk_svr \<Rightarrow> fk_svr option" where
  "fk_lua_init g fr now s =
     do { lc \<leftarrow> fk_conn_create fr (max_wbuf (setting s)) now FK_CONN_FAKE_FD;
          Some (s\<lparr>gL := g, lua_conn := Some lc\<rparr>) }"

definition fk_util_get_time :: "fk_svr \<Rightarrow> timeval \<times> fk_svr" where
  "fk_util_get_time s = (clock s (ticks s), s\<lparr>ticks := ticks s + 1\<rparr>)"

text \<open>\<^verbatim>\<open>server.db[idx]\<close> with an \<^verbatim>\<open>int\<close> index.\<close>

definition nth_db :: "fk_db list \<Rightarrow> int \<Rightarrow> fk_db option" where
  "nth_db ds i = (if i < 0 then None else nth_opt ds (nat i))"

definition upd_db :: "fk_db list \<Rightarrow> int \<Rightarrow> fk_db \<Rightarrow> fk_db list option" where
  "upd_db ds i d = (if i < 0 then None else upd_opt ds (nat i) d)"

subsection \<open>Values and their abstraction\<close>

datatype aval = AStr string | AList "string list" | ADict "string \<rightharpoonup> string" | ANum int | AOther

fun str_of :: "fk_item \<Rightarrow> string" where
  "str_of (Str s) = s"
| "str_of _ = []"

fun abs_item :: "fk_item \<Rightarrow> aval" where
  "abs_item (Str s) = AStr s"
| "abs_item (List l) = AList (map str_of l)"
| "abs_item (Dict d) = ADict (map_option str_of \<circ> dict_map d)"
| "abs_item (Num n) = ANum n"
| "abs_item _ = AOther"

definition abs_db :: "fk_db \<Rightarrow> string \<rightharpoonup> aval" where
  "abs_db d = map_option abs_item \<circ> dict_map d"

definition is_arg :: "fk_item \<Rightarrow> bool" where
  "is_arg v \<longleftrightarrow> (\<exists>s. v = Str s \<and> arg_ok s)"

text \<open>What can be stored: strings, lists of strings and hashes of strings, all of them arguments
  of some request; expiry times in the second dictionary.\<close>

fun val_ok :: "fk_item \<Rightarrow> bool" where
  "val_ok (Str s) = arg_ok s"
| "val_ok (List l) = (\<forall>x \<in> set l. is_arg x)"
| "val_ok (Dict d) = (dict_inv str_eop str_ok d \<and> (\<forall>k v. dict_map d k = Some v \<longrightarrow> arg_ok k \<and> is_arg v))"
| "val_ok _ = False"

definition db_inv :: "(fk_item \<Rightarrow> bool) \<Rightarrow> fk_db \<Rightarrow> bool" where
  "db_inv ok d \<longleftrightarrow> dict_inv str_eop str_ok d \<and> (\<forall>k v. dict_map d k = Some v \<longrightarrow> arg_ok k \<and> ok v)"

fun exp_ok :: "fk_item \<Rightarrow> bool" where
  "exp_ok (Num n) = (- (2 ^ 63) \<le> n \<and> n < 2 ^ 63)"
| "exp_ok _ = False"

definition svr_inv :: "fk_svr \<Rightarrow> bool" where
  "svr_inv s \<longleftrightarrow> length (db s) = dbcnt s \<and> length (expdb s) = dbcnt s \<and> dbcnt s < 2 ^ 31
     \<and> list_all (db_inv val_ok) (db s) \<and> list_all (db_inv exp_ok) (expdb s)"

lemma arg_ok_str_ok: "arg_ok s \<Longrightarrow> str_ok s"
  by (simp add: arg_ok_def str_ok_def fk_consts)

lemma db_inv_create [simp]: "db_inv ok fk_dict_create"
  by (simp add: db_inv_def dict_inv_create)

lemma abs_db_create [simp]: "abs_db fk_dict_create = Map.empty"
  by (simp add: abs_db_def)

lemma abs_db_upd: "dict_map d' = (dict_map d)(k \<mapsto> v) \<Longrightarrow> abs_db d' = (abs_db d)(k \<mapsto> abs_item v)"
  by (auto simp: abs_db_def)

lemma abs_db_del: "dict_map d' = (dict_map d)(k := None) \<Longrightarrow> abs_db d' = (abs_db d)(k := None)"
  by (auto simp: abs_db_def)

lemma abs_db_None: "abs_db d k = None \<longleftrightarrow> dict_map d k = None"
  by (simp add: abs_db_def)

text \<open>The dictionary operations on a database.\<close>

lemma db_get: "db_inv ok d \<Longrightarrow> arg_ok k \<Longrightarrow> fk_dict_get str_eop d k = Some (dict_map d k)"
  by (simp add: db_inv_def arg_ok_str_ok strd.get_spec)

lemma db_add:
  assumes "db_inv ok d" and "arg_ok k" and "ok v"
  shows "\<exists>d'. fk_dict_add str_eop d k v = Some (if dict_map d k = None then DICT_OK else DICT_ERR, d')
    \<and> db_inv ok d' \<and> dict_map d' = (if dict_map d k = None then (dict_map d)(k \<mapsto> v) else dict_map d)"
  using strd.store.add_ret [of d k v] assms by (auto simp: db_inv_def arg_ok_str_ok)

lemma db_replace:
  assumes "db_inv ok d" and "arg_ok k" and "ok v"
  shows "\<exists>d'. fk_dict_replace str_eop d k v = Some (dict_map d k \<noteq> None, d')
    \<and> db_inv ok d' \<and> dict_map d' = (dict_map d)(k \<mapsto> v)"
  using strd.store.replace_ret [of d k v] assms by (auto simp: db_inv_def arg_ok_str_ok)

lemma db_remove:
  assumes "db_inv ok d" and "arg_ok k"
  shows "\<exists>d'. fk_dict_remove str_eop d k = Some (if dict_map d k = None then DICT_ERR else DICT_OK, d')
    \<and> db_inv ok d' \<and> dict_map d' = (dict_map d)(k := None)"
  using strd.store.remove_ret [of d k] assms by (auto simp: db_inv_def arg_ok_str_ok)

lemma svr_inv_nth:
  assumes "svr_inv s" and "i < dbcnt s"
  shows "db_inv val_ok (db s ! i)" and "db_inv exp_ok (expdb s ! i)"
    and "i < length (db s)" and "i < length (expdb s)"
  using assms by (auto simp: svr_inv_def list_all_length)

lemma svr_inv_upd:
  assumes "svr_inv s" and "db_inv val_ok d" and "db_inv exp_ok e"
  shows "svr_inv (s\<lparr>db := (db s)[i := d]\<rparr>)" and "svr_inv (s\<lparr>expdb := (expdb s)[i := e]\<rparr>)"
    and "svr_inv (s\<lparr>db := (db s)[i := d], expdb := (expdb s)[i := e]\<rparr>)"
  using assms by (auto simp: svr_inv_def list_all_iff dest!: subsetD [OF set_update_subset_insert])

text \<open>A freshly initialised server with \<open>n\<close> databases, a working disk with room for \<open>r\<close> bytes and a
  clock that stands still at second \<open>1000\<close>.\<close>

definition svr_fresh :: "nat \<Rightarrow> nat \<Rightarrow> fk_svr" where
  "svr_fresh n r =
     \<lparr>setting = \<lparr>max_conns = 1024, timeout = 600, dump = 1, db_file = ''freekick.db'', max_wbuf = 4096, blog_on = 0\<rparr>,
      conn_cnt = 0, last_save = 0, timer_cnt = 0, conns_tab = [], dbcnt = n,
      db = replicate n fk_dict_create, expdb = replicate n fk_dict_create, save_pid = -1, rewrite_pid = -1,
      blog = [], disk = \<lparr>files = Map.empty, fopen_ok = True, room = r, rename_ok = True\<rparr>,
      clock = (\<lambda>_. \<lparr>tv_sec = 1000, tv_usec = 0\<rparr>), ticks = 0,
      gL = \<lparr>lua_keys = [], lua_argv = [], lua_mem = []\<rparr>, lua_conn = None\<rparr>"

lemma svr_inv_fresh: "n < 2 ^ 31 \<Longrightarrow> svr_inv (svr_fresh n r)"
  by (simp add: svr_inv_def svr_fresh_def list_all_iff)

end
