(* ===== verification/Fk_Kdb.thy ===== *)
theory Fk_Kdb
  imports Fk_State
begin

text \<open>
  \<^verbatim>\<open>fk_svr_kdb.c\<close>: the database dump and its restoration. The binary layout is the one of the
  supported platforms (LP64, little-endian): \<^verbatim>\<open>size_t\<close> and \<^verbatim>\<open>long long\<close> take eight bytes,
  \<^verbatim>\<open>int\<close> and \<^verbatim>\<open>uint32_t\<close> four.
\<close>

subsection \<open>Little-endian fields\<close>

fun le_bytes :: "nat \<Rightarrow> nat \<Rightarrow> string" where
  "le_bytes 0 x = []"
| "le_bytes (Suc w) x = char_of (x mod 256) # le_bytes w (x div 256)"

fun le_val :: "string \<Rightarrow> nat" where
  "le_val [] = 0"
| "le_val (c # cs) = of_char c + 256 * le_val cs"

lemma length_le_bytes [simp]: "length (le_bytes w x) = w"
  by (induction w arbitrary: x) auto

lemma le_val_bytes: "x < 256 ^ w \<Longrightarrow> le_val (le_bytes w x) = x"
proof (induction w arbitrary: x)
  case (Suc w)
  then have "x div 256 < 256 ^ w"
    by (simp add: less_mult_imp_div_less mult.commute)
  then show ?case
    using Suc.IH by simp
qed simp

abbreviation u32 :: "nat \<Rightarrow> string" where
  "u32 x \<equiv> le_bytes 4 x"

abbreviation u64 :: "nat \<Rightarrow> string" where
  "u64 x \<equiv> le_bytes 8 x"

text \<open>The bytes of a \<^verbatim>\<open>long long\<close>.\<close>

definition s64_bytes :: "int \<Rightarrow> string" where
  "s64_bytes n = u64 (nat (n mod 2 ^ 64))"

definition s64_val :: "string \<Rightarrow> int" where
  "s64_val bs = s64 (int (le_val bs))"

lemma s64_val_bytes:
  assumes "- (2 ^ 63) \<le> n" and "n < 2 ^ 63"
  shows "s64_val (s64_bytes n) = n"
proof -
  have "nat (n mod 2 ^ 64) < 256 ^ 8"
    by (simp add: nat_less_iff)
  then have "s64_val (s64_bytes n) = s64 (n mod 2 ^ 64)"
    by (simp add: s64_val_def s64_bytes_def le_val_bytes)
  also have "\<dots> = n"
    using assms by (simp add: s64_def mod_simps)
  finally show ?thesis .
qed

subsection \<open>Writing\<close>

text \<open>An open output file: what has been written and how much more the file system takes.
  \<^verbatim>\<open>fwrite(p, n, 1, fp)\<close> returns \<open>0\<close> when \<open>n\<close> is \<open>0\<close> or not everything could be written.\<close>

record fsink =
  written :: string
  left_room :: nat

definition fwrite :: "string \<Rightarrow> fsink \<Rightarrow> nat \<times> fsink" where
  "fwrite bs f =
     (if bs = [] then (0, f)
      else if length bs \<le> left_room f
      then (1, f\<lparr>written := written f @ bs, left_room := left_room f - length bs\<rparr>)
      else (0, f\<lparr>written := written f @ take (left_room f) bs, left_room := 0\<rparr>))"

text \<open>\<open>if (chk && fwrite(...) == 0) return FK_SVR_ERR;\<close> followed by the rest of the function.\<close>

definition write_then :: "bool \<Rightarrow> string \<Rightarrow> (fsink \<Rightarrow> svr_rc \<times> fsink) \<Rightarrow> fsink \<Rightarrow> svr_rc \<times> fsink" where
  "write_then chk bs k f = (let (wz, f') = fwrite bs f in if chk \<and> wz = 0 then (SVR_ERR, f') else k f')"

definition ret_ok :: "fsink \<Rightarrow> svr_rc \<times> fsink" where
  "ret_ok f = (SVR_OK, f)"

definition fk_kdb_dump_str_elt :: "string \<Rightarrow> string \<Rightarrow> fsink \<Rightarrow> svr_rc \<times> fsink" where
  "fk_kdb_dump_str_elt key val =
     write_then True (u64 (length key))
      (write_then True key
       (write_then True (u64 (length val))
        (write_then (length val > 0) val ret_ok)))"

definition fk_kdb_dump_num_elt :: "string \<Rightarrow> int \<Rightarrow> fsink \<Rightarrow> svr_rc \<times> fsink" where
  "fk_kdb_dump_num_elt key num =
     write_then True (u64 (length key))
      (write_then True key
       (write_then True (u64 8)
        (write_then True (s64_bytes num) ret_ok)))"

fun dump_nodes :: "string list \<Rightarrow> fsink \<Rightarrow> svr_rc \<times> fsink" where
  "dump_nodes [] f = ret_ok f"
| "dump_nodes (vs # nds) f =
     write_then True (u64 (length vs)) (write_then (length vs > 0) vs (dump_nodes nds)) f"

definition fk_kdb_dump_list_elt :: "string \<Rightarrow> string list \<Rightarrow> fsink \<Rightarrow> svr_rc \<times> fsink" where
  "fk_kdb_dump_list_elt key lst =
     write_then True (u64 (length key))
      (write_then True key
       (write_then True (u64 (length lst)) (dump_nodes lst)))"

fun dump_fields :: "(string \<times> string) list \<Rightarrow> fsink \<Rightarrow> svr_rc \<times> fsink" where
  "dump_fields [] f = ret_ok f"
| "dump_fields ((skey, svs) # es) f =
     write_then True (u64 (length skey))
      (write_then True skey
       (write_then True (u64 (length svs))
        (write_then (length svs > 0) svs (dump_fields es)))) f"

definition fk_kdb_dump_dict_elt :: "string \<Rightarrow> nat \<Rightarrow> (string \<times> string) list \<Rightarrow> fsink \<Rightarrow> svr_rc \<times> fsink" where
  "fk_kdb_dump_dict_elt key len es =
     write_then True (u64 (length key))
      (write_then True key
       (write_then True (u64 len) (dump_fields es)))"

text \<open>The casts of the values inside a list or a hash.\<close>

fun all_strs :: "fk_item list \<Rightarrow> string list option" where
  "all_strs [] = Some []"
| "all_strs (x # xs) = do { s \<leftarrow> raw_str x; ss \<leftarrow> all_strs xs; Some (s # ss) }"

definition str_pairs :: "(string \<times> fk_item) list \<Rightarrow> (string \<times> string) list option" where
  "str_pairs es = do { vs \<leftarrow> all_strs (map snd es); Some (zip (map fst es) vs) }"

text \<open>The loop of \<^verbatim>\<open>fk_kdb_dump\<close>. \<open>rt\<close> is the variable of the same name: uninitialised at first, and
  left alone by a value of another type than the four in the \<^verbatim>\<open>switch\<close>.\<close>

definition dump_value :: "string \<Rightarrow> fk_item \<Rightarrow> svr_rc option \<Rightarrow> fsink \<Rightarrow> (svr_rc option \<times> fsink) option" where
  "dump_value key v rt f =
     (case v of
        Str s \<Rightarrow> Some (map_prod Some id (fk_kdb_dump_str_elt key s f))
      | List l \<Rightarrow> do { ss \<leftarrow> all_strs l; Some (map_prod Some id (fk_kdb_dump_list_elt key ss f)) }
      | Dict d \<Rightarrow> do { es \<leftarrow> dict_iter_list d; ps \<leftarrow> str_pairs es;
                       Some (map_prod Some id (fk_kdb_dump_dict_elt key (fk_dict_len d) ps f)) }
      | Num n \<Rightarrow> Some (map_prod Some id (fk_kdb_dump_num_elt key n f))
      | _ \<Rightarrow> Some (rt, f))"

fun dump_elts :: "(string \<times> fk_item) list \<Rightarrow> svr_rc option \<Rightarrow> fsink \<Rightarrow> (svr_rc \<times> fsink) option" where
  "dump_elts [] rt f = Some (SVR_OK, f)"
| "dump_elts ((key, v) # es) rt f =
     (let (wz, f1) = fwrite (u32 (type_tag (fk_item_type v))) f
      in if wz = 0 then Some (SVR_ERR, f1)
         else
           do { (rt', f2) \<leftarrow> dump_value key v rt f1;
                rc \<leftarrow> rt';
                if rc = SVR_ERR then Some (SVR_ERR, f2) else dump_elts es (Some rc) f2 })"

definition fk_kdb_dump :: "fk_svr \<Rightarrow> nat \<Rightarrow> nat \<Rightarrow> fsink \<Rightarrow> (svr_rc \<times> fsink) option" where
  "fk_kdb_dump s i isexp f =
     do { dct \<leftarrow> nth_opt (if isexp = 1 then expdb s else db s) i;
          let (wz, f1) = fwrite (u32 i) f;
          if wz = 0 then Some (SVR_ERR, f1)
          else
            (let (wz, f2) = fwrite (u32 isexp) f1
             in if wz = 0 then Some (SVR_ERR, f2)
                else
                  (let (wz, f3) = fwrite (u64 (fk_dict_len dct)) f2
                   in if wz = 0 then Some (SVR_ERR, f3)
                      else do { es \<leftarrow> dict_iter_list dct; dump_elts es None f3 })) }"

fun save_dbs :: "fk_svr \<Rightarrow> nat list \<Rightarrow> fsink \<Rightarrow> (svr_rc \<times> fsink) option" where
  "save_dbs s [] f = Some (SVR_OK, f)"
| "save_dbs s (i # is) f =
     do { (rt, f1) \<leftarrow> fk_kdb_dump s i 0 f;
          if rt = SVR_ERR then Some (SVR_ERR, f1)
          else
            do { (rt, f2) \<leftarrow> fk_kdb_dump s i 1 f1;
                 if rt = SVR_ERR then Some (SVR_ERR, f2) else save_dbs s is f2 } }"

definition temp_db :: string where
  "temp_db = ''freekick-temp.db''"

definition fk_kdb_save :: "fk_svr \<Rightarrow> (svr_rc \<times> fk_svr) option" where
  "fk_kdb_save s =
     (if \<not> fopen_ok (disk s) then Some (SVR_ERR, s)
      else
        do { (rt, f) \<leftarrow> save_dbs s [0..<dbcnt s] \<lparr>written = [], left_room = room (disk s)\<rparr>;
             if rt = SVR_ERR
             then Some (SVR_ERR, s\<lparr>disk := disk s\<lparr>files := (files (disk s))(temp_db := None)\<rparr>\<rparr>)
             else if rename_ok (disk s)
             then Some (SVR_OK, s\<lparr>disk := disk s\<lparr>files :=
                    (files (disk s))(temp_db := None, db_file (setting s) \<mapsto> written f)\<rparr>\<rparr>)
             else Some (SVR_ERR, s\<lparr>disk := disk s\<lparr>files := (files (disk s))(temp_db := None)\<rparr>\<rparr>) })"

subsection \<open>Reading\<close>

text \<open>An input file is the part that has not been read. A step of the loader succeeds, fails with
  \<^verbatim>\<open>FK_SVR_ERR\<close> or leaves the defined behaviour of C.\<close>

datatype 'a kres = KOk 'a | KErr | KUb

fun kbind :: "'a kres \<Rightarrow> ('a \<Rightarrow> 'b kres) \<Rightarrow> 'b kres" where
  "kbind (KOk a) k = k a"
| "kbind KErr k = KErr"
| "kbind KUb k = KUb"

text \<open>\<open>if (fread(p, n, 1, fp) == 0) return FK_SVR_ERR;\<close>, and the form that accepts \<open>n = 0\<close>.\<close>

definition fread1 :: "nat \<Rightarrow> string \<Rightarrow> (string \<times> string) kres" where
  "fread1 n fp = (if n = 0 \<or> length fp < n then KErr else KOk (take n fp, drop n fp))"

definition fread0 :: "nat \<Rightarrow> string \<Rightarrow> (string \<times> string) kres" where
  "fread0 n fp = (if n = 0 then KOk ([], fp) else fread1 n fp)"

definition fread_len :: "string \<Rightarrow> (nat \<times> string) kres" where
  "fread_len fp = kbind (fread1 8 fp) (\<lambda>(bs, fp). KOk (le_val bs, fp))"

text \<open>The length of a string in the file, checked against \<^verbatim>\<open>FK_ARG_HIGHWAT\<close>, and its bytes; keys
  must not be empty. The line buffer \<^verbatim>\<open>buf\<close> always has room (\<^verbatim>\<open>fk_zline_alloc\<close>).\<close>

definition read_key :: "string \<Rightarrow> (string \<times> string) kres" where
  "read_key fp =
     kbind (fread_len fp) (\<lambda>(klen, fp). if int klen > FK_ARG_HIGHWAT then KErr else fread1 klen fp)"

definition read_val :: "string \<Rightarrow> (string \<times> string) kres" where
  "read_val fp =
     kbind (fread_len fp) (\<lambda>(vl, fp). if int vl > FK_ARG_HIGHWAT then KErr else fread0 vl fp)"

definition kadd :: "fk_db \<Rightarrow> string \<Rightarrow> fk_item \<Rightarrow> string \<Rightarrow> (fk_db \<times> string) kres" where
  "kadd d k v fp = (case fk_dict_add str_eop d k v of None \<Rightarrow> KUb | Some (rc, d') \<Rightarrow> KOk (d', fp))"

text \<open>\<open>for (i = 0; i < n; i++) body\<close> where every iteration reads from the file.\<close>

fun fread_loop :: "(string \<Rightarrow> 's \<Rightarrow> ('s \<times> string) kres) \<Rightarrow> nat \<Rightarrow> string \<Rightarrow> 's \<Rightarrow> ('s \<times> string) kres" where
  "fread_loop body 0 fp s = KOk (s, fp)"
| "fread_loop body (Suc n) fp s = kbind (body fp s) (\<lambda>(s', fp'). fread_loop body n fp' s')"

definition fk_kdb_restore_str_elt :: "string \<Rightarrow> fk_db \<Rightarrow> (fk_db \<times> string) kres" where
  "fk_kdb_restore_str_elt fp d =
     kbind (read_key fp) (\<lambda>(key, fp). kbind (read_val fp) (\<lambda>(val, fp). kadd d key (Str val) fp))"

text \<open>\<^verbatim>\<open>fread(&num, vl, 1, fp)\<close> into a \<^verbatim>\<open>long long\<close>: a length other than eight overruns the variable
  or leaves bytes of it uninitialised.\<close>

definition fread_num :: "nat \<Rightarrow> string \<Rightarrow> (int \<times> string) kres" where
  "fread_num vl fp =
     (if length fp < vl then (if length fp > 8 then KUb else KErr)
      else if vl = 8 then KOk (s64_val (take 8 fp), drop 8 fp) else KUb)"

definition fk_kdb_restore_num_elt :: "string \<Rightarrow> fk_db \<Rightarrow> (fk_db \<times> string) kres" where
  "fk_kdb_restore_num_elt fp d =
     kbind (read_key fp) (\<lambda>(key, fp).
     kbind (fread_len fp) (\<lambda>(vl, fp).
       if int vl > FK_ARG_HIGHWAT then KErr
       else kbind (fread_num vl fp) (\<lambda>(num, fp). kadd d key (Num num) fp)))"

definition restore_node :: "string \<Rightarrow> fk_item list \<Rightarrow> (fk_item list \<times> string) kres" where
  "restore_node fp lst = kbind (read_val fp) (\<lambda>(nds, fp). KOk (lst @ [Str nds], fp))"

definition fk_kdb_restore_list_elt :: "string \<Rightarrow> fk_db \<Rightarrow> (fk_db \<times> string) kres" where
  "fk_kdb_restore_list_elt fp d =
     kbind (read_key fp) (\<lambda>(key, fp).
     kbind (fread_len fp) (\<lambda>(llen, fp).
     kbind (fread_loop restore_node llen fp []) (\<lambda>(lst, fp). kadd d key (List lst) fp)))"

definition restore_field :: "string \<Rightarrow> fk_db \<Rightarrow> (fk_db \<times> string) kres" where
  "restore_field fp sd =
     kbind (read_key fp) (\<lambda>(skey, fp). kbind (read_val fp) (\<lambda>(sval, fp). kadd sd skey (Str sval) fp))"

definition fk_kdb_restore_dict_elt :: "string \<Rightarrow> fk_db \<Rightarrow> (fk_db \<times> string) kres" where
  "fk_kdb_restore_dict_elt fp d =
     kbind (read_key fp) (\<lambda>(key, fp).
     kbind (fread_len fp) (\<lambda>(dlen, fp).
     kbind (fread_loop restore_field dlen fp fk_dict_create) (\<lambda>(sd, fp). kadd d key (Dict sd) fp)))"

definition restore_elt :: "string \<Rightarrow> fk_db \<Rightarrow> (fk_db \<times> string) kres" where
  "restore_elt fp d =
     kbind (fread1 4 fp) (\<lambda>(bs, fp).
       let ty = le_val bs
       in if ty = type_tag FK_ITEM_STR then fk_kdb_restore_str_elt fp d
          else if ty = type_tag FK_ITEM_LIST then fk_kdb_restore_list_elt fp d
          else if ty = type_tag FK_ITEM_DICT then fk_kdb_restore_dict_elt fp d
          else if ty = type_tag FK_ITEM_NUM then fk_kdb_restore_num_elt fp d
          else KErr)"

text \<open>The result of the second \<^verbatim>\<open>fread\<close> is not checked: on a short read \<^verbatim>\<open>isexp\<close> stays
  uninitialised.\<close>

definition fk_kdb_restore :: "string \<Rightarrow> fk_svr \<Rightarrow> (fk_svr \<times> string) kres" where
  "fk_kdb_restore fp s =
     kbind (fread1 4 fp) (\<lambda>(bs, fp).
       let i = le_val bs
       in if i \<ge> dbcnt s then KErr
          else if length fp < 4 then KUb
          else
            (let isexp = le_val (take 4 fp); fp = drop 4 fp
             in case nth_opt (if isexp = 1 then expdb s else db s) i of
                  None \<Rightarrow> KUb
                | Some d \<Rightarrow>
                    kbind (fread_len fp) (\<lambda>(cnt, fp).
                    kbind (fread_loop restore_elt cnt fp d) (\<lambda>(d', fp).
                      KOk (if isexp = 1 then s\<lparr>expdb := (expdb s)[i := d']\<rparr>
                           else s\<lparr>db := (db s)[i := d']\<rparr>, fp)))))"

subsection \<open>Progress of the reader, and the loop of \<^verbatim>\<open>fk_kdb_load\<close>\<close>

definition shrinks :: "('a \<times> string) kres \<Rightarrow> string \<Rightarrow> bool" where
  "shrinks r fp \<longleftrightarrow> (\<forall>a fp'. r = KOk (a, fp') \<longrightarrow> length fp' \<le> length fp)"

lemma shrinks_ok [simp]: "shrinks (KOk (a, fp')) fp \<longleftrightarrow> length fp' \<le> length fp"
  by (simp add: shrinks_def)

lemma shrinks_err [simp]: "shrinks KErr fp" "shrinks KUb fp"
  by (simp_all add: shrinks_def)

lemma shrinks_bind:
  assumes "shrinks r fp" and "\<And>a fp'. r = KOk (a, fp') \<Longrightarrow> shrinks (k (a, fp')) fp'"
  shows "shrinks (kbind r k) fp"
proof (cases r)
  case (KOk x)
  obtain a fp1 where x: "x = (a, fp1)" by fastforce
  have "length fp1 \<le> length fp"
    using assms(1) KOk x by simp
  then show ?thesis
    using assms(2) [of a fp1] KOk x by (auto simp: shrinks_def)
qed (use assms in simp_all)

lemma shrinks_fread: "shrinks (fread1 n fp) fp" "shrinks (fread0 n fp) fp" "shrinks (fread_num n fp) fp"
  by (auto simp: fread1_def fread0_def fread_num_def)

lemma shrinks_len: "shrinks (fread_len fp) fp"
  unfolding fread_len_def by (rule shrinks_bind [OF shrinks_fread(1)]) simp

lemma shrinks_key: "shrinks (read_key fp) fp"
  unfolding read_key_def by (rule shrinks_bind [OF shrinks_len]) (simp add: shrinks_fread)

lemma shrinks_val: "shrinks (read_val fp) fp"
  unfolding read_val_def by (rule shrinks_bind [OF shrinks_len]) (simp add: shrinks_fread)

lemma shrinks_kadd: "shrinks (kadd d k v fp) fp"
  by (simp add: kadd_def split: option.split)

lemma shrinks_loop:
  assumes "\<And>fp s. shrinks (body fp s) fp"
  shows "shrinks (fread_loop body n fp s) fp"
proof (induction n arbitrary: fp s)
  case (Suc n)
  then show ?case
    by (simp add: shrinks_bind [OF assms])
qed simp

lemma shrinks_str_elt: "shrinks (fk_kdb_restore_str_elt fp d) fp"
  unfolding fk_kdb_restore_str_elt_def
  by (rule shrinks_bind [OF shrinks_key], simp, rule shrinks_bind [OF shrinks_val], simp add: shrinks_kadd)

lemma shrinks_num_elt: "shrinks (fk_kdb_restore_num_elt fp d) fp"
  unfolding fk_kdb_restore_num_elt_def
  by (rule shrinks_bind [OF shrinks_key], simp, rule shrinks_bind [OF shrinks_len],
      simp add: shrinks_bind [OF shrinks_fread(3)] shrinks_kadd)

lemma shrinks_node: "shrinks (restore_node fp l) fp"
  unfolding restore_node_def by (rule shrinks_bind [OF shrinks_val]) simp

lemma shrinks_field: "shrinks (restore_field fp d) fp"
  unfolding restore_field_def
  by (rule shrinks_bind [OF shrinks_key], simp, rule shrinks_bind [OF shrinks_val], simp add: shrinks_kadd)

lemma shrinks_list_elt: "shrinks (fk_kdb_restore_list_elt fp d) fp"
  unfolding fk_kdb_restore_list_elt_def
  by (rule shrinks_bind [OF shrinks_key], simp, rule shrinks_bind [OF shrinks_len],
      simp add: shrinks_bind [OF shrinks_loop [OF shrinks_node]] shrinks_kadd)

lemma shrinks_dict_elt: "shrinks (fk_kdb_restore_dict_elt fp d) fp"
  unfolding fk_kdb_restore_dict_elt_def
  by (rule shrinks_bind [OF shrinks_key], simp, rule shrinks_bind [OF shrinks_len],
      simp add: shrinks_bind [OF shrinks_loop [OF shrinks_field]] shrinks_kadd)

lemma shrinks_elt: "shrinks (restore_elt fp d) fp"
  unfolding restore_elt_def
  by (rule shrinks_bind [OF shrinks_fread(1)])
    (simp add: Let_def shrinks_str_elt shrinks_num_elt shrinks_list_elt shrinks_dict_elt)

lemma kbind_KOk: "kbind r k = KOk y \<longleftrightarrow> (\<exists>x. r = KOk x \<and> k x = KOk y)"
  by (cases r) auto

lemma restore_progress:
  assumes "fk_kdb_restore fp s = KOk (s', fp')"
  shows "length fp' < length fp"
proof -
  obtain bs fp1 where 1: "fread1 4 fp = KOk (bs, fp1)"
    using assms by (auto simp: fk_kdb_restore_def kbind_KOk)
  have 2: "length fp1 + 4 = length fp"
    using 1 by (auto simp: fread1_def split: if_splits)
  let ?db = "if le_val (take 4 fp1) = 1 then expdb s else db s"
  obtain d where d: "nth_opt ?db (le_val bs) = Some d" "4 \<le> length fp1"
    using assms 1 by (auto simp: fk_kdb_restore_def Let_def split: if_splits option.splits)
  let ?k = "\<lambda>(cnt, fp). kbind (fread_loop restore_elt cnt fp d) (\<lambda>(d', fp).
     KOk (if le_val (take 4 fp1) = 1 then s\<lparr>expdb := (expdb s)[le_val bs := d']\<rparr>
          else s\<lparr>db := (db s)[le_val bs := d']\<rparr>, fp))"
  have "kbind (fread_len (drop 4 fp1)) ?k = KOk (s', fp')"
    using assms 1 d by (auto simp: fk_kdb_restore_def Let_def split: if_splits)
  moreover have "shrinks (kbind (fread_len (drop 4 fp1)) ?k) (drop 4 fp1)"
    by (rule shrinks_bind [OF shrinks_len], simp, rule shrinks_bind [OF shrinks_loop [OF shrinks_elt]], simp)
  ultimately have "length fp' \<le> length (drop 4 fp1)"
    by (simp add: shrinks_def)
  then show ?thesis
    using 2 by simp
qed

text \<open>\<open>KErr\<close> is \<^verbatim>\<open>exit(EXIT_FAILURE)\<close> here.\<close>

function load_loop :: "string \<Rightarrow> fk_svr \<Rightarrow> fk_svr kres" where
  "load_loop fp s =
     (if fp = [] then KOk s
      else case fk_kdb_restore fp s of
             KOk (s', fp') \<Rightarrow> load_loop fp' s'
           | KErr \<Rightarrow> KErr
           | KUb \<Rightarrow> KUb)"
  by pat_completeness auto
termination
  by (relation "measure (\<lambda>(fp, s). length fp)") (auto dest: restore_progress)

declare load_loop.simps [simp del]

definition fk_kdb_load :: "string \<Rightarrow> fk_svr \<Rightarrow> fk_svr kres" where
  "fk_kdb_load path s =
     (case files (disk s) path of None \<Rightarrow> KOk s | Some fp \<Rightarrow> load_loop fp s)"

subsection \<open>What a dump contains\<close>

definition enc_str :: "string \<Rightarrow> string" where
  "enc_str s = u64 (length s) @ s"

definition enc_field :: "string \<times> fk_item \<Rightarrow> string" where
  "enc_field e = enc_str (fst e) @ enc_str (str_of (snd e))"

fun enc_item :: "fk_item \<Rightarrow> string" where
  "enc_item (Str s) = enc_str s"
| "enc_item (List l) = u64 (length l) @ concat (map (enc_str \<circ> str_of) l)"
| "enc_item (Dict d) = u64 (used d) @ concat (map enc_field (dict_elts d))"
| "enc_item (Num n) = u64 8 @ s64_bytes n"
| "enc_item _ = []"

definition enc_elt :: "string \<times> fk_item \<Rightarrow> string" where
  "enc_elt e = u32 (type_tag (fk_item_type (snd e))) @ enc_str (fst e) @ enc_item (snd e)"

definition enc_db :: "nat \<Rightarrow> nat \<Rightarrow> fk_db \<Rightarrow> string" where
  "enc_db i isexp d = u32 i @ u32 isexp @ u64 (used d) @ concat (map enc_elt (dict_elts d))"

definition enc_svr :: "fk_svr \<Rightarrow> nat list \<Rightarrow> string" where
  "enc_svr s is = concat (map (\<lambda>i. enc_db i 0 (db s ! i) @ enc_db i 1 (expdb s ! i)) is)"

text \<open>A writer that writes \<open>bs\<close> when there is room for it and fails otherwise.\<close>

definition sink_add :: "fsink \<Rightarrow> string \<Rightarrow> fsink" where
  "sink_add f bs = f\<lparr>written := written f @ bs, left_room := left_room f - length bs\<rparr>"

definition writes :: "(fsink \<Rightarrow> svr_rc \<times> fsink) \<Rightarrow> string \<Rightarrow> bool" where
  "writes w bs \<longleftrightarrow>
     (\<forall>f. if length bs \<le> left_room f then w f = (SVR_OK, sink_add f bs) else fst (w f) = SVR_ERR)"

lemma sink_add_add [simp]: "sink_add (sink_add f a) b = sink_add f (a @ b)"
  by (simp add: sink_add_def)

lemma sink_add_Nil [simp]: "sink_add f [] = f"
  by (simp add: sink_add_def)

lemma left_room_add [simp]: "left_room (sink_add f bs) = left_room f - length bs"
  by (simp add: sink_add_def)

lemma fwrite_sink:
  "fwrite bs f = (if bs = [] then (0, f) else if length bs \<le> left_room f then (1, sink_add f bs)
     else (0, f\<lparr>written := written f @ take (left_room f) bs, left_room := 0\<rparr>))"
  by (simp add: fwrite_def sink_add_def)

lemma writes_ret_ok: "writes ret_ok []"
  by (simp add: writes_def ret_ok_def)

lemma writes_write_then:
  assumes "writes k cs" and "bs \<noteq> [] \<or> \<not> chk" and "bs \<noteq> [] \<Longrightarrow> chk"
  shows "writes (write_then chk bs k) (bs @ cs)"
  unfolding writes_def
proof (intro allI)
  fix f
  have k: "length cs \<le> left_room g \<Longrightarrow> k g = (SVR_OK, sink_add g cs)"
    "\<not> length cs \<le> left_room g \<Longrightarrow> fst (k g) = SVR_ERR" for g
    using assms(1) unfolding writes_def by presburger+
  show "if length (bs @ cs) \<le> left_room f then write_then chk bs k f = (SVR_OK, sink_add f (bs @ cs))
    else fst (write_then chk bs k f) = SVR_ERR"
  proof (cases "bs = []")
    case True
    then show ?thesis
      using assms(2) k [of f] by (simp add: write_then_def fwrite_sink)
  next
    case False
    show ?thesis
    proof (cases "length bs \<le> left_room f")
      case True
      then have "write_then chk bs k f = k (sink_add f bs)"
        using False by (simp add: write_then_def fwrite_sink)
      then show ?thesis
        using k [of "sink_add f bs"] True by (simp add: le_diff_conv2 add.commute)
    qed (use False assms(3) in \<open>simp add: write_then_def fwrite_sink\<close>)
  qed
qed

lemma writes_must: "writes k cs \<Longrightarrow> bs \<noteq> [] \<Longrightarrow> writes (write_then True bs k) (bs @ cs)"
  by (rule writes_write_then) auto

lemma writes_may: "writes k cs \<Longrightarrow> writes (write_then (length bs > 0) bs k) (bs @ cs)"
  by (rule writes_write_then) auto

lemma le_bytes_Nil [simp]: "le_bytes w x = [] \<longleftrightarrow> w = 0"
  by (cases w) auto

lemma s64_bytes_nonempty [simp]: "s64_bytes n \<noteq> []"
  by (simp add: s64_bytes_def)

lemma dump_str_elt_writes: "key \<noteq> [] \<Longrightarrow> writes (fk_kdb_dump_str_elt key v) (enc_str key @ enc_str v)"
  unfolding fk_kdb_dump_str_elt_def enc_str_def append_assoc
  using writes_may [OF writes_ret_ok, of v] by (intro writes_must) auto

lemma dump_num_elt_writes: "key \<noteq> [] \<Longrightarrow> writes (fk_kdb_dump_num_elt key n) (enc_str key @ u64 8 @ s64_bytes n)"
  unfolding fk_kdb_dump_num_elt_def enc_str_def append_assoc
  using writes_must [OF writes_ret_ok, of "s64_bytes n"] by (intro writes_must) auto

lemma dump_nodes_writes: "writes (dump_nodes ss) (concat (map enc_str ss))"
proof (induction ss)
  case Nil
  then show ?case
    by (simp add: writes_def ret_ok_def)
next
  case (Cons s ss)
  have "writes (write_then True (u64 (length s)) (write_then (length s > 0) s (dump_nodes ss)))
      (u64 (length s) @ s @ concat (map enc_str ss))"
    by (intro writes_must writes_may Cons.IH) simp
  moreover have "dump_nodes (s # ss) = write_then True (u64 (length s)) (write_then (length s > 0) s (dump_nodes ss))"
    by (rule ext) simp
  ultimately show ?case
    by (simp add: enc_str_def [of s])
qed

lemma dump_list_elt_writes:
  "key \<noteq> [] \<Longrightarrow> writes (fk_kdb_dump_list_elt key ss) (enc_str key @ u64 (length ss) @ concat (map enc_str ss))"
  unfolding fk_kdb_dump_list_elt_def enc_str_def [of key] append_assoc
  by (intro writes_must dump_nodes_writes) auto

lemma dump_fields_writes:
  "\<forall>e \<in> set es. fst e \<noteq> [] \<Longrightarrow>
   writes (dump_fields es) (concat (map (\<lambda>(k, v). enc_str k @ enc_str v) es))"
proof (induction es)
  case Nil
  then show ?case
    by (simp add: writes_def ret_ok_def)
next
  case (Cons e es)
  obtain k v where e: "e = (k, v)" by fastforce
  have "writes (write_then True (u64 (length k)) (write_then True k (write_then True (u64 (length v))
      (write_then (length v > 0) v (dump_fields es)))))
      (u64 (length k) @ k @ u64 (length v) @ v @ concat (map (\<lambda>(k, v). enc_str k @ enc_str v) es))"
    using Cons e by (intro writes_must writes_may) auto
  moreover have "dump_fields (e # es) = write_then True (u64 (length k)) (write_then True k
      (write_then True (u64 (length v)) (write_then (length v > 0) v (dump_fields es))))"
    unfolding e by (rule ext) simp
  ultimately show ?case
    by (simp add: enc_str_def [of k] enc_str_def [of v] e)
qed

lemma dump_dict_elt_writes:
  "key \<noteq> [] \<Longrightarrow> \<forall>e \<in> set es. fst e \<noteq> [] \<Longrightarrow>
   writes (fk_kdb_dump_dict_elt key n es)
     (enc_str key @ u64 n @ concat (map (\<lambda>(k, v). enc_str k @ enc_str v) es))"
  unfolding fk_kdb_dump_dict_elt_def enc_str_def [of key] append_assoc
  by (intro writes_must dump_fields_writes) auto

subsection \<open>Dumping databases\<close>

text \<open>The values the databases hold (\<open>val_ok\<close> or \<open>exp_ok\<close>), and the condition under which they can
  be dumped: no empty field names, sizes that fit \<^verbatim>\<open>size_t\<close>.\<close>

definition stored :: "fk_item \<Rightarrow> bool" where
  "stored v \<longleftrightarrow> val_ok v \<or> exp_ok v"

fun dumpable :: "fk_item \<Rightarrow> bool" where
  "dumpable (List l) = (length l < 2 ^ 64)"
| "dumpable (Dict d) = (used d < 2 ^ 64 \<and> dict_map d [] = None)"
| "dumpable _ = True"

definition db_dumpable :: "fk_db \<Rightarrow> bool" where
  "db_dumpable d \<longleftrightarrow> used d < 2 ^ 64 \<and> dict_map d [] = None \<and> (\<forall>k v. dict_map d k = Some v \<longrightarrow> dumpable v)"

lemma all_strs_args: "\<forall>x \<in> set l. is_arg x \<Longrightarrow> all_strs l = Some (map str_of l)"
  by (induction l) (auto simp: is_arg_def)

lemma val_ok_Dict: "val_ok (Dict d) \<longleftrightarrow> db_inv is_arg d"
  by (simp add: db_inv_def)

lemma db_inv_elts:
  assumes "db_inv ok d"
  shows "dict_iter_list d = Some (dict_elts d)" and "used d = length (dict_elts d)"
    and "distinct (map fst (dict_elts d))" and "e \<in> set (dict_elts d) \<Longrightarrow> arg_ok (fst e) \<and> ok (snd e)"
    and "map_of (dict_elts d) = dict_map d"
proof -
  have inv: "dict_inv str_eop str_ok d"
    using assms by (simp add: db_inv_def)
  then show "dict_iter_list d = Some (dict_elts d)"
    by (rule dict_iter_list_eq)
  show "used d = length (dict_elts d)" and dist: "distinct (map fst (dict_elts d))"
    using inv unfolding dict_inv_def by blast+
  show "map_of (dict_elts d) = dict_map d"
    by (simp add: dict_map_def)
  assume "e \<in> set (dict_elts d)"
  then have "dict_map d (fst e) = Some (snd e)"
    using dist by (simp add: dict_map_def)
  then show "arg_ok (fst e) \<and> ok (snd e)"
    using assms by (simp add: db_inv_def)
qed

lemma str_pairs_elts:
  assumes "db_inv is_arg d"
  shows "str_pairs (dict_elts d) = Some (map (\<lambda>e. (fst e, str_of (snd e))) (dict_elts d))"
proof -
  have "\<forall>x \<in> set (map snd (dict_elts d)). is_arg x"
    using db_inv_elts(4) [OF assms] by auto
  then show ?thesis
    by (simp add: str_pairs_def all_strs_args zip_map_map zip_same_conv_map o_def map_of_map)
qed

lemma dump_value_writes:
  assumes "stored v"
  shows "\<exists>w. (\<forall>rt f. dump_value key v rt f = Some (map_prod Some id (w f)))
    \<and> (key \<noteq> [] \<and> dumpable v \<longrightarrow> writes w (enc_str key @ enc_item v))"
proof (cases v)
  case (Str s)
  then show ?thesis
    by (intro exI [of _ "fk_kdb_dump_str_elt key s"]) (simp add: dump_value_def dump_str_elt_writes)
next
  case (Num n)
  then show ?thesis
    by (intro exI [of _ "fk_kdb_dump_num_elt key n"]) (simp add: dump_value_def dump_num_elt_writes)
next
  case (List l)
  then have "all_strs l = Some (map str_of l)"
    using assms by (simp add: stored_def all_strs_args)
  then show ?thesis
    using List dump_list_elt_writes [of key "map str_of l"]
    by (intro exI [of _ "fk_kdb_dump_list_elt key (map str_of l)"]) (simp add: dump_value_def)
next
  case (Dict d)
  then have d: "db_inv is_arg d"
    using assms val_ok_Dict by (auto simp: stored_def)
  let ?ps = "map (\<lambda>e. (fst e, str_of (snd e))) (dict_elts d)"
  have ne: "\<forall>e \<in> set ?ps. fst e \<noteq> []" if "dumpable v"
  proof -
    have "[] \<notin> fst ` set (dict_elts d)"
      using that Dict by (simp add: dict_map_def map_of_eq_None_iff)
    then show ?thesis by force
  qed
  have "(\<lambda>(k, v). enc_str k @ enc_str v) \<circ> (\<lambda>e. (fst e, str_of (snd e))) = enc_field"
    by (auto simp: enc_field_def)
  then have "concat (map (\<lambda>(k, v). enc_str k @ enc_str v) ?ps) = concat (map enc_field (dict_elts d))"
    by simp
  then show ?thesis
    using Dict ne dump_dict_elt_writes [of key ?ps "used d"] db_inv_elts(1) [OF d] str_pairs_elts [OF d]
    by (intro exI [of _ "fk_kdb_dump_dict_elt key (used d) ?ps"]) (auto simp: dump_value_def fk_dict_len_def)
qed (use assms in \<open>simp_all add: stored_def\<close>)

text \<open>A writer that may leave defined behaviour: it does not, and writes \<open>bs\<close> if there is room.\<close>

definition writes_opt :: "(fsink \<Rightarrow> (svr_rc \<times> fsink) option) \<Rightarrow> string \<Rightarrow> bool" where
  "writes_opt w bs \<longleftrightarrow>
     (\<forall>f. \<exists>rc f'. w f = Some (rc, f') \<and> (if length bs \<le> left_room f then rc = SVR_OK \<and> f' = sink_add f bs else rc = SVR_ERR))"

lemma writes_optD:
  assumes "writes_opt w bs"
  obtains rc f' where "w f = Some (rc, f')" "length bs \<le> left_room f \<Longrightarrow> rc = SVR_OK \<and> f' = sink_add f bs"
    "left_room f < length bs \<Longrightarrow> rc = SVR_ERR"
proof -
  obtain rc f' where "w f = Some (rc, f')"
    "if length bs \<le> left_room f then rc = SVR_OK \<and> f' = sink_add f bs else rc = SVR_ERR"
    using assms unfolding writes_opt_def by blast
  then show thesis
    using that [of rc f'] by (simp split: if_splits)
qed

lemma writesD:
  assumes "writes w bs"
  shows "length bs \<le> left_room f \<Longrightarrow> w f = (SVR_OK, sink_add f bs)" and "left_room f < length bs \<Longrightarrow> fst (w f) = SVR_ERR"
  using assms unfolding writes_def by (presburger, metis not_less)

lemma dump_elts_total:
  "\<forall>e \<in> set es. stored (snd e) \<Longrightarrow> \<exists>rc f'. dump_elts es rt f = Some (rc, f')"
proof (induction es arbitrary: rt f)
  case (Cons e es)
  obtain k v where e: "e = (k, v)" by fastforce
  obtain w where w: "\<And>rt f. dump_value k v rt f = Some (map_prod Some id (w f))"
    using dump_value_writes [of v k] Cons.prems e by auto
  have IH: "\<exists>rc f'. dump_elts es rt f = Some (rc, f')" for rt f
    using Cons.IH Cons.prems by simp
  show ?case
    using w IH by (auto simp: e Let_def split_beta)
qed simp

lemma writes_opt_eq: "writes_opt w bs \<Longrightarrow> (\<And>f. w' f = w f) \<Longrightarrow> writes_opt w' bs"
  by (simp add: writes_opt_def)

text \<open>One writer after another, the second only if the first succeeds.\<close>

lemma writes_opt_seq:
  assumes w: "writes_opt w bs" and k: "writes_opt (k SVR_OK) cs"
  shows "writes_opt (\<lambda>f. do { (rc, f1) \<leftarrow> w f; if rc = SVR_ERR then Some (SVR_ERR, f1) else k rc f1 }) (bs @ cs)"
  unfolding writes_opt_def
proof
  fix f
  obtain r f1 where r: "w f = Some (r, f1)" "length bs \<le> left_room f \<Longrightarrow> r = SVR_OK \<and> f1 = sink_add f bs" "left_room f < length bs \<Longrightarrow> r = SVR_ERR"
    using writes_optD [OF w] by blast
  obtain rc f' where k: "k SVR_OK (sink_add f bs) = Some (rc, f')" "length cs \<le> left_room (sink_add f bs) \<Longrightarrow> rc = SVR_OK \<and> f' = sink_add (sink_add f bs) cs"
    "left_room (sink_add f bs) < length cs \<Longrightarrow> rc = SVR_ERR"
    using writes_optD [OF k] by blast
  show "\<exists>rc f'. do { (rc, f1) \<leftarrow> w f; if rc = SVR_ERR then Some (SVR_ERR, f1) else k rc f1 } = Some (rc, f') \<and>
    (if length (bs @ cs) \<le> left_room f then rc = SVR_OK \<and> f' = sink_add f (bs @ cs) else rc = SVR_ERR)"
  proof (cases "length bs \<le> left_room f")
    case True
    then have "length (bs @ cs) \<le> left_room f \<longleftrightarrow> length cs \<le> left_room (sink_add f bs)"
      by auto
    then show ?thesis
      using True k r(1,2) by (cases "length cs \<le> left_room (sink_add f bs)") auto
  next
    case False
    then show ?thesis
      using r(1,3) by simp
  qed
qed

lemma writes_opt_Some: "writes w bs \<Longrightarrow> writes_opt (\<lambda>f. Some (w f)) bs"
  unfolding writes_opt_def by (metis prod.collapse writesD not_less)

lemma writes_opt_then:
  assumes "writes_opt k cs" and "bs \<noteq> []"
  shows "writes_opt (\<lambda>f. let (wz, f1) = fwrite bs f in if wz = 0 then Some (SVR_ERR, f1) else k f1) (bs @ cs)"
proof -
  have "writes_opt (\<lambda>f. Some (let (wz, f1) = fwrite bs f in (if wz = 0 then SVR_ERR else SVR_OK, f1))) bs"
    using assms(2) by (auto simp: writes_opt_def fwrite_sink)
  then show ?thesis
    by (rule writes_opt_eq [OF writes_opt_seq [where k = "\<lambda>_. k", OF _ assms(1)]]) (simp add: split_beta)
qed

lemma dump_elts_writes:
  assumes "\<forall>e \<in> set es. fst e \<noteq> [] \<and> stored (snd e) \<and> dumpable (snd e)"
  shows "writes_opt (dump_elts es rt) (concat (map enc_elt es))"
  using assms
proof (induction es arbitrary: rt)
  case Nil
  then show ?case
    by (simp add: writes_opt_def)
next
  case (Cons e es)
  obtain k v where e: "e = (k, v)" by fastforce
  obtain w where w: "\<And>rt f. dump_value k v rt f = Some (map_prod Some id (w f))" "writes w (enc_str k @ enc_item v)"
    using dump_value_writes [of v k] Cons.prems e by auto
  have "writes_opt (\<lambda>f. do { (rc, f2) \<leftarrow> Some (w f); if rc = SVR_ERR then Some (SVR_ERR, f2) else dump_elts es (Some rc) f2 })
      ((enc_str k @ enc_item v) @ concat (map enc_elt es))"
    using Cons by (intro writes_opt_seq writes_opt_Some [OF w(2)]) simp
  then have "writes_opt (dump_elts (e # es) rt) (u32 (type_tag (fk_item_type v)) @ (enc_str k @ enc_item v) @ concat (map enc_elt es))"
    by (rule writes_opt_eq [OF writes_opt_then]) (simp_all add: e w(1) split_beta)
  then show ?case
    by (simp add: e enc_elt_def [of "(k, v)"] del: dump_elts.simps)
qed

lemma db_dumpable_elts:
  assumes "db_inv ok d" and "db_dumpable d" and "\<And>v. ok v \<Longrightarrow> stored v"
  shows "\<forall>e \<in> set (dict_elts d). fst e \<noteq> [] \<and> stored (snd e) \<and> dumpable (snd e)"
proof
  fix e assume e: "e \<in> set (dict_elts d)"
  then have "dict_map d (fst e) = Some (snd e)"
    using db_inv_elts(3,5) [OF assms(1)] by (metis map_of_is_SomeI prod.collapse)
  then show "fst e \<noteq> [] \<and> stored (snd e) \<and> dumpable (snd e)"
    using assms(2,3) db_inv_elts(4) [OF assms(1) e] by (auto simp: db_dumpable_def)
qed

lemma dump_dict_writes:
  assumes "nth_opt (if isexp = 1 then expdb s else db s) i = Some d"
    and "db_inv ok d" and "db_dumpable d" and "\<And>v. ok v \<Longrightarrow> stored v"
  shows "writes_opt (fk_kdb_dump s i isexp) (enc_db i isexp d)"
proof -
  have it: "dict_iter_list d = Some (dict_elts d)"
    using db_inv_elts(1) [OF assms(2)] .
  have "writes_opt (\<lambda>f. do { es \<leftarrow> dict_iter_list d; dump_elts es None f }) (concat (map enc_elt (dict_elts d)))"
    using dump_elts_writes [OF db_dumpable_elts [OF assms(2-4)]] by (simp add: it)
  note w3 = writes_opt_then [OF this, of "u64 (fk_dict_len d)"]
  have "writes_opt (\<lambda>f. let (wz, f1) = fwrite (u32 i) f in if wz = 0 then Some (SVR_ERR, f1) else
      let (wz, f2) = fwrite (u32 isexp) f1 in if wz = 0 then Some (SVR_ERR, f2) else
      let (wz, f3) = fwrite (u64 (fk_dict_len d)) f2 in if wz = 0 then Some (SVR_ERR, f3) else
      do { es \<leftarrow> dict_iter_list d; dump_elts es None f3 }) (enc_db i isexp d)"
    unfolding enc_db_def using w3 by (intro writes_opt_then) (simp_all add: fk_dict_len_def)
  moreover have "fk_kdb_dump s i isexp = (\<lambda>f. let (wz, f1) = fwrite (u32 i) f in if wz = 0 then Some (SVR_ERR, f1) else
      let (wz, f2) = fwrite (u32 isexp) f1 in if wz = 0 then Some (SVR_ERR, f2) else
      let (wz, f3) = fwrite (u64 (fk_dict_len d)) f2 in if wz = 0 then Some (SVR_ERR, f3) else
      do { es \<leftarrow> dict_iter_list d; dump_elts es None f3 })"
    using assms(1) by (intro ext) (simp add: fk_kdb_dump_def)
  ultimately show ?thesis by simp
qed

lemma dump_dict_total:
  assumes "nth_opt (if isexp = 1 then expdb s else db s) i = Some d"
    and "db_inv ok d" and "\<And>v. ok v \<Longrightarrow> stored v"
  shows "\<exists>rc f'. fk_kdb_dump s i isexp f = Some (rc, f')"
proof -
  have "\<exists>rc f'. dump_elts (dict_elts d) None g = Some (rc, f')" for g
    using dump_elts_total [of "dict_elts d" None g] db_inv_elts(4) [OF assms(2)] assms(3) by blast
  then show ?thesis
    using assms(1) db_inv_elts(1) [OF assms(2)] by (auto simp: fk_kdb_dump_def Let_def split_beta)
qed

definition svr_dumpable :: "fk_svr \<Rightarrow> bool" where
  "svr_dumpable s \<longleftrightarrow> (\<forall>i < dbcnt s. db_dumpable (db s ! i) \<and> db_dumpable (expdb s ! i))"

lemma svr_dict_nth:
  assumes "svr_inv s" and "i < dbcnt s"
  shows "nth_opt (if 0 = Suc 0 then expdb s else db s) i = Some (db s ! i)"
    and "nth_opt (if Suc 0 = Suc 0 then expdb s else db s) i = Some (expdb s ! i)"
  using assms by (auto simp: cmem svr_inv_def)

lemma save_dbs_writes:
  assumes "svr_inv s" and "svr_dumpable s" and "\<forall>i \<in> set is. i < dbcnt s"
  shows "writes_opt (save_dbs s is) (enc_svr s is)"
  using assms(3)
proof (induction "is")
  case Nil
  then show ?case by (simp add: writes_opt_def enc_svr_def)
next
  case (Cons i "is")
  have i: "i < dbcnt s" using Cons.prems by simp
  have dp: "db_dumpable (db s ! i)" "db_dumpable (expdb s ! i)"
    using assms(2) i by (auto simp: svr_dumpable_def)
  have w0: "writes_opt (fk_kdb_dump s i 0) (enc_db i 0 (db s ! i))"
    using svr_dict_nth(1) [OF assms(1) i] svr_inv_nth(1) [OF assms(1) i] dp(1)
    by (intro dump_dict_writes [of 0 s i _ val_ok]) (simp_all add: stored_def)
  have w1: "writes_opt (fk_kdb_dump s i 1) (enc_db i 1 (expdb s ! i))"
    using svr_dict_nth(2) [OF assms(1) i] svr_inv_nth(2) [OF assms(1) i] dp(2)
    by (intro dump_dict_writes [of 1 s i _ exp_ok]) (simp_all add: stored_def)
  have IH: "writes_opt (save_dbs s is) (enc_svr s is)"
    using Cons by simp
  have "writes_opt (save_dbs s (i # is)) (enc_db i 0 (db s ! i) @ enc_db i 1 (expdb s ! i) @ enc_svr s is)"
    unfolding save_dbs.simps by (intro writes_opt_seq [where k = "\<lambda>_. _"] w0 w1 IH)
  then show ?case
    by (simp add: enc_svr_def del: save_dbs.simps)
qed

lemma save_dbs_total:
  assumes "svr_inv s" and "\<forall>i \<in> set is. i < dbcnt s"
  shows "\<exists>rc f'. save_dbs s is f = Some (rc, f')"
  using assms(2)
proof (induction "is" arbitrary: f)
  case (Cons i "is")
  have i: "i < dbcnt s" using Cons.prems by simp
  obtain r0 f0 where 0: "fk_kdb_dump s i 0 f = Some (r0, f0)"
    using dump_dict_total [of 0 s i "db s ! i" val_ok f] svr_inv_nth(1) [OF assms(1) i]
      svr_dict_nth(1) [OF assms(1) i] by (auto simp: stored_def)
  obtain r1 f1 where 1: "fk_kdb_dump s i 1 f0 = Some (r1, f1)"
    using dump_dict_total [of 1 s i "expdb s ! i" exp_ok f0] svr_inv_nth(2) [OF assms(1) i]
      svr_dict_nth(2) [OF assms(1) i] by (auto simp: stored_def)
  obtain r2 f2 where "save_dbs s is f1 = Some (r2, f2)"
    using Cons.IH [of f1] Cons.prems by auto
  with 0 1 show ?case
    by simp
qed simp

subsection \<open>Restoring\<close>

text \<open>A codec: the decoder gives back what was encoded and leaves what follows.\<close>

locale codec =
  fixes enc :: "'a \<Rightarrow> string" and dec :: "string \<Rightarrow> ('a \<times> string) kres" and ok :: "'a \<Rightarrow> bool"
  assumes dec_enc: "ok a \<Longrightarrow> dec (enc a @ rest) = KOk (a, rest)"
begin

lemma enc_inj: "ok a \<Longrightarrow> ok b \<Longrightarrow> enc a @ r = enc b @ q \<Longrightarrow> a = b \<and> r = q"
  using dec_enc [of a r] dec_enc [of b q] by (metis kres.inject prod.inject)

end

interpretation len_codec: codec u64 fread_len "\<lambda>n. n < 2 ^ 64"
proof
  fix a :: nat and rest
  assume "a < 2 ^ 64"
  moreover have "(2::nat) ^ 64 = 256 ^ 8"
    by simp
  ultimately have "le_val (u64 a) = a"
    by (intro le_val_bytes) (simp only:)
  then show "fread_len (u64 a @ rest) = KOk (a, rest)"
    by (simp add: fread_len_def fread1_def)
qed

lemma arg_ok_small:
  assumes "arg_ok s"
  shows "length s < 2 ^ 64 \<and> \<not> int (length s) > FK_ARG_HIGHWAT"
proof -
  have le: "int (length s) \<le> 1048576"
    using assms by (simp add: arg_ok_def fk_consts)
  then have "length s \<le> 1048576"
    by linarith
  also have "(1048576::nat) < 2 ^ 64"
    by simp
  finally show ?thesis
    using le by (simp add: FK_ARG_HIGHWAT_def)
qed

interpretation key_codec: codec enc_str read_key "\<lambda>s. s \<noteq> [] \<and> arg_ok s"
proof
  fix s rest :: string
  assume s: "s \<noteq> [] \<and> arg_ok s"
  then have "fread_len (u64 (length s) @ s @ rest) = KOk (length s, s @ rest)"
    using arg_ok_small by (intro len_codec.dec_enc) simp
  then show "read_key (enc_str s @ rest) = KOk (s, rest)"
    using s arg_ok_small [of s] by (simp add: read_key_def enc_str_def fread1_def)
qed

interpretation val_codec: codec enc_str read_val arg_ok
proof
  fix s rest :: string
  assume s: "arg_ok s"
  then have "fread_len (u64 (length s) @ s @ rest) = KOk (length s, s @ rest)"
    using arg_ok_small by (intro len_codec.dec_enc) simp
  then show "read_val (enc_str s @ rest) = KOk (s, rest)"
    using s arg_ok_small [of s] by (simp add: read_val_def enc_str_def fread0_def fread1_def)
qed

text \<open>A loop over encoded elements: every iteration consumes one element and updates an abstraction
  of the state; so does the whole loop.\<close>

fun all_ok :: "('a \<Rightarrow> 't \<Rightarrow> bool) \<Rightarrow> ('a \<Rightarrow> 't \<Rightarrow> 't) \<Rightarrow> 'a list \<Rightarrow> 't \<Rightarrow> bool" where
  "all_ok ok upd [] t = True"
| "all_ok ok upd (x # xs) t = (ok x t \<and> all_ok ok upd xs (upd x t))"

locale loop_codec =
  fixes enc :: "'a \<Rightarrow> string" and body :: "string \<Rightarrow> 's \<Rightarrow> ('s \<times> string) kres" and inv :: "'s \<Rightarrow> bool"
    and absf :: "'s \<Rightarrow> 't" and upd :: "'a \<Rightarrow> 't \<Rightarrow> 't" and ok :: "'a \<Rightarrow> 't \<Rightarrow> bool"
  assumes step: "inv s \<Longrightarrow> ok a (absf s) \<Longrightarrow>
    \<exists>s'. body (enc a @ rest) s = KOk (s', rest) \<and> inv s' \<and> absf s' = upd a (absf s)"
begin

lemma loop:
  assumes "inv s" and "all_ok ok upd xs (absf s)"
  shows "\<exists>s'. fread_loop body (length xs) (concat (map enc xs) @ rest) s = KOk (s', rest)
    \<and> inv s' \<and> absf s' = fold upd xs (absf s)"
  using assms
proof (induction xs arbitrary: s)
  case (Cons x xs)
  obtain s1 where s1: "body (enc x @ concat (map enc xs) @ rest) s = KOk (s1, concat (map enc xs) @ rest)"
    "inv s1" "absf s1 = upd x (absf s)"
    using step [OF Cons.prems(1), of x "concat (map enc xs) @ rest"] Cons.prems(2) by auto
  then show ?case
    using Cons.IH [OF s1(2)] Cons.prems(2) by simp
qed simp

end

interpretation node_loop: loop_codec enc_str restore_node "\<lambda>l. True" "\<lambda>l. l" "\<lambda>s l. l @ [Str s]" "\<lambda>s l. arg_ok s"
  by unfold_locales (simp add: restore_node_def val_codec.dec_enc)

lemma kadd_new:
  assumes "db_inv ok d" and "arg_ok k" and "ok v" and "dict_map d k = None"
  shows "\<exists>d'. kadd d k v fp = KOk (d', fp) \<and> db_inv ok d' \<and> dict_map d' = (dict_map d)(k \<mapsto> v)"
  using db_add [of ok d k v] assms by (auto simp: kadd_def)

interpretation field_loop: loop_codec enc_field restore_field "db_inv is_arg" dict_map
  "\<lambda>e m. m(fst e \<mapsto> snd e)" "\<lambda>e m. fst e \<noteq> [] \<and> arg_ok (fst e) \<and> is_arg (snd e) \<and> m (fst e) = None"
proof
  fix d :: fk_db and e :: "string \<times> fk_item" and rest
  assume d: "db_inv is_arg d" and e: "fst e \<noteq> [] \<and> arg_ok (fst e) \<and> is_arg (snd e) \<and> dict_map d (fst e) = None"
  then obtain s where s: "snd e = Str s" "arg_ok s"
    by (auto simp: is_arg_def)
  then have "restore_field (enc_field e @ rest) d = kadd d (fst e) (snd e) rest"
    using e by (simp add: restore_field_def enc_field_def key_codec.dec_enc val_codec.dec_enc)
  then show "\<exists>d'. restore_field (enc_field e @ rest) d = KOk (d', rest) \<and> db_inv is_arg d'
    \<and> dict_map d' = (dict_map d)(fst e \<mapsto> snd e)"
    using kadd_new [OF d] e by simp
qed

lemma fold_map_upd:
  "distinct (map fst xs) \<Longrightarrow> fold (\<lambda>e m. m(fst e \<mapsto> f (snd e))) xs m = m ++ map_of (map (\<lambda>e. (fst e, f (snd e))) xs)"
proof (induction xs arbitrary: m)
  case (Cons x xs)
  have "fst x \<notin> fst ` set xs"
    using Cons.prems by simp
  then have "fst x \<notin> dom (map_of (map (\<lambda>e. (fst e, f (snd e))) xs))"
    by (simp add: dom_map_of_conv_image_fst image_image)
  then have "m(fst x \<mapsto> f (snd x)) ++ map_of (map (\<lambda>e. (fst e, f (snd e))) xs)
    = m ++ map_of (map (\<lambda>e. (fst e, f (snd e))) (x # xs))"
    by (simp only: map_add_upd_left [OF \<open>fst x \<notin> dom _\<close>] list.map map_of.simps fst_conv snd_conv map_add_upd)
  then show ?case
    using Cons.IH [of "m(fst x \<mapsto> f (snd x))"] Cons.prems by (simp only: fold_Cons o_apply list.map distinct.simps)
qed simp

lemma all_ok_fields:
  assumes "distinct (map fst es)" and "\<forall>e \<in> set es. P e \<and> m (fst e) = None"
  shows "all_ok (\<lambda>e m. P e \<and> m (fst e) = None) (\<lambda>e m. m(fst e \<mapsto> f (snd e))) es m"
  using assms
proof (induction es arbitrary: m)
  case (Cons x es)
  have "\<forall>e \<in> set es. P e \<and> (m(fst x \<mapsto> f (snd x))) (fst e) = None"
    using Cons.prems by (auto simp: image_iff)
  then show ?case
    using Cons by simp
qed simp

lemma fread1_u32: "fread1 4 (u32 n @ rest) = KOk (u32 n, rest)"
  by (simp add: fread1_def)

lemma le_val_u32: "n < 2 ^ 32 \<Longrightarrow> le_val (u32 n) = n"
  by (rule le_val_bytes) simp

lemma restore_elt_tag:
  "restore_elt (u32 (type_tag t) @ fp) d =
     (case t of FK_ITEM_STR \<Rightarrow> fk_kdb_restore_str_elt fp d | FK_ITEM_LIST \<Rightarrow> fk_kdb_restore_list_elt fp d
      | FK_ITEM_DICT \<Rightarrow> fk_kdb_restore_dict_elt fp d | FK_ITEM_NUM \<Rightarrow> fk_kdb_restore_num_elt fp d | _ \<Rightarrow> KErr)"
  by (cases t) (simp_all add: restore_elt_def fread1_u32 le_val_u32 Let_def)

lemma fold_snoc_Str: "fold (\<lambda>s l. l @ [Str s]) ss l = l @ map Str ss"
  by (induction ss arbitrary: l) auto

lemma all_ok_const: "list_all P xs \<Longrightarrow> all_ok (\<lambda>x t. P x) upd xs t"
  by (induction xs arbitrary: t) auto

lemma args_Str: "\<forall>x \<in> set l. is_arg x \<Longrightarrow> map Str (map str_of l) = l \<and> list_all arg_ok (map str_of l)"
  by (induction l) (auto simp: is_arg_def)

text \<open>One encoded element: restoring it adds the key with a value that has the same abstraction.\<close>

lemma restore_value_str:
  assumes "k \<noteq> []" "arg_ok k" "arg_ok x"
  shows "restore_elt (enc_elt (k, Str x) @ rest) d = kadd d k (Str x) rest"
  using assms unfolding enc_elt_def snd_conv fst_conv append_assoc restore_elt_tag
  by (simp add: fk_kdb_restore_str_elt_def key_codec.dec_enc val_codec.dec_enc)

lemma restore_value_num:
  assumes "k \<noteq> []" "arg_ok k" "exp_ok (Num n)"
  shows "restore_elt (enc_elt (k, Num n) @ rest) d = kadd d k (Num n) rest"
proof -
  have len: "fread_len (u64 8 @ s64_bytes n @ rest) = KOk (8, s64_bytes n @ rest)"
    by (rule len_codec.dec_enc) simp
  have l8: "length (s64_bytes n) = 8"
    by (simp add: s64_bytes_def)
  then have "fread_num 8 (s64_bytes n @ rest) = KOk (n, rest)"
    using s64_val_bytes [of n] assms(3) by (simp add: fread_num_def)
  then show ?thesis
    using assms len unfolding enc_elt_def snd_conv fst_conv append_assoc restore_elt_tag
    by (simp add: fk_kdb_restore_num_elt_def key_codec.dec_enc FK_ARG_HIGHWAT_def)
qed

lemma restore_value_list:
  assumes "k \<noteq> []" "arg_ok k" "val_ok (List l)" "dumpable (List l)"
  shows "restore_elt (enc_elt (k, List l) @ rest) d = kadd d k (List l) rest"
proof -
  let ?ss = "map str_of l"
  let ?body = "concat (map enc_str ?ss)"
  have l: "map Str ?ss = l" "list_all arg_ok ?ss"
    using args_Str [of l] assms(3) by auto
  have "fread_len (u64 (length l) @ ?body @ rest) = KOk (length l, ?body @ rest)"
    using assms(4) by (intro len_codec.dec_enc) simp
  moreover have "\<exists>r. fread_loop restore_node (length ?ss) (?body @ rest) [] = KOk (r, rest)
      \<and> True \<and> r = fold (\<lambda>s l. l @ [Str s]) ?ss []"
    by (rule node_loop.loop [OF TrueI all_ok_const [OF l(2)]])
  then have "fread_loop restore_node (length ?ss) (?body @ rest) [] = KOk (l, rest)"
    using l(1) by (simp only: fold_snoc_Str append_Nil) simp
  ultimately show ?thesis
    using assms unfolding enc_elt_def snd_conv fst_conv append_assoc restore_elt_tag
    by (simp add: fk_kdb_restore_list_elt_def key_codec.dec_enc del: map_map) (simp add: o_def)
qed

lemma restore_value_dict:
  assumes "k \<noteq> []" "arg_ok k" "val_ok (Dict h)" "dumpable (Dict h)"
  shows "\<exists>h'. db_inv is_arg h' \<and> dict_map h' = dict_map h
    \<and> (\<forall>d. restore_elt (enc_elt (k, Dict h) @ rest) d = kadd d k (Dict h') rest)"
proof -
  let ?es = "dict_elts h"
  let ?body = "concat (map enc_field ?es)"
  have inv: "db_inv is_arg h"
    using assms(3) val_ok_Dict by blast
  note el = db_inv_elts [OF inv]
  have ne: "\<forall>e \<in> set ?es. fst e \<noteq> []"
    using assms(4) el(5) by (auto simp: map_of_eq_None_iff [symmetric] image_iff)
       (metis el(5) fst_conv image_eqI map_of_eq_None_iff)
  have "fread_len (u64 (used h) @ ?body @ rest) = KOk (used h, ?body @ rest)"
    using assms(4) by (intro len_codec.dec_enc) simp
  moreover have ok: "all_ok (\<lambda>e m. fst e \<noteq> [] \<and> arg_ok (fst e) \<and> is_arg (snd e) \<and> m (fst e) = None)
      (\<lambda>e m. m(fst e \<mapsto> snd e)) ?es (dict_map fk_dict_create)"
    using all_ok_fields [OF el(3), of "\<lambda>e. fst e \<noteq> [] \<and> arg_ok (fst e) \<and> is_arg (snd e)" Map.empty "\<lambda>v. v"] ne el(4)
    by simp
  obtain h' where h': "fread_loop restore_field (length ?es) (?body @ rest) fk_dict_create = KOk (h', rest)"
    "db_inv is_arg h'" "dict_map h' = fold (\<lambda>e m. m(fst e \<mapsto> snd e)) ?es Map.empty"
    using field_loop.loop [OF db_inv_create ok, of rest] by auto
  have "fold (\<lambda>e m. m(fst e \<mapsto> snd e)) ?es Map.empty = dict_map h"
    using fold_map_upd [OF el(3), of "\<lambda>v. v" Map.empty] el(5) by simp
  then show ?thesis
    using calculation h' assms(1,2) el(2) unfolding enc_elt_def snd_conv fst_conv append_assoc restore_elt_tag
    by (intro exI [of _ h']) (simp add: fk_kdb_restore_dict_elt_def key_codec.dec_enc)
qed

lemma restore_elt_step:
  assumes d: "db_inv ok d" and e: "fst e \<noteq> []" "arg_ok (fst e)" "ok (snd e)" "dumpable (snd e)"
    and new: "abs_db d (fst e) = None" and ok: "ok = val_ok \<or> ok = exp_ok"
  shows "\<exists>d'. restore_elt (enc_elt e @ rest) d = KOk (d', rest) \<and> db_inv ok d'
    \<and> abs_db d' = (abs_db d)(fst e \<mapsto> abs_item (snd e))"
proof -
  obtain k v where kv: "e = (k, v)" by fastforce
  have none: "dict_map d k = None"
    using new kv by (simp add: abs_db_None)
  obtain v' where v': "restore_elt (enc_elt (k, v) @ rest) d = kadd d k v' rest" "ok v'" "abs_item v' = abs_item v"
  proof (cases v)
    case (Str x)
    then have "ok = val_ok" "arg_ok x"
      using ok e(3) kv by auto
    then show thesis
      using that [of v] restore_value_str [of k x rest d] e kv Str by simp
  next
    case (Num n)
    then have "ok = exp_ok"
      using ok e(3) kv by auto
    then show thesis
      using that [of v] restore_value_num [of k n rest d] e kv Num by simp
  next
    case (List l)
    then have "ok = val_ok"
      using ok e(3) kv by auto
    then show thesis
      using that [of v] restore_value_list [of k l rest d] e kv List by simp
  next
    case (Dict h)
    then have okv: "ok = val_ok"
      using ok e(3) kv by auto
    then obtain h' where h': "db_inv is_arg h'" "dict_map h' = dict_map h"
      "restore_elt (enc_elt (k, Dict h) @ rest) d = kadd d k (Dict h') rest"
      using restore_value_dict [of k h rest] e kv Dict by auto
    have "ok (Dict h')"
      unfolding okv using h'(1) val_ok_Dict by blast
    moreover have "abs_item (Dict h') = abs_item v"
      using h'(2) Dict by simp
    ultimately show thesis
      using that h'(3) Dict by blast
  qed (use ok e(3) kv in auto)
  obtain d' where "kadd d k v' rest = KOk (d', rest)" "db_inv ok d'" "dict_map d' = (dict_map d)(k \<mapsto> v')"
    using kadd_new [OF d _ v'(2) none] e(2) kv by auto
  then show ?thesis
    using v'(1,3) abs_db_upd [of d' d k v'] kv by simp
qed

interpretation elt_loop: loop_codec enc_elt restore_elt "db_inv val_ok" abs_db
  "\<lambda>e m. m(fst e \<mapsto> abs_item (snd e))"
  "\<lambda>e m. (fst e \<noteq> [] \<and> arg_ok (fst e) \<and> val_ok (snd e) \<and> dumpable (snd e)) \<and> m (fst e) = None"
  using restore_elt_step [of val_ok] by unfold_locales auto

interpretation exp_loop: loop_codec enc_elt restore_elt "db_inv exp_ok" abs_db
  "\<lambda>e m. m(fst e \<mapsto> abs_item (snd e))"
  "\<lambda>e m. (fst e \<noteq> [] \<and> arg_ok (fst e) \<and> exp_ok (snd e) \<and> dumpable (snd e)) \<and> m (fst e) = None"
  using restore_elt_step [of exp_ok] by unfold_locales auto

text \<open>The body of a dumped dictionary, restored into an empty one.\<close>

lemma fold_abs_elts:
  assumes "db_inv ok d"
  shows "fold (\<lambda>e m. m(fst e \<mapsto> abs_item (snd e))) (dict_elts d) Map.empty = abs_db d"
proof -
  have "fold (\<lambda>e m. m(fst e \<mapsto> abs_item (snd e))) (dict_elts d) Map.empty
    = map_of (map (\<lambda>(k, v). (k, abs_item v)) (dict_elts d))"
    using fold_map_upd [OF db_inv_elts(3) [OF assms], of abs_item Map.empty] by (simp add: split_def)
  also have "\<dots> = abs_db d"
    by (simp add: map_of_map abs_db_def db_inv_elts(5) [OF assms])
  finally show ?thesis .
qed

lemma restore_body:
  assumes d: "db_inv ok d" and dp: "db_dumpable d" and ok: "ok = val_ok \<or> ok = exp_ok"
  shows "\<exists>d'. fread_loop restore_elt (used d) (concat (map enc_elt (dict_elts d)) @ rest) fk_dict_create = KOk (d', rest)
    \<and> db_inv ok d' \<and> abs_db d' = abs_db d"
proof -
  let ?P = "\<lambda>e. fst e \<noteq> [] \<and> arg_ok (fst e) \<and> ok (snd e) \<and> dumpable (snd e)"
  have "\<forall>e \<in> set (dict_elts d). ?P e \<and> Map.empty (fst e) = None"
    using db_dumpable_elts [OF d dp] db_inv_elts(4) [OF d] ok by (auto simp: stored_def)
  then have "all_ok (\<lambda>e m. ?P e \<and> m (fst e) = None) (\<lambda>e m. m(fst e \<mapsto> abs_item (snd e))) (dict_elts d) (abs_db fk_dict_create)"
    unfolding abs_db_create by (rule all_ok_fields [OF db_inv_elts(3) [OF d]])
  then show ?thesis
    using elt_loop.loop [of fk_dict_create "dict_elts d" rest] exp_loop.loop [of fk_dict_create "dict_elts d" rest]
      ok fold_abs_elts [OF d] db_inv_elts(2) [OF d] by auto
qed

lemma restore_db:
  assumes "db_inv ok d" and "db_dumpable d" and "ok = val_ok \<or> ok = exp_ok"
    and "i < dbcnt t" and "isexp = 0 \<or> isexp = 1" and "dbcnt t < 2 ^ 31"
    and "nth_opt (if isexp = 1 then expdb t else db t) i = Some fk_dict_create"
  shows "\<exists>d'. fk_kdb_restore (enc_db i isexp d @ rest) t =
      KOk (if isexp = 1 then t\<lparr>expdb := (expdb t)[i := d']\<rparr> else t\<lparr>db := (db t)[i := d']\<rparr>, rest)
    \<and> db_inv ok d' \<and> abs_db d' = abs_db d"
proof -
  let ?body = "concat (map enc_elt (dict_elts d))"
  obtain d' where d': "fread_loop restore_elt (used d) (?body @ rest) fk_dict_create = KOk (d', rest)"
    "db_inv ok d'" "abs_db d' = abs_db d"
    using restore_body [OF assms(1-3)] by blast
  have len: "fread_len (u64 (used d) @ ?body @ rest) = KOk (used d, ?body @ rest)"
    using assms(2) by (intro len_codec.dec_enc) (simp add: db_dumpable_def)
  have i: "le_val (u32 i) = i" "le_val (u32 isexp) = isexp"
    using assms(4-6) by (auto intro!: le_val_u32)
  have "enc_db i isexp d @ rest = u32 i @ u32 isexp @ u64 (used d) @ ?body @ rest"
    by (simp add: enc_db_def)
  then have "fk_kdb_restore (enc_db i isexp d @ rest) t =
      KOk (if isexp = 1 then t\<lparr>expdb := (expdb t)[i := d']\<rparr> else t\<lparr>db := (db t)[i := d']\<rparr>, rest)"
    using assms(4,7) len d'(1) i by (simp add: fk_kdb_restore_def fread1_u32 Let_def)
  with d' show ?thesis by blast
qed

text \<open>Loading from database \<open>j\<close> on: the earlier ones are restored, the others still empty.\<close>

definition loaded_upto :: "fk_svr \<Rightarrow> nat \<Rightarrow> fk_svr \<Rightarrow> bool" where
  "loaded_upto s j t \<longleftrightarrow> svr_inv t \<and> dbcnt t = dbcnt s
     \<and> (\<forall>i < dbcnt s. if i < j then abs_db (db t ! i) = abs_db (db s ! i) \<and> abs_db (expdb t ! i) = abs_db (expdb s ! i)
          else db t ! i = fk_dict_create \<and> expdb t ! i = fk_dict_create)"

lemma load_one:
  assumes s: "svr_inv s" "svr_dumpable s" and t: "loaded_upto s j t" and j: "j < dbcnt s"
  shows "\<exists>t'. load_loop (enc_db j 0 (db s ! j) @ enc_db j 1 (expdb s ! j) @ rest) t = load_loop rest t'
    \<and> loaded_upto s (Suc j) t'"
proof -
  have dp: "db_dumpable (db s ! j)" "db_dumpable (expdb s ! j)"
    using s(2) j by (auto simp: svr_dumpable_def)
  have ti: "svr_inv t" "dbcnt t = dbcnt s" "db t ! j = fk_dict_create" "expdb t ! j = fk_dict_create"
    and small: "dbcnt t < 2 ^ 31" and lens: "length (db t) = dbcnt s" "length (expdb t) = dbcnt s"
    using t j by (auto simp: loaded_upto_def svr_inv_def)
  let ?r = "enc_db j 1 (expdb s ! j) @ rest"
  obtain d where d: "fk_kdb_restore (enc_db j 0 (db s ! j) @ ?r) t = KOk (t\<lparr>db := (db t)[j := d]\<rparr>, ?r)"
    "db_inv val_ok d" "abs_db d = abs_db (db s ! j)"
    using restore_db [OF svr_inv_nth(1) [OF s(1) j] dp(1), of j t 0 ?r] ti small lens j by (auto simp: cmem)
  let ?t = "t\<lparr>db := (db t)[j := d]\<rparr>"
  obtain e where e: "fk_kdb_restore ?r ?t = KOk (?t\<lparr>expdb := (expdb ?t)[j := e]\<rparr>, rest)"
    "db_inv exp_ok e" "abs_db e = abs_db (expdb s ! j)"
    using restore_db [OF svr_inv_nth(2) [OF s(1) j] dp(2), of j ?t 1 rest] ti small lens j by (auto simp: cmem)
  let ?t' = "?t\<lparr>expdb := (expdb ?t)[j := e]\<rparr>"
  have ne: "enc_db i x d \<noteq> []" for i x d
    by (simp add: enc_db_def)
  have "load_loop (enc_db j 0 (db s ! j) @ ?r) t = load_loop ?r ?t"
    using d(1) by (subst load_loop.simps) (simp add: ne)
  moreover have "load_loop ?r ?t = load_loop rest ?t'"
    using e(1) by (subst load_loop.simps) (simp add: ne)
  moreover have "svr_inv ?t'"
    using svr_inv_upd(3) [OF ti(1) d(2) e(2), of j] by simp
  then have "loaded_upto s (Suc j) ?t'"
    using t j d(3) e(3) lens by (auto simp: loaded_upto_def nth_list_update less_Suc_eq)
  ultimately show ?thesis
    by auto
qed

lemma load_all:
  assumes s: "svr_inv s" "svr_dumpable s" and "loaded_upto s j t" and "j \<le> dbcnt s"
  shows "\<exists>t'. load_loop (enc_svr s [j..<dbcnt s]) t = KOk t' \<and> loaded_upto s (dbcnt s) t'"
  using assms(3,4)
proof (induction "dbcnt s - j" arbitrary: j t)
  case 0
  then show ?case
    by (simp add: enc_svr_def load_loop.simps [of "[]"])
next
  case (Suc n)
  then have j: "j < dbcnt s" by simp
  then have "enc_svr s [j..<dbcnt s] = enc_db j 0 (db s ! j) @ enc_db j 1 (expdb s ! j) @ enc_svr s [Suc j..<dbcnt s]"
    by (simp add: enc_svr_def upt_conv_Cons)
  moreover obtain t' where "load_loop (enc_db j 0 (db s ! j) @ enc_db j 1 (expdb s ! j) @ enc_svr s [Suc j..<dbcnt s]) t
      = load_loop (enc_svr s [Suc j..<dbcnt s]) t'" "loaded_upto s (Suc j) t'"
    using load_one [OF s Suc.prems(1) j] by blast
  ultimately show ?case
    using Suc.hyps(1) [of "Suc j" t'] Suc.hyps(2) j by simp
qed

lemma kdb_save_spec:
  assumes "svr_inv s" and "svr_dumpable s" and "fopen_ok (disk s)" and "rename_ok (disk s)"
    and "length (enc_svr s [0..<dbcnt s]) \<le> room (disk s)"
  shows "fk_kdb_save s = Some (SVR_OK, s\<lparr>disk := disk s\<lparr>files :=
      (files (disk s))(temp_db := None, db_file (setting s) \<mapsto> enc_svr s [0..<dbcnt s])\<rparr>\<rparr>)"
proof -
  let ?f = "\<lparr>written = [], left_room = room (disk s)\<rparr>"
  have "writes_opt (save_dbs s [0..<dbcnt s]) (enc_svr s [0..<dbcnt s])"
    using save_dbs_writes [OF assms(1,2), of "[0..<dbcnt s]"] by simp
  then obtain rc f' where "save_dbs s [0..<dbcnt s] ?f = Some (rc, f')"
    "length (enc_svr s [0..<dbcnt s]) \<le> left_room ?f \<Longrightarrow> rc = SVR_OK \<and> f' = sink_add ?f (enc_svr s [0..<dbcnt s])"
    using writes_optD by blast
  then show ?thesis
    using assms(3-) by (simp add: fk_kdb_save_def sink_add_def)
qed

lemma kdb_save_total:
  assumes "svr_inv s"
  shows "\<exists>rc d. fk_kdb_save s = Some (rc, s\<lparr>disk := d\<rparr>) \<and> (rc = SVR_OK \<or> rc = SVR_ERR)
    \<and> (\<forall>path. path \<noteq> temp_db \<longrightarrow> rc = SVR_ERR \<or> path \<noteq> db_file (setting s) \<longrightarrow>
         files d path = files (disk s) path)"
proof -
  obtain rc f where "save_dbs s [0..<dbcnt s] \<lparr>written = [], left_room = room (disk s)\<rparr> = Some (rc, f)"
    using save_dbs_total [OF assms, of "[0..<dbcnt s]" "\<lparr>written = [], left_room = room (disk s)\<rparr>"] by auto
  then have "fk_kdb_save s = Some (SVR_ERR, s\<lparr>disk := disk s\<rparr>)
    \<or> fk_kdb_save s = Some (SVR_ERR, s\<lparr>disk := disk s\<lparr>files := (files (disk s))(temp_db := None)\<rparr>\<rparr>)
    \<or> fk_kdb_save s = Some (SVR_OK, s\<lparr>disk := disk s\<lparr>files :=
        (files (disk s))(temp_db := None, db_file (setting s) \<mapsto> written f)\<rparr>\<rparr>)"
    by (simp add: fk_kdb_save_def)
  then show ?thesis
    by (elim disjE) (rule exI, rule exI, rule conjI, assumption, simp)+
qed

text \<open>An empty key: \<^verbatim>\<open>fwrite\<close> of zero bytes returns \<open>0\<close>, which the code takes for an error.\<close>

lemma write_empty: "fst (write_then True bs (write_then True [] k) f) = SVR_ERR"
  by (auto simp: write_then_def fwrite_def Let_def)

lemma map_prod_Some: "map_prod Some id p = (Some (fst p), snd p)"
  by (cases p) simp

lemma dump_value_empty_key:
  assumes "stored v"
  shows "\<exists>f'. dump_value [] v rt f = Some (Some SVR_ERR, f')"
proof (cases v)
  case (Str s)
  then show ?thesis
    by (simp add: dump_value_def fk_kdb_dump_str_elt_def map_prod_Some write_empty)
next
  case (Num n)
  then show ?thesis
    by (simp add: dump_value_def fk_kdb_dump_num_elt_def map_prod_Some write_empty)
next
  case (List l)
  then have "all_strs l = Some (map str_of l)"
    using assms by (simp add: stored_def all_strs_args)
  then show ?thesis
    using List by (simp add: dump_value_def fk_kdb_dump_list_elt_def map_prod_Some write_empty)
next
  case (Dict d)
  then have "db_inv is_arg d"
    using assms val_ok_Dict by (auto simp: stored_def)
  then show ?thesis
    using Dict by (simp add: dump_value_def fk_kdb_dump_dict_elt_def map_prod_Some write_empty db_inv_elts(1) str_pairs_elts)
qed (use assms in \<open>simp_all add: stored_def\<close>)

lemma dump_elts_empty_key:
  assumes "\<forall>e \<in> set es. stored (snd e)" and "[] \<in> fst ` set es"
  shows "\<exists>f'. dump_elts es rt f = Some (SVR_ERR, f')"
  using assms
proof (induction es arbitrary: rt f)
  case (Cons e es)
  obtain k v where e: "e = (k, v)" by fastforce
  obtain w where w: "\<And>rt f. dump_value k v rt f = Some (map_prod Some id (w f))"
    using dump_value_writes [of v k] Cons.prems(1) e by auto
  show ?case
  proof (cases "k = []")
    case True
    let ?r = "fwrite (u32 (type_tag (fk_item_type v))) f"
    obtain f' where "dump_value [] v rt (snd ?r) = Some (Some SVR_ERR, f')"
      using dump_value_empty_key [of v rt "snd ?r"] Cons.prems(1) e by auto
    then show ?thesis
      using True by (simp add: e Let_def split_beta)
  next
    case False
    then have "\<exists>f'. dump_elts es rt g = Some (SVR_ERR, f')" for rt g
      using Cons e by auto
    then show ?thesis
      using w by (auto simp: e Let_def split_beta)
  qed
qed simp

lemma dump_dict_empty_key:
  assumes "nth_opt (if isexp = 1 then expdb s else db s) i = Some d"
    and "db_inv ok d" and "\<And>v. ok v \<Longrightarrow> stored v" and "dict_map d [] \<noteq> None"
  shows "\<exists>f'. fk_kdb_dump s i isexp f = Some (SVR_ERR, f')"
proof -
  have "[] \<in> fst ` set (dict_elts d)"
    using assms(4) by (metis dict_map_def map_of_eq_None_iff)
  then have "\<exists>f'. dump_elts (dict_elts d) None g = Some (SVR_ERR, f')" for g
    using db_inv_elts(4) [OF assms(2)] assms(3) by (intro dump_elts_empty_key) blast+
  then show ?thesis
    using assms(1) db_inv_elts(1) [OF assms(2)] by (auto simp: fk_kdb_dump_def Let_def split_beta)
qed

lemma save_dbs_empty_key:
  assumes "svr_inv s" and "\<forall>i \<in> set is. i < dbcnt s" and "j \<in> set is" and "dict_map (db s ! j) [] \<noteq> None"
  shows "\<exists>f'. save_dbs s is f = Some (SVR_ERR, f')"
  using assms(2,3)
proof (induction "is" arbitrary: f)
  case (Cons i "is")
  have i: "i < dbcnt s" using Cons.prems by simp
  obtain r0 f0 where 0: "fk_kdb_dump s i 0 f = Some (r0, f0)"
    using dump_dict_total [of 0 s i "db s ! i" val_ok f] svr_inv_nth(1) [OF assms(1) i]
      svr_dict_nth(1) [OF assms(1) i] by (auto simp: stored_def)
  obtain r1 f1 where 1: "fk_kdb_dump s i 1 f0 = Some (r1, f1)"
    using dump_dict_total [of 1 s i "expdb s ! i" exp_ok f0] svr_inv_nth(2) [OF assms(1) i]
      svr_dict_nth(2) [OF assms(1) i] by (auto simp: stored_def)
  show ?case
  proof (cases "i = j")
    case True
    then have "r0 = SVR_ERR"
      using dump_dict_empty_key [of 0 s i "db s ! i" val_ok f] svr_inv_nth(1) [OF assms(1) i]
        svr_dict_nth(1) [OF assms(1) i] assms(4) 0 by (auto simp: stored_def)
    then show ?thesis
      using 0 by simp
  next
    case False
    then have "\<exists>f'. save_dbs s is f1 = Some (SVR_ERR, f')"
      using Cons by auto
    then show ?thesis
      using 0 1 by auto
  qed
qed simp

subsection \<open>Properties\<close>

text \<open>The empty key (which the request parser accepts) makes every save fail: as long as a database
  holds it, a save of a well-formed server reports an error whatever the state of the disk and
  leaves every file but the temporary one as it was.
\<close>

theorem kdb_save_empty_key:
  assumes "svr_inv s" and "i < dbcnt s" and "dict_map (db s ! i) [] \<noteq> None"
  shows "\<exists>s'. fk_kdb_save s = Some (SVR_ERR, s')
    \<and> (\<forall>path. path \<noteq> temp_db \<longrightarrow> files (disk s') path = files (disk s) path)"
proof -
  have "\<exists>f'. save_dbs s [0..<dbcnt s] \<lparr>written = [], left_room = room (disk s)\<rparr> = Some (SVR_ERR, f')"
    using save_dbs_empty_key [OF assms(1) _ _ assms(3), of "[0..<dbcnt s]"] assms(2) by simp
  then have "\<exists>s'. fk_kdb_save s = Some (SVR_ERR, s')"
    by (auto simp: fk_kdb_save_def)
  then show ?thesis
    using kdb_save_total [OF assms(1)] by fastforce
qed

theorem kdb_save_empty_key_witness:
  "\<exists>s s'. dict_map (db s ! 0) [] = Some (Str ''v'') \<and> fk_kdb_save s = Some (SVR_ERR, s') \<and> files (disk s') ''freekick.db'' = None"
proof -
  have ok: "arg_ok []" "val_ok (Str ''v'')"
    by (simp_all add: arg_ok_def fk_consts)
  then obtain d where d: "db_inv val_ok d" "dict_map d = [[] \<mapsto> Str ''v'']"
    using db_add [OF db_inv_create ok(1), of val_ok "Str ''v''"] by auto
  let ?s = "(svr_fresh 1 1000)\<lparr>db := [d]\<rparr>"
  have "svr_inv ?s" "0 < dbcnt ?s" "dict_map (db ?s ! 0) [] \<noteq> None"
    using d by (simp_all add: svr_inv_def svr_fresh_def)
  then obtain s' where "fk_kdb_save ?s = Some (SVR_ERR, s')"
    "\<forall>path. path \<noteq> temp_db \<longrightarrow> files (disk s') path = files (disk ?s) path"
    using kdb_save_empty_key by blast
  then show ?thesis
    using d(2) by (intro exI [of _ ?s] exI [of _ s']) (simp add: svr_fresh_def temp_db_def)
qed



text \<open>A server that holds one string.\<close>

lemma one_key_db:
  obtains d where "db_inv val_ok d" "dict_map d = [''k'' \<mapsto> Str ''v'']" "used d = 1" "db_dumpable d"
proof -
  have ok: "arg_ok ''k''" "val_ok (Str ''v'')"
    by (simp_all add: arg_ok_def fk_consts)
  then obtain d where d: "fk_dict_add str_eop fk_dict_create ''k'' (Str ''v'') = Some (DICT_OK, d)"
    "db_inv val_ok d" "dict_map d = [''k'' \<mapsto> Str ''v'']"
    using db_add [OF db_inv_create ok(1), of val_ok "Str ''v''"] by auto
  have "used d = 1"
    using strd.add_spec [OF dict_inv_create, of "''k''" "Str ''v''"] d(1) arg_ok_str_ok [OF ok(1)] by auto
  moreover have "db_dumpable d"
    using d(3) \<open>used d = 1\<close> by (auto simp: db_dumpable_def split: if_splits)
  ultimately show thesis
    using that d by blast
qed



end
