(* ===== verification/Fk_Cmd.thy ===== *)
theory Fk_Cmd
  imports Fk_Kdb
begin

text \<open>
  The command handlers: \<^verbatim>\<open>fk_svr_db.c\<close>, \<^verbatim>\<open>fk_svr_str.c\<close>, \<^verbatim>\<open>fk_svr_hash.c\<close>,
  \<^verbatim>\<open>fk_svr_list.c\<close> and \<^verbatim>\<open>fk_svr_zset.c\<close>. A handler takes the server and the connection whose
  request was parsed and returns a status, the server and the connection; \<open>None\<close> is a crash or
  another undefined behaviour.
\<close>

type_synonym handler = "fk_svr \<Rightarrow> fk_conn \<Rightarrow> (svr_rc \<times> fk_svr \<times> fk_conn) option"

definition FK_RSP_OK :: string where "FK_RSP_OK = ''OK''"
definition FK_RSP_ERR :: string where "FK_RSP_ERR = ''ERROR''"
definition FK_RSP_TYPE_ERR :: string where "FK_RSP_TYPE_ERR = ''Type Error''"
definition FK_RSP_ARGC_ERR :: string where "FK_RSP_ARGC_ERR = ''Argument Number Error''"
definition FK_RSP_NIL :: int where "FK_RSP_NIL = -1"

subsection \<open>Arguments, replies and databases\<close>

text \<open>An argument that the handler dereferences.\<close>

definition arg_itm :: "fk_conn \<Rightarrow> int \<Rightarrow> fk_item option" where
  "arg_itm c i = do { a \<leftarrow> fk_conn_get_arg c i; a }"

definition arg_key :: "fk_conn \<Rightarrow> int \<Rightarrow> string option" where
  "arg_key c i = do { itm \<leftarrow> arg_itm c i; raw_str itm }"

text \<open>\<open>rt = fk_conn_add_xxx_rsp(...); if (rt == FK_SVR_ERR) return FK_SVR_ERR; return FK_SVR_OK;\<close>\<close>

definition reply :: "(fk_conn \<Rightarrow> (svr_rc \<times> fk_conn) option) \<Rightarrow> handler" where
  "reply add s c =
     do { (rt, c') \<leftarrow> add c; Some (if rt = SVR_ERR then SVR_ERR else SVR_OK, s, c') }"

definition status_ok :: handler where
  "status_ok = reply (fk_conn_add_status_rsp FK_RSP_OK (length FK_RSP_OK))"

definition error_rsp :: "string \<Rightarrow> handler" where
  "error_rsp e = reply (fk_conn_add_error_rsp e (length e))"

text \<open>An operation on \<^verbatim>\<open>server.db[conn->db_idx]\<close> or \<^verbatim>\<open>server.expdb[conn->db_idx]\<close>.\<close>

definition on_db :: "(fk_db \<Rightarrow> ('a \<times> fk_db) option) \<Rightarrow> fk_svr \<Rightarrow> int \<Rightarrow> ('a \<times> fk_svr) option" where
  "on_db f s i =
     do { d \<leftarrow> nth_db (db s) i; (r, d') \<leftarrow> f d; ds \<leftarrow> upd_db (db s) i d'; Some (r, s\<lparr>db := ds\<rparr>) }"

definition on_expdb :: "(fk_db \<Rightarrow> ('a \<times> fk_db) option) \<Rightarrow> fk_svr \<Rightarrow> int \<Rightarrow> ('a \<times> fk_svr) option" where
  "on_expdb f s i =
     do { d \<leftarrow> nth_db (expdb s) i; (r, d') \<leftarrow> f d; ds \<leftarrow> upd_db (expdb s) i d'; Some (r, s\<lparr>expdb := ds\<rparr>) }"

text \<open>A change of the object that the value of a key points to.\<close>

definition poke :: "fk_db \<Rightarrow> string \<Rightarrow> fk_item \<Rightarrow> (unit \<times> fk_db) option" where
  "poke d key v = map_option (Pair ()) (dict_poke str_eop d key v)"

definition db_lookup :: "fk_svr \<Rightarrow> int \<Rightarrow> string \<Rightarrow> fk_item option option" where
  "db_lookup s i key = do { d \<leftarrow> nth_db (db s) i; fk_dict_get str_eop d key }"

definition expdb_lookup :: "fk_svr \<Rightarrow> int \<Rightarrow> string \<Rightarrow> fk_item option option" where
  "expdb_lookup s i key = do { d \<leftarrow> nth_db (expdb s) i; fk_dict_get str_eop d key }"

subsection \<open>\<^verbatim>\<open>fk_svr_db.c\<close>\<close>

text \<open>\<open>is\<close> are the values of the loop variable.\<close>

fun del_loop :: "int list \<Rightarrow> int \<Rightarrow> fk_svr \<Rightarrow> fk_conn \<Rightarrow> (int \<times> fk_svr) option" where
  "del_loop [] deleted s c = Some (deleted, s)"
| "del_loop (i # is) deleted s c =
     do { key \<leftarrow> arg_key c i;
          (rt, s') \<leftarrow> on_db (\<lambda>d. fk_dict_remove str_eop d key) s (db_idx c);
          del_loop is (if rt = DICT_OK then s32 (deleted + 1) else deleted) s' c }"

definition fk_cmd_del :: handler where
  "fk_cmd_del s c =
     do { (deleted, s') \<leftarrow> del_loop [1..arg_cnt c - 1] 0 s c;
          reply (fk_conn_add_int_rsp deleted) s' c }"

definition fk_cmd_flushdb :: handler where
  "fk_cmd_flushdb s c =
     do { (_, s1) \<leftarrow> on_db (\<lambda>d. Some ((), fk_dict_empty d)) s (db_idx c);
          (_, s2) \<leftarrow> on_expdb (\<lambda>d. Some ((), fk_dict_empty d)) s1 (db_idx c);
          status_ok s2 c }"

fun flushall_loop :: "nat list \<Rightarrow> fk_svr \<Rightarrow> fk_svr option" where
  "flushall_loop [] s = Some s"
| "flushall_loop (i # is) s =
     do { (_, s1) \<leftarrow> on_db (\<lambda>d. Some ((), fk_dict_empty d)) s (int i);
          (_, s2) \<leftarrow> on_expdb (\<lambda>d. Some ((), fk_dict_empty d)) s1 (int i);
          flushall_loop is s2 }"

definition fk_cmd_flushall :: handler where
  "fk_cmd_flushall s c = do { s' \<leftarrow> flushall_loop [0..<dbcnt s] s; status_ok s' c }"

definition fk_cmd_exists :: handler where
  "fk_cmd_exists s c =
     do { key \<leftarrow> arg_key c 1;
          val \<leftarrow> db_lookup s (db_idx c) key;
          reply (fk_conn_add_int_rsp (if val \<noteq> None then 1 else 0)) s c }"

text \<open>Both branches of the code send the same reply.\<close>

definition fk_cmd_save :: handler where
  "fk_cmd_save s c =
     do { (err, s') \<leftarrow> (if save_pid s = -1
                        then do { (rt, s') \<leftarrow> fk_kdb_save s; Some (rt \<noteq> SVR_OK, s') }
                        else Some (True, s));
          if err then status_ok s' c else status_ok s' c }"

text \<open>The comparison with the unsigned \<^verbatim>\<open>server.dbcnt\<close> is made after the test for a negative
  index, so no conversion changes it.\<close>

definition fk_cmd_select :: handler where
  "fk_cmd_select s c =
     do { sq \<leftarrow> arg_key c 1;
          let i = atoi (cstr sq);
          if i < 0 \<or> i \<ge> int (dbcnt s) then error_rsp FK_RSP_ERR s c
          else status_ok s (c\<lparr>db_idx := i\<rparr>) }"

subsection \<open>\<^verbatim>\<open>fk_svr_str.c\<close>\<close>

definition fk_cmd_set :: handler where
  "fk_cmd_set s c =
     do { key \<leftarrow> arg_key c 1;
          val \<leftarrow> arg_itm c 2;
          (_, s') \<leftarrow> on_db (\<lambda>d. fk_dict_replace str_eop d key val) s (db_idx c);
          status_ok s' c }"

definition fk_cmd_setnx :: handler where
  "fk_cmd_setnx s c =
     do { key \<leftarrow> arg_key c 1;
          val \<leftarrow> db_lookup s (db_idx c) key;
          if val \<noteq> None then reply (fk_conn_add_int_rsp 0) s c
          else
            do { val \<leftarrow> arg_itm c 2;
                 (_, s') \<leftarrow> on_db (\<lambda>d. fk_dict_add str_eop d key val) s (db_idx c);
                 reply (fk_conn_add_int_rsp 1) s' c } }"

text \<open>\<open>exp_secs * 1000 + now\<close> in \<^verbatim>\<open>long long\<close>: an overflow is undefined.\<close>

definition exp_millis :: "int \<Rightarrow> timeval \<Rightarrow> int option" where
  "exp_millis secs now =
     (let m = secs * 1000 + fk_util_tv2millis now
      in if s64 (secs * 1000) = secs * 1000 \<and> s64 m = m then Some m else None)"

definition fk_cmd_setex :: handler where
  "fk_cmd_setex s c =
     do { key \<leftarrow> arg_key c 1;
          exp_str \<leftarrow> arg_key c 2;
          val \<leftarrow> arg_itm c 3;
          let (now, s1) = fk_util_get_time s;
          m \<leftarrow> exp_millis (atol (cstr exp_str)) now;
          (_, s2) \<leftarrow> on_db (\<lambda>d. fk_dict_replace str_eop d key val) s1 (db_idx c);
          (_, s3) \<leftarrow> on_expdb (\<lambda>d. fk_dict_replace str_eop d key (Num m)) s2 (db_idx c);
          status_ok s3 c }"

fun mset_loop :: "int list \<Rightarrow> fk_svr \<Rightarrow> fk_conn \<Rightarrow> fk_svr option" where
  "mset_loop [] s c = Some s"
| "mset_loop (i # is) s c =
     do { key \<leftarrow> arg_key c i;
          val \<leftarrow> arg_itm c (i + 1);
          (_, s') \<leftarrow> on_db (\<lambda>d. fk_dict_replace str_eop d key val) s (db_idx c);
          mset_loop is s' c }"

text \<open>\<open>for (i = from; i < to; i += 2)\<close>\<close>

definition steps2 :: "int \<Rightarrow> int \<Rightarrow> int list" where
  "steps2 from to = map (\<lambda>k. from + 2 * int k) [0..<nat ((to - from + 1) div 2)]"

definition fk_cmd_mset :: handler where
  "fk_cmd_mset s c =
     (if (arg_cnt c - 1) mod 2 \<noteq> 0 then error_rsp FK_RSP_ARGC_ERR s c
      else do { s' \<leftarrow> mset_loop (steps2 1 (arg_cnt c)) s c; status_ok s' c })"

definition fk_handle_expired_key :: "fk_svr \<Rightarrow> int \<Rightarrow> string \<Rightarrow> (bool \<times> fk_svr) option" where
  "fk_handle_expired_key s i key =
     do { exp \<leftarrow> expdb_lookup s i key;
          (expired, s1) \<leftarrow>
            (case exp of
               None \<Rightarrow> Some (False, s)
             | Some e \<Rightarrow>
                 do { m \<leftarrow> raw_num e;
                      let (now, s1) = fk_util_get_time s;
                      Some (m < fk_util_tv2millis now, s1) });
          if expired then
            do { (_, s2) \<leftarrow> on_db (\<lambda>d. fk_dict_remove str_eop d key) s1 i;
                 (_, s3) \<leftarrow> on_expdb (\<lambda>d. fk_dict_remove str_eop d key) s2 i;
                 Some (True, s3) }
          else Some (False, s1) }"

text \<open>A string as a bulk reply: the length line, then the content line.\<close>

definition bulk_rsp :: "string \<Rightarrow> fk_conn \<Rightarrow> (svr_rc \<times> fk_conn) option" where
  "bulk_rsp ss c =
     do { (rt, c1) \<leftarrow> fk_conn_add_bulk_rsp (s32 (int (length ss))) c;
          if rt = SVR_ERR then Some (SVR_ERR, c1)
          else fk_conn_add_content_rsp ss (length ss) c1 }"

fun mget_loop :: "int list \<Rightarrow> handler" where
  "mget_loop [] s c = Some (SVR_OK, s, c)"
| "mget_loop (i # is) s c =
     do { key \<leftarrow> arg_key c i;
          (expired, s1) \<leftarrow> fk_handle_expired_key s (db_idx c) key;
          val \<leftarrow> (if expired then Some None else db_lookup s1 (db_idx c) key);
          (rt, c1) \<leftarrow>
            (case val of
               None \<Rightarrow> fk_conn_add_bulk_rsp FK_RSP_NIL c
             | Some v \<Rightarrow>
                 if fk_item_type v \<noteq> FK_ITEM_STR then fk_conn_add_bulk_rsp FK_RSP_NIL c
                 else do { ss \<leftarrow> raw_str v; bulk_rsp ss c });
          if rt = SVR_ERR then Some (SVR_ERR, s1, c1) else mget_loop is s1 c1 }"

definition fk_cmd_mget :: handler where
  "fk_cmd_mget s c =
     do { (rt, c1) \<leftarrow> fk_conn_add_mbulk_rsp (arg_cnt c - 1) c;
          if rt = SVR_ERR then Some (SVR_ERR, s, c1) else mget_loop [1..arg_cnt c - 1] s c1 }"

definition fk_cmd_get :: handler where
  "fk_cmd_get s c =
     do { key \<leftarrow> arg_key c 1;
          (expired, s1) \<leftarrow> fk_handle_expired_key s (db_idx c) key;
          val \<leftarrow> (if expired then Some None else db_lookup s1 (db_idx c) key);
          case val of
            None \<Rightarrow> reply (fk_conn_add_bulk_rsp FK_RSP_NIL) s1 c
          | Some v \<Rightarrow>
              if fk_item_type v \<noteq> FK_ITEM_STR then error_rsp FK_RSP_TYPE_ERR s1 c
              else do { ss \<leftarrow> raw_str v; reply (bulk_rsp ss) s1 c } }"

subsection \<open>\<^verbatim>\<open>fk_svr_hash.c\<close>\<close>

text \<open>\<^verbatim>\<open>fk_dict_add(dct, key, itm)\<close> changes the hash that the value of \<open>hkey\<close> points to.\<close>

definition fk_cmd_hset :: handler where
  "fk_cmd_hset s c =
     do { hkey \<leftarrow> arg_key c 1;
          key \<leftarrow> arg_key c 2;
          hitm \<leftarrow> db_lookup s (db_idx c) hkey;
          case hitm of
            None \<Rightarrow>
              do { itm \<leftarrow> arg_itm c 3;
                   (_, dct) \<leftarrow> fk_dict_add str_eop fk_dict_create key itm;
                   (_, s') \<leftarrow> on_db (\<lambda>d. fk_dict_add str_eop d hkey (Dict dct)) s (db_idx c);
                   reply (fk_conn_add_int_rsp 1) s' c }
          | Some h \<Rightarrow>
              if fk_item_type h = FK_ITEM_DICT then
                do { dct \<leftarrow> raw_dict h;
                     itm \<leftarrow> arg_itm c 3;
                     (_, dct') \<leftarrow> fk_dict_add str_eop dct key itm;
                     (_, s') \<leftarrow> on_db (\<lambda>d. poke d hkey (Dict dct')) s (db_idx c);
                     reply (fk_conn_add_int_rsp 1) s' c }
              else error_rsp FK_RSP_TYPE_ERR s c }"

definition fk_cmd_hget :: handler where
  "fk_cmd_hget s c =
     do { hkey \<leftarrow> arg_key c 1;
          key \<leftarrow> arg_key c 2;
          hitm \<leftarrow> db_lookup s (db_idx c) hkey;
          case hitm of
            None \<Rightarrow> reply (fk_conn_add_bulk_rsp FK_RSP_NIL) s c
          | Some h \<Rightarrow>
              if fk_item_type h \<noteq> FK_ITEM_DICT then error_rsp FK_RSP_TYPE_ERR s c
              else
                do { dct \<leftarrow> raw_dict h;
                     itm \<leftarrow> fk_dict_get str_eop dct key;
                     case itm of
                       None \<Rightarrow> reply (fk_conn_add_bulk_rsp FK_RSP_NIL) s c
                     | Some v \<Rightarrow>
                         if fk_item_type v \<noteq> FK_ITEM_STR then error_rsp FK_RSP_TYPE_ERR s c
                         else do { ss \<leftarrow> raw_str v; reply (bulk_rsp ss) s c } } }"

subsection \<open>\<^verbatim>\<open>fk_svr_list.c\<close>\<close>

definition fk_cmd_llen :: handler where
  "fk_cmd_llen s c =
     do { key \<leftarrow> arg_key c 1;
          val \<leftarrow> db_lookup s (db_idx c) key;
          case val of
            None \<Rightarrow> reply (fk_conn_add_int_rsp 0) s c
          | Some v \<Rightarrow>
              if fk_item_type v \<noteq> FK_ITEM_LIST then error_rsp FK_RSP_TYPE_ERR s c
              else do { lst \<leftarrow> raw_list v; reply (fk_conn_add_int_rsp (s32 (int (length lst)))) s c } }"

fun push_loop :: "int list \<Rightarrow> bool \<Rightarrow> fk_item list \<Rightarrow> fk_conn \<Rightarrow> fk_item list option" where
  "push_loop [] left lst c = Some lst"
| "push_loop (i # is) left lst c =
     do { str_itm \<leftarrow> arg_itm c i;
          push_loop is left (if left then str_itm # lst else lst @ [str_itm]) c }"

definition fk_cmd_generic_push :: "bool \<Rightarrow> handler" where
  "fk_cmd_generic_push left s c =
     do { key \<leftarrow> arg_key c 1;
          lst_itm \<leftarrow> db_lookup s (db_idx c) key;
          case lst_itm of
            None \<Rightarrow>
              do { lst \<leftarrow> push_loop [2..arg_cnt c - 1] left [] c;
                   (_, s') \<leftarrow> on_db (\<lambda>d. fk_dict_add str_eop d key (List lst)) s (db_idx c);
                   reply (fk_conn_add_int_rsp (arg_cnt c - 2)) s' c }
          | Some v \<Rightarrow>
              if fk_item_type v \<noteq> FK_ITEM_LIST then error_rsp FK_RSP_TYPE_ERR s c
              else
                do { lst \<leftarrow> raw_list v;
                     lst' \<leftarrow> push_loop [2..arg_cnt c - 1] left lst c;
                     (_, s') \<leftarrow> on_db (\<lambda>d. poke d key (List lst')) s (db_idx c);
                     reply (fk_conn_add_int_rsp (arg_cnt c - 2)) s' c } }"

text \<open>The node is removed only after the reply was written.\<close>

definition fk_cmd_generic_pop :: "bool \<Rightarrow> handler" where
  "fk_cmd_generic_pop left s c =
     do { key \<leftarrow> arg_key c 1;
          lst_itm \<leftarrow> db_lookup s (db_idx c) key;
          case lst_itm of
            None \<Rightarrow> reply (fk_conn_add_bulk_rsp FK_RSP_NIL) s c
          | Some v \<Rightarrow>
              if fk_item_type v \<noteq> FK_ITEM_LIST then error_rsp FK_RSP_TYPE_ERR s c
              else
                do { lst \<leftarrow> raw_list v;
                     if length lst = 0 then reply (fk_conn_add_bulk_rsp FK_RSP_NIL) s c
                     else
                       do { ss \<leftarrow> raw_str (if left then hd lst else last lst);
                            (rt, c') \<leftarrow> bulk_rsp ss c;
                            if rt = SVR_ERR then Some (SVR_ERR, s, c')
                            else
                              do { (_, s') \<leftarrow> on_db (\<lambda>d. poke d key
                                     (List (if left then tl lst else butlast lst))) s (db_idx c);
                                   Some (SVR_OK, s', c') } } } }"

definition fk_cmd_lpush :: handler where "fk_cmd_lpush = fk_cmd_generic_push True"
definition fk_cmd_rpush :: handler where "fk_cmd_rpush = fk_cmd_generic_push False"
definition fk_cmd_lpop :: handler where "fk_cmd_lpop = fk_cmd_generic_pop True"
definition fk_cmd_rpop :: handler where "fk_cmd_rpop = fk_cmd_generic_pop False"

subsection \<open>\<^verbatim>\<open>fk_svr_zset.c\<close> and \<^verbatim>\<open>fk_skiplist.c\<close>\<close>

text \<open>\<^verbatim>\<open>fk_skiplist_create\<close> calls \<^verbatim>\<open>data_copy(NULL)\<close> for its head node when the list has such a function;
  that of the databases (\<^verbatim>\<open>fk_db_skiplist_val_copy\<close>) increments the reference count of its
  argument, so it dereferences NULL.\<close>

definition fk_db_skiplist_val_copy :: "fk_item option \<Rightarrow> fk_item option option" where
  "fk_db_skiplist_val_copy p = (case p of None \<Rightarrow> None | Some itm \<Rightarrow> Some (Some itm))"

definition fk_skiplist_create :: "(fk_item option \<Rightarrow> fk_item option option) option \<Rightarrow> fk_item option" where
  "fk_skiplist_create data_copy =
     do { _ \<leftarrow> (case data_copy of None \<Rightarrow> Some None | Some copy \<Rightarrow> copy None);
          Some Sklist }"

text \<open>\<^verbatim>\<open>fk_skiplist_insert\<close> has an empty body.\<close>

fun zadd_loop :: "int list \<Rightarrow> fk_conn \<Rightarrow> unit option" where
  "zadd_loop [] c = Some ()"
| "zadd_loop (i # is) c =
     do { score \<leftarrow> arg_key c i; str \<leftarrow> arg_itm c (i + 1); zadd_loop is c }"

definition fk_cmd_zadd :: handler where
  "fk_cmd_zadd s c =
     do { key \<leftarrow> arg_key c 1;
          itm \<leftarrow> db_lookup s (db_idx c) key;
          s1 \<leftarrow> (case itm of
                   Some _ \<Rightarrow> Some s
                 | None \<Rightarrow>
                     do { sl \<leftarrow> fk_skiplist_create (Some fk_db_skiplist_val_copy);
                          (_, s1) \<leftarrow> on_db (\<lambda>d. fk_dict_add str_eop d key sl) s (db_idx c);
                          Some s1 });
          if (arg_cnt c - 2) mod 2 \<noteq> 0 then error_rsp FK_RSP_ARGC_ERR s1 c
          else
            do { _ \<leftarrow> zadd_loop (steps2 2 (arg_cnt c)) c;
                 reply (fk_conn_add_int_rsp (quot (arg_cnt c - 2) 2)) s1 c } }"

end
