(* ===== verification/Fk_Cmd_Spec.thy ===== *)
theory Fk_Cmd_Spec
  imports Fk_Cmd
begin

text \<open>
  The specification of the commands on maps, and that the handlers of \<^verbatim>\<open>fk_svr_db.c\<close> and
  \<^verbatim>\<open>fk_svr_str.c\<close> meet it: \<open>abs_svr\<close> abstracts the server to maps from keys to values, \<open>meets\<close> says
  what a handler returns, stores and sends. \<open>cmd_pre\<close> is what holds when a handler is called.
\<close>

section \<open>Specification\<close>

text \<open>The abstract state: the databases and their expiry times as maps, and the number of clock
  readings so far.\<close>

record astate =
  a_dbs :: "(string \<rightharpoonup> aval) list"
  a_exps :: "(string \<rightharpoonup> aval) list"
  a_tick :: nat

definition abs_svr :: "fk_svr \<Rightarrow> astate" where
  "abs_svr s = \<lparr>a_dbs = map abs_db (db s), a_exps = map abs_db (expdb s), a_tick = ticks s\<rparr>"

text \<open>Replies on the wire.\<close>

definition rsp_status :: "string \<Rightarrow> string" where "rsp_status t = CHR ''+'' # t @ crlf"
definition rsp_error :: "string \<Rightarrow> string" where "rsp_error t = CHR ''-'' # t @ crlf"
definition rsp_int :: "int \<Rightarrow> string" where "rsp_int n = CHR '':'' # print_int n @ crlf"
definition rsp_bulk :: "string \<Rightarrow> string" where
  "rsp_bulk t = CHR ''$'' # print_int (int (length t)) @ crlf @ t @ crlf"
definition rsp_nil :: string where "rsp_nil = CHR ''$'' # print_int FK_RSP_NIL @ crlf"
definition rsp_mbulk :: "int \<Rightarrow> string" where "rsp_mbulk n = CHR ''*'' # print_int n @ crlf"

definition a_get :: "nat \<Rightarrow> string \<Rightarrow> astate \<Rightarrow> aval option" where
  "a_get i k a = (a_dbs a ! i) k"

definition a_put :: "nat \<Rightarrow> string \<Rightarrow> aval \<Rightarrow> astate \<Rightarrow> astate" where
  "a_put i k v a = a\<lparr>a_dbs := (a_dbs a)[i := (a_dbs a ! i)(k \<mapsto> v)]\<rparr>"

definition a_del :: "nat \<Rightarrow> string \<Rightarrow> astate \<Rightarrow> astate" where
  "a_del i k a = a\<lparr>a_dbs := (a_dbs a)[i := (a_dbs a ! i)(k := None)]\<rparr>"

definition a_put_exp :: "nat \<Rightarrow> string \<Rightarrow> int \<Rightarrow> astate \<Rightarrow> astate" where
  "a_put_exp i k m a = a\<lparr>a_exps := (a_exps a)[i := (a_exps a ! i)(k \<mapsto> ANum m)]\<rparr>"

definition a_del_exp :: "nat \<Rightarrow> string \<Rightarrow> astate \<Rightarrow> astate" where
  "a_del_exp i k a = a\<lparr>a_exps := (a_exps a)[i := (a_exps a ! i)(k := None)]\<rparr>"

text \<open>A read of a key: it disappears when its expiry time has passed.\<close>

definition a_expire :: "(nat \<Rightarrow> timeval) \<Rightarrow> nat \<Rightarrow> string \<Rightarrow> astate \<Rightarrow> astate" where
  "a_expire clk i k a =
     (case (a_exps a ! i) k of
        Some (ANum m) \<Rightarrow>
          (let a1 = a\<lparr>a_tick := a_tick a + 1\<rparr>
           in if m < fk_util_tv2millis (clk (a_tick a)) then a_del_exp i k (a_del i k a1) else a1)
      | _ \<Rightarrow> a)"

text \<open>What a handler has to do: return, keep the server well-formed, reach the abstract state \<open>a'\<close>,
  send \<open>bs\<close>, and touch nothing else of the server.\<close>

definition svr_rest :: "fk_svr \<Rightarrow> fk_svr \<Rightarrow> bool" where
  "svr_rest s s' \<longleftrightarrow> (\<exists>d e t. s' = s\<lparr>db := d, expdb := e, ticks := t\<rparr>)"

definition meets :: "(svr_rc \<times> fk_svr \<times> fk_conn) option \<Rightarrow> fk_svr \<Rightarrow> fk_conn \<Rightarrow> astate \<Rightarrow> string \<Rightarrow> bool" where
  "meets r s c a' bs \<longleftrightarrow>
     (\<exists>rc s' c'. r = Some (rc, s', c') \<and> svr_inv s' \<and> svr_rest s s' \<and> abs_svr s' = a' \<and> replied c rc c' bs)"

text \<open>When a handler runs: a complete request \<open>as\<close> on a well-formed connection with a selected
  database that exists; the pending output is below half a gigabyte.\<close>

definition cmd_pre :: "fk_svr \<Rightarrow> fk_conn \<Rightarrow> string list \<Rightarrow> bool" where
  "cmd_pre s c as \<longleftrightarrow> svr_inv s \<and> conn_inv c \<and> args_inv c as \<and> 0 \<le> db_idx c \<and> db_idx c < int (dbcnt s)
     \<and> length (out c) < 536870912"

abbreviation cur :: "fk_conn \<Rightarrow> nat" where
  "cur c \<equiv> nat (db_idx c)"

lemma svr_rest_refl [simp]: "svr_rest s s"
  unfolding svr_rest_def by (intro exI [of _ "db s"] exI [of _ "expdb s"] exI [of _ "ticks s"]) simp

lemma svr_rest_trans: "svr_rest a b \<Longrightarrow> svr_rest b c \<Longrightarrow> svr_rest a c"
  by (auto simp: svr_rest_def, (rule exI)+, rule refl)

lemma svr_rest_fields: "svr_rest s s' \<Longrightarrow> dbcnt s' = dbcnt s \<and> clock s' = clock s \<and> setting s' = setting s
  \<and> disk s' = disk s \<and> save_pid s' = save_pid s \<and> blog s' = blog s \<and> conns_tab s' = conns_tab s"
  by (auto simp: svr_rest_def)

subsection \<open>Arguments\<close>

lemma arg_facts:
  assumes "args_inv c as" and "i < length as"
  shows "arg_itm c (int i) = Some (Str (as ! i))" and "arg_key c (int i) = Some (as ! i)" and "arg_ok (as ! i)"
proof -
  have "i < vlen (arg_vtr c)" "varray (arg_vtr c) ! i = Some (Str (as ! i))" "length (varray (arg_vtr c)) = vlen (arg_vtr c)"
    using assms by (auto simp: args_inv_def vtr_inv_def nth_append)
  then show "arg_itm c (int i) = Some (Str (as ! i))"
    by (simp add: arg_itm_def fk_conn_get_arg_def fk_vtr_get_def cmem)
  then show "arg_key c (int i) = Some (as ! i)"
    by (simp add: arg_key_def)
  show "arg_ok (as ! i)"
    using assms by (simp add: args_inv_def list_all_length)
qed

lemma arg_facts_num:
  assumes "args_inv c as"
  shows "1 < length as \<Longrightarrow> arg_key c 1 = Some (as ! 1) \<and> arg_itm c 1 = Some (Str (as ! 1)) \<and> arg_ok (as ! 1)"
    and "2 < length as \<Longrightarrow> arg_key c 2 = Some (as ! 2) \<and> arg_itm c 2 = Some (Str (as ! 2)) \<and> arg_ok (as ! 2)"
    and "3 < length as \<Longrightarrow> arg_key c 3 = Some (as ! 3) \<and> arg_itm c 3 = Some (Str (as ! 3)) \<and> arg_ok (as ! 3)"
  using arg_facts [OF assms, of 1] arg_facts [OF assms, of 2] arg_facts [OF assms, of 3] by simp_all

subsection \<open>Operations on the selected database\<close>

text \<open>\<open>in_range s i\<close>: \<open>i\<close> is the index of a database.\<close>

definition in_range :: "fk_svr \<Rightarrow> int \<Rightarrow> bool" where
  "in_range s i \<longleftrightarrow> svr_inv s \<and> 0 \<le> i \<and> i < int (dbcnt s)"

lemma in_rangeD:
  assumes "in_range s i"
  shows "nat i < length (db s)" "nat i < length (expdb s)" "\<not> i < 0" "svr_inv s"
    "db_inv val_ok (db s ! nat i)" "db_inv exp_ok (expdb s ! nat i)"
proof -
  have *: "svr_inv s" "nat i < dbcnt s" "\<not> i < 0"
    using assms by (auto simp: in_range_def)
  then show "nat i < length (db s)" "nat i < length (expdb s)" "\<not> i < 0" "svr_inv s"
    "db_inv val_ok (db s ! nat i)" "db_inv exp_ok (expdb s ! nat i)"
    using svr_inv_nth [OF *(1,2)] by auto
qed

lemma on_db_eq:
  assumes "in_range s i" and "f (db s ! nat i) = Some (r, d')" and "db_inv val_ok d'"
  shows "\<exists>s'. on_db f s i = Some (r, s') \<and> in_range s' i \<and> svr_rest s s'
    \<and> abs_svr s' = (abs_svr s)\<lparr>a_dbs := (a_dbs (abs_svr s))[nat i := abs_db d']\<rparr>"
proof -
  let ?s = "s\<lparr>db := (db s)[nat i := d']\<rparr>"
  note r = in_rangeD [OF assms(1)]
  have "on_db f s i = Some (r, ?s)"
    using r(1,3) assms(2) by (simp add: on_db_def nth_db_def upd_db_def cmem)
  moreover have "svr_inv ?s"
    using svr_inv_upd(1) [OF r(4) assms(3), of fk_dict_create] by simp
  then have "in_range ?s i"
    using assms(1) by (simp add: in_range_def)
  moreover have "svr_rest s ?s"
    unfolding svr_rest_def by (intro exI [of _ "db ?s"] exI [of _ "expdb s"] exI [of _ "ticks s"]) simp
  moreover have "abs_svr ?s = (abs_svr s)\<lparr>a_dbs := (a_dbs (abs_svr s))[nat i := abs_db d']\<rparr>"
    by (simp add: abs_svr_def map_update)
  ultimately show ?thesis by blast
qed

lemma on_expdb_eq:
  assumes "in_range s i" and "f (expdb s ! nat i) = Some (r, d')" and "db_inv exp_ok d'"
  shows "\<exists>s'. on_expdb f s i = Some (r, s') \<and> in_range s' i \<and> svr_rest s s'
    \<and> abs_svr s' = (abs_svr s)\<lparr>a_exps := (a_exps (abs_svr s))[nat i := abs_db d']\<rparr>"
proof -
  let ?s = "s\<lparr>expdb := (expdb s)[nat i := d']\<rparr>"
  note r = in_rangeD [OF assms(1)]
  have "on_expdb f s i = Some (r, ?s)"
    using r(2,3) assms(2) by (simp add: on_expdb_def nth_db_def upd_db_def cmem)
  moreover have "svr_inv ?s"
    using svr_inv_upd(2) [OF r(4) db_inv_create assms(3)] by simp
  then have "in_range ?s i"
    using assms(1) by (simp add: in_range_def)
  moreover have "svr_rest s ?s"
    unfolding svr_rest_def by (intro exI [of _ "db s"] exI [of _ "expdb ?s"] exI [of _ "ticks s"]) simp
  moreover have "abs_svr ?s = (abs_svr s)\<lparr>a_exps := (a_exps (abs_svr s))[nat i := abs_db d']\<rparr>"
    by (simp add: abs_svr_def map_update)
  ultimately show ?thesis by blast
qed

lemma a_dbs_nth:
  assumes "in_range s i"
  shows "a_dbs (abs_svr s) ! nat i = abs_db (db s ! nat i)" "a_exps (abs_svr s) ! nat i = abs_db (expdb s ! nat i)"
  using in_rangeD(1,2) [OF assms] by (simp_all add: abs_svr_def)

lemma svr_get:
  assumes "in_range s i" and "arg_ok k"
  shows "\<exists>v. db_lookup s i k = Some v \<and> a_get (nat i) k (abs_svr s) = map_option abs_item v
    \<and> v = dict_map (db s ! nat i) k \<and> (\<forall>x. v = Some x \<longrightarrow> val_ok x)"
proof -
  note r = in_rangeD [OF assms(1)]
  have "db_lookup s i k = Some (dict_map (db s ! nat i) k)"
    using r(1,3) db_get [OF r(5) assms(2)] by (simp add: db_lookup_def nth_db_def cmem)
  then show ?thesis
    using r(5) a_dbs_nth(1) [OF assms(1)] by (auto simp: a_get_def abs_db_def db_inv_def)
qed

lemma svr_replace:
  assumes "in_range s i" and "arg_ok k" and "val_ok v"
  shows "\<exists>r s'. on_db (\<lambda>d. fk_dict_replace str_eop d k v) s i = Some (r, s') \<and> in_range s' i \<and> svr_rest s s'
    \<and> abs_svr s' = a_put (nat i) k (abs_item v) (abs_svr s)"
proof -
  obtain d' where d': "fk_dict_replace str_eop (db s ! nat i) k v = Some (dict_map (db s ! nat i) k \<noteq> None, d')"
    "db_inv val_ok d'" "dict_map d' = (dict_map (db s ! nat i))(k \<mapsto> v)"
    using db_replace [OF in_rangeD(5) [OF assms(1)] assms(2,3)] by blast
  show ?thesis
    using on_db_eq [OF assms(1), of "\<lambda>d. fk_dict_replace str_eop d k v", OF d'(1,2)] abs_db_upd [OF d'(3)]
      a_dbs_nth(1) [OF assms(1)] unfolding a_put_def by auto
qed

lemma svr_add:
  assumes "in_range s i" and "arg_ok k" and "val_ok v" and "a_get (nat i) k (abs_svr s) = None"
  shows "\<exists>r s'. on_db (\<lambda>d. fk_dict_add str_eop d k v) s i = Some (r, s') \<and> in_range s' i \<and> svr_rest s s'
    \<and> abs_svr s' = a_put (nat i) k (abs_item v) (abs_svr s)"
proof -
  have "dict_map (db s ! nat i) k = None"
    using assms(4) a_dbs_nth(1) [OF assms(1)] by (simp add: a_get_def abs_db_None)
  then obtain d' where d': "fk_dict_add str_eop (db s ! nat i) k v = Some (DICT_OK, d')"
    "db_inv val_ok d'" "dict_map d' = (dict_map (db s ! nat i))(k \<mapsto> v)"
    using db_add [OF in_rangeD(5) [OF assms(1)] assms(2,3)] by auto
  show ?thesis
    using on_db_eq [OF assms(1), of "\<lambda>d. fk_dict_add str_eop d k v", OF d'(1,2)] abs_db_upd [OF d'(3)]
      a_dbs_nth(1) [OF assms(1)] unfolding a_put_def by auto
qed

lemma svr_poke:
  assumes "in_range s i" and "arg_ok k" and "val_ok v" and "a_get (nat i) k (abs_svr s) \<noteq> None"
  shows "\<exists>s'. on_db (\<lambda>d. poke d k v) s i = Some ((), s') \<and> in_range s' i \<and> svr_rest s s'
    \<and> abs_svr s' = a_put (nat i) k (abs_item v) (abs_svr s)"
proof -
  have inv: "db_inv val_ok (db s ! nat i)"
    using in_rangeD(5) [OF assms(1)] .
  have "dict_map (db s ! nat i) k \<noteq> None"
    using assms(4) a_dbs_nth(1) [OF assms(1)] by (simp add: a_get_def abs_db_None)
  then obtain d' where d': "dict_poke str_eop (db s ! nat i) k v = Some d'" "dict_inv str_eop str_ok d'"
    "dict_map d' = (dict_map (db s ! nat i))(k \<mapsto> v)"
    using strd.poke_spec [of "db s ! nat i" k v] inv arg_ok_str_ok [OF assms(2)] by (auto simp: db_inv_def)
  have "db_inv val_ok d'"
    using d'(2,3) inv assms(2,3) by (auto simp: db_inv_def)
  then show ?thesis
    using on_db_eq [OF assms(1), of "\<lambda>d. poke d k v" "()" d'] d'(1) abs_db_upd [OF d'(3)]
      a_dbs_nth(1) [OF assms(1)] unfolding a_put_def poke_def by auto
qed

lemma svr_remove:
  assumes "in_range s i" and "arg_ok k"
  shows "\<exists>s'. on_db (\<lambda>d. fk_dict_remove str_eop d k) s i
      = Some (if a_get (nat i) k (abs_svr s) = None then DICT_ERR else DICT_OK, s') \<and> in_range s' i \<and> svr_rest s s'
    \<and> abs_svr s' = a_del (nat i) k (abs_svr s)"
proof -
  obtain d' where d': "fk_dict_remove str_eop (db s ! nat i) k
      = Some (if dict_map (db s ! nat i) k = None then DICT_ERR else DICT_OK, d')"
    "db_inv val_ok d'" "dict_map d' = (dict_map (db s ! nat i))(k := None)"
    using db_remove [OF in_rangeD(5) [OF assms(1)] assms(2)] by blast
  have "a_get (nat i) k (abs_svr s) = None \<longleftrightarrow> dict_map (db s ! nat i) k = None"
    using a_dbs_nth(1) [OF assms(1)] by (simp add: a_get_def abs_db_None)
  then show ?thesis
    using on_db_eq [OF assms(1), of "\<lambda>d. fk_dict_remove str_eop d k", OF d'(1,2)] abs_db_del [OF d'(3)]
      a_dbs_nth(1) [OF assms(1)] unfolding a_del_def by auto
qed

lemma svr_replace_exp:
  assumes "in_range s i" and "arg_ok k" and "exp_ok (Num m)"
  shows "\<exists>r s'. on_expdb (\<lambda>d. fk_dict_replace str_eop d k (Num m)) s i = Some (r, s') \<and> in_range s' i \<and> svr_rest s s'
    \<and> abs_svr s' = a_put_exp (nat i) k m (abs_svr s)"
proof -
  obtain d' where d': "fk_dict_replace str_eop (expdb s ! nat i) k (Num m) = Some (dict_map (expdb s ! nat i) k \<noteq> None, d')"
    "db_inv exp_ok d'" "dict_map d' = (dict_map (expdb s ! nat i))(k \<mapsto> Num m)"
    using db_replace [OF in_rangeD(6) [OF assms(1)] assms(2,3)] by blast
  show ?thesis
    using on_expdb_eq [OF assms(1), of "\<lambda>d. fk_dict_replace str_eop d k (Num m)", OF d'(1,2)] abs_db_upd [OF d'(3)]
      a_dbs_nth(2) [OF assms(1)] unfolding a_put_exp_def by auto
qed

lemma svr_remove_exp:
  assumes "in_range s i" and "arg_ok k"
  shows "\<exists>r s'. on_expdb (\<lambda>d. fk_dict_remove str_eop d k) s i = Some (r, s') \<and> in_range s' i \<and> svr_rest s s'
    \<and> abs_svr s' = a_del_exp (nat i) k (abs_svr s)"
proof -
  obtain d' where d': "fk_dict_remove str_eop (expdb s ! nat i) k
      = Some (if dict_map (expdb s ! nat i) k = None then DICT_ERR else DICT_OK, d')"
    "db_inv exp_ok d'" "dict_map d' = (dict_map (expdb s ! nat i))(k := None)"
    using db_remove [OF in_rangeD(6) [OF assms(1)] assms(2)] by blast
  show ?thesis
    using on_expdb_eq [OF assms(1), of "\<lambda>d. fk_dict_remove str_eop d k", OF d'(1,2)] abs_db_del [OF d'(3)]
      a_dbs_nth(2) [OF assms(1)] unfolding a_del_exp_def by auto
qed

subsection \<open>Replies of the handlers\<close>

lemma reply_meets:
  assumes "\<exists>rc c'. add c = Some (rc, c') \<and> replied c rc c' bs" and "in_range s' i" and "svr_rest s s'" and "abs_svr s' = a"
  shows "meets (reply add s' c) s c a bs"
proof -
  obtain rc c' where rc: "add c = Some (rc, c')" "replied c rc c' bs"
    using assms(1) by blast
  then have "reply add s' c = Some (rc, s', c')"
    using replied_rc [OF rc(2)] by (auto simp: reply_def)
  then show ?thesis
    using rc assms(2-) by (auto simp: meets_def in_range_def)
qed

lemma cmd_preD:
  assumes "cmd_pre s c as"
  shows "in_range s (db_idx c)" "conn_inv c" "args_inv c as" "length (out c) < 536870912"
    "arg_cnt c = int (length as)" "length as \<le> 128"
  using assms by (auto simp: cmd_pre_def in_range_def args_inv_def fk_consts)

lemma status_ok_meets:
  assumes "conn_inv c" "length (out c) < 536870912" "in_range s' i" "svr_rest s s'" "abs_svr s' = a"
  shows "meets (status_ok s' c) s c a (rsp_status FK_RSP_OK)"
  unfolding status_ok_def rsp_status_def
  using assms status_rsp_spec [of c FK_RSP_OK] by (intro reply_meets) (auto simp: FK_RSP_OK_def)

lemma error_rsp_meets:
  assumes "conn_inv c" "length (out c) < 536870912" "in_range s' i" "svr_rest s s'" "abs_svr s' = a"
    and "length e < 100" "CHR 0x00 \<notin> set e"
  shows "meets (error_rsp e s' c) s c a (rsp_error e)"
  unfolding error_rsp_def rsp_error_def
  using assms error_rsp_spec [of c e] by (intro reply_meets) auto

lemma length_print_int_32:
  assumes "\<bar>n\<bar> < 10000000000"
  shows "length (print_int n) \<le> 11"
proof -
  have "nat \<bar>n\<bar> < 10 ^ 10"
    using assms by (simp add: nat_less_iff)
  then have "length (print_nat (nat \<bar>n\<bar>)) \<le> 10"
    by (intro length_print_nat_le) auto
  then show ?thesis
    by (auto simp: print_int_def abs_if split: if_splits)
qed

lemma int_rsp_meets:
  assumes "conn_inv c" "length (out c) < 536870912" "in_range s' i" "svr_rest s s'" "abs_svr s' = a" "\<bar>n\<bar> < 10000000000"
  shows "meets (reply (fk_conn_add_int_rsp n) s' c) s c a (rsp_int n)"
  unfolding rsp_int_def
  using assms int_rsp_spec [of c n] length_print_int_32 [of n] by (intro reply_meets) auto

lemma nil_rsp_spec:
  assumes "conn_inv c" "length (out c) < 536870912 + 268435456"
  shows "\<exists>rc c'. fk_conn_add_bulk_rsp FK_RSP_NIL c = Some (rc, c') \<and> replied c rc c' rsp_nil"
  unfolding rsp_nil_def
  using assms bulk_rsp_spec [of c FK_RSP_NIL] length_print_int_32 [of FK_RSP_NIL] by (auto simp: FK_RSP_NIL_def)

lemma nil_rsp_meets:
  assumes "conn_inv c" "length (out c) < 536870912" "in_range s' i" "svr_rest s s'" "abs_svr s' = a"
  shows "meets (reply (fk_conn_add_bulk_rsp FK_RSP_NIL) s' c) s c a rsp_nil"
  using assms nil_rsp_spec [of c] by (intro reply_meets) auto

lemma bulk_spec:
  assumes "conn_inv c" "length (out c) < 536870912 + 268435456" "arg_ok t" "CHR 0x00 \<notin> set t"
  shows "\<exists>rc c'. bulk_rsp t c = Some (rc, c') \<and> replied c rc c' (rsp_bulk t)"
proof -
  have t: "int (length t) \<le> 1048576"
    using assms(3) by (simp add: arg_ok_def fk_consts)
  have n: "s32 (int (length t)) = int (length t)" and l: "length (print_int (int (length t))) \<le> 11"
    using t by (auto simp: s32_id intro: length_print_int_32)
  let ?h = "CHR ''$'' # print_int (int (length t)) @ crlf"
  have "length (out c) + length (print_int (int (length t))) + 3 < 1073741824"
    using assms(2) l by linarith
  then obtain rc1 c1 where 1: "fk_conn_add_bulk_rsp (int (length t)) c = Some (rc1, c1)" "replied c rc1 c1 ?h"
    using bulk_rsp_spec [OF assms(1)] by blast
  show ?thesis
  proof (cases "rc1 = SVR_ERR")
    case True
    then show ?thesis
      using 1 replied_err [of c c1 ?h "t @ crlf"] by (auto simp: bulk_rsp_def n rsp_bulk_def)
  next
    case False
    then have ok: "rc1 = SVR_OK" "out c1 = out c @ ?h"
      using 1(2) by (auto simp: replied_def)
    then have "length (out c1) + length t + 2 < 1073741824"
      using assms(2) l t by (simp add: crlf_def)
    then obtain rc2 c2 where "fk_conn_add_content_rsp t (length t) c1 = Some (rc2, c2)" "replied c1 rc2 c2 (t @ crlf)"
      using content_rsp_spec [OF replied_inv [OF assms(1) 1(2)]] assms(4) by blast
    then show ?thesis
      using 1 ok(1) replied_trans [of c c1 ?h rc2 c2 "t @ crlf"] by (auto simp: bulk_rsp_def n rsp_bulk_def)
  qed
qed

subsection \<open>Commands on strings and keys\<close>

lemma arg_val_ok: "arg_ok t \<Longrightarrow> val_ok (Str t)"
  by simp

lemma set_meets:
  assumes pre: "cmd_pre s c as" and n: "length as = 3"
  shows "meets (fk_cmd_set s c) s c (a_put (cur c) (as ! 1) (AStr (as ! 2)) (abs_svr s)) (rsp_status FK_RSP_OK)"
proof -
  note p = cmd_preD [OF pre]
  have a: "arg_key c 1 = Some (as ! 1)" "arg_ok (as ! 1)" "arg_itm c 2 = Some (Str (as ! 2))" "arg_ok (as ! 2)"
    using arg_facts_num(1,2) [OF p(3)] n by auto
  obtain r s' where s': "on_db (\<lambda>d. fk_dict_replace str_eop d (as ! 1) (Str (as ! 2))) s (db_idx c) = Some (r, s')"
    "in_range s' (db_idx c)" "svr_rest s s'" "abs_svr s' = a_put (cur c) (as ! 1) (AStr (as ! 2)) (abs_svr s)"
    using svr_replace [OF p(1) a(2) arg_val_ok [OF a(4)]] by auto
  have "fk_cmd_set s c = status_ok s' c"
    using a s'(1) by (simp add: fk_cmd_set_def)
  then show ?thesis
    using status_ok_meets [OF p(2,4) s'(2,3,4)] by simp
qed

lemma setnx_meets:
  assumes pre: "cmd_pre s c as" and n: "length as = 3"
  shows "meets (fk_cmd_setnx s c) s c
    (if a_get (cur c) (as ! 1) (abs_svr s) = None then a_put (cur c) (as ! 1) (AStr (as ! 2)) (abs_svr s) else abs_svr s)
    (rsp_int (if a_get (cur c) (as ! 1) (abs_svr s) = None then 1 else 0))"
proof -
  note p = cmd_preD [OF pre]
  have a: "arg_key c 1 = Some (as ! 1)" "arg_ok (as ! 1)" "arg_itm c 2 = Some (Str (as ! 2))" "arg_ok (as ! 2)"
    using arg_facts_num(1,2) [OF p(3)] n by auto
  obtain v where v: "db_lookup s (db_idx c) (as ! 1) = Some v" "a_get (cur c) (as ! 1) (abs_svr s) = map_option abs_item v"
    using svr_get [OF p(1) a(2)] by blast
  show ?thesis
  proof (cases v)
    case (Some x)
    then have "fk_cmd_setnx s c = reply (fk_conn_add_int_rsp 0) s c"
      using a v by (simp add: fk_cmd_setnx_def)
    then show ?thesis
      using int_rsp_meets [OF p(2,4,1) svr_rest_refl refl, of 0] v(2) Some by simp
  next
    case None
    then obtain r s' where s': "on_db (\<lambda>d. fk_dict_add str_eop d (as ! 1) (Str (as ! 2))) s (db_idx c) = Some (r, s')"
      "in_range s' (db_idx c)" "svr_rest s s'" "abs_svr s' = a_put (cur c) (as ! 1) (AStr (as ! 2)) (abs_svr s)"
      using svr_add [OF p(1) a(2) arg_val_ok [OF a(4)]] v(2) by auto
    then have "fk_cmd_setnx s c = reply (fk_conn_add_int_rsp 1) s' c"
      using a v None by (simp add: fk_cmd_setnx_def)
    then show ?thesis
      using int_rsp_meets [OF p(2,4) s'(2,3,4), of 1] v(2) None by simp
  qed
qed

lemma in_range_tick:
  assumes "in_range s i"
  shows "in_range (s\<lparr>ticks := t\<rparr>) i" "svr_rest s (s\<lparr>ticks := t\<rparr>)"
    "abs_svr (s\<lparr>ticks := t\<rparr>) = (abs_svr s)\<lparr>a_tick := t\<rparr>"
proof -
  show "in_range (s\<lparr>ticks := t\<rparr>) i" "abs_svr (s\<lparr>ticks := t\<rparr>) = (abs_svr s)\<lparr>a_tick := t\<rparr>"
    using assms by (auto simp: in_range_def svr_inv_def abs_svr_def)
  show "svr_rest s (s\<lparr>ticks := t\<rparr>)"
    unfolding svr_rest_def by (intro exI [of _ "db s"] exI [of _ "expdb s"] exI [of _ t]) simp
qed

lemma setex_meets:
  assumes pre: "cmd_pre s c as" and n: "length as = 4"
    and m: "exp_millis (atol (cstr (as ! 2))) (clock s (ticks s)) = Some m"
  shows "meets (fk_cmd_setex s c) s c
    (a_put_exp (cur c) (as ! 1) m (a_put (cur c) (as ! 1) (AStr (as ! 3)) ((abs_svr s)\<lparr>a_tick := ticks s + 1\<rparr>)))
    (rsp_status FK_RSP_OK)"
proof -
  note p = cmd_preD [OF pre]
  have a: "arg_key c 1 = Some (as ! 1)" "arg_ok (as ! 1)" "arg_key c 2 = Some (as ! 2)"
    "arg_itm c 3 = Some (Str (as ! 3))" "arg_ok (as ! 3)"
    using arg_facts_num [OF p(3)] n by auto
  let ?s1 = "s\<lparr>ticks := ticks s + 1\<rparr>"
  note t = in_range_tick [OF p(1), of "ticks s + 1"]
  obtain r s2 where s2: "on_db (\<lambda>d. fk_dict_replace str_eop d (as ! 1) (Str (as ! 3))) ?s1 (db_idx c) = Some (r, s2)"
    "in_range s2 (db_idx c)" "svr_rest ?s1 s2" "abs_svr s2 = a_put (cur c) (as ! 1) (AStr (as ! 3)) (abs_svr ?s1)"
    using svr_replace [OF t(1) a(2) arg_val_ok [OF a(5)]] by auto
  have "exp_ok (Num m)"
    using m pos_mod_bound [of 18446744073709551616 "m + 9223372036854775808"]
      pos_mod_sign [of 18446744073709551616 "m + 9223372036854775808"]
    by (auto simp: exp_millis_def Let_def s64_def split: if_splits)
  then obtain q s3 where s3: "on_expdb (\<lambda>d. fk_dict_replace str_eop d (as ! 1) (Num m)) s2 (db_idx c) = Some (q, s3)"
    "in_range s3 (db_idx c)" "svr_rest s2 s3" "abs_svr s3 = a_put_exp (cur c) (as ! 1) m (abs_svr s2)"
    using svr_replace_exp [OF s2(2) a(2)] by blast
  have "fk_cmd_setex s c = status_ok s3 c"
    using a m s2(1) s3(1) by (simp add: fk_cmd_setex_def fk_util_get_time_def)
  moreover have "svr_rest s s3"
    using svr_rest_trans t(2) s2(3) s3(3) by blast
  ultimately show ?thesis
    using status_ok_meets [OF p(2,4) s3(2), of s "abs_svr s3"] s3(4) s2(4) t(3) by simp
qed

lemma exists_meets:
  assumes pre: "cmd_pre s c as" and n: "length as = 2"
  shows "meets (fk_cmd_exists s c) s c (abs_svr s) (rsp_int (if a_get (cur c) (as ! 1) (abs_svr s) = None then 0 else 1))"
proof -
  note p = cmd_preD [OF pre]
  have a: "arg_key c 1 = Some (as ! 1)" "arg_ok (as ! 1)"
    using arg_facts_num(1) [OF p(3)] n by auto
  obtain v where v: "db_lookup s (db_idx c) (as ! 1) = Some v" "a_get (cur c) (as ! 1) (abs_svr s) = map_option abs_item v"
    using svr_get [OF p(1) a(2)] by blast
  have "fk_cmd_exists s c = reply (fk_conn_add_int_rsp (if a_get (cur c) (as ! 1) (abs_svr s) = None then 0 else 1)) s c"
    using a v by (simp add: fk_cmd_exists_def)
  then show ?thesis
    using int_rsp_meets [OF p(2,4,1) svr_rest_refl refl] by simp
qed

text \<open>Deleting several keys, some of them perhaps twice.\<close>

definition present :: "nat \<Rightarrow> string list \<Rightarrow> astate \<Rightarrow> string set" where
  "present i ks a = {k \<in> set ks. a_get i k a \<noteq> None}"

lemma a_get_del: "i < length (a_dbs a) \<Longrightarrow> a_get i k (a_del i j a) = (if k = j then None else a_get i k a)"
  by (simp add: a_get_def a_del_def)

lemma card_present_Cons:
  assumes "i < length (a_dbs a)"
  shows "card (present i (k # ks) a) = (if a_get i k a = None then 0 else 1) + card (present i ks (a_del i k a))"
proof -
  have "present i (k # ks) a = (if a_get i k a = None then {} else {k}) \<union> present i ks (a_del i k a)"
    using assms by (auto simp: present_def a_get_del)
  moreover have "k \<notin> present i ks (a_del i k a)" "finite (present i ks (a_del i k a))"
    using assms by (auto simp: present_def a_get_del)
  ultimately show ?thesis
    by simp
qed

lemma del_loop_spec:
  assumes "in_range s (db_idx c)" and "args_inv c as" and "j \<le> length as" and "0 \<le> n" "n \<le> int j"
  shows "\<exists>s'. del_loop [int j..int (length as) - 1] n s c
      = Some (n + int (card (present (cur c) (drop j as) (abs_svr s))), s') \<and> in_range s' (db_idx c) \<and> svr_rest s s'
    \<and> abs_svr s' = fold (a_del (cur c)) (drop j as) (abs_svr s)"
  using assms
proof (induction "length as - j" arbitrary: j n s)
  case 0
  then show ?case
    by (simp add: present_def)
next
  case (Suc m)
  then have j: "j < length as" by simp
  have m: "m = length as - Suc j"
    using Suc.hyps(2) by simp
  have l128: "length as \<le> 128"
    using Suc.prems(2) by (auto simp: args_inv_def fk_consts)
  have up: "[int j..int (length as) - 1] = int j # [int (Suc j)..int (length as) - 1]"
    using j by (simp add: upto_rec1 add.commute)
  have dr: "drop j as = as ! j # drop (Suc j) as"
    using j by (simp add: Cons_nth_drop_Suc)
  note af = arg_facts [OF Suc.prems(2) j]
  obtain s1 where s1: "on_db (\<lambda>d. fk_dict_remove str_eop d (as ! j)) s (db_idx c)
      = Some (if a_get (cur c) (as ! j) (abs_svr s) = None then DICT_ERR else DICT_OK, s1)"
    "in_range s1 (db_idx c)" "svr_rest s s1" "abs_svr s1 = a_del (cur c) (as ! j) (abs_svr s)"
    using svr_remove [OF Suc.prems(1) af(3)] by blast
  let ?n = "if a_get (cur c) (as ! j) (abs_svr s) = None then n else n + 1"
  have n: "s32 (n + 1) = n + 1"
    using Suc.prems(4,5) l128 j by (simp add: s32_id)
  obtain s2 where s2: "del_loop [int (Suc j)..int (length as) - 1] ?n s1 c
      = Some (?n + int (card (present (cur c) (drop (Suc j) as) (abs_svr s1))), s2)" "in_range s2 (db_idx c)" "svr_rest s1 s2"
    "abs_svr s2 = fold (a_del (cur c)) (drop (Suc j) as) (abs_svr s1)"
    using Suc.hyps(1) [OF m s1(2) Suc.prems(2), of ?n] Suc.prems(4,5) j
    by (cases "a_get (cur c) (as ! j) (abs_svr s) = None") auto
  have len: "cur c < length (a_dbs (abs_svr s))"
    using in_rangeD(1) [OF Suc.prems(1)] by (simp add: abs_svr_def)
  have "?n + int (card (present (cur c) (drop (Suc j) as) (abs_svr s1)))
      = n + int (card (present (cur c) (drop j as) (abs_svr s)))"
    unfolding dr card_present_Cons [OF len] s1(4) by simp
  then have "del_loop [int j..int (length as) - 1] n s c = Some (n + int (card (present (cur c) (drop j as) (abs_svr s))), s2)"
    using s1(1) s2(1) af(2) n unfolding up by (auto split: if_splits)
  moreover have "abs_svr s2 = fold (a_del (cur c)) (drop j as) (abs_svr s)"
    using s2(4) s1(4) dr by simp
  ultimately show ?case
    using s2(2,3) s1(3) svr_rest_trans by blast
qed

lemma del_meets:
  assumes pre: "cmd_pre s c as" and n: "2 \<le> length as"
  shows "meets (fk_cmd_del s c) s c (fold (a_del (cur c)) (tl as) (abs_svr s))
    (rsp_int (int (card (present (cur c) (tl as) (abs_svr s)))))"
proof -
  note p = cmd_preD [OF pre]
  obtain s' where s': "del_loop [1..arg_cnt c - 1] 0 s c = Some (int (card (present (cur c) (tl as) (abs_svr s))), s')"
    "in_range s' (db_idx c)" "svr_rest s s'" "abs_svr s' = fold (a_del (cur c)) (tl as) (abs_svr s)"
    using del_loop_spec [OF p(1,3), of 1 0] n p(5) by (auto simp: drop_Suc)
  have "card (present (cur c) (tl as) (abs_svr s)) \<le> card (set (tl as))"
    by (rule card_mono) (auto simp: present_def)
  also have "\<dots> \<le> length as"
    using card_length [of "tl as"] by simp
  finally have "\<bar>int (card (present (cur c) (tl as) (abs_svr s)))\<bar> < 10000000000"
    using p(6) by simp
  moreover have "fk_cmd_del s c = reply (fk_conn_add_int_rsp (int (card (present (cur c) (tl as) (abs_svr s))))) s' c"
    using s'(1) by (simp add: fk_cmd_del_def)
  ultimately show ?thesis
    using int_rsp_meets [OF p(2,4) s'(2,3,4)] by simp
qed

text \<open>\<^verbatim>\<open>MSET\<close>: the keys and values in pairs.\<close>

fun pairs :: "'a list \<Rightarrow> ('a \<times> 'a) list" where
  "pairs (k # v # xs) = (k, v) # pairs xs"
| "pairs _ = []"

lemma steps2_unfold:
  assumes "from < to" and "even (to - from)"
  shows "steps2 from to = from # steps2 (from + 2) to"
proof -
  obtain q where q: "to - from = 2 * q" "0 < q"
    using assms by (metis evenE diff_gt_0_iff_gt zero_less_mult_pos zero_less_numeral)
  then have "nat ((to - from + 1) div 2) = Suc (nat (q - 1))"
    by simp
  moreover have "nat ((to - (from + 2) + 1) div 2) = nat (q - 1)"
  proof -
    have "to - (from + 2) + 1 = 2 * (q - 1) + 1"
      using q by simp
    then show ?thesis by simp
  qed
  moreover have "map (\<lambda>k. from + 2 * int k) [0..<Suc n] = from # map (\<lambda>k. (from + 2) + 2 * int k) [0..<n]" for n
    by (induction n) auto
  ultimately show ?thesis
    unfolding steps2_def by presburger
qed

lemma steps2_empty: "steps2 to to = []"
  by (simp add: steps2_def)

lemma mset_loop_spec:
  assumes "in_range s (db_idx c)" and "args_inv c as" and "j \<le> length as" and "even (length as - j)"
  shows "\<exists>s'. mset_loop (steps2 (int j) (int (length as))) s c = Some s' \<and> in_range s' (db_idx c) \<and> svr_rest s s'
    \<and> abs_svr s' = fold (\<lambda>(k, v). a_put (cur c) k (AStr v)) (pairs (drop j as)) (abs_svr s)"
  using assms
proof (induction "length as - j" arbitrary: j s rule: less_induct)
  case less
  show ?case
  proof (cases "j = length as")
    case True
    then show ?thesis
      using less.prems(1) by (simp add: steps2_empty)
  next
    case False
    obtain q where q: "length as - j = 2 * q"
      using less.prems(4) by blast
    have "j < length as"
      using False less.prems(3) by simp
    moreover from this have "Suc j < length as"
      using q by (cases q) auto
    ultimately have j: "j < length as" "Suc j < length as"
      by simp_all
    have st: "steps2 (int j) (int (length as)) = int j # steps2 (int (j + 2)) (int (length as))"
    proof -
      have "int (length as) - int j = 2 * int q"
        using q j(1) by linarith
      then show ?thesis
        using steps2_unfold [of "int j" "int (length as)"] j(1) by (simp add: add.commute)
    qed
    have dr: "drop j as = as ! j # as ! Suc j # drop (j + 2) as"
      using j by (simp add: Cons_nth_drop_Suc)
    have key: "arg_key c (int j) = Some (as ! j)" "arg_ok (as ! j)"
      using arg_facts [OF less.prems(2) j(1)] by auto
    have val: "arg_itm c (int j + 1) = Some (Str (as ! Suc j))" "val_ok (Str (as ! Suc j))"
      using arg_facts [OF less.prems(2) j(2)] by (auto simp: add.commute)
    obtain r s1 where s1: "on_db (\<lambda>d. fk_dict_replace str_eop d (as ! j) (Str (as ! Suc j))) s (db_idx c) = Some (r, s1)"
      "in_range s1 (db_idx c)" "svr_rest s s1" "abs_svr s1 = a_put (cur c) (as ! j) (AStr (as ! Suc j)) (abs_svr s)"
      using svr_replace [OF less.prems(1) key(2) val(2)] by auto
    have "length as - (j + 2) < length as - j" "j + 2 \<le> length as" "even (length as - (j + 2))"
      using j less.prems(4) by simp_all
    then obtain s2 where s2: "mset_loop (steps2 (int (j + 2)) (int (length as))) s1 c = Some s2"
      "in_range s2 (db_idx c)" "svr_rest s1 s2"
      "abs_svr s2 = fold (\<lambda>(k, v). a_put (cur c) k (AStr v)) (pairs (drop (j + 2) as)) (abs_svr s1)"
      using less.hyps [OF _ s1(2) less.prems(2)] by blast
    have "mset_loop (steps2 (int j) (int (length as))) s c = Some s2"
      using key(1) val(1) s1(1) s2(1) unfolding st by simp
    moreover have "abs_svr s2 = fold (\<lambda>(k, v). a_put (cur c) k (AStr v)) (pairs (drop j as)) (abs_svr s)"
      unfolding dr s2(4) s1(4) by simp
    ultimately show ?thesis
      using s2(2,3) s1(3) svr_rest_trans by blast
  qed
qed

lemma mset_meets:
  assumes pre: "cmd_pre s c as" and n: "3 \<le> length as"
  shows "meets (fk_cmd_mset s c) s c
    (if odd (length as) then fold (\<lambda>(k, v). a_put (cur c) k (AStr v)) (pairs (tl as)) (abs_svr s) else abs_svr s)
    (if odd (length as) then rsp_status FK_RSP_OK else rsp_error FK_RSP_ARGC_ERR)"
proof -
  note p = cmd_preD [OF pre]
  have par: "(arg_cnt c - 1) mod 2 \<noteq> 0 \<longleftrightarrow> even (length as)"
    using n p(5) by presburger
  show ?thesis
  proof (cases "odd (length as)")
    case True
    then obtain s' where s': "mset_loop (steps2 1 (arg_cnt c)) s c = Some s'" "in_range s' (db_idx c)" "svr_rest s s'"
      "abs_svr s' = fold (\<lambda>(k, v). a_put (cur c) k (AStr v)) (pairs (tl as)) (abs_svr s)"
      using mset_loop_spec [OF p(1,3), of 1] n p(5) by (auto simp: drop_Suc)
    then have "fk_cmd_mset s c = status_ok s' c"
      using True par by (simp add: fk_cmd_mset_def)
    then show ?thesis
      using status_ok_meets [OF p(2,4) s'(2,3,4)] True by simp
  next
    case False
    then have "fk_cmd_mset s c = error_rsp FK_RSP_ARGC_ERR s c"
      using par by (simp add: fk_cmd_mset_def)
    then show ?thesis
      using error_rsp_meets [OF p(2,4,1) svr_rest_refl refl, of FK_RSP_ARGC_ERR] False by (simp add: FK_RSP_ARGC_ERR_def)
  qed
qed

text \<open>Reading a key.\<close>

lemma expire_both:
  assumes r: "in_range s i" and k: "arg_ok k"
  obtains r2 s2 r3 s3 where "on_db (\<lambda>d. fk_dict_remove str_eop d k) s i = Some (r2, s2)"
    and "on_expdb (\<lambda>d. fk_dict_remove str_eop d k) s2 i = Some (r3, s3)" and "in_range s3 i" and "svr_rest s s3"
    and "abs_svr s3 = a_del_exp (nat i) k (a_del (nat i) k (abs_svr s))" and "a_get (nat i) k (abs_svr s3) = None"
proof -
  obtain r2 s2 where s2: "on_db (\<lambda>d. fk_dict_remove str_eop d k) s i = Some (r2, s2)" "in_range s2 i"
    "svr_rest s s2" "abs_svr s2 = a_del (nat i) k (abs_svr s)"
    using svr_remove [OF r k] by blast
  obtain r3 s3 where s3: "on_expdb (\<lambda>d. fk_dict_remove str_eop d k) s2 i = Some (r3, s3)" "in_range s3 i"
    "svr_rest s2 s3" "abs_svr s3 = a_del_exp (nat i) k (abs_svr s2)"
    using svr_remove_exp [OF s2(2) k] by blast
  have "nat i < length (a_dbs (abs_svr s))"
    using in_rangeD(1) [OF r] by (simp add: abs_svr_def)
  then have "a_get (nat i) k (abs_svr s3) = None"
    unfolding s3(4) s2(4) by (simp add: a_get_def a_del_exp_def a_del_def)
  then show thesis
    using that [OF s2(1) s3(1,2) svr_rest_trans [OF s2(3) s3(3)]] s2(4) s3(4) by simp
qed

lemma expire_spec:
  assumes r: "in_range s i" and k: "arg_ok k"
  shows "\<exists>s' ex. fk_handle_expired_key s i k = Some (ex, s') \<and> in_range s' i \<and> svr_rest s s'
    \<and> abs_svr s' = a_expire (clock s) (nat i) k (abs_svr s) \<and> (ex \<longrightarrow> a_get (nat i) k (abs_svr s') = None)"
proof -
  note q = in_rangeD [OF r]
  have lk: "expdb_lookup s i k = Some (dict_map (expdb s ! nat i) k)"
    using q(2,3) db_get [OF q(6) k] by (simp add: expdb_lookup_def nth_db_def cmem)
  have ae: "(a_exps (abs_svr s) ! nat i) k = map_option abs_item (dict_map (expdb s ! nat i) k)"
    using a_dbs_nth(2) [OF r] by (simp add: abs_db_def)
  show ?thesis
  proof (cases "dict_map (expdb s ! nat i) k")
    case None
    then have "fk_handle_expired_key s i k = Some (False, s)"
      using lk by (simp add: fk_handle_expired_key_def)
    then show ?thesis
      using r None ae by (auto simp: a_expire_def)
  next
    case (Some e)
    then have "exp_ok e"
      using q(6) unfolding db_inv_def by blast
    then obtain m where e: "e = Num m"
      by (cases e) auto
    let ?s1 = "s\<lparr>ticks := ticks s + 1\<rparr>"
    note t = in_range_tick [OF r, of "ticks s + 1"]
    have tk: "a_tick (abs_svr s) = ticks s"
      by (simp add: abs_svr_def)
    show ?thesis
    proof (cases "m < fk_util_tv2millis (clock s (ticks s))")
      case True
      obtain r2 s2 r3 s3 where s3: "on_db (\<lambda>d. fk_dict_remove str_eop d k) ?s1 i = Some (r2, s2)"
        "on_expdb (\<lambda>d. fk_dict_remove str_eop d k) s2 i = Some (r3, s3)" "in_range s3 i" "svr_rest ?s1 s3"
        "abs_svr s3 = a_del_exp (nat i) k (a_del (nat i) k (abs_svr ?s1))" "a_get (nat i) k (abs_svr s3) = None"
        by (rule expire_both [OF t(1) k])
      have "fk_handle_expired_key s i k = Some (True, s3)"
        using lk Some e True s3(1,2) by (simp add: fk_handle_expired_key_def fk_util_get_time_def)
      moreover have "abs_svr s3 = a_expire (clock s) (nat i) k (abs_svr s)"
        using True Some e ae s3(5) t(3) tk by (simp add: a_expire_def)
      moreover have "svr_rest s s3"
        using svr_rest_trans [OF t(2) s3(4)] .
      ultimately show ?thesis
        using s3(3,6) by blast
    next
      case False
      have "fk_handle_expired_key s i k = Some (False, ?s1)"
        using lk Some e False by (simp add: fk_handle_expired_key_def fk_util_get_time_def)
      moreover have "abs_svr ?s1 = a_expire (clock s) (nat i) k (abs_svr s)"
        using False Some e ae t(3) tk by (simp add: a_expire_def)
      ultimately show ?thesis
        using t(1,2) by blast
    qed
  qed
qed

text \<open>Replies that carry a stored string; \<open>no_nul\<close> says that the string can pass the
  \<^verbatim>\<open>snprintf("%s\r\n")\<close> of the reply unchanged.\<close>

fun rsp_val :: "aval option \<Rightarrow> string" where
  "rsp_val (Some (AStr t)) = rsp_bulk t"
| "rsp_val _ = rsp_nil"

fun rsp_get :: "aval option \<Rightarrow> string" where
  "rsp_get (Some (AStr t)) = rsp_bulk t"
| "rsp_get None = rsp_nil"
| "rsp_get (Some _) = rsp_error FK_RSP_TYPE_ERR"

fun strs_of :: "aval \<Rightarrow> string set" where
  "strs_of (AStr t) = {t}"
| "strs_of (AList l) = set l"
| "strs_of (ADict m) = ran m"
| "strs_of _ = {}"

definition no_nul :: "aval option \<Rightarrow> bool" where
  "no_nul v \<longleftrightarrow> (\<forall>x. v = Some x \<longrightarrow> (\<forall>t \<in> strs_of x. CHR 0x00 \<notin> set t))"

lemma abs_item_cases:
  assumes "val_ok v"
  obtains (Str) t where "v = Str t" "arg_ok t" "abs_item v = AStr t" "fk_item_type v = FK_ITEM_STR"
  | (List) l where "v = List l" "\<forall>x \<in> set l. is_arg x" "abs_item v = AList (map str_of l)" "fk_item_type v = FK_ITEM_LIST"
  | (Dict) d where "v = Dict d" "dict_inv str_eop str_ok d" "\<forall>k x. dict_map d k = Some x \<longrightarrow> arg_ok k \<and> is_arg x"
      "abs_item v = ADict (map_option str_of \<circ> dict_map d)" "fk_item_type v = FK_ITEM_DICT"
  using assms by (cases v) auto

text \<open>The lookup that \<^verbatim>\<open>GET\<close> and \<^verbatim>\<open>MGET\<close> make after the expiry test.\<close>

lemma read_spec:
  assumes r: "in_range s i" and k: "arg_ok k"
  shows "\<exists>s' ex v. fk_handle_expired_key s i k = Some (ex, s') \<and> in_range s' i \<and> svr_rest s s'
    \<and> abs_svr s' = a_expire (clock s) (nat i) k (abs_svr s)
    \<and> (if ex then Some None else db_lookup s' i k) = Some v
    \<and> a_get (nat i) k (abs_svr s') = map_option abs_item v \<and> (\<forall>x. v = Some x \<longrightarrow> val_ok x)"
proof -
  obtain s' ex where s': "fk_handle_expired_key s i k = Some (ex, s')" "in_range s' i" "svr_rest s s'"
    "abs_svr s' = a_expire (clock s) (nat i) k (abs_svr s)" "ex \<longrightarrow> a_get (nat i) k (abs_svr s') = None"
    using expire_spec [OF r k] by blast
  obtain v where "db_lookup s' i k = Some v" "a_get (nat i) k (abs_svr s') = map_option abs_item v" "\<forall>x. v = Some x \<longrightarrow> val_ok x"
    using svr_get [OF s'(2) k] by blast
  then show ?thesis
    using s' by (cases ex) auto
qed

lemma get_meets:
  assumes pre: "cmd_pre s c as" and n: "length as = 2"
    and a1: "a1 = a_expire (clock s) (cur c) (as ! 1) (abs_svr s)" and nn: "no_nul (a_get (cur c) (as ! 1) a1)"
  shows "meets (fk_cmd_get s c) s c a1 (rsp_get (a_get (cur c) (as ! 1) a1))"
proof -
  note p = cmd_preD [OF pre]
  have a: "arg_key c 1 = Some (as ! 1)" "arg_ok (as ! 1)"
    using arg_facts_num(1) [OF p(3)] n by auto
  obtain s' ex v where s': "fk_handle_expired_key s (db_idx c) (as ! 1) = Some (ex, s')" "in_range s' (db_idx c)"
    "svr_rest s s'" "abs_svr s' = a1" "(if ex then Some None else db_lookup s' (db_idx c) (as ! 1)) = Some v"
    "a_get (cur c) (as ! 1) a1 = map_option abs_item v" "\<forall>x. v = Some x \<longrightarrow> val_ok x"
    using read_spec [OF p(1) a(2)] unfolding a1 by metis
  have eq: "fk_cmd_get s c = (case v of None \<Rightarrow> reply (fk_conn_add_bulk_rsp FK_RSP_NIL) s' c
    | Some v \<Rightarrow> if fk_item_type v \<noteq> FK_ITEM_STR then error_rsp FK_RSP_TYPE_ERR s' c
        else do { ss \<leftarrow> raw_str v; reply (bulk_rsp ss) s' c })"
    using a s'(1,5) by (cases ex) (auto simp: fk_cmd_get_def)
  have err: "meets (error_rsp FK_RSP_TYPE_ERR s' c) s c a1 (rsp_error FK_RSP_TYPE_ERR)"
    using error_rsp_meets [OF p(2,4) s'(2,3,4), of FK_RSP_TYPE_ERR] by (simp add: FK_RSP_TYPE_ERR_def)
  show ?thesis
  proof (cases v)
    case None
    then show ?thesis
      using nil_rsp_meets [OF p(2,4) s'(2,3,4)] eq s'(6) by simp
  next
    case (Some x)
    then have "val_ok x" using s'(7) by blast
    then show ?thesis
    proof (cases x rule: abs_item_cases)
      case (Str t)
      then have "CHR 0x00 \<notin> set t"
        using nn s'(6) Some by (simp add: no_nul_def)
      then have "\<exists>rc c'. bulk_rsp t c = Some (rc, c') \<and> replied c rc c' (rsp_bulk t)"
        using bulk_spec [OF p(2) _ Str(2)] p(4) by simp
      then have "meets (reply (bulk_rsp t) s' c) s c a1 (rsp_bulk t)"
        by (rule reply_meets) fact+
      then show ?thesis
        using eq s'(6) Some Str by simp
    qed (use err eq s'(6) Some in simp_all)
  qed
qed

text \<open>Handlers that stop at the first reply that does not fit: what they did is complete only when
  they return \<open>SVR_OK\<close>.\<close>

definition meets_ok :: "(svr_rc \<times> fk_svr \<times> fk_conn) option \<Rightarrow> fk_svr \<Rightarrow> fk_conn \<Rightarrow> astate \<Rightarrow> string \<Rightarrow> bool" where
  "meets_ok r s c a' bs \<longleftrightarrow>
     (\<exists>rc s' c'. r = Some (rc, s', c') \<and> svr_inv s' \<and> svr_rest s s' \<and> (rc = SVR_OK \<longrightarrow> abs_svr s' = a')
        \<and> replied c rc c' bs)"

fun a_mget :: "(nat \<Rightarrow> timeval) \<Rightarrow> nat \<Rightarrow> string list \<Rightarrow> astate \<Rightarrow> astate \<times> string" where
  "a_mget clk i [] a = (a, [])"
| "a_mget clk i (k # ks) a =
     (let a1 = a_expire clk i k a; (a2, bs) = a_mget clk i ks a1 in (a2, rsp_val (a_get i k a1) @ bs))"

fun mget_ok :: "(nat \<Rightarrow> timeval) \<Rightarrow> nat \<Rightarrow> string list \<Rightarrow> astate \<Rightarrow> bool" where
  "mget_ok clk i [] a \<longleftrightarrow> True"
| "mget_ok clk i (k # ks) a \<longleftrightarrow> (let a1 = a_expire clk i k a in no_nul (a_get i k a1) \<and> mget_ok clk i ks a1)"

lemma val_rsp_spec:
  assumes "conn_inv c" and "length (out c) < 536870912 + 268435456" and "no_nul (map_option abs_item v)"
    and "\<forall>x. v = Some x \<longrightarrow> val_ok x"
  shows "\<exists>rc c'. (case v of None \<Rightarrow> fk_conn_add_bulk_rsp FK_RSP_NIL c
      | Some v \<Rightarrow> if fk_item_type v \<noteq> FK_ITEM_STR then fk_conn_add_bulk_rsp FK_RSP_NIL c
          else do { ss \<leftarrow> raw_str v; bulk_rsp ss c }) = Some (rc, c')
    \<and> replied c rc c' (rsp_val (map_option abs_item v)) \<and> length (rsp_val (map_option abs_item v)) \<le> 1048576 + 16"
proof -
  have nil: "\<exists>rc c'. fk_conn_add_bulk_rsp FK_RSP_NIL c = Some (rc, c') \<and> replied c rc c' rsp_nil" "length rsp_nil \<le> 1048592"
    using nil_rsp_spec [OF assms(1,2)] length_print_int_32 [of FK_RSP_NIL]
    by (auto simp: rsp_nil_def crlf_def FK_RSP_NIL_def)
  show ?thesis
  proof (cases v)
    case None
    then show ?thesis using nil by simp
  next
    case (Some x)
    then have "val_ok x" using assms(4) by blast
    then show ?thesis
    proof (cases x rule: abs_item_cases)
      case (Str t)
      then have "CHR 0x00 \<notin> set t"
        using assms(3) Some by (simp add: no_nul_def)
      moreover have "length t \<le> 1048576"
        using Str(2) by (simp add: arg_ok_def fk_consts)
      moreover from this have "length (rsp_bulk t) \<le> 1048592"
        using length_print_int_32 [of "int (length t)"] by (simp add: rsp_bulk_def crlf_def)
      ultimately show ?thesis
        using bulk_spec [OF assms(1,2) Str(2)] Some Str by simp
    qed (use nil Some in simp_all)
  qed
qed

text \<open>One key of \<^verbatim>\<open>MGET\<close>: its value is appended to the reply, and the loop goes on unless that fails.\<close>

lemma mget_step:
  assumes rng: "in_range s (db_idx c)" and inv: "conn_inv c" "args_inv c as" and j: "j < length as"
    and len: "length (out c) \<le> 536870912 + 1048592 * j" and ok: "mget_ok (clock s) (cur c) (drop j as) (abs_svr s)"
    and a: "a_mget (clock s) (cur c) (drop j as) (abs_svr s) = (a', bs)"
  obtains s1 rc c1 v bs2 where "mget_loop [int j..int (length as) - 1] s c
      = (if rc = SVR_ERR then Some (SVR_ERR, s1, c1) else mget_loop [int (Suc j)..int (length as) - 1] s1 c1)"
    "in_range s1 (db_idx c)" "svr_rest s s1" "replied c rc c1 v" "length v \<le> 1048576 + 16" "bs = v @ bs2"
    "a_mget (clock s) (cur c) (drop (Suc j) as) (abs_svr s1) = (a', bs2)" "mget_ok (clock s) (cur c) (drop (Suc j) as) (abs_svr s1)"
proof -
  have l128: "length as \<le> 128"
    using inv(2) by (auto simp: args_inv_def fk_consts)
  have up: "[int j..int (length as) - 1] = int j # [int (Suc j)..int (length as) - 1]"
    using j by (simp add: upto_rec1 add.commute)
  have dr: "drop j as = as ! j # drop (Suc j) as"
    using j by (simp add: Cons_nth_drop_Suc)
  note af = arg_facts [OF inv(2) j]
  obtain s1 ex v where s1: "fk_handle_expired_key s (db_idx c) (as ! j) = Some (ex, s1)" "in_range s1 (db_idx c)"
    "svr_rest s s1" "abs_svr s1 = a_expire (clock s) (cur c) (as ! j) (abs_svr s)"
    "(if ex then Some None else db_lookup s1 (db_idx c) (as ! j)) = Some v"
    "a_get (cur c) (as ! j) (abs_svr s1) = map_option abs_item v" "\<forall>x. v = Some x \<longrightarrow> val_ok x"
    using read_spec [OF rng af(3)] by metis
  have cl: "no_nul (map_option abs_item v)" "mget_ok (clock s) (cur c) (drop (Suc j) as) (abs_svr s1)"
    using ok unfolding dr by (simp_all add: Let_def s1(4,6) [symmetric])
  obtain bs2 where bs: "bs = rsp_val (map_option abs_item v) @ bs2"
    "a_mget (clock s) (cur c) (drop (Suc j) as) (abs_svr s1) = (a', bs2)"
    using a unfolding dr by (auto simp: Let_def s1(4,6) [symmetric] split: prod.splits)
  have "length (out c) < 536870912 + 268435456"
    using len j l128 by linarith
  from val_rsp_spec [OF inv(1) this cl(1) s1(7)]
  obtain rc c1 where c1: "(case v of None \<Rightarrow> fk_conn_add_bulk_rsp FK_RSP_NIL c
      | Some v \<Rightarrow> if fk_item_type v \<noteq> FK_ITEM_STR then fk_conn_add_bulk_rsp FK_RSP_NIL c
          else do { ss \<leftarrow> raw_str v; bulk_rsp ss c }) = Some (rc, c1)"
    "replied c rc c1 (rsp_val (map_option abs_item v))" "length (rsp_val (map_option abs_item v)) \<le> 1048576 + 16"
    by blast
  have "mget_loop [int j..int (length as) - 1] s c
      = (if rc = SVR_ERR then Some (SVR_ERR, s1, c1) else mget_loop [int (Suc j)..int (length as) - 1] s1 c1)"
    using af(2) s1(1,5) c1(1) unfolding up by (cases ex) auto
  from that [OF this s1(2,3) c1(2,3) bs cl(2)] show thesis .
qed

lemma mget_loop_spec:
  assumes "in_range s (db_idx c)" and "conn_inv c" and "args_inv c as" and "j \<le> length as"
    and "length (out c) \<le> 536870912 + 1048592 * j" and "mget_ok (clock s) (cur c) (drop j as) (abs_svr s)"
    and "a_mget (clock s) (cur c) (drop j as) (abs_svr s) = (a', bs)"
  shows "meets_ok (mget_loop [int j..int (length as) - 1] s c) s c a' bs"
  using assms
proof (induction "length as - j" arbitrary: j s c bs)
  case 0
  then show ?case
    by (auto simp: meets_ok_def in_range_def intro: replied_refl)
next
  case (Suc m)
  have j: "j < length as" and m: "m = length as - Suc j"
    using Suc.hyps(2) by simp_all
  obtain s1 rc c1 v bs2 where eq: "mget_loop [int j..int (length as) - 1] s c
      = (if rc = SVR_ERR then Some (SVR_ERR, s1, c1) else mget_loop [int (Suc j)..int (length as) - 1] s1 c1)"
    and s1: "in_range s1 (db_idx c)" "svr_rest s s1" and c1: "replied c rc c1 v" "length v \<le> 1048576 + 16" and bs: "bs = v @ bs2"
    "a_mget (clock s) (cur c) (drop (Suc j) as) (abs_svr s1) = (a', bs2)" "mget_ok (clock s) (cur c) (drop (Suc j) as) (abs_svr s1)"
    by (rule mget_step [OF Suc.prems(1-3) j Suc.prems(5-7)]) (rule that)
  show ?case
  proof (cases "rc = SVR_ERR")
    case True
    then show ?thesis
      using eq s1 replied_err [of c c1 _ bs2] c1(1) bs(1) by (auto simp: meets_ok_def in_range_def)
  next
    case False
    then have ok: "rc = SVR_OK" "out c1 = out c @ v"
      using c1(1) by (auto simp: replied_def)
    note f = replied_fields [OF c1(1)]
    have "meets_ok (mget_loop [int (Suc j)..int (length as) - 1] s1 c1) s1 c1 a' bs2"
    proof (rule Suc.hyps(1) [OF m])
      show "in_range s1 (db_idx c1)" "conn_inv c1" "args_inv c1 as" "Suc j \<le> length as"
        using s1(1) f j replied_inv [OF Suc.prems(2) c1(1)] Suc.prems(3) by (auto simp: args_inv_def)
      show "length (out c1) \<le> 536870912 + 1048592 * Suc j"
        using ok(2) c1(2) Suc.prems(5) by simp
      show "a_mget (clock s1) (cur c1) (drop (Suc j) as) (abs_svr s1) = (a', bs2)"
        "mget_ok (clock s1) (cur c1) (drop (Suc j) as) (abs_svr s1)"
        using bs(2,3) f svr_rest_fields [OF s1(2)] by simp_all
    qed
    then obtain rc2 s2 c2 where 2: "mget_loop [int (Suc j)..int (length as) - 1] s1 c1 = Some (rc2, s2, c2)"
      "svr_inv s2" "svr_rest s1 s2" "rc2 = SVR_OK \<longrightarrow> abs_svr s2 = a'" "replied c1 rc2 c2 bs2"
      by (auto simp: meets_ok_def)
    then show ?thesis
      using eq False ok(1) svr_rest_trans [OF s1(2) 2(3)] replied_trans [of c c1 _ rc2 c2 bs2] c1(1) bs(1)
      by (auto simp: meets_ok_def)
  qed
qed

lemma mget_meets:
  assumes pre: "cmd_pre s c as" and n: "2 \<le> length as" and cl: "mget_ok (clock s) (cur c) (tl as) (abs_svr s)"
    and a: "a_mget (clock s) (cur c) (tl as) (abs_svr s) = (a', bs)"
  shows "meets_ok (fk_cmd_mget s c) s c a' (rsp_mbulk (int (length as) - 1) @ bs)"
proof -
  note p = cmd_preD [OF pre]
  let ?h = "rsp_mbulk (int (length as) - 1)"
  have l: "length (print_int (int (length as) - 1)) \<le> 11"
    using p(6) by (intro length_print_int_32) simp
  then have lh: "length ?h \<le> 14"
    by (simp add: rsp_mbulk_def crlf_def)
  obtain rc c1 where c1: "fk_conn_add_mbulk_rsp (arg_cnt c - 1) c = Some (rc, c1)" "replied c rc c1 ?h"
    using mbulk_rsp_spec [OF p(2), of "int (length as) - 1"] l p(4,5) unfolding rsp_mbulk_def by auto
  note f = replied_fields [OF c1(2)]
  show ?thesis
  proof (cases "rc = SVR_ERR")
    case True
    then show ?thesis
      using c1 p(1) replied_err [of c c1 ?h bs] by (auto simp: fk_cmd_mget_def meets_ok_def in_range_def)
  next
    case False
    then have ok: "rc = SVR_OK" "out c1 = out c @ ?h"
      using c1(2) by (auto simp: replied_def)
    have "meets_ok (mget_loop [int 1..int (length as) - 1] s c1) s c1 a' bs"
    proof (rule mget_loop_spec)
      show "in_range s (db_idx c1)" "conn_inv c1" "args_inv c1 as" "1 \<le> length as"
        using p(1,3) f n replied_inv [OF p(2) c1(2)] by (auto simp: args_inv_def)
      show "length (out c1) \<le> 536870912 + 1048592 * 1"
        using ok(2) p(4) lh by simp
      show "a_mget (clock s) (cur c1) (drop 1 as) (abs_svr s) = (a', bs)"
        using a f by (simp add: drop_Suc)
      show "mget_ok (clock s) (cur c1) (drop 1 as) (abs_svr s)"
        using cl f by (simp add: drop_Suc)
    qed
    then obtain rc2 s2 c2 where 2: "mget_loop [1..int (length as) - 1] s c1 = Some (rc2, s2, c2)"
      "svr_inv s2" "svr_rest s s2" "rc2 = SVR_OK \<longrightarrow> abs_svr s2 = a'" "replied c1 rc2 c2 bs"
      by (auto simp: meets_ok_def)
    then show ?thesis
      using c1 ok(1) p(5) replied_trans [of c c1 ?h rc2 c2 bs] by (auto simp: fk_cmd_mget_def meets_ok_def)
  qed
qed

text \<open>Emptying databases.\<close>

definition a_flush :: "nat \<Rightarrow> astate \<Rightarrow> astate" where
  "a_flush i a = a\<lparr>a_dbs := (a_dbs a)[i := Map.empty], a_exps := (a_exps a)[i := Map.empty]\<rparr>"

definition a_flush_all :: "astate \<Rightarrow> astate" where
  "a_flush_all a = a\<lparr>a_dbs := map (\<lambda>_. Map.empty) (a_dbs a), a_exps := map (\<lambda>_. Map.empty) (a_exps a)\<rparr>"

lemma flush_spec:
  assumes "in_range s i"
  shows "\<exists>s1 s2. on_db (\<lambda>d. Some ((), fk_dict_empty d)) s i = Some ((), s1)
    \<and> on_expdb (\<lambda>d. Some ((), fk_dict_empty d)) s1 i = Some ((), s2)
    \<and> in_range s2 i \<and> svr_rest s s2 \<and> abs_svr s2 = a_flush (nat i) (abs_svr s)"
proof -
  obtain s1 where 1: "on_db (\<lambda>d. Some ((), fk_dict_empty d)) s i = Some ((), s1)" "in_range s1 i" "svr_rest s s1"
    "abs_svr s1 = (abs_svr s)\<lparr>a_dbs := (a_dbs (abs_svr s))[nat i := Map.empty]\<rparr>"
    using on_db_eq [OF assms, of "\<lambda>d. Some ((), fk_dict_empty d)" "()" fk_dict_create] by (auto simp: fk_dict_empty_eq)
  obtain s2 where 2: "on_expdb (\<lambda>d. Some ((), fk_dict_empty d)) s1 i = Some ((), s2)" "in_range s2 i" "svr_rest s1 s2"
    "abs_svr s2 = (abs_svr s1)\<lparr>a_exps := (a_exps (abs_svr s1))[nat i := Map.empty]\<rparr>"
    using on_expdb_eq [OF 1(2), of "\<lambda>d. Some ((), fk_dict_empty d)" "()" fk_dict_create] by (auto simp: fk_dict_empty_eq)
  have "abs_svr s2 = a_flush (nat i) (abs_svr s)"
    unfolding 2(4) 1(4) a_flush_def by simp
  then show ?thesis
    using 1(1) 2(1,2) svr_rest_trans [OF 1(3) 2(3)] by blast
qed

lemma flushdb_meets:
  assumes "cmd_pre s c as"
  shows "meets (fk_cmd_flushdb s c) s c (a_flush (cur c) (abs_svr s)) (rsp_status FK_RSP_OK)"
proof -
  note p = cmd_preD [OF assms]
  obtain s1 s2 where s: "on_db (\<lambda>d. Some ((), fk_dict_empty d)) s (db_idx c) = Some ((), s1)"
    "on_expdb (\<lambda>d. Some ((), fk_dict_empty d)) s1 (db_idx c) = Some ((), s2)"
    "in_range s2 (db_idx c)" "svr_rest s s2" "abs_svr s2 = a_flush (cur c) (abs_svr s)"
    using flush_spec [OF p(1)] by blast
  then have "fk_cmd_flushdb s c = status_ok s2 c"
    by (simp add: fk_cmd_flushdb_def)
  then show ?thesis
    using status_ok_meets [OF p(2,4) s(3,4,5)] by simp
qed

lemma flushall_loop_spec:
  assumes "svr_inv s" and "\<forall>i \<in> set is. i < dbcnt s"
  shows "\<exists>s'. flushall_loop is s = Some s' \<and> svr_inv s' \<and> svr_rest s s' \<and> abs_svr s' = fold a_flush is (abs_svr s)"
  using assms
proof (induction "is" arbitrary: s)
  case (Cons i "is")
  then have "in_range s (int i)"
    by (simp add: in_range_def)
  from flush_spec [OF this]
  obtain s1 s2 where s: "on_db (\<lambda>d. Some ((), fk_dict_empty d)) s (int i) = Some ((), s1)"
    "on_expdb (\<lambda>d. Some ((), fk_dict_empty d)) s1 (int i) = Some ((), s2)"
    "in_range s2 (int i)" "svr_rest s s2" "abs_svr s2 = a_flush i (abs_svr s)"
    by auto
  have "svr_inv s2" "\<forall>i \<in> set is. i < dbcnt s2"
    using s(3) svr_rest_fields [OF s(4)] Cons.prems by (auto simp: in_range_def)
  from Cons.IH [OF this] show ?case
    using s svr_rest_trans [OF s(4)] by auto
qed simp

lemma fold_flush:
  assumes "length (a_dbs a) = n" and "length (a_exps a) = n"
  shows "fold a_flush [0..<n] a = a_flush_all a"
proof -
  have "fold a_flush [0..<m] a = a\<lparr>a_dbs := map (\<lambda>_. Map.empty) (take m (a_dbs a)) @ drop m (a_dbs a),
      a_exps := map (\<lambda>_. Map.empty) (take m (a_exps a)) @ drop m (a_exps a)\<rparr>" if "m \<le> n" for m
    using that
  proof (induction m)
    case (Suc m)
    then show ?case
      using assms by (simp add: a_flush_def take_Suc_conv_app_nth list_update_append Cons_nth_drop_Suc [symmetric])
  qed simp
  from this [of n] show ?thesis
    using assms by (simp add: a_flush_all_def)
qed

lemma flushall_meets:
  assumes "cmd_pre s c as"
  shows "meets (fk_cmd_flushall s c) s c (a_flush_all (abs_svr s)) (rsp_status FK_RSP_OK)"
proof -
  note p = cmd_preD [OF assms]
  have "svr_inv s" using p(1) by (simp add: in_range_def)
  then obtain s' where s': "flushall_loop [0..<dbcnt s] s = Some s'" "svr_inv s'" "svr_rest s s'"
    "abs_svr s' = fold a_flush [0..<dbcnt s] (abs_svr s)"
    using flushall_loop_spec [of s "[0..<dbcnt s]"] by auto
  have "in_range s' (db_idx c)"
    using s'(2) svr_rest_fields [OF s'(3)] p(1) by (simp add: in_range_def)
  moreover have "abs_svr s' = a_flush_all (abs_svr s)"
    unfolding s'(4) using \<open>svr_inv s\<close> by (intro fold_flush) (simp_all add: abs_svr_def svr_inv_def)
  moreover have "fk_cmd_flushall s c = status_ok s' c"
    using s'(1) by (simp add: fk_cmd_flushall_def)
  ultimately show ?thesis
    using status_ok_meets [OF p(2,4) _ s'(3)] by simp
qed

lemma select_spec:
  assumes pre: "cmd_pre s c as" and n: "length as = 2" and i: "i = atoi (cstr (as ! 1))"
  shows "0 \<le> i \<Longrightarrow> i < int (dbcnt s) \<Longrightarrow>
      \<exists>rc c'. fk_cmd_select s c = Some (rc, s, c') \<and> replied (c\<lparr>db_idx := i\<rparr>) rc c' (rsp_status FK_RSP_OK)"
    and "i < 0 \<or> int (dbcnt s) \<le> i \<Longrightarrow> meets (fk_cmd_select s c) s c (abs_svr s) (rsp_error FK_RSP_ERR)"
proof -
  note p = cmd_preD [OF pre]
  have a: "arg_key c 1 = Some (as ! 1)"
    using arg_facts_num(1) [OF p(3)] n by auto
  show "\<exists>rc c'. fk_cmd_select s c = Some (rc, s, c') \<and> replied (c\<lparr>db_idx := i\<rparr>) rc c' (rsp_status FK_RSP_OK)"
    if r: "0 \<le> i" "i < int (dbcnt s)"
  proof -
    let ?c = "c\<lparr>db_idx := i\<rparr>"
    have "conn_inv ?c" "length (out ?c) < 536870912"
      using p(2,4) by (simp_all add: conn_inv_def args_inv_def)
    then have "meets (status_ok s ?c) s ?c (abs_svr s) (rsp_status FK_RSP_OK)"
      using status_ok_meets [OF _ _ p(1) svr_rest_refl refl] by blast
    moreover have "fk_cmd_select s c = status_ok s ?c"
      using a r i by (simp add: fk_cmd_select_def Let_def)
    ultimately show ?thesis
      by (auto simp: meets_def status_ok_def reply_def split: option.splits bind_splits)
  qed
  show "meets (fk_cmd_select s c) s c (abs_svr s) (rsp_error FK_RSP_ERR)" if "i < 0 \<or> int (dbcnt s) \<le> i"
  proof -
    have "fk_cmd_select s c = error_rsp FK_RSP_ERR s c"
      using a that i by (auto simp: fk_cmd_select_def Let_def)
    then show ?thesis
      using error_rsp_meets [OF p(2,4,1) svr_rest_refl refl, of FK_RSP_ERR] by (simp add: FK_RSP_ERR_def)
  qed
qed

subsection \<open>\<^verbatim>\<open>SAVE\<close>\<close>

lemma save_spec:
  assumes "cmd_pre s c as"
  shows "\<exists>rc d c'. fk_cmd_save s c = Some (rc, s\<lparr>disk := d\<rparr>, c') \<and> replied c rc c' (rsp_status FK_RSP_OK)"
proof -
  note p = cmd_preD [OF assms]
  have "svr_inv s"
    using assms by (simp add: cmd_pre_def)
  then obtain rt d where d: "fk_kdb_save s = Some (rt, s\<lparr>disk := d\<rparr>)"
    using kdb_save_total by blast
  have *: "\<exists>rc c'. status_ok t c = Some (rc, t, c') \<and> replied c rc c' (rsp_status FK_RSP_OK)" for t
    using status_rsp_spec [OF p(2), of FK_RSP_OK] p(4) replied_rc
    by (fastforce simp: status_ok_def reply_def rsp_status_def FK_RSP_OK_def)
  show ?thesis
  proof (cases "save_pid s = -1")
    case True
    then have "fk_cmd_save s c = status_ok (s\<lparr>disk := d\<rparr>) c"
      using d by (simp add: fk_cmd_save_def)
    then show ?thesis
      using * [of "s\<lparr>disk := d\<rparr>"] by auto
  next
    case False
    then have "fk_cmd_save s c = status_ok s c"
      by (simp add: fk_cmd_save_def)
    moreover have "s\<lparr>disk := disk s\<rparr> = s"
      by simp
    ultimately show ?thesis
      using * [of s] by metis
  qed
qed

subsection \<open>A connection with a complete request\<close>

definition conn_req :: "string list \<Rightarrow> fk_conn" where
  "conn_req as =
     (conn_with [])\<lparr>arg_vtr := \<lparr>vinit_len = FK_VTR_INIT_LEN, vlen = max FK_VTR_INIT_LEN (length as),
                               varray = map (Some \<circ> Str) as @ replicate (FK_VTR_INIT_LEN - length as) None\<rparr>,
                    arg_parsed := int (length as), arg_cnt := int (length as), parse_done := 1\<rparr>"

lemma conn_req_pre:
  assumes "req_ok as" and "svr_inv s" and "0 < dbcnt s"
  shows "cmd_pre s (conn_req as) as" and "args_inv (conn_req as) as" and "parse_done (conn_req as) = 1"
    and "db_idx (conn_req as) = 0" and "out (conn_req as) = []" and "highwat (wbuf (conn_req as)) = FK_BUF_HIGHWAT"
proof -
  show a: "args_inv (conn_req as) as"
    using assms(1) by (auto simp: conn_req_def args_inv_def vtr_inv_def req_ok_def conn_with_def fk_consts)
  have "buf_inv (rbuf (conn_req as))" "buf_inv (wbuf (conn_req as))"
    using conn_with_facts(1) [of "[]"] by (simp_all add: conn_req_def conn_inv_def)
  then show "cmd_pre s (conn_req as) as"
    using a assms by (auto simp: cmd_pre_def conn_inv_def conn_req_def conn_with_def payload_def)
  show "parse_done (conn_req as) = 1" "db_idx (conn_req as) = 0" "out (conn_req as) = []"
    "highwat (wbuf (conn_req as)) = FK_BUF_HIGHWAT"
    by (simp_all add: conn_req_def conn_with_def payload_def)
qed

text \<open>\<^verbatim>\<open>SAVE\<close> never reports a failure: whatever happens on the disk (the file cannot be opened, it fills
  up, the rename fails, or a background save is running and nothing is written at all), the reply is the
  status line \<^verbatim>\<open>+OK\<close>; nothing but the disk changes.\<close>

theorem save_reply_always_ok:
  assumes "cmd_pre s c as"
  shows "\<exists>rc d c'. fk_cmd_save s c = Some (rc, s\<lparr>disk := d\<rparr>, c') \<and> replied c rc c' (rsp_status FK_RSP_OK)"
  using save_spec [OF assms] .

theorem save_reply_always_ok_witness:
  "\<exists>rc d c'. fk_cmd_save ((svr_fresh 1 0)\<lparr>save_pid := 77\<rparr>) (conn_req [''SAVE''])
       = Some (rc, (svr_fresh 1 0)\<lparr>save_pid := 77, disk := d\<rparr>, c')
     \<and> replied (conn_req [''SAVE'']) rc c' (rsp_status FK_RSP_OK)"
proof -
  let ?s = "(svr_fresh 1 0)\<lparr>save_pid := 77\<rparr>"
  have "svr_inv ?s" "0 < dbcnt ?s" "req_ok [''SAVE'']"
    using svr_inv_fresh [of 1 0] by (simp_all add: svr_inv_def svr_fresh_def req_ok_def arg_ok_def fk_consts)
  then show ?thesis
    using save_reply_always_ok [OF conn_req_pre(1)] by fastforce
qed

end
