(* ===== verification/Fk_Cmd_Coll.thy ===== *)
theory Fk_Cmd_Coll
  imports Fk_Cmd_Spec
begin

text \<open>
  The commands on hashes and lists (\<^verbatim>\<open>fk_svr_hash.c\<close>, \<^verbatim>\<open>fk_svr_list.c\<close>) against their
  specification on maps and lists, and \<^verbatim>\<open>ZADD\<close> (\<^verbatim>\<open>fk_svr_zset.c\<close>).
\<close>

lemma type_err_meets:
  assumes "conn_inv c" "length (out c) < 536870912" "in_range s' i" "svr_rest s s'" "abs_svr s' = a"
  shows "meets (error_rsp FK_RSP_TYPE_ERR s' c) s c a (rsp_error FK_RSP_TYPE_ERR)"
  using error_rsp_meets [OF assms, of FK_RSP_TYPE_ERR] by (simp add: FK_RSP_TYPE_ERR_def)

lemma bulk_meets:
  assumes "conn_inv c" "length (out c) < 536870912" "in_range s' i" "svr_rest s s'" "abs_svr s' = a"
    and "arg_ok t" "CHR 0x00 \<notin> set t"
  shows "meets (reply (bulk_rsp t) s' c) s c a (rsp_bulk t)"
  using assms bulk_spec [of c t] by (intro reply_meets) auto

subsection \<open>Hashes\<close>

fun a_hset :: "nat \<Rightarrow> string \<Rightarrow> string \<Rightarrow> string \<Rightarrow> astate \<Rightarrow> astate \<times> string" where
  "a_hset i h k v a =
     (case a_get i h a of
        None \<Rightarrow> (a_put i h (ADict [k \<mapsto> v]) a, rsp_int 1)
      | Some (ADict m) \<Rightarrow> (a_put i h (ADict (if m k = None then m(k \<mapsto> v) else m)) a, rsp_int 1)
      | Some _ \<Rightarrow> (a, rsp_error FK_RSP_TYPE_ERR))"

fun a_hget :: "string \<Rightarrow> aval option \<Rightarrow> string" where
  "a_hget k None = rsp_nil"
| "a_hget k (Some (ADict m)) = (case m k of None \<Rightarrow> rsp_nil | Some t \<Rightarrow> rsp_bulk t)"
| "a_hget k (Some _) = rsp_error FK_RSP_TYPE_ERR"

text \<open>Adding a field to a hash.\<close>

lemma hash_add:
  assumes "dict_inv str_eop str_ok d" and "\<forall>k x. dict_map d k = Some x \<longrightarrow> arg_ok k \<and> is_arg x"
    and "arg_ok k" and "arg_ok v"
  shows "\<exists>rc d'. fk_dict_add str_eop d k (Str v) = Some (rc, d') \<and> val_ok (Dict d')
    \<and> abs_item (Dict d') = ADict (if dict_map d k = None then (map_option str_of \<circ> dict_map d)(k \<mapsto> v)
        else map_option str_of \<circ> dict_map d)"
proof -
  have "db_inv is_arg d" "is_arg (Str v)"
    using assms by (auto simp: db_inv_def is_arg_def)
  then obtain d' where "fk_dict_add str_eop d k (Str v) = Some (if dict_map d k = None then DICT_OK else DICT_ERR, d')"
    "db_inv is_arg d'" "dict_map d' = (if dict_map d k = None then (dict_map d)(k \<mapsto> Str v) else dict_map d)"
    using db_add [of is_arg d k "Str v"] assms(3) by blast
  then show ?thesis
    by (auto simp: db_inv_def fun_eq_iff)
qed

lemma hset_meets:
  assumes pre: "cmd_pre s c as" and n: "length as = 4"
    and spec: "a_hset (cur c) (as ! 1) (as ! 2) (as ! 3) (abs_svr s) = (a', bs)"
  shows "meets (fk_cmd_hset s c) s c a' bs"
proof -
  note p = cmd_preD [OF pre]
  have a: "arg_key c 1 = Some (as ! 1)" "arg_ok (as ! 1)" "arg_key c 2 = Some (as ! 2)" "arg_ok (as ! 2)"
    "arg_itm c 3 = Some (Str (as ! 3))" "arg_ok (as ! 3)"
    using arg_facts_num [OF p(3)] n by auto
  obtain v where v: "db_lookup s (db_idx c) (as ! 1) = Some v" "a_get (cur c) (as ! 1) (abs_svr s) = map_option abs_item v"
    "\<forall>x. v = Some x \<longrightarrow> val_ok x"
    using svr_get [OF p(1) a(2)] by blast
  show ?thesis
  proof (cases v)
    case None
    obtain rc d' where d': "fk_dict_add str_eop fk_dict_create (as ! 2) (Str (as ! 3)) = Some (rc, d')" "val_ok (Dict d')"
      "abs_item (Dict d') = ADict [as ! 2 \<mapsto> as ! 3]"
      using hash_add [OF dict_inv_create _ a(4,6)] by (auto simp: comp_def)
    obtain r s' where s': "on_db (\<lambda>d. fk_dict_add str_eop d (as ! 1) (Dict d')) s (db_idx c) = Some (r, s')"
      "in_range s' (db_idx c)" "svr_rest s s'" "abs_svr s' = a_put (cur c) (as ! 1) (abs_item (Dict d')) (abs_svr s)"
      using svr_add [OF p(1) a(2) d'(2)] v(2) None by auto
    have "fk_cmd_hset s c = reply (fk_conn_add_int_rsp 1) s' c"
      using a v(1) None d'(1) s'(1) by (simp add: fk_cmd_hset_def)
    moreover have "a' = abs_svr s'" "bs = rsp_int 1"
      using spec v(2) None s'(4) d'(3) by auto
    ultimately show ?thesis
      using int_rsp_meets [OF p(2,4) s'(2,3) refl, of 1] by simp
  next
    case (Some x)
    then have "val_ok x" using v(3) by blast
    then show ?thesis
    proof (cases x rule: abs_item_cases)
      case (Dict d)
      obtain rc d' where d': "fk_dict_add str_eop d (as ! 2) (Str (as ! 3)) = Some (rc, d')" "val_ok (Dict d')"
        "abs_item (Dict d') = ADict (if dict_map d (as ! 2) = None then (map_option str_of \<circ> dict_map d)(as ! 2 \<mapsto> as ! 3)
           else map_option str_of \<circ> dict_map d)"
        using hash_add [OF Dict(2,3) a(4,6)] by blast
      obtain s' where s': "on_db (\<lambda>d. poke d (as ! 1) (Dict d')) s (db_idx c) = Some ((), s')"
        "in_range s' (db_idx c)" "svr_rest s s'" "abs_svr s' = a_put (cur c) (as ! 1) (abs_item (Dict d')) (abs_svr s)"
        using svr_poke [OF p(1) a(2) d'(2)] v(2) Some by auto
      have "fk_cmd_hset s c = reply (fk_conn_add_int_rsp 1) s' c"
        using a v(1) Some Dict(1) d'(1) s'(1) by (simp add: fk_cmd_hset_def)
      moreover have "a' = abs_svr s'" "bs = rsp_int 1"
        using spec v(2) Some Dict(4) s'(4) d'(3) by auto
      ultimately show ?thesis
        using int_rsp_meets [OF p(2,4) s'(2,3) refl, of 1] by simp
    qed (use type_err_meets [OF p(2,4,1) svr_rest_refl refl] spec a v Some in \<open>simp_all add: fk_cmd_hset_def\<close>)
  qed
qed

text \<open>The field that \<^verbatim>\<open>HGET\<close> returns can pass the reply unchanged.\<close>

fun field_ok :: "string \<Rightarrow> aval option \<Rightarrow> bool" where
  "field_ok k (Some (ADict m)) = (case m k of None \<Rightarrow> True | Some t \<Rightarrow> CHR 0x00 \<notin> set t)"
| "field_ok k _ = True"

lemma hget_meets:
  assumes pre: "cmd_pre s c as" and n: "length as = 3" and nn: "field_ok (as ! 2) (a_get (cur c) (as ! 1) (abs_svr s))"
  shows "meets (fk_cmd_hget s c) s c (abs_svr s) (a_hget (as ! 2) (a_get (cur c) (as ! 1) (abs_svr s)))"
proof -
  note p = cmd_preD [OF pre]
  have a: "arg_key c 1 = Some (as ! 1)" "arg_ok (as ! 1)" "arg_key c 2 = Some (as ! 2)" "arg_ok (as ! 2)"
    using arg_facts_num [OF p(3)] n by auto
  obtain v where v: "db_lookup s (db_idx c) (as ! 1) = Some v" "a_get (cur c) (as ! 1) (abs_svr s) = map_option abs_item v"
    "\<forall>x. v = Some x \<longrightarrow> val_ok x"
    using svr_get [OF p(1) a(2)] by blast
  note nil = nil_rsp_meets [OF p(2,4,1) svr_rest_refl refl]
  show ?thesis
  proof (cases v)
    case None
    then show ?thesis
      using nil a v by (simp add: fk_cmd_hget_def)
  next
    case (Some x)
    then have "val_ok x" using v(3) by blast
    then show ?thesis
    proof (cases x rule: abs_item_cases)
      case (Dict d)
      have lk: "fk_dict_get str_eop d (as ! 2) = Some (dict_map d (as ! 2))"
        using strd.get_spec [OF Dict(2) arg_ok_str_ok [OF a(4)]] .
      show ?thesis
      proof (cases "dict_map d (as ! 2)")
        case None
        then show ?thesis
          using nil a v Some Dict lk by (simp add: fk_cmd_hget_def)
      next
        case (Some y)
        then obtain t where t: "y = Str t" "arg_ok t"
          using Dict(3) by (auto simp: is_arg_def)
        then have "CHR 0x00 \<notin> set t"
          using nn v(2) \<open>v = Some x\<close> Some Dict(4) by simp
        then show ?thesis
          using bulk_meets [OF p(2,4,1) svr_rest_refl refl t(2)] a v \<open>v = Some x\<close> Some t(1) Dict lk
          by (simp add: fk_cmd_hget_def)
      qed
    qed (use type_err_meets [OF p(2,4,1) svr_rest_refl refl] a v Some in \<open>simp_all add: fk_cmd_hget_def\<close>)
  qed
qed

subsection \<open>Lists\<close>

fun a_llen :: "aval option \<Rightarrow> string" where
  "a_llen None = rsp_int 0"
| "a_llen (Some (AList l)) = rsp_int (int (length l))"
| "a_llen (Some _) = rsp_error FK_RSP_TYPE_ERR"

definition pushed :: "bool \<Rightarrow> 'a list \<Rightarrow> 'a list \<Rightarrow> 'a list" where
  "pushed left vs l = (if left then rev vs @ l else l @ vs)"

definition a_push :: "bool \<Rightarrow> nat \<Rightarrow> string \<Rightarrow> string list \<Rightarrow> astate \<Rightarrow> astate \<times> string" where
  "a_push left i k vs a =
     (case a_get i k a of
        None \<Rightarrow> (a_put i k (AList (pushed left vs [])) a, rsp_int (int (length vs)))
      | Some (AList l) \<Rightarrow> (a_put i k (AList (pushed left vs l)) a, rsp_int (int (length vs)))
      | Some _ \<Rightarrow> (a, rsp_error FK_RSP_TYPE_ERR))"

definition a_pop :: "bool \<Rightarrow> nat \<Rightarrow> string \<Rightarrow> astate \<Rightarrow> astate \<times> string" where
  "a_pop left i k a =
     (case a_get i k a of
        None \<Rightarrow> (a, rsp_nil)
      | Some (AList l) \<Rightarrow>
          if l = [] then (a, rsp_nil)
          else (a_put i k (AList (if left then tl l else butlast l)) a, rsp_bulk (if left then hd l else last l))
      | Some _ \<Rightarrow> (a, rsp_error FK_RSP_TYPE_ERR))"

definition short_list :: "aval option \<Rightarrow> bool" where
  "short_list v \<longleftrightarrow> (\<forall>l. v = Some (AList l) \<longrightarrow> length l < 2 ^ 31)"

lemma llen_meets:
  assumes pre: "cmd_pre s c as" and n: "length as = 2" and sh: "short_list (a_get (cur c) (as ! 1) (abs_svr s))"
  shows "meets (fk_cmd_llen s c) s c (abs_svr s) (a_llen (a_get (cur c) (as ! 1) (abs_svr s)))"
proof -
  note p = cmd_preD [OF pre]
  have a: "arg_key c 1 = Some (as ! 1)" "arg_ok (as ! 1)"
    using arg_facts_num [OF p(3)] n by auto
  obtain v where v: "db_lookup s (db_idx c) (as ! 1) = Some v" "a_get (cur c) (as ! 1) (abs_svr s) = map_option abs_item v"
    "\<forall>x. v = Some x \<longrightarrow> val_ok x"
    using svr_get [OF p(1) a(2)] by blast
  note num = int_rsp_meets [OF p(2,4,1) svr_rest_refl refl]
  show ?thesis
  proof (cases v)
    case None
    then show ?thesis
      using num [of 0] a v by (simp add: fk_cmd_llen_def)
  next
    case (Some x)
    then have "val_ok x" using v(3) by blast
    then show ?thesis
    proof (cases x rule: abs_item_cases)
      case (List l)
      then have "int (length l) < 2147483648"
        using sh v(2) Some by (simp add: short_list_def)
      then show ?thesis
        using num [of "int (length l)"] a v Some List by (simp add: fk_cmd_llen_def s32_id)
    qed (use type_err_meets [OF p(2,4,1) svr_rest_refl refl] a v Some in \<open>simp_all add: fk_cmd_llen_def\<close>)
  qed
qed

lemma push_loop_spec:
  assumes "args_inv c as" and "j \<le> length as" and "\<forall>x \<in> set lst. is_arg x"
  shows "\<exists>lst'. push_loop [int j..int (length as) - 1] left lst c = Some lst' \<and> (\<forall>x \<in> set lst'. is_arg x)
    \<and> map str_of lst' = pushed left (drop j as) (map str_of lst)"
  using assms
proof (induction "length as - j" arbitrary: j lst)
  case 0
  then show ?case by (simp add: pushed_def)
next
  case (Suc m)
  then have j: "j < length as" and m: "m = length as - Suc j"
    by simp_all
  have up: "[int j..int (length as) - 1] = int j # [int (Suc j)..int (length as) - 1]"
    using j by (simp add: upto_rec1 add.commute)
  have dr: "drop j as = as ! j # drop (Suc j) as"
    using j by (simp add: Cons_nth_drop_Suc)
  note af = arg_facts [OF Suc.prems(1) j]
  let ?l = "if left then Str (as ! j) # lst else lst @ [Str (as ! j)]"
  have "\<forall>x \<in> set ?l. is_arg x"
    using Suc.prems(3) af(3) by (auto simp: is_arg_def)
  then obtain lst' where "push_loop [int (Suc j)..int (length as) - 1] left ?l c = Some lst'" "\<forall>x \<in> set lst'. is_arg x"
    "map str_of lst' = pushed left (drop (Suc j) as) (map str_of ?l)"
    using Suc.hyps(1) [OF m Suc.prems(1), of ?l] j by auto
  then show ?case
    using af(1) unfolding up dr by (auto simp: pushed_def)
qed

lemma push_meets:
  assumes pre: "cmd_pre s c as" and n: "3 \<le> length as"
    and spec: "a_push left (cur c) (as ! 1) (drop 2 as) (abs_svr s) = (a', bs)"
  shows "meets (fk_cmd_generic_push left s c) s c a' bs"
proof -
  note p = cmd_preD [OF pre]
  have a: "arg_key c 1 = Some (as ! 1)" "arg_ok (as ! 1)"
    using arg_facts_num [OF p(3)] n by auto
  obtain v where v: "db_lookup s (db_idx c) (as ! 1) = Some v" "a_get (cur c) (as ! 1) (abs_svr s) = map_option abs_item v"
    "\<forall>x. v = Some x \<longrightarrow> val_ok x"
    using svr_get [OF p(1) a(2)] by blast
  have cnt: "arg_cnt c - 2 = int (length (drop 2 as))" "\<bar>arg_cnt c - 2\<bar> < 10000000000"
    using n p(5,6) by auto
  have loop: "\<exists>lst'. push_loop [2..arg_cnt c - 1] left lst c = Some lst' \<and> val_ok (List lst')
    \<and> abs_item (List lst') = AList (pushed left (drop 2 as) (map str_of lst))" if "\<forall>x \<in> set lst. is_arg x" for lst
    using push_loop_spec [OF p(3) _ that, of 2 left] n p(5) by auto
  show ?thesis
  proof (cases v)
    case None
    obtain lst where l: "push_loop [2..arg_cnt c - 1] left [] c = Some lst" "val_ok (List lst)"
      "abs_item (List lst) = AList (pushed left (drop 2 as) [])"
      using loop [of "[]"] by auto
    obtain r s' where s': "on_db (\<lambda>d. fk_dict_add str_eop d (as ! 1) (List lst)) s (db_idx c) = Some (r, s')"
      "in_range s' (db_idx c)" "svr_rest s s'" "abs_svr s' = a_put (cur c) (as ! 1) (abs_item (List lst)) (abs_svr s)"
      using svr_add [OF p(1) a(2) l(2)] v(2) None by auto
    have "fk_cmd_generic_push left s c = reply (fk_conn_add_int_rsp (arg_cnt c - 2)) s' c"
      using a v(1) None l(1) s'(1) by (simp add: fk_cmd_generic_push_def)
    moreover have "a' = abs_svr s'" "bs = rsp_int (arg_cnt c - 2)"
      using spec v(2) None s'(4) l(3) cnt(1) by (auto simp: a_push_def)
    ultimately show ?thesis
      using int_rsp_meets [OF p(2,4) s'(2,3) refl cnt(2)] by simp
  next
    case (Some x)
    then have "val_ok x" using v(3) by blast
    then show ?thesis
    proof (cases x rule: abs_item_cases)
      case (List lst0)
      obtain lst where l: "push_loop [2..arg_cnt c - 1] left lst0 c = Some lst" "val_ok (List lst)"
        "abs_item (List lst) = AList (pushed left (drop 2 as) (map str_of lst0))"
        using loop [OF List(2)] by auto
      obtain s' where s': "on_db (\<lambda>d. poke d (as ! 1) (List lst)) s (db_idx c) = Some ((), s')"
        "in_range s' (db_idx c)" "svr_rest s s'" "abs_svr s' = a_put (cur c) (as ! 1) (abs_item (List lst)) (abs_svr s)"
        using svr_poke [OF p(1) a(2) l(2)] v(2) Some by auto
      have "fk_cmd_generic_push left s c = reply (fk_conn_add_int_rsp (arg_cnt c - 2)) s' c"
        using a v(1) Some List(1) l(1) s'(1) by (simp add: fk_cmd_generic_push_def)
      moreover have "a' = abs_svr s'" "bs = rsp_int (arg_cnt c - 2)"
        using spec v(2) Some List(3) s'(4) l(3) cnt(1) by (auto simp: a_push_def)
      ultimately show ?thesis
        using int_rsp_meets [OF p(2,4) s'(2,3) refl cnt(2)] by simp
    qed (use type_err_meets [OF p(2,4,1) svr_rest_refl refl] spec a v Some in
      \<open>simp_all add: fk_cmd_generic_push_def a_push_def\<close>)
  qed
qed

lemma meets_imp_ok: "meets r s c a bs \<Longrightarrow> meets_ok r s c a bs"
  by (auto simp: meets_def meets_ok_def)

lemma pop_meets:
  assumes pre: "cmd_pre s c as" and n: "length as = 2" and nn: "no_nul (a_get (cur c) (as ! 1) (abs_svr s))"
    and spec: "a_pop left (cur c) (as ! 1) (abs_svr s) = (a', bs)"
  shows "meets_ok (fk_cmd_generic_pop left s c) s c a' bs"
proof -
  note p = cmd_preD [OF pre]
  have a: "arg_key c 1 = Some (as ! 1)" "arg_ok (as ! 1)"
    using arg_facts_num [OF p(3)] n by auto
  obtain v where v: "db_lookup s (db_idx c) (as ! 1) = Some v" "a_get (cur c) (as ! 1) (abs_svr s) = map_option abs_item v"
    "\<forall>x. v = Some x \<longrightarrow> val_ok x"
    using svr_get [OF p(1) a(2)] by blast
  note nil = nil_rsp_meets [OF p(2,4,1) svr_rest_refl refl, THEN meets_imp_ok]
  show ?thesis
  proof (cases v)
    case None
    then show ?thesis
      using nil spec a v by (simp add: fk_cmd_generic_pop_def a_pop_def)
  next
    case (Some x)
    then have "val_ok x" using v(3) by blast
    then show ?thesis
    proof (cases x rule: abs_item_cases)
      case (List l)
      show ?thesis
      proof (cases "l = []")
        case True
        then show ?thesis
          using nil spec a v Some List by (simp add: fk_cmd_generic_pop_def a_pop_def)
      next
        case False
        let ?e = "if left then hd l else last l" and ?l = "if left then tl l else butlast l"
        have e: "?e \<in> set l" "set ?l \<subseteq> set l"
          using False by (auto dest: list.set_sel(2) in_set_butlastD)
        then obtain t where t: "?e = Str t" "arg_ok t"
          using List(2) unfolding is_arg_def by blast
        have "t \<in> strs_of (abs_item x)"
          using e(1) t(1) List(3) by (metis image_eqI list.set_map str_of.simps(1) strs_of.simps(2))
        then have "CHR 0x00 \<notin> set t"
          using nn v(2) Some unfolding no_nul_def by auto
        then obtain rc c' where c': "bulk_rsp t c = Some (rc, c')" "replied c rc c' (rsp_bulk t)"
          using bulk_spec [OF p(2) _ t(2)] p(4) by auto
        have l: "val_ok (List ?l)"
          using List(2) e(2) by auto
        have "a_get (cur c) (as ! 1) (abs_svr s) \<noteq> None"
          using v(2) Some by simp
        then obtain s' where s': "on_db (\<lambda>d. poke d (as ! 1) (List ?l)) s (db_idx c) = Some ((), s')"
          "in_range s' (db_idx c)" "svr_rest s s'" "abs_svr s' = a_put (cur c) (as ! 1) (abs_item (List ?l)) (abs_svr s)"
          using svr_poke [OF p(1) a(2) l] by blast
        have "fk_cmd_generic_pop left s c = (if rc = SVR_ERR then Some (SVR_ERR, s, c') else Some (SVR_OK, s', c'))"
          using a v(1) Some List(1) False t(1) c'(1) s'(1) by (auto simp: fk_cmd_generic_pop_def)
        moreover have "a' = abs_svr s'" "bs = rsp_bulk t"
          using spec v(2) Some List(3) s'(4) t(1) False
          by (auto simp: a_pop_def map_tl map_butlast hd_map last_map split: if_splits)
        ultimately show ?thesis
          using c'(2) s'(2,3) p(1) replied_rc [OF c'(2)] by (auto simp: meets_ok_def in_range_def)
      qed
    qed (use type_err_meets [OF p(2,4,1) svr_rest_refl refl, THEN meets_imp_ok] spec a v Some in
      \<open>simp_all add: fk_cmd_generic_pop_def a_pop_def\<close>)
  qed
qed

subsection \<open>Sorted sets\<close>

lemma skiplist_create_crash: "fk_skiplist_create (Some fk_db_skiplist_val_copy) = None"
  by (simp add: fk_skiplist_create_def fk_db_skiplist_val_copy_def)

text \<open>\<^verbatim>\<open>ZADD\<close> on a key that does not exist dereferences a null pointer: it builds a skip list, whose
  creation copies a null value with a function that increments the reference count of its argument.
  This holds for every well-formed server and every \<^verbatim>\<open>ZADD\<close> request.\<close>

theorem zadd_missing_key:
  assumes "cmd_pre s c as" and "2 \<le> length as" and "a_get (cur c) (as ! 1) (abs_svr s) = None"
  shows "fk_cmd_zadd s c = None"
proof -
  note p = cmd_preD [OF assms(1)]
  have a: "arg_key c 1 = Some (as ! 1)" "arg_ok (as ! 1)"
    using arg_facts_num(1) [OF p(3)] assms(2) by auto
  have "db_lookup s (db_idx c) (as ! 1) = Some None"
    using svr_get [OF p(1) a(2)] assms(3) by auto
  then show ?thesis
    using a(1) by (simp add: fk_cmd_zadd_def skiplist_create_crash)
qed

theorem zadd_missing_key_witness:
  "fk_cmd_zadd (svr_fresh 1 0) (conn_req [''ZADD'', ''z'', ''1'', ''m'']) = None"
proof -
  let ?as = "[''ZADD'', ''z'', ''1'', ''m'']"
  have "req_ok ?as" "0 < dbcnt (svr_fresh 1 0)" "svr_inv (svr_fresh 1 0)"
    using svr_inv_fresh [of 1 0] by (simp_all add: req_ok_def arg_ok_def fk_consts svr_fresh_def)
  note r = conn_req_pre [OF this(1,3,2)]
  show ?thesis
    using zadd_missing_key [OF r(1)] r(4) by (simp add: a_get_def abs_svr_def svr_fresh_def)
qed

subsection \<open>Behaviour of single commands\<close>

text \<open>\<^verbatim>\<open>HSET\<close> does not overwrite: on a field that the hash already has it changes nothing, and it sends
  the same reply \<^verbatim>\<open>:1\<close> as for a new field.\<close>

theorem hset_existing_field:
  assumes "cmd_pre s c as" and "length as = 4" and "a_get (cur c) (as ! 1) (abs_svr s) = Some (ADict m)" and "m (as ! 2) \<noteq> None"
  shows "meets (fk_cmd_hset s c) s c (abs_svr s) (rsp_int 1)"
proof -
  have "cur c < length (a_dbs (abs_svr s))"
    using in_rangeD(1) [OF cmd_preD(1) [OF assms(1)]] by (simp add: abs_svr_def)
  then have "a_put (cur c) (as ! 1) (ADict m) (abs_svr s) = abs_svr s"
    using assms(3) by (simp add: a_put_def a_get_def fun_upd_idem)
  then show ?thesis
    using hset_meets [OF assms(1,2), of "abs_svr s" "rsp_int 1"] assms(3,4) by auto
qed

lemma one_hash_server:
  obtains s where "svr_inv s" "dbcnt s = 1" "a_get 0 ''h'' (abs_svr s) = Some (ADict [''f'' \<mapsto> ''old''])"
proof -
  obtain d where d: "val_ok (Dict d)" "abs_item (Dict d) = ADict [''f'' \<mapsto> ''old'']"
    using hash_add [OF dict_inv_create [of str_eop str_ok], of "''f''" "''old''"] by (auto simp: arg_ok_def fk_consts comp_def)
  obtain e where e: "db_inv val_ok e" "dict_map e = [''h'' \<mapsto> Dict d]"
    using db_add [OF db_inv_create, of "''h''" val_ok "Dict d"] d(1) by (auto simp: arg_ok_def fk_consts)
  have "svr_inv ((svr_fresh 1 0)\<lparr>db := [e]\<rparr>)"
    using e(1) by (simp add: svr_inv_def svr_fresh_def)
  moreover have "a_get 0 ''h'' (abs_svr ((svr_fresh 1 0)\<lparr>db := [e]\<rparr>)) = Some (ADict [''f'' \<mapsto> ''old''])"
    using e(2) d(2) by (simp add: a_get_def abs_svr_def abs_db_def svr_fresh_def)
  ultimately show ?thesis
    using that [of "(svr_fresh 1 0)\<lparr>db := [e]\<rparr>"] by (simp add: svr_fresh_def)
qed

theorem hset_existing_field_witness:
  "\<exists>s. a_get 0 ''h'' (abs_svr s) = Some (ADict [''f'' \<mapsto> ''old''])
     \<and> meets (fk_cmd_hset s (conn_req [''HSET'', ''h'', ''f'', ''new''])) s (conn_req [''HSET'', ''h'', ''f'', ''new''])
         (abs_svr s) (rsp_int 1)"
proof -
  obtain s where s: "svr_inv s" "dbcnt s = 1" "a_get 0 ''h'' (abs_svr s) = Some (ADict [''f'' \<mapsto> ''old''])"
    using one_hash_server by blast
  have "req_ok [''HSET'', ''h'', ''f'', ''new'']"
    by (simp add: req_ok_def arg_ok_def fk_consts)
  note r = conn_req_pre [OF this s(1)]
  show ?thesis
    using hset_existing_field [OF r(1), of "[''f'' \<mapsto> ''old'']"] r(4) s by (intro exI [of _ s]) auto
qed

lemma pop_error_keeps:
  assumes "fk_cmd_generic_pop left s c = Some (SVR_ERR, s', c')"
  shows "s' = s"
  using assms unfolding fk_cmd_generic_pop_def reply_def error_rsp_def
  by (auto simp: Let_def split: bind_splits if_splits option.splits prod.splits)

text \<open>
  \<^verbatim>\<open>LPOP\<close> and \<^verbatim>\<open>RPOP\<close> lose nothing: the element leaves the list exactly when its reply was queued. When
  the reply does not fit, the databases are as before.\<close>

theorem pop_lossless:
  assumes "cmd_pre s c as" and "length as = 2" and "no_nul (a_get (cur c) (as ! 1) (abs_svr s))"
    and "a_pop left (cur c) (as ! 1) (abs_svr s) = (a', bs)"
  shows "\<exists>rc s' c'. fk_cmd_generic_pop left s c = Some (rc, s', c') \<and> svr_inv s' \<and> replied c rc c' bs
    \<and> abs_svr s' = (if rc = SVR_OK then a' else abs_svr s)"
proof -
  obtain rc s' c' where r: "fk_cmd_generic_pop left s c = Some (rc, s', c')" "svr_inv s'" "rc = SVR_OK \<longrightarrow> abs_svr s' = a'"
    "replied c rc c' bs"
    using pop_meets [OF assms] by (auto simp: meets_ok_def)
  have "rc = SVR_ERR \<Longrightarrow> s' = s"
    using r(1) pop_error_keeps by blast
  then have "abs_svr s' = (if rc = SVR_OK then a' else abs_svr s)"
    using r(3) replied_rc [OF r(4)] by auto
  then show ?thesis
    using r by blast
qed

lemma one_list_server:
  obtains s where "svr_inv s" "dbcnt s = 1" "a_get 0 ''l'' (abs_svr s) = Some (AList [''a'', ''b''])"
proof -
  have "val_ok (List [Str ''a'', Str ''b''])"
    by (simp add: is_arg_def arg_ok_def fk_consts)
  then obtain e where e: "db_inv val_ok e" "dict_map e = [''l'' \<mapsto> List [Str ''a'', Str ''b'']]"
    using db_add [OF db_inv_create, of "''l''" val_ok "List [Str ''a'', Str ''b'']"] by (auto simp: arg_ok_def fk_consts)
  have "svr_inv ((svr_fresh 1 0)\<lparr>db := [e]\<rparr>)"
    using e(1) by (simp add: svr_inv_def svr_fresh_def)
  moreover have "a_get 0 ''l'' (abs_svr ((svr_fresh 1 0)\<lparr>db := [e]\<rparr>)) = Some (AList [''a'', ''b''])"
    using e(2) by (simp add: a_get_def abs_svr_def abs_db_def svr_fresh_def)
  ultimately show ?thesis
    using that [of "(svr_fresh 1 0)\<lparr>db := [e]\<rparr>"] by (simp add: svr_fresh_def)
qed

theorem pop_lossless_witness:
  "\<exists>s rc s' c'. a_get 0 ''l'' (abs_svr s) = Some (AList [''a'', ''b''])
     \<and> fk_cmd_generic_pop False s (conn_req [''RPOP'', ''l'']) = Some (rc, s', c')
     \<and> replied (conn_req [''RPOP'', ''l'']) rc c' (rsp_bulk ''b'')
     \<and> abs_svr s' = (if rc = SVR_OK then a_put 0 ''l'' (AList [''a'']) (abs_svr s) else abs_svr s)"
proof -
  obtain s where s: "svr_inv s" "dbcnt s = 1" "a_get 0 ''l'' (abs_svr s) = Some (AList [''a'', ''b''])"
    using one_list_server by blast
  have "req_ok [''RPOP'', ''l'']"
    by (simp add: req_ok_def arg_ok_def fk_consts)
  note r = conn_req_pre [OF this s(1)]
  have "\<exists>rc s' c'. fk_cmd_generic_pop False s (conn_req [''RPOP'', ''l'']) = Some (rc, s', c')
     \<and> svr_inv s' \<and> replied (conn_req [''RPOP'', ''l'']) rc c' (rsp_bulk ''b'')
     \<and> abs_svr s' = (if rc = SVR_OK then a_put 0 ''l'' (AList [''a'']) (abs_svr s) else abs_svr s)"
    using r(4) s by (intro pop_lossless [OF r(1)]) (auto simp: a_pop_def no_nul_def)
  then show ?thesis
    using s(3) by blast
qed

end
