(* ===== verification/Fk_Proto.thy ===== *)
theory Fk_Proto
  imports Fk_Cmd_Coll
begin

text \<open>
  The command table (\<^verbatim>\<open>fk_svr_proto.c\<close>), the binary log of write commands (\<^verbatim>\<open>fk_blog_append\<close> of
  \<^verbatim>\<open>fk_svr_blog.c\<close>) and the dispatch of a parsed request (\<^verbatim>\<open>fk_conn_proc_cmd\<close>). The handler of
  \<^verbatim>\<open>EVAL\<close> runs the Lua interpreter and is a parameter. \<open>a_exec\<close> is what a request means: which
  abstract state, selected database and reply it leads to; the dispatch is shown to implement it.
\<close>

datatype proto_type = PROTO_READ | PROTO_WRITE | PROTO_SCRIPT

record fk_proto =
  pname :: string
  ptype :: proto_type
  pargs :: int
  phandler :: handler

definition protos :: "handler \<Rightarrow> fk_proto list" where
  "protos fk_cmd_eval =
     [\<lparr>pname = ''SET'', ptype = PROTO_WRITE, pargs = 3, phandler = fk_cmd_set\<rparr>,
      \<lparr>pname = ''SETNX'', ptype = PROTO_WRITE, pargs = 3, phandler = fk_cmd_setnx\<rparr>,
      \<lparr>pname = ''SETEX'', ptype = PROTO_WRITE, pargs = 4, phandler = fk_cmd_setex\<rparr>,
      \<lparr>pname = ''MSET'', ptype = PROTO_WRITE, pargs = -3, phandler = fk_cmd_mset\<rparr>,
      \<lparr>pname = ''MGET'', ptype = PROTO_READ, pargs = -2, phandler = fk_cmd_mget\<rparr>,
      \<lparr>pname = ''GET'', ptype = PROTO_READ, pargs = 2, phandler = fk_cmd_get\<rparr>,
      \<lparr>pname = ''DEL'', ptype = PROTO_WRITE, pargs = -2, phandler = fk_cmd_del\<rparr>,
      \<lparr>pname = ''FLUSHDB'', ptype = PROTO_WRITE, pargs = 1, phandler = fk_cmd_flushdb\<rparr>,
      \<lparr>pname = ''EXISTS'', ptype = PROTO_READ, pargs = 2, phandler = fk_cmd_exists\<rparr>,
      \<lparr>pname = ''FLUSHALL'', ptype = PROTO_WRITE, pargs = 1, phandler = fk_cmd_flushall\<rparr>,
      \<lparr>pname = ''HSET'', ptype = PROTO_WRITE, pargs = 4, phandler = fk_cmd_hset\<rparr>,
      \<lparr>pname = ''HGET'', ptype = PROTO_READ, pargs = 3, phandler = fk_cmd_hget\<rparr>,
      \<lparr>pname = ''LPUSH'', ptype = PROTO_WRITE, pargs = -3, phandler = fk_cmd_lpush\<rparr>,
      \<lparr>pname = ''RPUSH'', ptype = PROTO_WRITE, pargs = -3, phandler = fk_cmd_rpush\<rparr>,
      \<lparr>pname = ''LPOP'', ptype = PROTO_WRITE, pargs = 2, phandler = fk_cmd_lpop\<rparr>,
      \<lparr>pname = ''RPOP'', ptype = PROTO_WRITE, pargs = 2, phandler = fk_cmd_rpop\<rparr>,
      \<lparr>pname = ''LLEN'', ptype = PROTO_READ, pargs = 2, phandler = fk_cmd_llen\<rparr>,
      \<lparr>pname = ''SAVE'', ptype = PROTO_READ, pargs = 1, phandler = fk_cmd_save\<rparr>,
      \<lparr>pname = ''SELECT'', ptype = PROTO_WRITE, pargs = 2, phandler = fk_cmd_select\<rparr>,
      \<lparr>pname = ''EVAL'', ptype = PROTO_SCRIPT, pargs = -3, phandler = fk_cmd_eval\<rparr>,
      \<lparr>pname = ''ZADD'', ptype = PROTO_WRITE, pargs = -4, phandler = fk_cmd_zadd\<rparr>]"

fun proto_add :: "fk_proto list \<Rightarrow> (string, fk_proto) fk_dict \<Rightarrow> (string, fk_proto) fk_dict option" where
  "proto_add [] pmap = Some pmap"
| "proto_add (p # ps) pmap =
     do { (_, pmap') \<leftarrow> fk_dict_add str_eop pmap (pname p) p; proto_add ps pmap' }"

definition fk_proto_init :: "handler \<Rightarrow> (string, fk_proto) fk_dict option" where
  "fk_proto_init ev = proto_add (protos ev) fk_dict_create"

definition fk_proto_search :: "(string, fk_proto) fk_dict \<Rightarrow> string \<Rightarrow> fk_proto option option" where
  "fk_proto_search pmap name = fk_dict_get str_eop pmap name"

subsection \<open>The binary log\<close>

text \<open>The size of \<^verbatim>\<open>server.blog_buf\<close>.\<close>

definition blog_buflen :: nat where
  "blog_buflen = nat FK_ARG_HIGHWAT + FK_ARG_LEN_LINE_HIGHWAT"

text \<open>\<^verbatim>\<open>snprintf(blog_buf, blog_buflen, ...)\<close> followed by \<^verbatim>\<open>write(fd, blog_buf, plen)\<close>, where \<open>plen\<close> is the
  length of the whole text: a text that does not fit is cut by \<^verbatim>\<open>snprintf\<close>, which puts a NUL after
  it, and a write of more than the buffer reads behind its end. The file system takes what is
  written.\<close>

definition blog_write :: "string \<Rightarrow> fk_svr \<Rightarrow> fk_svr option" where
  "blog_write txt s =
     (if blog_buflen < length txt then None
      else Some (s\<lparr>blog := blog s @ take (length txt) (take (blog_buflen - 1) txt @ [CHR 0x00])\<rparr>))"

fun blog_args :: "int list \<Rightarrow> fk_conn \<Rightarrow> fk_svr \<Rightarrow> fk_svr option" where
  "blog_args [] c s = Some s"
| "blog_args (i # is) c s =
     do { arg \<leftarrow> arg_key c i;
          s' \<leftarrow> blog_write (CHR ''$'' # print_int (int (length arg)) @ crlf @ cstr arg @ crlf) s;
          blog_args is c s' }"

definition fk_blog_append :: "fk_svr \<Rightarrow> fk_conn \<Rightarrow> fk_svr option" where
  "fk_blog_append s c =
     do { s' \<leftarrow> blog_write (CHR ''*'' # print_int (arg_cnt c) @ crlf) s;
          blog_args [0..arg_cnt c - 1] c s' }"

subsection \<open>Dispatch\<close>

definition bad_req :: "string \<Rightarrow> handler" where
  "bad_req e s c =
     do { c' \<leftarrow> fk_conn_free_args c; error_rsp e s c' }"

text \<open>\<^verbatim>\<open>fk_str_2upper\<close> changes the first argument in place.\<close>

definition fk_conn_proc_cmd :: "(string, fk_proto) fk_dict \<Rightarrow> handler" where
  "fk_conn_proc_cmd pmap s c =
     (if parse_done c = 0 then Some (SVR_OK, s, c)
      else
        do { cmd \<leftarrow> arg_key c 0;
             c1 \<leftarrow> fk_conn_set_arg c 0 (Some (Str (fk_str_2upper cmd)));
             pto \<leftarrow> fk_proto_search pmap (fk_str_2upper cmd);
             case pto of
               None \<Rightarrow> bad_req ''Invalid Protocol'' s c1
             | Some p \<Rightarrow>
                 if pargs p < 0 \<and> arg_cnt c1 < - pargs p then bad_req ''Wrong Argument Number'' s c1
                 else if pargs p \<ge> 0 \<and> pargs p \<noteq> arg_cnt c1 then bad_req ''Wrong Argument Number'' s c1
                 else
                   do { (rt, s2, c2) \<leftarrow> phandler p s c1;
                        if rt = SVR_ERR then
                          do { c3 \<leftarrow> fk_conn_free_args c2; Some (SVR_ERR, s2, c3) }
                        else
                          do { s3 \<leftarrow> (if blog_on (setting s2) = 1 \<and> ptype p \<noteq> PROTO_READ \<and> ctype c2 = CONN_REAL
                                      then fk_blog_append s2 c2 else Some s2);
                               c3 \<leftarrow> fk_conn_free_args c2;
                               Some (SVR_OK, s3, c3) } } })"

subsection \<open>The table\<close>

lemma proto_add_spec:
  assumes "dict_inv str_eop str_ok d" and "\<forall>p \<in> set ps. str_ok (pname p)" and "distinct (map pname ps)"
    and "\<forall>p \<in> set ps. dict_map d (pname p) = None"
  shows "\<exists>d'. proto_add ps d = Some d' \<and> dict_inv str_eop str_ok d'
    \<and> dict_map d' = dict_map d ++ map_of (map (\<lambda>p. (pname p, p)) ps)"
  using assms
proof (induction ps arbitrary: d)
  case (Cons p ps)
  obtain d1 where d1: "fk_dict_add str_eop d (pname p) p = Some (DICT_OK, d1)" "dict_inv str_eop str_ok d1"
    "dict_map d1 = (dict_map d)(pname p \<mapsto> p)"
    using strd.store.add_ret [of d "pname p" p] Cons.prems by auto
  have "\<forall>q \<in> set ps. dict_map d1 (pname q) = None"
    using d1(3) Cons.prems(3,4) by (force simp: image_iff)
  then obtain d' where "proto_add ps d1 = Some d'" "dict_inv str_eop str_ok d'"
    "dict_map d' = dict_map d1 ++ map_of (map (\<lambda>p. (pname p, p)) ps)"
    using Cons.IH [OF d1(2)] Cons.prems by auto
  moreover have "(dict_map d)(pname p \<mapsto> p) ++ m = (dict_map d ++ m)(pname p \<mapsto> p)" if "m (pname p) = None" for m
    using that by (auto simp: map_add_def fun_eq_iff split: option.splits)
  moreover have "map_of (map (\<lambda>p. (pname p, p)) ps) (pname p) = None"
    using Cons.prems(3) by (auto simp: map_of_eq_None_iff image_def)
  ultimately show ?case
    using d1 by (auto simp: map_add_def fun_eq_iff)
qed simp

definition table_of :: "handler \<Rightarrow> string \<Rightarrow> fk_proto option" where
  "table_of ev name = map_of (map (\<lambda>p. (pname p, p)) (protos ev)) name"

lemma proto_init_spec:
  obtains d where "fk_proto_init ev = Some d" "dict_inv str_eop str_ok d" "dict_map d = table_of ev"
proof -
  have "\<forall>p \<in> set (protos ev). str_ok (pname p)"
    by (simp add: protos_def str_ok_def)
  moreover have "distinct (map pname (protos ev))"
    by (simp add: protos_def)
  ultimately show ?thesis
    using that proto_add_spec [of fk_dict_create "protos ev"]
    by (auto simp: fk_proto_init_def dict_inv_create table_of_def fun_eq_iff)
qed

section \<open>What a request means\<close>

text \<open>\<open>a_cmd\<close> gives the new databases, the selected database and the reply of a command whose number
  of arguments is right; \<open>clk\<close> is the clock and \<open>n\<close> the number of databases. It is undefined
  for \<^verbatim>\<open>SAVE\<close>, \<^verbatim>\<open>EVAL\<close> and \<^verbatim>\<open>ZADD\<close>, for an expiry time beyond 64 bits, and where a reply would
  contain a NUL byte or a list have more than \<open>2^31 - 1\<close> elements.\<close>

definition a_cmd :: "(nat \<Rightarrow> timeval) \<Rightarrow> nat \<Rightarrow> string \<Rightarrow> string list \<Rightarrow> astate \<Rightarrow> nat \<Rightarrow> (astate \<times> nat \<times> string) option" where
  "a_cmd clk n u as a i =
     (if u = ''SET'' then
       (Some (a_put i (as ! 1) (AStr (as ! 2)) a, i, rsp_status FK_RSP_OK))
      else if u = ''SETNX'' then
       (Some (if a_get i (as ! 1) a = None then a_put i (as ! 1) (AStr (as ! 2)) a else a, i,
         rsp_int (if a_get i (as ! 1) a = None then 1 else 0)))
      else if u = ''SETEX'' then
       (do { m \<leftarrow> exp_millis (atol (cstr (as ! 2))) (clk (a_tick a));
         Some (a_put_exp i (as ! 1) m (a_put i (as ! 1) (AStr (as ! 3)) (a\<lparr>a_tick := a_tick a + 1\<rparr>)), i, rsp_status FK_RSP_OK) })
      else if u = ''MSET'' then
       (Some (if odd (length as) then fold (\<lambda>(k, v). a_put i k (AStr v)) (pairs (tl as)) a else a, i,
         if odd (length as) then rsp_status FK_RSP_OK else rsp_error FK_RSP_ARGC_ERR))
      else if u = ''MGET'' then
       (if mget_ok clk i (tl as) a
      then (let (a', bs) = a_mget clk i (tl as) a in Some (a', i, rsp_mbulk (int (length as) - 1) @ bs)) else None)
      else if u = ''GET'' then
       (let a1 = a_expire clk i (as ! 1) a
       in if no_nul (a_get i (as ! 1) a1) then Some (a1, i, rsp_get (a_get i (as ! 1) a1)) else None)
      else if u = ''DEL'' then
       (Some (fold (a_del i) (tl as) a, i, rsp_int (int (card (present i (tl as) a)))))
      else if u = ''FLUSHDB'' then
       (Some (a_flush i a, i, rsp_status FK_RSP_OK))
      else if u = ''EXISTS'' then
       (Some (a, i, rsp_int (if a_get i (as ! 1) a = None then 0 else 1)))
      else if u = ''FLUSHALL'' then
       (Some (a_flush_all a, i, rsp_status FK_RSP_OK))
      else if u = ''HSET'' then
       (let (a', bs) = a_hset i (as ! 1) (as ! 2) (as ! 3) a in Some (a', i, bs))
      else if u = ''HGET'' then
       (if field_ok (as ! 2) (a_get i (as ! 1) a) then Some (a, i, a_hget (as ! 2) (a_get i (as ! 1) a)) else None)
      else if u = ''LPUSH'' then
       (let (a', bs) = a_push True i (as ! 1) (drop 2 as) a in Some (a', i, bs))
      else if u = ''RPUSH'' then
       (let (a', bs) = a_push False i (as ! 1) (drop 2 as) a in Some (a', i, bs))
      else if u = ''LPOP'' then
       (if no_nul (a_get i (as ! 1) a) then (let (a', bs) = a_pop True i (as ! 1) a in Some (a', i, bs)) else None)
      else if u = ''RPOP'' then
       (if no_nul (a_get i (as ! 1) a) then (let (a', bs) = a_pop False i (as ! 1) a in Some (a', i, bs)) else None)
      else if u = ''LLEN'' then
       (if short_list (a_get i (as ! 1) a) then Some (a, i, a_llen (a_get i (as ! 1) a)) else None)
      else if u = ''SELECT'' then
       (let j = atoi (cstr (as ! 1))
       in if 0 \<le> j \<and> j < int n then Some (a, nat j, rsp_status FK_RSP_OK) else Some (a, i, rsp_error FK_RSP_ERR))
      else None)"

definition a_exec :: "(nat \<Rightarrow> timeval) \<Rightarrow> nat \<Rightarrow> string list \<Rightarrow> astate \<Rightarrow> nat \<Rightarrow> (astate \<times> nat \<times> string) option" where
  "a_exec clk n as a i =
     (case map_of [(''SET'', 3), (''SETNX'', 3), (''SETEX'', 4), (''MSET'', -3), (''MGET'', -2), (''GET'', 2),
                   (''DEL'', -2), (''FLUSHDB'', 1), (''EXISTS'', 2), (''FLUSHALL'', 1), (''HSET'', 4), (''HGET'', 3),
                   (''LPUSH'', -3), (''RPUSH'', -3), (''LPOP'', 2), (''RPOP'', 2), (''LLEN'', 2), (''SAVE'', 1),
                   (''SELECT'', 2), (''EVAL'', -3), (''ZADD'', -4)] (fk_str_2upper (hd as)) of
        None \<Rightarrow> Some (a, i, rsp_error ''Invalid Protocol'')
      | Some k \<Rightarrow>
          if (if k < 0 then int (length as) < - k else k \<noteq> int (length as))
          then Some (a, i, rsp_error ''Wrong Argument Number'')
          else a_cmd clk n (fk_str_2upper (hd as)) as a i)"

subsection \<open>Handlers\<close>

text \<open>What a handler does, with the connection's selected database.\<close>

definition does :: "(svr_rc \<times> fk_svr \<times> fk_conn) option \<Rightarrow> fk_svr \<Rightarrow> fk_conn \<Rightarrow> astate \<Rightarrow> nat \<Rightarrow> string \<Rightarrow> bool" where
  "does r s c a' i' bs \<longleftrightarrow>
     (\<exists>rc s' c'. r = Some (rc, s', c') \<and> svr_inv s' \<and> svr_rest s s' \<and> (rc = SVR_OK \<longrightarrow> abs_svr s' = a')
        \<and> replied (c\<lparr>db_idx := int i'\<rparr>) rc c' bs)"

lemma meets_does:
  assumes "0 \<le> db_idx c"
  shows "meets_ok r s c a' bs \<Longrightarrow> does r s c a' (cur c) bs" and "meets r s c a' bs \<Longrightarrow> does r s c a' (cur c) bs"
proof -
  have "c\<lparr>db_idx := int (cur c)\<rparr> = c"
    using assms by simp
  then show "meets_ok r s c a' bs \<Longrightarrow> does r s c a' (cur c) bs" "meets r s c a' bs \<Longrightarrow> does r s c a' (cur c) bs"
    by (auto simp: meets_ok_def meets_def does_def)
qed

lemma select_does:
  assumes pre: "cmd_pre s c as" and n: "length as = 2"
    and sp: "a_cmd clk (dbcnt s) ''SELECT'' as (abs_svr s) (cur c) = Some (a', i', bs)"
  shows "does (fk_cmd_select s c) s c a' i' bs"
proof (cases "0 \<le> atoi (cstr (as ! 1)) \<and> atoi (cstr (as ! 1)) < int (dbcnt s)")
  case True
  have "svr_inv s"
    using pre by (simp add: cmd_pre_def)
  moreover have "a' = abs_svr s" "int i' = atoi (cstr (as ! 1))" "bs = rsp_status FK_RSP_OK"
    using sp True by (auto simp: a_cmd_def Let_def)
  ultimately show ?thesis
    using select_spec(1) [OF pre n refl] True by (auto simp: does_def)
next
  case False
  then have "a' = abs_svr s" "i' = cur c" "bs = rsp_error FK_RSP_ERR"
    using sp by (auto simp: a_cmd_def Let_def)
  moreover have "0 \<le> db_idx c"
    using pre by (simp add: cmd_pre_def)
  ultimately show ?thesis
    using meets_does(2) select_spec(2) [OF pre n refl] False by auto
qed

text \<open>The handler \<open>h\<close> implements the command \<open>u\<close> with \<open>k\<close> arguments (at least \<open>- k\<close> when \<open>k\<close> is
  negative).\<close>

definition handler_ok :: "string \<Rightarrow> int \<Rightarrow> handler \<Rightarrow> bool" where
  "handler_ok u k h \<longleftrightarrow>
     (\<forall>s c as a' i' bs. cmd_pre s c as \<longrightarrow> (if k < 0 then - k \<le> int (length as) else k = int (length as)) \<longrightarrow>
        a_cmd (clock s) (dbcnt s) u as (abs_svr s) (cur c) = Some (a', i', bs) \<longrightarrow> does (h s c) s c a' i' bs)"

lemma handler_okI:
  assumes "\<And>s c as a' i' bs. cmd_pre s c as \<Longrightarrow> (if k < 0 then - k \<le> int (length as) else k = int (length as)) \<Longrightarrow>
    a_tick (abs_svr s) = ticks s \<Longrightarrow>
    a_cmd (clock s) (dbcnt s) u as (abs_svr s) (cur c) = Some (a', i', bs) \<Longrightarrow>
    i' = cur c \<and> (meets (h s c) s c a' bs \<or> meets_ok (h s c) s c a' bs)"
  shows "handler_ok u k h"
  unfolding handler_ok_def
proof (intro allI impI)
  fix s c as a' i' bs
  assume pre: "cmd_pre s c as" and n: "if k < 0 then - k \<le> int (length as) else k = int (length as)"
    and sp: "a_cmd (clock s) (dbcnt s) u as (abs_svr s) (cur c) = Some (a', i', bs)"
  have "0 \<le> db_idx c" "a_tick (abs_svr s) = ticks s"
    using pre by (simp_all add: cmd_pre_def abs_svr_def)
  then show "does (h s c) s c a' i' bs"
    using assms [OF pre n _ sp] meets_does by blast
qed

lemma set_ok: "handler_ok ''SET'' 3 fk_cmd_set"
  by (rule handler_okI) (auto simp: a_cmd_def Let_def   simp del: One_nat_def split del: if_split intro: set_meets)

lemma setnx_ok: "handler_ok ''SETNX'' 3 fk_cmd_setnx"
  by (rule handler_okI) (auto simp: a_cmd_def Let_def   simp del: One_nat_def split del: if_split intro: setnx_meets)

lemma setex_ok: "handler_ok ''SETEX'' 4 fk_cmd_setex"
  by (rule handler_okI) (auto simp: a_cmd_def Let_def  split: bind_splits simp del: One_nat_def intro: setex_meets)

lemma mset_ok: "handler_ok ''MSET'' (-3) fk_cmd_mset"
  by (rule handler_okI) (auto simp: a_cmd_def Let_def   simp del: One_nat_def split del: if_split intro: mset_meets)

lemma mget_ok: "handler_ok ''MGET'' (-2) fk_cmd_mget"
  by (rule handler_okI) (auto simp: a_cmd_def Let_def  split: if_splits prod.splits simp del: One_nat_def intro: mget_meets)

lemma get_ok: "handler_ok ''GET'' 2 fk_cmd_get"
  by (rule handler_okI) (auto simp: a_cmd_def Let_def  split: if_splits simp del: One_nat_def intro: get_meets [OF _ _ refl])

lemma del_ok: "handler_ok ''DEL'' (-2) fk_cmd_del"
  by (rule handler_okI) (auto simp: a_cmd_def Let_def   simp del: One_nat_def split del: if_split intro: del_meets)

lemma flushdb_ok: "handler_ok ''FLUSHDB'' 1 fk_cmd_flushdb"
  by (rule handler_okI) (auto simp: a_cmd_def Let_def   simp del: One_nat_def split del: if_split intro: flushdb_meets)

lemma exists_ok: "handler_ok ''EXISTS'' 2 fk_cmd_exists"
  by (rule handler_okI) (auto simp: a_cmd_def Let_def   simp del: One_nat_def split del: if_split intro: exists_meets)

lemma flushall_ok: "handler_ok ''FLUSHALL'' 1 fk_cmd_flushall"
  by (rule handler_okI) (auto simp: a_cmd_def Let_def   simp del: One_nat_def split del: if_split intro: flushall_meets)

lemma hset_ok: "handler_ok ''HSET'' 4 fk_cmd_hset"
  by (rule handler_okI) (auto simp: a_cmd_def Let_def  split: prod.splits simp del: One_nat_def a_hset.simps intro: hset_meets)

lemma hget_ok: "handler_ok ''HGET'' 3 fk_cmd_hget"
  by (rule handler_okI) (auto simp: a_cmd_def Let_def  split: if_splits simp del: One_nat_def intro: hget_meets)

lemma lpush_ok: "handler_ok ''LPUSH'' (-3) fk_cmd_lpush"
  by (rule handler_okI) (auto simp: a_cmd_def Let_def fk_cmd_lpush_def split: prod.splits simp del: One_nat_def intro: push_meets [where left = True])

lemma rpush_ok: "handler_ok ''RPUSH'' (-3) fk_cmd_rpush"
  by (rule handler_okI) (auto simp: a_cmd_def Let_def fk_cmd_rpush_def split: prod.splits simp del: One_nat_def intro: push_meets [where left = False])

lemma lpop_ok: "handler_ok ''LPOP'' 2 fk_cmd_lpop"
  by (rule handler_okI) (auto simp: a_cmd_def Let_def fk_cmd_lpop_def split: if_splits prod.splits simp del: One_nat_def intro: pop_meets [where left = True])

lemma rpop_ok: "handler_ok ''RPOP'' 2 fk_cmd_rpop"
  by (rule handler_okI) (auto simp: a_cmd_def Let_def fk_cmd_rpop_def split: if_splits prod.splits simp del: One_nat_def intro: pop_meets [where left = False])

lemma llen_ok: "handler_ok ''LLEN'' 2 fk_cmd_llen"
  by (rule handler_okI) (auto simp: a_cmd_def Let_def  split: if_splits simp del: One_nat_def intro: llen_meets)

lemma select_ok: "handler_ok ''SELECT'' 2 fk_cmd_select"
  unfolding handler_ok_def using select_does by auto

lemma unspecified_ok: "handler_ok ''SAVE'' k h" "handler_ok ''EVAL'' k h" "handler_ok ''ZADD'' k h"
  by (simp_all add: handler_ok_def a_cmd_def)

lemmas handlers_ok = set_ok setnx_ok setex_ok mset_ok mget_ok get_ok del_ok flushdb_ok exists_ok flushall_ok hset_ok hget_ok lpush_ok rpush_ok lpop_ok rpop_ok llen_ok select_ok unspecified_ok

lemma protos_ok: "\<forall>p \<in> set (protos ev). handler_ok (pname p) (pargs p) (phandler p)"
  unfolding protos_def by (simp add: handlers_ok)

lemma cmd_does:
  assumes pre: "cmd_pre s c as" and t: "table_of ev u = Some p"
    and n: "if pargs p < 0 then - pargs p \<le> int (length as) else pargs p = int (length as)"
    and sp: "a_cmd (clock s) (dbcnt s) u as (abs_svr s) (cur c) = Some (a', i', bs)"
  shows "does (phandler p s c) s c a' i' bs"
proof -
  have "p \<in> set (protos ev)" "u = pname p"
    using t unfolding table_of_def by (auto dest: map_of_SomeD)
  then have "handler_ok u (pargs p) (phandler p)"
    using protos_ok by blast
  then show ?thesis
    using pre n sp unfolding handler_ok_def by blast
qed

subsection \<open>Dispatch implements the meaning of a request\<close>

lemma a_cmd_hd:
  assumes "as \<noteq> []"
  shows "a_cmd clk n u (x # tl as) a i = a_cmd clk n u as a i"
proof -
  have h: "(x # tl as) ! 1 = as ! 1" "(x # tl as) ! 2 = as ! 2" "(x # tl as) ! 3 = as ! 3"
    "tl (x # tl as) = tl as" "drop 2 (x # tl as) = drop 2 as" "length (x # tl as) = length as"
    using assms by (cases as; simp)+
  show ?thesis
    unfolding a_cmd_def h ..
qed

lemma args_inv_first:
  assumes inv: "args_inv c as" and ne: "as \<noteq> []" and ok: "arg_ok u"
  shows "\<exists>v. fk_conn_set_arg c 0 (Some (Str u)) = Some (c\<lparr>arg_vtr := v\<rparr>) \<and> args_inv (c\<lparr>arg_vtr := v\<rparr>) (u # tl as)"
proof -
  obtain x xs where as: "as = x # xs"
    using ne by (cases as) auto
  let ?v = "arg_vtr c"
  let ?w = "?v\<lparr>varray := (varray ?v)[0 := Some (Str u)]\<rparr>"
  have "0 < vlen ?v" "length (varray ?v) = vlen ?v"
    using inv as by (auto simp: args_inv_def vtr_inv_def)
  then have "fk_conn_set_arg c 0 (Some (Str u)) = Some (c\<lparr>arg_vtr := ?w\<rparr>)"
    by (simp add: fk_conn_set_arg_def fk_vtr_set_def upd_opt_def)
  moreover have "args_inv (c\<lparr>arg_vtr := ?w\<rparr>) (u # tl as)"
    using inv ok unfolding as by (auto simp: args_inv_def vtr_inv_def)
  ultimately show ?thesis by blast
qed

lemma cmd_pre_upper:
  assumes pre: "cmd_pre s c as" and pd: "parse_done c = 1"
  shows "\<exists>c1. arg_key c 0 = Some (hd as) \<and> as \<noteq> []
    \<and> fk_conn_set_arg c 0 (Some (Str (fk_str_2upper (hd as)))) = Some c1
    \<and> cmd_pre s c1 (fk_str_2upper (hd as) # tl as) \<and> (\<exists>v. c1 = c\<lparr>arg_vtr := v\<rparr>)"
proof -
  note p = cmd_preD [OF pre]
  have ne: "as \<noteq> []"
    using p(3) pd by (auto simp: args_inv_def)
  have k: "arg_key c 0 = Some (hd as)" "arg_ok (hd as)"
    using arg_facts [OF p(3), of 0] ne by (simp_all add: hd_conv_nth)
  then have "arg_ok (fk_str_2upper (hd as))"
    by (simp add: arg_ok_def)
  then obtain v where v: "fk_conn_set_arg c 0 (Some (Str (fk_str_2upper (hd as)))) = Some (c\<lparr>arg_vtr := v\<rparr>)"
    "args_inv (c\<lparr>arg_vtr := v\<rparr>) (fk_str_2upper (hd as) # tl as)"
    using args_inv_first [OF p(3) ne] by blast
  have "conn_inv (c\<lparr>arg_vtr := v\<rparr>)"
    using p(2) v(2) by (auto simp: conn_inv_def)
  then have "cmd_pre s (c\<lparr>arg_vtr := v\<rparr>) (fk_str_2upper (hd as) # tl as)"
    using pre v(2) by (simp add: cmd_pre_def)
  then show ?thesis
    using ne k(1) v(1) by blast
qed

text \<open>The handlers run without the log: it is switched off, or the connection is the one that replays it.\<close>

definition unlogged :: "fk_svr \<Rightarrow> fk_conn \<Rightarrow> bool" where
  "unlogged s c \<longleftrightarrow> blog_on (setting s) \<noteq> 1 \<or> ctype c \<noteq> CONN_REAL"

text \<open>The outcome of one request: the connection is ready for the next one and, unless the reply
  did not fit, the request has taken effect and its reply is queued.\<close>

definition served :: "fk_svr \<Rightarrow> fk_conn \<Rightarrow> svr_rc \<Rightarrow> fk_svr \<Rightarrow> fk_conn \<Rightarrow> astate \<Rightarrow> nat \<Rightarrow> string \<Rightarrow> bool" where
  "served s c rc s' c' a' i' bs \<longleftrightarrow>
     svr_inv s' \<and> svr_rest s s' \<and> conn_inv c' \<and> parse_done c' = 0 \<and> arg_parsed c' = 0 \<and> rbuf c' = rbuf c
     \<and> fd c' = fd c \<and> ctype c' = ctype c \<and> write_added c' = write_added c \<and> highwat (wbuf c') = highwat (wbuf c)
     \<and> (rc = SVR_OK \<and> abs_svr s' = a' \<and> db_idx c' = int i' \<and> out c' = out c @ bs
        \<or> rc = SVR_ERR \<and> highwat (wbuf c) < length (out c) + length bs)"

lemma served_replied:
  assumes "replied (c\<lparr>arg_vtr := v, db_idx := int i'\<rparr>) rc c2 bs" and "conn_inv c2" and "fk_conn_free_args c2 = Some c3"
    and "svr_inv s'" "svr_rest s s'" and "rc = SVR_OK \<longrightarrow> abs_svr s' = a'"
  shows "served s c rc s' c3 a' i' bs"
proof -
  obtain c' where "fk_conn_free_args c2 = Some c'" "conn_inv c'" "arg_parsed c' = 0" "parse_done c' = 0"
    "rbuf c' = rbuf c2" "same_io c2 c'"
    using free_args_spec [OF assms(2)] by blast
  then have c3: "conn_inv c3" "arg_parsed c3 = 0" "parse_done c3 = 0" "rbuf c3 = rbuf c2" "same_io c2 c3"
    using assms(3) by auto
  then show ?thesis
    using assms(1,4,5,6) replied_fields [OF assms(1)] by (auto simp: served_def same_io_def replied_def)
qed

lemma bad_req_served:
  assumes pre: "cmd_pre s (c\<lparr>arg_vtr := v\<rparr>) as" and e: "length e < 100" "CHR 0x00 \<notin> set e"
  shows "\<exists>rc s' c'. bad_req e s (c\<lparr>arg_vtr := v\<rparr>) = Some (rc, s', c') \<and> served s c rc s' c' (abs_svr s) (cur c) (rsp_error e)"
proof -
  note p = cmd_preD [OF pre]
  obtain c1 where c1: "fk_conn_free_args (c\<lparr>arg_vtr := v\<rparr>) = Some c1" "conn_inv c1" "arg_parsed c1 = 0" "parse_done c1 = 0"
    "rbuf c1 = rbuf c" "same_io (c\<lparr>arg_vtr := v\<rparr>) c1"
    using free_args_spec [OF p(2)] by auto
  have "length (out c1) < 536870912"
    using p(4) c1(6) by (simp add: same_io_def)
  from error_rsp_meets [OF c1(2) this p(1) svr_rest_refl refl e]
  obtain rc s' c' where r: "error_rsp e s c1 = Some (rc, s', c')" "svr_inv s'" "svr_rest s s'" "abs_svr s' = abs_svr s"
    "replied c1 rc c' (rsp_error e)"
    by (auto simp: meets_def)
  have "served s c rc s' c' (abs_svr s) (cur c) (rsp_error e)"
    using r(2-) c1 replied_inv [OF c1(2) r(5)] replied_fields [OF r(5)] pre
    by (auto simp: served_def same_io_def replied_def cmd_pre_def)
  then show ?thesis
    using c1(1) r(1) by (simp add: bad_req_def)
qed

lemma a_exec_table:
  "a_exec clk n as a i =
     (case table_of ev (fk_str_2upper (hd as)) of
        None \<Rightarrow> Some (a, i, rsp_error ''Invalid Protocol'')
      | Some p \<Rightarrow>
          if (if pargs p < 0 then int (length as) < - pargs p else pargs p \<noteq> int (length as))
          then Some (a, i, rsp_error ''Wrong Argument Number'')
          else a_cmd clk n (fk_str_2upper (hd as)) as a i)"
  unfolding a_exec_def table_of_def protos_def by simp

lemma proc_cmd_served:
  assumes pre: "cmd_pre s c as" and pd: "parse_done c = 1" and pm: "fk_proto_init ev = Some pm"
    and blog: "unlogged s c" and sp: "a_exec (clock s) (dbcnt s) as (abs_svr s) (cur c) = Some (a', i', bs)"
  shows "\<exists>rc s' c'. fk_conn_proc_cmd pm s c = Some (rc, s', c') \<and> served s c rc s' c' a' i' bs"
proof -
  let ?u = "fk_str_2upper (hd as)"
  obtain c1 v where c1: "arg_key c 0 = Some (hd as)" "as \<noteq> []" "fk_conn_set_arg c 0 (Some (Str ?u)) = Some c1"
    "cmd_pre s c1 (?u # tl as)" "c1 = c\<lparr>arg_vtr := v\<rparr>"
    using cmd_pre_upper [OF pre pd] by blast
  note p = cmd_preD [OF c1(4)]
  have len: "arg_cnt c1 = int (length as)" "cur c1 = cur c"
    using p(5) c1(2,5) by simp_all
  have "str_ok ?u"
    using arg_facts(3) [OF p(3), of 0] arg_ok_str_ok by simp
  then have tab: "fk_proto_search pm ?u = Some (table_of ev ?u)"
    using proto_init_spec [of ev] pm strd.get_spec unfolding fk_proto_search_def by (metis option.inject)
  have bad: "\<exists>rc s' c'. bad_req e s c1 = Some (rc, s', c') \<and> served s c rc s' c' (abs_svr s) (cur c) (rsp_error e)"
    if "length e < 100" "CHR 0x00 \<notin> set e" for e
    using bad_req_served [OF c1(4) [unfolded c1(5)] that] c1(5) by simp
  show ?thesis
  proof (cases "table_of ev ?u")
    case None
    then have "fk_conn_proc_cmd pm s c = bad_req ''Invalid Protocol'' s c1"
      using pd c1(1,3) tab by (simp add: fk_conn_proc_cmd_def)
    then show ?thesis
      using bad [of "''Invalid Protocol''"] sp None by (auto simp: a_exec_table [where ev = ev])
  next
    case (Some q)
    show ?thesis
    proof (cases "if pargs q < 0 then int (length as) < - pargs q else pargs q \<noteq> int (length as)")
      case True
      then have "fk_conn_proc_cmd pm s c = bad_req ''Wrong Argument Number'' s c1"
        using pd c1(1,3) tab Some len(1) by (auto simp: fk_conn_proc_cmd_def split: if_splits)
      moreover have "a' = abs_svr s" "i' = cur c" "bs = rsp_error ''Wrong Argument Number''"
        using sp unfolding a_exec_table [where ev = ev] Some option.case if_P [OF True] by simp_all
      ultimately show ?thesis
        using bad [of "''Wrong Argument Number''"] by simp
    next
      case False
      then have sp1: "a_cmd (clock s) (dbcnt s) ?u (?u # tl as) (abs_svr s) (cur c1) = Some (a', i', bs)"
        using sp Some len(2) by (simp add: a_exec_table [where ev = ev] a_cmd_hd [OF c1(2)])
      have "does (phandler q s c1) s c1 a' i' bs"
        using cmd_does [OF c1(4) Some _ sp1] False c1(2) by (auto split: if_splits)
      then obtain rc s2 c2 where r: "phandler q s c1 = Some (rc, s2, c2)" "svr_inv s2" "svr_rest s s2"
        "rc = SVR_OK \<longrightarrow> abs_svr s2 = a'" "replied (c1\<lparr>db_idx := int i'\<rparr>) rc c2 bs"
        unfolding does_def by blast
      have ci: "conn_inv c2"
        using replied_inv [OF _ r(5)] p(2) by (auto simp: conn_inv_def args_inv_def)
      then obtain c3 where c3: "fk_conn_free_args c2 = Some c3"
        using free_args_spec by blast
      have "served s c rc s2 c3 a' i' bs"
        using served_replied [OF _ ci c3 r(2,3,4), where c = c and i' = i' and v = v] r(5) c1(5) by simp
      moreover have "setting s2 = setting s"
        using svr_rest_fields [OF r(3)] by blast
      then have "fk_conn_proc_cmd pm s c = Some (rc, s2, c3)"
        using pd c1(1,3) tab Some len(1) False r(1) c3 blog replied_rc [OF r(5)] replied_fields [OF r(5)] c1(5)
        by (auto simp: fk_conn_proc_cmd_def unlogged_def split: if_splits)
      ultimately show ?thesis by blast
    qed
  qed
qed

subsection \<open>What the log contains\<close>

lemma blog_write_fits:
  assumes "length txt < blog_buflen"
  shows "blog_write txt s = Some (s\<lparr>blog := blog s @ txt\<rparr>)"
proof -
  have "length txt \<le> blog_buflen - 1"
    using assms by linarith
  then show ?thesis
    using assms by (simp add: blog_write_def)
qed

lemma enc_arg_length:
  assumes "length a \<le> 1048576"
  shows "length (enc_arg a) \<le> length a + 12"
  using length_print_nat_le [of "length a" 7] assms by (simp add: enc_arg_def crlf_def)

lemma blog_args_spec:
  assumes "args_inv c as" and "j \<le> length as" and "\<forall>a \<in> set as. CHR 0x00 \<notin> set a \<and> length a \<le> 1048572"
  shows "blog_args [int j..int (length as) - 1] c s = Some (s\<lparr>blog := blog s @ enc_args (drop j as)\<rparr>)"
  using assms(2)
proof (induction "length as - j" arbitrary: j s)
  case 0
  then show ?case by (simp add: enc_args_def)
next
  case (Suc m)
  then have j: "j < length as" and m: "m = length as - Suc j"
    by simp_all
  have up: "[int j..int (length as) - 1] = int j # [int (Suc j)..int (length as) - 1]"
    using j by (simp add: upto_rec1 add.commute)
  have dr: "drop j as = as ! j # drop (Suc j) as"
    using j by (simp add: Cons_nth_drop_Suc)
  have a: "CHR 0x00 \<notin> set (as ! j)" "length (as ! j) \<le> 1048572"
    using assms(3) j by auto
  have "CHR ''$'' # print_int (int (length (as ! j))) @ crlf @ cstr (as ! j) @ crlf = enc_arg (as ! j)"
    using a(1) by (simp add: enc_arg_def print_int_def cstr_id)
  moreover have "length (enc_arg (as ! j)) < blog_buflen"
    using enc_arg_length [of "as ! j"] a(2) by (simp add: blog_buflen_def fk_consts)
  ultimately show ?case
    using Suc.hyps(1) [OF m] j arg_facts(2) [OF assms(1) j] unfolding up dr
    by (simp add: blog_write_fits enc_args_Cons)
qed


lemma print_nat_bound: "n < 10 ^ length (print_nat n)"
proof (induction n rule: print_nat.induct)
  case (1 n)
  show ?case
  proof (cases "n < 10")
    case True
    then show ?thesis by (subst print_nat.simps) simp
  next
    case False
    then have "n div 10 < 10 ^ length (print_nat (n div 10))"
      using 1 by blast
    then show ?thesis
      using False by (subst print_nat.simps) simp
  qed
qed

lemma blog_args_None:
  assumes "i \<in> set is" and "arg_key c i = Some a"
    and "blog_buflen < length (CHR ''$'' # print_int (int (length a)) @ crlf @ cstr a @ crlf)"
  shows "blog_args is c s = None"
  using assms(1)
proof (induction "is" arbitrary: s)
  case (Cons j "is")
  show ?case
  proof (cases "i = j")
    case True
    then show ?thesis
      using assms(2,3) by (simp add: blog_write_def)
  next
    case False
    then show ?thesis
      using Cons by (auto split: bind_splits)
  qed
qed simp






end
