(* ===== verification/Fk_Svr.thy ===== *)
theory Fk_Svr
  imports Fk_Proto
begin

text \<open>
  The callbacks of the server: reading and answering requests (\<^verbatim>\<open>fk_conn_read_cb\<close>,
  \<^verbatim>\<open>fk_conn_write_cb\<close>), accepting and removing connections, the connection timer and the server
  timer (\<^verbatim>\<open>fk_svr_conn.c\<close>, \<^verbatim>\<open>fk_svr.c\<close>, \<^verbatim>\<open>fk_kdb_bgsave\<close>, \<^verbatim>\<open>fk_blog_bgrewrite\<close>). What the kernel answers is
  an argument: the events of a socket, the results of \<^verbatim>\<open>send\<close>, \<^verbatim>\<open>accept\<close>, \<^verbatim>\<open>fork\<close> and \<^verbatim>\<open>waitpid\<close>,
  and the times. The events that the callbacks register are those of the event manager.
\<close>

type_synonym pmap = "(string, fk_proto) fk_dict"

subsection \<open>Connections\<close>

definition fk_svr_add_conn :: "(nat \<Rightarrow> char) \<Rightarrow> int \<Rightarrow> int \<Rightarrow> fk_svr \<Rightarrow> fk_svr option" where
  "fk_svr_add_conn fr now fd0 s =
     do { c \<leftarrow> fk_conn_create fr (max_wbuf (setting s)) now fd0;
          tab \<leftarrow> (if fd0 < 0 then None else upd_opt (conns_tab s) (nat fd0) (Some c));
          Some (s\<lparr>conns_tab := tab, conn_cnt := conn_cnt s + 1\<rparr>) }"

text \<open>\<^verbatim>\<open>fk_conn_destroy\<close> unregisters the events and releases the buffers and arguments.\<close>

definition fk_conn_destroy :: "fk_conn \<Rightarrow> unit option" where
  "fk_conn_destroy c = do { _ \<leftarrow> fk_conn_free_args c; Some () }"

definition fk_svr_remove_conn :: "fk_conn \<Rightarrow> fk_svr \<Rightarrow> fk_svr option" where
  "fk_svr_remove_conn c s =
     do { tab \<leftarrow> (if fd c < 0 then None else upd_opt (conns_tab s) (nat (fd c)) None);
          _ \<leftarrow> fk_conn_destroy c;
          Some (s\<lparr>conns_tab := tab, conn_cnt := conn_cnt s - 1\<rparr>) }"

text \<open>The connection that a callback works on, and its new value.\<close>

definition get_conn :: "fk_svr \<Rightarrow> nat \<Rightarrow> fk_conn option" where
  "get_conn s i = do { p \<leftarrow> nth_opt (conns_tab s) i; p }"

definition put_conn :: "fk_svr \<Rightarrow> nat \<Rightarrow> fk_conn \<Rightarrow> fk_svr option" where
  "put_conn s i c = map_option (\<lambda>t. s\<lparr>conns_tab := t\<rparr>) (upd_opt (conns_tab s) i (Some c))"

subsection \<open>Reading\<close>

text \<open>\<open>while (fk_buf_payload_len(conn->rbuf) > 0)\<close>. \<open>SVR_ERR\<close> stands for the two places where
  the connection is removed.\<close>

partial_function (option) req_loop :: "pmap \<Rightarrow> fk_svr \<Rightarrow> fk_conn \<Rightarrow> (svr_rc \<times> fk_svr \<times> fk_conn) option" where
  "req_loop pm s c =
     (if fk_buf_payload_len (rbuf c) > 0 then
        do { (rt, c1) \<leftarrow> fk_conn_parse_req c;
             if rt = SVR_ERR then Some (SVR_ERR, s, c1)
             else if rt = SVR_AGAIN then Some (SVR_OK, s, c1)
             else
               do { (rt2, s2, c2) \<leftarrow> fk_conn_proc_cmd pm s c1;
                    if rt2 = SVR_ERR then Some (SVR_ERR, s2, c2) else req_loop pm s2 c2 } }
      else Some (SVR_OK, s, c))"

text \<open>\<open>while (again == 1)\<close>; \<open>now n\<close> is the time at the \<open>n\<close>-th call of \<^verbatim>\<open>fk_conn_recv_data\<close>.\<close>

partial_function (option) read_loop ::
  "pmap \<Rightarrow> (nat \<Rightarrow> int) \<Rightarrow> nat \<Rightarrow> sock_ev list \<Rightarrow> fk_svr \<Rightarrow> fk_conn \<Rightarrow> (svr_rc \<times> sock_ev list \<times> fk_svr \<times> fk_conn) option" where
  "read_loop pm now n sock s c =
     do { (rt, sock1, c1) \<leftarrow> fk_conn_recv_data (now n) sock c;
          if rt = SVR_ERR then Some (SVR_ERR, sock1, s, c1)
          else if rt = SVR_AGAIN then Some (SVR_OK, sock1, s, c1)
          else
            do { (rt2, s2, c2) \<leftarrow> req_loop pm s c1;
                 if rt2 = SVR_ERR then Some (SVR_ERR, sock1, s2, c2)
                 else if rt = SVR_DONE then Some (SVR_OK, sock1, s2, c2)
                 else read_loop pm now (Suc n) sock1 s2 c2 } }"

definition fk_conn_send_rsp :: "fk_conn \<Rightarrow> (svr_rc \<times> fk_conn) option" where
  "fk_conn_send_rsp c =
     do { b \<leftarrow> fk_buf_shrink (rbuf c);
          Some (SVR_OK, if fk_buf_payload_len (wbuf c) > 0 \<and> write_added c = 0
                        then c\<lparr>rbuf := b, write_added := 1\<rparr> else c\<lparr>rbuf := b\<rparr>) }"

definition fk_conn_read_cb :: "pmap \<Rightarrow> (nat \<Rightarrow> int) \<Rightarrow> sock_ev list \<Rightarrow> nat \<Rightarrow> fk_svr \<Rightarrow> (sock_ev list \<times> fk_svr) option" where
  "fk_conn_read_cb pm now sock i s =
     do { c \<leftarrow> get_conn s i;
          (rt, sock1, s1, c1) \<leftarrow> read_loop pm now 0 sock s c;
          if rt = SVR_ERR then do { s2 \<leftarrow> fk_svr_remove_conn c1 s1; Some (sock1, s2) }
          else
            do { (rt2, c2) \<leftarrow> fk_conn_send_rsp c1;
                 if rt2 = SVR_ERR then do { s2 \<leftarrow> fk_svr_remove_conn c2 s1; Some (sock1, s2) }
                 else do { s2 \<leftarrow> put_conn s1 i c2; Some (sock1, s2) } } }"

subsection \<open>Writing\<close>

text \<open>The results of the successive calls of \<^verbatim>\<open>send\<close>: the number of bytes taken, at most as many as
  offered (and, for a blocking socket buffer, at least one); none left means \<^verbatim>\<open>EAGAIN\<close>.\<close>

datatype send_ev = Sent nat | Send_fail

fun write_loop :: "send_ev list \<Rightarrow> string \<Rightarrow> fk_buf \<Rightarrow> (bool \<times> string \<times> fk_buf)" where
  "write_loop evs wire b =
     (if fk_buf_payload_len b > 0 then
        (case evs of
           [] \<Rightarrow> (True, wire, b)
         | Send_fail # _ \<Rightarrow> (False, wire, b)
         | Sent n # evs' \<Rightarrow>
             (let k = min n (fk_buf_payload_len b)
              in write_loop evs' (wire @ take k (payload b)) (fk_buf_low_inc b k)))
      else (True, wire, b))"

declare write_loop.simps [simp del]

text \<open>\<open>wire\<close> is what the peer has received.\<close>

definition fk_conn_write_cb :: "send_ev list \<Rightarrow> string \<Rightarrow> nat \<Rightarrow> fk_svr \<Rightarrow> (string \<times> fk_svr) option" where
  "fk_conn_write_cb evs wire i s =
     do { c \<leftarrow> get_conn s i;
          case write_loop evs wire (wbuf c) of
            (False, wire', b) \<Rightarrow> do { s' \<leftarrow> fk_svr_remove_conn (c\<lparr>wbuf := b\<rparr>) s; Some (wire', s') }
          | (True, wire', b) \<Rightarrow>
              do { b' \<leftarrow> fk_buf_shrink b;
                   s' \<leftarrow> put_conn s i (if fk_buf_payload_len b' = 0 then c\<lparr>wbuf := b', write_added := 0\<rparr>
                                        else c\<lparr>wbuf := b'\<rparr>);
                   Some (wire', s') } }"

definition fk_conn_timer_cb :: "int \<Rightarrow> nat \<Rightarrow> fk_svr \<Rightarrow> (int \<times> fk_svr) option" where
  "fk_conn_timer_cb now i s =
     do { c \<leftarrow> get_conn s i;
          if now - last_recv c > timeout (setting s)
          then do { s' \<leftarrow> fk_svr_remove_conn c s; Some (-1, s') }
          else Some (0, s) }"

subsection \<open>Accepting\<close>

text \<open>The results of \<^verbatim>\<open>accept\<close>; none left means \<^verbatim>\<open>EAGAIN\<close>. After another error than \<^verbatim>\<open>EINTR\<close> the code
  goes on with the negative descriptor.\<close>

datatype accept_ev = Accepted int | Acc_intr | Acc_error

fun fk_svr_listen_cb :: "(nat \<Rightarrow> char) \<Rightarrow> int \<Rightarrow> accept_ev list \<Rightarrow> fk_svr \<Rightarrow> fk_svr option" where
  "fk_svr_listen_cb fr now [] s = Some s"
| "fk_svr_listen_cb fr now (Acc_intr # evs) s = fk_svr_listen_cb fr now evs s"
| "fk_svr_listen_cb fr now (Accepted fd0 # evs) s =
     (if conn_cnt s = max_conns (setting s) then fk_svr_listen_cb fr now evs s
      else do { s' \<leftarrow> fk_svr_add_conn fr now fd0 s; fk_svr_listen_cb fr now evs s' })"
| "fk_svr_listen_cb fr now (Acc_error # evs) s =
     (if conn_cnt s = max_conns (setting s) then fk_svr_listen_cb fr now evs s
      else do { s' \<leftarrow> fk_svr_add_conn fr now (-1) s; fk_svr_listen_cb fr now evs s' })"

section \<open>A stream of requests\<close>

text \<open>The meaning of a sequence of requests.\<close>

fun a_run :: "(nat \<Rightarrow> timeval) \<Rightarrow> nat \<Rightarrow> string list list \<Rightarrow> astate \<Rightarrow> nat \<Rightarrow> (astate \<times> nat \<times> string) option" where
  "a_run clk n [] a i = Some (a, i, [])"
| "a_run clk n (as # rs) a i =
     do { (a1, i1, b1) \<leftarrow> a_exec clk n as a i;
          (a2, i2, b2) \<leftarrow> a_run clk n rs a1 i1;
          Some (a2, i2, b1 @ b2) }"

definition enc_reqs :: "string list list \<Rightarrow> string" where
  "enc_reqs rs = concat (map enc_req rs)"

text \<open>The connection is at the start of, or inside, the first request of \<open>rs\<close>; \<open>rem\<close> is the rest of the stream,
  of which the read buffer holds a prefix and \<open>fut\<close> is still to come.\<close>

definition stream_at :: "fk_conn \<Rightarrow> string list list \<Rightarrow> string \<Rightarrow> bool" where
  "stream_at c rs fut \<longleftrightarrow>
     list_all req_ok rs \<and> conn_inv c \<and> parse_done c = 0
     \<and> (case rs of
          [] \<Rightarrow> arg_parsed c = 0 \<and> payload (rbuf c) = [] \<and> fut = []
        | as # rs' \<Rightarrow> \<exists>rem. parse_at c as rem \<and> payload (rbuf c) @ fut = rem @ enc_reqs rs')"

lemma stream_at_start:
  assumes "list_all req_ok rs" and "conn_inv c" and "parse_done c = 0" and "arg_parsed c = 0"
    and "payload (rbuf c) @ fut = enc_reqs rs"
  shows "stream_at c rs fut"
  using assms parse_at_start [OF assms(2,3,4)]
  by (cases rs) (auto simp: stream_at_def enc_reqs_def)

lemma a_cmd_idx:
  assumes "a_cmd clk n u as a i = Some (a', i', bs)" and "i < n"
  shows "i' < n"
proof (cases "u = ''SELECT''")
  case True
  then show ?thesis
    using assms by (auto simp: a_cmd_def Let_def split: if_splits)
next
  case False
  have "i' = i"
    using assms(1) False unfolding a_cmd_def Let_def
    by (simp split: if_split_asm prod.split_asm bind_split_asm)
  then show ?thesis
    using assms(2) by simp
qed

lemma a_exec_idx: "a_exec clk n as a i = Some (a', i', bs) \<Longrightarrow> i < n \<Longrightarrow> i' < n"
  using a_cmd_idx unfolding a_exec_table [where ev = "\<lambda>s c. None"]
  by (auto split: option.split_asm if_split_asm)

text \<open>What the callbacks need of the server and the connection besides the stream: a selected
  database, no binary log, and a limit of the output buffer below half a gigabyte that the
  replies still to come (\<open>n\<close> bytes) respect.\<close>

definition can_serve :: "fk_svr \<Rightarrow> fk_conn \<Rightarrow> nat \<Rightarrow> bool" where
  "can_serve s c n \<longleftrightarrow> svr_inv s \<and> 0 \<le> db_idx c \<and> db_idx c < int (dbcnt s) \<and> unlogged s c
     \<and> length (out c) + n \<le> highwat (wbuf c) \<and> highwat (wbuf c) < 536870912"

text \<open>\<open>s'\<close>, \<open>c'\<close> is the state after the requests that \<open>a_run\<close> takes from \<open>s\<close>, \<open>c\<close> to \<open>a\<close>, \<open>i\<close> with the replies \<open>bs\<close>.\<close>

definition reached :: "fk_svr \<Rightarrow> fk_conn \<Rightarrow> fk_svr \<Rightarrow> fk_conn \<Rightarrow> astate \<Rightarrow> nat \<Rightarrow> string \<Rightarrow> bool" where
  "reached s c s' c' a i bs \<longleftrightarrow> svr_rest s s' \<and> abs_svr s' = a \<and> db_idx c' = int i \<and> out c' = out c @ bs
     \<and> fd c' = fd c \<and> ctype c' = ctype c \<and> highwat (wbuf c') = highwat (wbuf c) \<and> highwat (rbuf c') = highwat (rbuf c)"

definition progressed :: "fk_svr \<Rightarrow> fk_conn \<Rightarrow> fk_svr \<Rightarrow> fk_conn \<Rightarrow> astate \<Rightarrow> nat \<Rightarrow> string \<Rightarrow> bool" where
  "progressed s c s' c' a i bs \<longleftrightarrow> reached s c s' c' a i bs \<and> high (rbuf c') = high (rbuf c)"

lemma reached_trans:
  "reached s c s1 c1 a1 i1 b1 \<Longrightarrow> reached s1 c1 s2 c2 a2 i2 b2 \<Longrightarrow> reached s c s2 c2 a2 i2 (b1 @ b2)"
  using svr_rest_trans by (auto simp: reached_def)

lemma progressed_refl: "0 \<le> db_idx c \<Longrightarrow> progressed s c s c (abs_svr s) (cur c) []"
  by (simp add: progressed_def reached_def)

lemma progressed_trans:
  "progressed s c s1 c1 a1 i1 b1 \<Longrightarrow> progressed s1 c1 s2 c2 a2 i2 b2 \<Longrightarrow> progressed s c s2 c2 a2 i2 (b1 @ b2)"
  using reached_trans by (auto simp: progressed_def)

lemma a_run_append:
  "a_run clk n (rs @ ss) a i =
     do { (a1, i1, b1) \<leftarrow> a_run clk n rs a i; (a2, i2, b2) \<leftarrow> a_run clk n ss a1 i1; Some (a2, i2, b1 @ b2) }"
  by (induction rs arbitrary: a i) (auto split: bind_splits)

lemma parse_at_ne:
  assumes "parse_at c as rem"
  shows "rem \<noteq> []"
proof (cases "arg_parsed c = 0")
  case True
  then show ?thesis
    using assms by (auto simp: parse_at_def enc_req_def req_ok_def)
next
  case False
  then have "nat (arg_cnt c) < length as"
    using parse_at_lt [OF assms] by auto
  then show ?thesis
    using assms False by (auto simp: parse_at_def Cons_nth_drop_Suc [symmetric] enc_args_Cons enc_arg_def crlf_def)
qed

text \<open>One request that is complete in the buffer.\<close>

lemma serve_one:
  assumes st: "stream_at c (as # rs) fut" and cs: "can_serve s c (length bs)" and pm: "fk_proto_init ev = Some pm"
    and ex: "a_exec (clock s) (dbcnt s) as (abs_svr s) (cur c) = Some (a1, i1, bs)"
    and at: "parse_at c as rem" "payload (rbuf c) @ fut = rem @ enc_reqs rs" and len: "length rem \<le> length (payload (rbuf c))"
  shows "\<exists>c1 s2 c2. fk_conn_parse_req c = Some (SVR_OK, c1) \<and> fk_conn_proc_cmd pm s c1 = Some (SVR_OK, s2, c2)
    \<and> stream_at c2 rs fut \<and> progressed s c s2 c2 a1 i1 bs \<and> can_serve s2 c2 0"
proof -
  let ?p = "payload (rbuf c)"
  let ?rest = "drop (length rem) ?p"
  have p: "?p = rem @ ?rest" "?rest @ fut = enc_reqs rs"
    using len at(2) by (metis append_eq_append_conv_if append_take_drop_id)+
  have rem_ne: "0 < length rem"
    using parse_at_ne [OF at(1)] by simp
  have "?p = take (length ?p) (rem @ ?rest)" "length ?p \<le> length (rem @ ?rest)" "0 < length ?p"
    using p(1) rem_ne by auto
  from parse_req_stream_gen [OF at(1) this] len
  obtain c1 where c1: "advanced c rem c1 []" "fk_conn_parse_req c = Some (SVR_OK, c1)" "conn_inv c1" "args_inv c1 as"
    "parse_done c1 = 1"
    by auto
  have io: "same_io c c1" and p1: "payload (rbuf c1) = ?rest"
    using c1(1) p(1) by (auto simp: advanced_def)
  have pre: "cmd_pre s c1 as"
    using cs c1(3,4) io by (auto simp: cmd_pre_def can_serve_def same_io_def)
  have idx: "cur c1 = cur c" "unlogged s c1"
    using io cs by (simp_all add: same_io_def can_serve_def unlogged_def)
  obtain rc s2 c2 where r: "fk_conn_proc_cmd pm s c1 = Some (rc, s2, c2)" "served s c1 rc s2 c2 a1 i1 bs"
    using proc_cmd_served [OF pre c1(5) pm] ex cs idx by (auto simp: can_serve_def)
  have fit: "length (out c1) + length bs \<le> highwat (wbuf c1)"
    using cs io by (simp add: can_serve_def same_io_def)
  then have ok: "rc = SVR_OK" and sv: "svr_inv s2" "svr_rest s s2" "conn_inv c2" "parse_done c2 = 0" "arg_parsed c2 = 0"
    "rbuf c2 = rbuf c1" "abs_svr s2 = a1" "db_idx c2 = int i1" "out c2 = out c1 @ bs" "highwat (wbuf c2) = highwat (wbuf c1)"
    "fd c2 = fd c1" "ctype c2 = ctype c1" "write_added c2 = write_added c1"
    using r(2) by (auto simp: served_def)
  have pr: "progressed s c s2 c2 a1 i1 bs"
    using sv io by (auto simp: progressed_def reached_def same_io_def)
  have "cur c < dbcnt s"
    using cs by (auto simp: can_serve_def)
  then have "i1 < dbcnt s"
    using a_exec_idx [OF ex] by simp
  then have "can_serve s2 c2 0"
    using sv fit cs io svr_rest_fields [OF sv(2)] by (auto simp: can_serve_def same_io_def unlogged_def)
  moreover have "stream_at c2 rs fut"
    using st sv p(2) p1 by (intro stream_at_start) (auto simp: stream_at_def)
  ultimately show ?thesis
    using c1(2) r(1) ok pr by blast
qed

lemma progressed_can_serve:
  assumes "progressed s c s' c' a i b1" and "can_serve s' c' 0" and "can_serve s c (length (b1 @ b2))"
  shows "can_serve s' c' (length b2)"
  using assms by (auto simp: progressed_def reached_def can_serve_def)

text \<open>What the inner loop does: it answers the requests that are complete and stops inside the next one.\<close>

definition answers :: "pmap \<Rightarrow> fk_svr \<Rightarrow> fk_conn \<Rightarrow> string list list \<Rightarrow> string \<Rightarrow> astate \<Rightarrow> nat \<Rightarrow> string \<Rightarrow> bool" where
  "answers pm s c rs fut a' i' bs \<longleftrightarrow> (\<exists>dn rest s' c' a1 i1 b1 b2. rs = dn @ rest \<and> req_loop pm s c = Some (SVR_OK, s', c')
    \<and> a_run (clock s) (dbcnt s) rest a1 i1 = Some (a', i', b2) \<and> bs = b1 @ b2
    \<and> progressed s c s' c' a1 i1 b1 \<and> stream_at c' rest fut \<and> can_serve s' c' (length b2) \<and> (rest = [] \<or> fut \<noteq> []))"

text \<open>It stops at once, or it has read a part of the first request only.\<close>

lemma answers_stop:
  assumes "req_loop pm s c = Some (SVR_OK, s, c')" and "progressed s c s c' (abs_svr s) (cur c) []" and "stream_at c' rs fut"
    and "can_serve s c' (length bs)" and "a_run (clock s) (dbcnt s) rs (abs_svr s) (cur c) = Some (a', i', bs)" and "rs = [] \<or> fut \<noteq> []"
  shows "answers pm s c rs fut a' i' bs"
  unfolding answers_def using assms
  by (intro exI [of _ "[]"] exI [of _ rs] exI [of _ s] exI [of _ c'] exI [of _ "abs_svr s"] exI [of _ "cur c"] exI [of _ bs]) simp

lemma answers_empty:
  assumes st: "stream_at c rs fut" and cs: "can_serve s c (length bs)" and run: "a_run (clock s) (dbcnt s) rs (abs_svr s) (cur c) = Some (a', i', bs)"
    and none: "fk_buf_payload_len (rbuf c) = 0" and more: "rs = [] \<or> fut \<noteq> []"
  shows "answers pm s c rs fut a' i' bs"
proof (rule answers_stop [OF _ _ st cs run more])
  show "req_loop pm s c = Some (SVR_OK, s, c)"
    using none by (simp add: req_loop.simps)
  show "progressed s c s c (abs_svr s) (cur c) []"
    using cs by (intro progressed_refl) (simp add: can_serve_def)
qed

lemma answers_part:
  assumes st: "stream_at c (as # rs) fut" and cs: "can_serve s c (length bs)"
    and run: "a_run (clock s) (dbcnt s) (as # rs) (abs_svr s) (cur c) = Some (a', i', bs)"
    and at: "parse_at c as rem" "payload (rbuf c) @ fut = rem @ enc_reqs rs"
    and len: "0 < fk_buf_payload_len (rbuf c)" "length (payload (rbuf c)) < length rem"
  shows "answers pm s c (as # rs) fut a' i' bs"
proof -
  let ?m = "length (payload (rbuf c))"
  have "buf_inv (rbuf c)"
    using st by (simp add: stream_at_def conn_inv_def)
  then have "payload (rbuf c) = take ?m (rem @ enc_reqs rs)" "?m \<le> length (rem @ enc_reqs rs)" "0 < ?m"
    using at(2) len length_payload by (metis append_eq_conv_conj, simp, simp)
  from parse_req_stream_gen [OF at(1) this] len(2)
  obtain c' rem' where c': "advanced c rem c' rem'" "fk_conn_parse_req c = Some (SVR_AGAIN, c')" "parse_at c' as rem'"
    by auto
  obtain used where "rem = used @ rem'" "payload (rbuf c) = used @ payload (rbuf c')"
    using c'(1) by (auto simp: advanced_def)
  then have "stream_at c' (as # rs) fut"
    using at(2) c'(3) st by (auto simp: stream_at_def parse_at_def)
  moreover have "req_loop pm s c = Some (SVR_OK, s, c')"
    using c'(2) len(1) by (simp add: req_loop.simps)
  moreover have "progressed s c s c' (abs_svr s) (cur c) []" "can_serve s c' (length bs)"
    using c'(1) cs by (auto simp: progressed_def reached_def advanced_def same_io_def can_serve_def unlogged_def)
  moreover have "fut \<noteq> []"
    using len(2) at(2) by (auto dest: arg_cong [where f = length])
  ultimately show ?thesis
    using answers_stop run by blast
qed

text \<open>It answers the first request and goes on with the others.\<close>

lemma answers_next:
  assumes pos: "0 < fk_buf_payload_len (rbuf c)" and parse: "fk_conn_parse_req c = Some (SVR_OK, c1)"
    and proc: "fk_conn_proc_cmd pm s c1 = Some (SVR_OK, s2, c2)" and pr: "progressed s c s2 c2 a1 i1 b1"
    and rest: "answers pm s2 c2 rs fut a' i' b2"
  shows "answers pm s c (as # rs) fut a' i' (b1 @ b2)"
proof -
  obtain dn rest s' c' a3 i3 b3 b4 where r: "rs = dn @ rest" "req_loop pm s2 c2 = Some (SVR_OK, s', c')"
    "a_run (clock s2) (dbcnt s2) rest a3 i3 = Some (a', i', b4)" "b2 = b3 @ b4"
    "progressed s2 c2 s' c' a3 i3 b3" "stream_at c' rest fut" "can_serve s' c' (length b4)" "rest = [] \<or> fut \<noteq> []"
    using rest unfolding answers_def by blast
  have "req_loop pm s c = Some (SVR_OK, s', c')"
    using parse proc r(2) pos by (simp add: req_loop.simps [of pm s c])
  moreover have "progressed s c s' c' a3 i3 (b1 @ b3)"
    using progressed_trans [OF pr r(5)] .
  moreover have "clock s2 = clock s" "dbcnt s2 = dbcnt s"
    using pr svr_rest_fields by (auto simp: progressed_def reached_def)
  ultimately show ?thesis
    unfolding answers_def using r(1,3,4,6-8)
    by (intro exI [of _ "as # dn"] exI [of _ rest] exI [of _ s'] exI [of _ c'] exI [of _ a3] exI [of _ i3] exI [of _ "b1 @ b3"] exI [of _ b4]) simp
qed

lemma req_loop_answers:
  assumes "stream_at c rs fut" and "fk_proto_init ev = Some pm"
    and "a_run (clock s) (dbcnt s) rs (abs_svr s) (cur c) = Some (a', i', bs)" and "can_serve s c (length bs)"
  shows "answers pm s c rs fut a' i' bs"
  using assms
proof (induction rs arbitrary: s c bs)
  case Nil
  then have "fk_buf_payload_len (rbuf c) = 0"
    using length_payload [of "rbuf c"] by (auto simp: stream_at_def conn_inv_def)
  then show ?case
    using answers_empty [OF Nil.prems(1,4,3)] by simp
next
  case (Cons as rs)
  obtain rem where at: "parse_at c as rem" "payload (rbuf c) @ fut = rem @ enc_reqs rs"
    using Cons.prems(1) by (auto simp: stream_at_def)
  have len: "length (payload (rbuf c)) = fk_buf_payload_len (rbuf c)"
    using Cons.prems(1) length_payload by (auto simp: stream_at_def conn_inv_def)
  consider "fk_buf_payload_len (rbuf c) = 0" | "0 < fk_buf_payload_len (rbuf c)" "length (payload (rbuf c)) < length rem"
    | "0 < fk_buf_payload_len (rbuf c)" "length rem \<le> length (payload (rbuf c))"
    by linarith
  then show ?case
  proof cases
    case 1
    then have "fut \<noteq> []"
      using len at(2) parse_at_ne [OF at(1)] by auto
    then show ?thesis
      using answers_empty [OF Cons.prems(1,4,3) 1] by simp
  next
    case 2
    then show ?thesis
      using answers_part [OF Cons.prems(1,4,3) at] by simp
  next
    case 3
    obtain a1 i1 b1 b2 where ex: "a_exec (clock s) (dbcnt s) as (abs_svr s) (cur c) = Some (a1, i1, b1)"
      "a_run (clock s) (dbcnt s) rs a1 i1 = Some (a', i', b2)" "bs = b1 @ b2"
      using Cons.prems(3) by (auto split: bind_splits)
    have "can_serve s c (length b1)"
      using Cons.prems(4) ex(3) by (simp add: can_serve_def)
    from serve_one [OF Cons.prems(1) this Cons.prems(2) ex(1) at 3(2)]
    obtain c1 s2 c2 where o: "fk_conn_parse_req c = Some (SVR_OK, c1)" "fk_conn_proc_cmd pm s c1 = Some (SVR_OK, s2, c2)"
      "stream_at c2 rs fut" "progressed s c s2 c2 a1 i1 b1" "can_serve s2 c2 0"
      by blast
    have "can_serve s2 c2 (length b2)"
      using progressed_can_serve [OF o(4,5)] Cons.prems(4) ex(3) by simp
    moreover have "a_run (clock s2) (dbcnt s2) rs (abs_svr s2) (cur c2) = Some (a', i', b2)"
      using ex(2) o(4) svr_rest_fields by (auto simp: progressed_def reached_def)
    ultimately show ?thesis
      using answers_next [OF 3(1) o(1,2,4) Cons.IH [OF o(3) Cons.prems(2)]] ex(3) by simp
  qed
qed

lemmas req_loop_stream = req_loop_answers [unfolded answers_def]

subsection \<open>One callback\<close>

lemma shift_high: "fk_buf_shift b = Some b' \<Longrightarrow> high b' \<le> high b"
  by (auto simp: fk_buf_shift_def split: if_splits bind_splits)

lemma put_high: "buf_put b bs = Some b' \<Longrightarrow> high b' \<le> high b + length bs"
  by (auto simp: buf_put_def fk_buf_high_inc_def Let_def split: bind_splits)

lemma stretch_fields: "high (fk_buf_stretch b) = high b" "highwat (fk_buf_stretch b) = highwat b"
  by (simp_all add: fk_buf_stretch_def buf_realloc_def Let_def)

lemma shrink_high: "fk_buf_shrink b = Some b' \<Longrightarrow> high b' \<le> high b"
  by (auto simp: fk_buf_shrink_def buf_realloc_def dest!: shift_high split: if_splits bind_splits)

text \<open>A socket without an end of file or an error.\<close>

fun chunks :: "sock_ev list \<Rightarrow> bool" where
  "chunks [] \<longleftrightarrow> True"
| "chunks (Chunk bs # es) \<longleftrightarrow> chunks es"
| "chunks (_ # es) \<longleftrightarrow> False"

lemma recv_chunks:
  "recv es n = (r, es') \<Longrightarrow> chunks es \<Longrightarrow> chunks es' \<and> (r = Would_block \<or> (\<exists>bs. r = Got bs))"
  by (induction es n rule: recv.induct) (auto split: if_splits)

lemma recv_data_chunks:
  assumes inv: "conn_inv c" and ch: "chunks sock" and room: "high (rbuf c) < highwat (rbuf c)"
  shows "\<exists>rc sock' b t bs. fk_conn_recv_data now sock c = Some (rc, sock', c\<lparr>rbuf := b, last_recv := t\<rparr>)
    \<and> conn_inv (c\<lparr>rbuf := b, last_recv := t\<rparr>) \<and> chunks sock' \<and> payload b = payload (rbuf c) @ bs
    \<and> sock_data sock = bs @ sock_data sock' \<and> highwat b = highwat (rbuf c) \<and> high b \<le> high (rbuf c) + length bs
    \<and> (if bs = [] then rc = SVR_AGAIN \<and> sock_data sock = [] else rc = SVR_OK \<or> rc = SVR_DONE)"
proof -
  have b: "buf_inv (rbuf c)"
    using inv by (simp add: conn_inv_def)
  obtain b1 where b1: "(if fk_buf_payload_len (rbuf c) > 3 * (blen (rbuf c) div 4)
      then fk_buf_shift (rbuf c) else Some (rbuf c)) = Some b1" "buf_inv b1" "payload b1 = payload (rbuf c)"
    "high b1 \<le> high (rbuf c)" "highwat b1 = highwat (rbuf c)"
    using shift_spec [OF b] shift_high b by (cases "fk_buf_payload_len (rbuf c) > 3 * (blen (rbuf c) div 4)") auto
  define b2 where "b2 = (if fk_buf_free_len b1 = 0 then fk_buf_stretch b1 else b1)"
  have "fk_buf_free_len b1 = 0 \<Longrightarrow> blen b1 < highwat b1"
    using b1(2,4,5) room by (auto simp: fk_buf_free_len_def buf_inv_def)
  then have b2: "buf_inv b2" "payload b2 = payload (rbuf c)" "high b2 \<le> high (rbuf c)" "highwat b2 = highwat (rbuf c)"
    "fk_buf_free_len b2 \<noteq> 0"
    using b1 buf_stretch_spec [OF b1(2)] stretch_fields [of b1] by (auto simp: b2_def)
  obtain r sock' where r: "recv sock (fk_buf_free_len b2) = (r, sock')"
    by fastforce
  then consider (block) "r = Would_block" | (got) bs where "r = Got bs"
    using recv_chunks [OF r ch] by blast
  then show ?thesis
  proof cases
    case block
    then have "fk_conn_recv_data now sock c = Some (SVR_AGAIN, sock', c\<lparr>rbuf := b2, last_recv := last_recv c\<rparr>)"
      using b1(1) b2(5) r by (simp add: fk_conn_recv_data_def Let_def flip: b2_def)
    moreover have "sock_data sock = [] @ sock_data sock'" "sock_data sock = []"
      using recv_other [OF r] block by simp_all
    ultimately show ?thesis
      using recv_chunks [OF r ch] b2 conn_inv_rbuf [OF inv b2(1), of "last_recv c"]
      by (intro exI [of _ SVR_AGAIN] exI [of _ sock'] exI [of _ b2] exI [of _ "last_recv c"] exI [of _ "[]"]) simp
  next
    case got
    then have bs: "bs \<noteq> []" "length bs \<le> fk_buf_free_len b2" "sock_data sock = bs @ sock_data sock'"
      using recv_got r b2(5) by auto
    obtain b3 where b3: "buf_put b2 bs = Some b3" "buf_inv b3" "payload b3 = payload b2 @ bs" "highwat b3 = highwat b2"
      using put_spec [OF b2(1) bs(2)] by blast
    have "fk_conn_recv_data now sock c
        = Some (if length bs < fk_buf_free_len b2 then SVR_DONE else SVR_OK, sock', c\<lparr>rbuf := b3, last_recv := now\<rparr>)"
      using b1(1) b2(5) r got b3(1) by (simp add: fk_conn_recv_data_def Let_def flip: b2_def)
    moreover have "high b3 \<le> high (rbuf c) + length bs"
      using put_high [OF b3(1)] b2(3) by simp
    ultimately show ?thesis
      using bs b3 b2 recv_chunks [OF r ch] conn_inv_rbuf [OF inv b3(2)]
      by (intro exI [of _ "if length bs < fk_buf_free_len b2 then SVR_DONE else SVR_OK"] exI [of _ sock'] exI [of _ b3]
          exI [of _ now] exI [of _ bs]) simp
  qed
qed

lemma stream_at_recv:
  assumes "stream_at c rs (bs @ fut)" and "conn_inv (c\<lparr>rbuf := b, last_recv := t\<rparr>)" and "payload b = payload (rbuf c) @ bs"
  shows "stream_at (c\<lparr>rbuf := b, last_recv := t\<rparr>) rs fut"
proof -
  have "parse_at (c\<lparr>rbuf := b, last_recv := t\<rparr>) as rem" if "parse_at c as rem" for as rem
    using that assms(2) by (auto simp: parse_at_def args_inv_def)
  then show ?thesis
    using assms by (auto simp: stream_at_def split: list.splits)
qed

text \<open>What is still to be done after some requests were served: the rest of the stream has the
  remaining meaning.\<close>

definition remaining :: "fk_svr \<Rightarrow> fk_conn \<Rightarrow> string list list \<Rightarrow> string \<Rightarrow> astate \<Rightarrow> nat \<Rightarrow> string \<Rightarrow> bool" where
  "remaining s c rs fut a' i' bs \<longleftrightarrow> stream_at c rs fut \<and> can_serve s c (length bs)
     \<and> a_run (clock s) (dbcnt s) rs (abs_svr s) (cur c) = Some (a', i', bs)"

lemma req_loop_remaining:
  assumes "remaining s c rs fut a' i' bs" and "fk_proto_init ev = Some pm"
  shows "\<exists>rest s' c' a1 i1 b1 b2. req_loop pm s c = Some (SVR_OK, s', c') \<and> bs = b1 @ b2
    \<and> progressed s c s' c' a1 i1 b1 \<and> remaining s' c' rest fut a' i' b2 \<and> (rest = [] \<or> fut \<noteq> [])
    \<and> (\<exists>dn. rs = dn @ rest)"
proof -
  obtain rest s' c' a1 i1 b1 b2 dn where r: "req_loop pm s c = Some (SVR_OK, s', c')"
    "a_run (clock s) (dbcnt s) rest a1 i1 = Some (a', i', b2)" "bs = b1 @ b2"
    "progressed s c s' c' a1 i1 b1" "stream_at c' rest fut" "can_serve s' c' (length b2)" "rest = [] \<or> fut \<noteq> []" "rs = dn @ rest"
    using req_loop_stream [of c rs fut ev pm s a' i' bs] assms unfolding remaining_def by blast
  moreover have "clock s' = clock s" "dbcnt s' = dbcnt s" "abs_svr s' = a1" "cur c' = i1"
    using r(4) svr_rest_fields by (auto simp: progressed_def reached_def)
  ultimately have "remaining s' c' rest fut a' i' b2"
    by (simp add: remaining_def)
  then show ?thesis
    using r(1,3,4,7,8) by blast
qed

text \<open>The outer loop: it always returns, reads at least a byte when there is one, and serves what it read.\<close>

text \<open>What arrives is added to what is left of the stream.\<close>

lemma recv_remaining:
  assumes rem: "remaining s c rs (sock_data sock @ fut) a' i' bs" and ch: "chunks sock" and room: "high (rbuf c) < highwat (rbuf c)"
  obtains rc sock1 c1 ds where "fk_conn_recv_data t sock c = Some (rc, sock1, c1)" "chunks sock1" "sock_data sock = ds @ sock_data sock1"
    "high (rbuf c1) \<le> high (rbuf c) + length ds" "if ds = [] then rc = SVR_AGAIN \<and> sock_data sock = [] else rc = SVR_OK \<or> rc = SVR_DONE"
    "remaining s c1 rs (sock_data sock1 @ fut) a' i' bs" "reached s c s c1 (abs_svr s) (cur c) []"
proof -
  have inv: "conn_inv c"
    using rem by (simp add: remaining_def stream_at_def)
  from recv_data_chunks [OF inv ch room, of t]
  obtain rc sock1 b u ds where r: "fk_conn_recv_data t sock c = Some (rc, sock1, c\<lparr>rbuf := b, last_recv := u\<rparr>)"
    "conn_inv (c\<lparr>rbuf := b, last_recv := u\<rparr>)" "chunks sock1" "payload b = payload (rbuf c) @ ds"
    "sock_data sock = ds @ sock_data sock1" "highwat b = highwat (rbuf c)" "high b \<le> high (rbuf c) + length ds"
    "if ds = [] then rc = SVR_AGAIN \<and> sock_data sock = [] else rc = SVR_OK \<or> rc = SVR_DONE"
    by blast
  have "remaining s (c\<lparr>rbuf := b, last_recv := u\<rparr>) rs (sock_data sock1 @ fut) a' i' bs"
    using rem stream_at_recv [of c rs ds "sock_data sock1 @ fut", OF _ r(2,4)] r(5) by (auto simp: remaining_def can_serve_def unlogged_def)
  moreover have "reached s c s (c\<lparr>rbuf := b, last_recv := u\<rparr>) (abs_svr s) (cur c) []"
    using rem r(6) by (auto simp: reached_def remaining_def can_serve_def)
  ultimately show thesis
    using that [OF r(1,3,5) _ r(8)] r(7) by simp
qed

text \<open>The result of the outer loop, and the result when its first turn leads to the next.\<close>

definition reads :: "pmap \<Rightarrow> (nat \<Rightarrow> int) \<Rightarrow> nat \<Rightarrow> sock_ev list \<Rightarrow> fk_svr \<Rightarrow> fk_conn \<Rightarrow> string \<Rightarrow> astate \<Rightarrow> nat \<Rightarrow> string \<Rightarrow> bool" where
  "reads pm now n sock s c fut a' i' bs \<longleftrightarrow> (\<exists>rest sock' s' c' a1 i1 b1 b2. read_loop pm now n sock s c = Some (SVR_OK, sock', s', c') \<and> chunks sock'
    \<and> length (sock_data sock') \<le> length (sock_data sock) - 1 \<and> bs = b1 @ b2
    \<and> high (rbuf c') + length (sock_data sock') \<le> high (rbuf c) + length (sock_data sock)
    \<and> reached s c s' c' a1 i1 b1 \<and> remaining s' c' rest (sock_data sock' @ fut) a' i' b2
    \<and> (rest = [] \<or> sock_data sock' @ fut \<noteq> []))"

lemma reads_next:
  assumes step: "read_loop pm now n sock s c = read_loop pm now k sock1 s2 c2" and re: "reached s c s2 c2 a2 i2 b1"
    and len: "length (sock_data sock1) < length (sock_data sock)"
      "high (rbuf c2) + length (sock_data sock1) \<le> high (rbuf c) + length (sock_data sock)"
    and next_reads: "reads pm now k sock1 s2 c2 fut a' i' b2"
  shows "reads pm now n sock s c fut a' i' (b1 @ b2)"
proof -
  obtain rest sock' s' c' a3 i3 b3 b4 where r: "read_loop pm now k sock1 s2 c2 = Some (SVR_OK, sock', s', c')"
    "chunks sock'" "length (sock_data sock') \<le> length (sock_data sock1) - 1" "b2 = b3 @ b4"
    "high (rbuf c') + length (sock_data sock') \<le> high (rbuf c2) + length (sock_data sock1)"
    "reached s2 c2 s' c' a3 i3 b3" "remaining s' c' rest (sock_data sock' @ fut) a' i' b4" "rest = [] \<or> sock_data sock' @ fut \<noteq> []"
    using next_reads unfolding reads_def by blast
  have "length (sock_data sock') \<le> length (sock_data sock) - 1"
    using r(3) len(1) by linarith
  then show ?thesis
    unfolding reads_def using r step reached_trans [OF re r(6)] len(2)
    by (intro exI [of _ rest] exI [of _ sock'] exI [of _ s'] exI [of _ c'] exI [of _ a3] exI [of _ i3] exI [of _ "b1 @ b3"] exI [of _ b4]) auto
qed

lemma read_loop_reads:
  assumes "remaining s c rs (sock_data sock @ fut) a' i' bs" and "fk_proto_init ev = Some pm" and "chunks sock"
    and "high (rbuf c) + length (sock_data sock) < highwat (rbuf c)" and "rs = [] \<or> sock_data sock @ fut \<noteq> []"
  shows "reads pm now n sock s c fut a' i' bs"
  using assms
proof (induction "length (sock_data sock)" arbitrary: sock s c rs bs n rule: less_induct)
  case less
  have "high (rbuf c) < highwat (rbuf c)"
    using less.prems(4) by simp
  from recv_remaining [OF less.prems(1,3) this, where t = "now n"]
  obtain rc sock1 c1 ds where r: "fk_conn_recv_data (now n) sock c = Some (rc, sock1, c1)" "chunks sock1"
    "sock_data sock = ds @ sock_data sock1" "high (rbuf c1) \<le> high (rbuf c) + length ds"
    "if ds = [] then rc = SVR_AGAIN \<and> sock_data sock = [] else rc = SVR_OK \<or> rc = SVR_DONE"
    and rem1: "remaining s c1 rs (sock_data sock1 @ fut) a' i' bs" and re1: "reached s c s c1 (abs_svr s) (cur c) []"
    by blast
  show ?case
  proof (cases "ds = []")
    case True
    then have "read_loop pm now n sock s c = Some (SVR_OK, sock1, s, c1)"
      using r(1,5) by (simp add: read_loop.simps)
    then show ?thesis
      unfolding reads_def using True r rem1 re1 less.prems(5)
      by (intro exI [of _ rs] exI [of _ sock1] exI [of _ s] exI [of _ c1] exI [of _ "abs_svr s"] exI [of _ "cur c"]
          exI [of _ "[]"] exI [of _ bs]) auto
  next
    case False
    obtain rest s2 c2 a2 i2 b1 b2 where l: "req_loop pm s c1 = Some (SVR_OK, s2, c2)" "bs = b1 @ b2"
      "progressed s c1 s2 c2 a2 i2 b1" "remaining s2 c2 rest (sock_data sock1 @ fut) a' i' b2" "rest = [] \<or> sock_data sock1 @ fut \<noteq> []"
      using req_loop_remaining [OF rem1 less.prems(2)] by blast
    have re2: "reached s c s2 c2 a2 i2 b1"
      using reached_trans [OF re1, of s2 c2 a2 i2 b1] l(3) by (simp add: progressed_def)
    have hi: "high (rbuf c2) + length (sock_data sock1) \<le> high (rbuf c) + length (sock_data sock)" and hw: "highwat (rbuf c2) = highwat (rbuf c)"
      and shorter: "length (sock_data sock1) < length (sock_data sock)"
      using l(3) r(3,4) re2 False by (auto simp: progressed_def reached_def)
    show ?thesis
    proof (cases "rc = SVR_DONE")
      case True
      then have "read_loop pm now n sock s c = Some (SVR_OK, sock1, s2, c2)"
        using r(1) l(1) by (simp add: read_loop.simps)
      moreover have "length (sock_data sock1) \<le> length (sock_data sock) - 1"
        using shorter by linarith
      ultimately show ?thesis
        unfolding reads_def using r(2) hi re2 l(2,4,5) by blast
    next
      case not_done: False
      then have "read_loop pm now n sock s c = read_loop pm now (Suc n) sock1 s2 c2"
        using r(1,5) l(1) False by (subst read_loop.simps) simp
      from reads_next [OF this re2 shorter hi less.hyps [OF shorter l(4) less.prems(2) r(2) _ l(5)]] show ?thesis
        using hi hw less.prems(4) l(2) by simp
    qed
  qed
qed

lemmas read_loop_remaining = read_loop_reads [unfolded reads_def]

lemma get_put_conn:
  assumes "get_conn s i = Some c" and "svr_rest s s1"
  shows "\<exists>s2. put_conn s1 i c' = Some s2 \<and> get_conn s2 i = Some c' \<and> (\<exists>t. s2 = s1\<lparr>conns_tab := t\<rparr>)"
proof -
  have i: "i < length (conns_tab s1)"
    using assms svr_rest_fields [OF assms(2)] by (auto simp: get_conn_def nth_opt_def split: bind_splits if_splits)
  then have "put_conn s1 i c' = Some (s1\<lparr>conns_tab := (conns_tab s1)[i := Some c']\<rparr>)"
    by (simp add: put_conn_def upd_opt_def)
  moreover have "get_conn (s1\<lparr>conns_tab := (conns_tab s1)[i := Some c']\<rparr>) i = Some c'"
    using i by (simp add: get_conn_def nth_opt_def)
  ultimately show ?thesis by blast
qed

text \<open>Later states of the server and the connection, as far as the stream is concerned.\<close>

definition later :: "fk_svr \<Rightarrow> fk_conn \<Rightarrow> fk_svr \<Rightarrow> fk_conn \<Rightarrow> string \<Rightarrow> bool" where
  "later s c s' c' bs \<longleftrightarrow> clock s' = clock s \<and> dbcnt s' = dbcnt s \<and> out c' = out c @ bs
     \<and> highwat (rbuf c') = highwat (rbuf c)"

lemma read_cb_remaining:
  assumes g: "get_conn s i = Some c" and rm: "remaining s c rs (sock_data sock @ fut) a' i' bs"
    and pm: "fk_proto_init ev = Some pm" and ch: "chunks sock"
    and room: "high (rbuf c) + length (sock_data sock) < highwat (rbuf c)" and se: "rs = [] \<or> sock_data sock @ fut \<noteq> []"
  shows "\<exists>rest sock' s' c' b1 b2. fk_conn_read_cb pm now sock i s = Some (sock', s') \<and> get_conn s' i = Some c' \<and> chunks sock'
    \<and> length (sock_data sock') \<le> length (sock_data sock) - 1 \<and> bs = b1 @ b2
    \<and> high (rbuf c') + length (sock_data sock') \<le> high (rbuf c) + length (sock_data sock)
    \<and> later s c s' c' b1 \<and> remaining s' c' rest (sock_data sock' @ fut) a' i' b2
    \<and> (rest = [] \<or> sock_data sock' @ fut \<noteq> [])"
proof -
  obtain rest sock' s1 c1 a1 i1 b1 b2 where l: "read_loop pm now 0 sock s c = Some (SVR_OK, sock', s1, c1)" "chunks sock'"
    "length (sock_data sock') \<le> length (sock_data sock) - 1" "bs = b1 @ b2"
    "high (rbuf c1) + length (sock_data sock') \<le> high (rbuf c) + length (sock_data sock)"
    "reached s c s1 c1 a1 i1 b1" "remaining s1 c1 rest (sock_data sock' @ fut) a' i' b2"
    "rest = [] \<or> sock_data sock' @ fut \<noteq> []"
    using read_loop_remaining [OF rm pm ch room se] by blast
  have inv: "conn_inv c1"
    using l(7) by (simp add: remaining_def stream_at_def)
  then obtain b where b: "fk_buf_shrink (rbuf c1) = Some b" "buf_inv b" "payload b = payload (rbuf c1)"
    "highwat b = highwat (rbuf c1)"
    using shrink_spec [of "rbuf c1"] by (auto simp: conn_inv_def)
  obtain w where w: "fk_conn_send_rsp c1 = Some (SVR_OK, c1\<lparr>rbuf := b, write_added := w\<rparr>)"
  proof
    show "fk_conn_send_rsp c1 = Some (SVR_OK, c1\<lparr>rbuf := b,
        write_added := if fk_buf_payload_len (wbuf c1) > 0 \<and> write_added c1 = 0 then 1 else write_added c1\<rparr>)"
      using b(1) by (simp add: fk_conn_send_rsp_def)
  qed
  let ?c = "c1\<lparr>rbuf := b, write_added := w\<rparr>"
  have rest: "svr_rest s s1"
    using l(6) by (simp add: reached_def)
  obtain s2 t where s2: "put_conn s1 i ?c = Some s2" "get_conn s2 i = Some ?c" "s2 = s1\<lparr>conns_tab := t\<rparr>"
    using get_put_conn [OF g rest] by blast
  have "conn_inv ?c"
    using inv b(2) by (auto simp: conn_inv_def args_inv_def)
  then have "stream_at ?c rest (sock_data sock' @ fut)"
    using l(7) b(3) by (auto simp: remaining_def stream_at_def parse_at_def args_inv_def split: list.splits)
  then have "remaining s2 ?c rest (sock_data sock' @ fut) a' i' b2"
    using l(7) s2(3) by (auto simp: remaining_def can_serve_def unlogged_def svr_inv_def abs_svr_def)
  moreover have "later s c s2 ?c b1"
    using l(6) b(4) s2(3) svr_rest_fields [OF rest] by (auto simp: later_def reached_def)
  moreover have "fk_conn_read_cb pm now sock i s = Some (sock', s2)"
    using g l(1) w s2(1) by (simp add: fk_conn_read_cb_def)
  moreover have "high (rbuf ?c) + length (sock_data sock') \<le> high (rbuf c) + length (sock_data sock)"
    using l(5) shrink_high [OF b(1)] by simp
  ultimately show ?thesis
    using s2(2) l(2,3,4,8) by blast
qed

subsection \<open>Callbacks until the socket is drained\<close>

text \<open>The event loop calls the read callback of a connection as long as its socket is readable.\<close>

fun serve :: "nat \<Rightarrow> pmap \<Rightarrow> (nat \<Rightarrow> nat \<Rightarrow> int) \<Rightarrow> sock_ev list \<Rightarrow> nat \<Rightarrow> fk_svr \<Rightarrow> (sock_ev list \<times> fk_svr) option" where
  "serve 0 pm now sock i s = Some (sock, s)"
| "serve (Suc k) pm now sock i s =
     do { (sock', s') \<leftarrow> fk_conn_read_cb pm (now k) sock i s; serve k pm now sock' i s' }"

lemma serve_remaining:
  assumes "get_conn s i = Some c" and "remaining s c rs (sock_data sock) a' i' bs" and "fk_proto_init ev = Some pm"
    and "chunks sock" and "high (rbuf c) + length (sock_data sock) < highwat (rbuf c)"
    and "rs = [] \<or> sock_data sock \<noteq> []" and "length (sock_data sock) \<le> k"
  shows "\<exists>sock' s' c'. serve k pm now sock i s = Some (sock', s') \<and> get_conn s' i = Some c' \<and> sock_data sock' = []
    \<and> out c' = out c @ bs \<and> remaining s' c' [] [] a' i' []"
  using assms
proof (induction k arbitrary: sock s c rs bs)
  case 0
  then have "rs = []" "sock_data sock = []"
    by auto
  then show ?case
    using 0 by (auto simp: remaining_def)
next
  case (Suc k)
  have "remaining s c rs (sock_data sock @ []) a' i' bs" "rs = [] \<or> sock_data sock @ [] \<noteq> []"
    using Suc.prems(2,6) by simp_all
  from read_cb_remaining [OF Suc.prems(1) this(1) Suc.prems(3,4,5) this(2), of "now k"]
  obtain rest sock' s' c' b1 b2 where r: "fk_conn_read_cb pm (now k) sock i s = Some (sock', s')" "get_conn s' i = Some c'"
    "chunks sock'" "length (sock_data sock') \<le> length (sock_data sock) - 1" "bs = b1 @ b2"
    "high (rbuf c') + length (sock_data sock') \<le> high (rbuf c) + length (sock_data sock)"
    "later s c s' c' b1" "remaining s' c' rest (sock_data sock') a' i' b2" "rest = [] \<or> sock_data sock' \<noteq> []"
    by auto
  have "length (sock_data sock') \<le> k" "high (rbuf c') + length (sock_data sock') < highwat (rbuf c')"
    using r(4,6,7) Suc.prems(5,7) by (auto simp: later_def)
  from Suc.IH [OF r(2,8) Suc.prems(3) r(3) this(2) r(9) this(1)]
  show ?case
    using r(1,5,7) by (auto simp: later_def)
qed


definition svr_conn :: "fk_conn \<Rightarrow> fk_svr" where
  "svr_conn c = (svr_fresh 1 0)\<lparr>conns_tab := [Some c], conn_cnt := 1\<rparr>"

lemma svr_conn_facts:
  "svr_inv (svr_conn c)" "dbcnt (svr_conn c) = 1" "get_conn (svr_conn c) 0 = Some c" "\<And>c'. unlogged (svr_conn c) c'"
  "a_dbs (abs_svr (svr_conn c)) = [Map.empty]" "a_exps (abs_svr (svr_conn c)) = [Map.empty]"
  using svr_inv_fresh [of 1 0]
  by (simp_all add: svr_conn_def svr_inv_def svr_fresh_def get_conn_def nth_opt_def abs_svr_def unlogged_def)


section \<open>The read buffer at its limit\<close>

text \<open>A connection whose read buffer was filled to the high-water mark and then consumed completely is closed:
  \<^verbatim>\<open>fk_conn_recv_data\<close> neither shifts (there is no payload) nor stretches (the limit is reached) and
  reports an error, although the buffer holds nothing unread.\<close>

theorem recv_full_consumed:
  assumes "low (rbuf c) = high (rbuf c)" and "high (rbuf c) = blen (rbuf c)" and "highwat (rbuf c) \<le> blen (rbuf c)"
  shows "fk_conn_recv_data now sock c = Some (SVR_ERR, sock, c) \<and> payload (rbuf c) = []"
  using assms by (simp add: fk_conn_recv_data_def fk_buf_payload_len_def fk_buf_free_len_def fk_buf_stretch_def payload_def)

theorem recv_full_consumed_witness:
  "\<exists>c. conn_inv c \<and> highwat (rbuf c) = FK_BUF_HIGHWAT
     \<and> fk_conn_recv_data 0 [Chunk ''*1''] c = Some (SVR_ERR, [Chunk ''*1''], c) \<and> payload (rbuf c) = []"
proof -
  let ?b = "\<lparr>highwat = FK_BUF_HIGHWAT, init_len = 16, blen = FK_BUF_HIGHWAT, low = FK_BUF_HIGHWAT, high = FK_BUF_HIGHWAT,
     buffer = replicate FK_BUF_HIGHWAT (CHR 0x00), fresh = (\<lambda>_. CHR 0x00)\<rparr>"
  let ?c = "(conn_with [])\<lparr>rbuf := ?b\<rparr>"
  have "buf_inv ?b"
    unfolding buf_inv_def by (simp add: fk_consts)
  then have "conn_inv ?c"
    using conn_with_facts(1) [of "[]"] by (auto simp: conn_inv_def args_inv_def)
  moreover have "fk_conn_recv_data 0 [Chunk ''*1''] ?c = Some (SVR_ERR, [Chunk ''*1''], ?c) \<and> payload (rbuf ?c) = []"
    by (rule recv_full_consumed) simp_all
  moreover have "highwat (rbuf ?c) = FK_BUF_HIGHWAT"
    by simp
  ultimately show ?thesis
    by blast
qed

section \<open>Sending\<close>

lemma write_loop_spec:
  assumes "buf_inv b"
  shows "\<exists>ok wire' b'. write_loop evs wire b = (ok, wire', b') \<and> buf_inv b' \<and> wire' @ payload b' = wire @ payload b
    \<and> (\<not> ok \<longrightarrow> Send_fail \<in> set evs) \<and> highwat b' = highwat b"
  using assms
proof (induction evs arbitrary: wire b)
  case Nil
  then show ?case by (subst write_loop.simps) auto
next
  case (Cons e evs)
  show ?case
  proof (cases "fk_buf_payload_len b > 0")
    case False
    then show ?thesis
      using Cons.prems by (subst write_loop.simps) auto
  next
    case True
    show ?thesis
    proof (cases e)
      case Send_fail
      then show ?thesis
        using True Cons.prems by (subst write_loop.simps) auto
    next
      case (Sent n)
      let ?k = "min n (fk_buf_payload_len b)"
      have "?k \<le> length (payload b)"
        using length_payload [OF Cons.prems] by simp
      then have b': "buf_inv (fk_buf_low_inc b ?k)" "payload (fk_buf_low_inc b ?k) = drop ?k (payload b)"
        using low_inc_spec [OF Cons.prems, of ?k] by simp_all
      from Cons.IH [OF b'(1), of "wire @ take ?k (payload b)"]
      show ?thesis
        using True Sent b'(2) by (subst write_loop.simps) (auto simp: Let_def)
    qed
  qed
qed

text \<open>A table of connections: an entry's descriptor is its index, and the counter counts the entries.\<close>

definition tab_inv :: "fk_svr \<Rightarrow> bool" where
  "tab_inv s \<longleftrightarrow> (\<forall>i c. get_conn s i = Some c \<longrightarrow> conn_inv c \<and> fd c = int i)
     \<and> conn_cnt s = int (length (filter (\<lambda>p. p \<noteq> None) (conns_tab s)))"

lemma get_conn_lt: "get_conn s i = Some c \<Longrightarrow> i < length (conns_tab s) \<and> conns_tab s ! i = Some c"
  by (auto simp: get_conn_def nth_opt_def split: bind_splits if_splits)

lemma get_conn_update:
  "get_conn (s\<lparr>conns_tab := (conns_tab s)[i := p], conn_cnt := n\<rparr>) j
     = (if j = i \<and> i < length (conns_tab s) then p else get_conn s j)"
  by (auto simp: get_conn_def nth_opt_def)

lemma filter_update:
  assumes "i < length xs"
  shows "length (filter P (xs[i := x])) + (if P (xs ! i) then 1 else 0) = length (filter P xs) + (if P x then 1 else 0)"
  using assms
proof (induction xs arbitrary: i)
  case (Cons y ys)
  then show ?case by (cases i) auto
qed simp

lemma tab_inv_update:
  assumes inv: "tab_inv s" and i: "i < length (conns_tab s)" and p: "\<forall>c. p = Some c \<longrightarrow> conn_inv c \<and> fd c = int i"
    and n: "n = conn_cnt s + (if p = None then 0 else 1) - (if conns_tab s ! i = None then 0 else 1)"
  shows "tab_inv (s\<lparr>conns_tab := (conns_tab s)[i := p], conn_cnt := n\<rparr>)"
proof -
  have "\<forall>j c. get_conn (s\<lparr>conns_tab := (conns_tab s)[i := p], conn_cnt := n\<rparr>) j = Some c \<longrightarrow> conn_inv c \<and> fd c = int j"
    using inv p unfolding get_conn_update tab_inv_def by auto
  moreover have "n = int (length (filter (\<lambda>p. p \<noteq> None) ((conns_tab s)[i := p])))"
    using filter_update [OF i, of "\<lambda>p. p \<noteq> None" p] inv n unfolding tab_inv_def by (auto split: if_splits)
  ultimately show ?thesis
    by (simp add: tab_inv_def)
qed

lemma remove_conn_spec:
  assumes inv: "tab_inv s" and g: "get_conn s i = Some c" and c': "conn_inv c'" "fd c' = fd c"
  shows "\<exists>s'. fk_svr_remove_conn c' s = Some s' \<and> tab_inv s' \<and> get_conn s' i = None \<and> conn_cnt s' = conn_cnt s - 1
    \<and> (\<exists>t n. s' = s\<lparr>conns_tab := t, conn_cnt := n\<rparr>)"
proof -
  let ?s = "s\<lparr>conns_tab := (conns_tab s)[i := None], conn_cnt := conn_cnt s - 1\<rparr>"
  have i: "i < length (conns_tab s)" "conns_tab s ! i = Some c" "fd c' = int i"
    using get_conn_lt [OF g] inv g c'(2) by (auto simp: tab_inv_def)
  have "fk_conn_destroy c' = Some ()"
    using free_args_spec [OF c'(1)] by (auto simp: fk_conn_destroy_def)
  then have "fk_svr_remove_conn c' s = Some ?s"
    using i by (simp add: fk_svr_remove_conn_def upd_opt_def)
  moreover have "tab_inv ?s"
    using i by (intro tab_inv_update [OF inv]) auto
  moreover have "get_conn ?s i = None"
    using i(1) unfolding get_conn_update by simp
  moreover have "conn_cnt ?s = conn_cnt s - 1" "\<exists>t n. ?s = s\<lparr>conns_tab := t, conn_cnt := n\<rparr>"
    by auto
  ultimately show ?thesis
    by blast
qed

text \<open>
  C9. Replies are sent completely and in order: whatever the successive results of \<^verbatim>\<open>send\<close> are, what the peer
  has received followed by what is still queued is what it had received followed by what was queued.
  The write event stays registered exactly while something is queued. Only a failing \<^verbatim>\<open>send\<close> removes the
  connection, and then the peer got a prefix.\<close>

theorem write_cb_in_order:
  assumes "tab_inv s" and "get_conn s i = Some c" and "write_added c = 1"
  shows "\<exists>wire' s'. fk_conn_write_cb evs wire i s = Some (wire', s') \<and> tab_inv s'
    \<and> (case get_conn s' i of
         Some c' \<Rightarrow> wire' @ out c' = wire @ out c \<and> (write_added c' = (if out c' = [] then 0 else 1)) \<and> conn_cnt s' = conn_cnt s
       | None \<Rightarrow> Send_fail \<in> set evs \<and> conn_cnt s' = conn_cnt s - 1 \<and> (\<exists>q. wire' @ q = wire @ out c))"
proof -
  have c: "conn_inv c" "fd c = int i" "buf_inv (wbuf c)"
    using assms(1,2) by (auto simp: tab_inv_def conn_inv_def)
  obtain ok wire' b where w: "write_loop evs wire (wbuf c) = (ok, wire', b)" "buf_inv b" "wire' @ payload b = wire @ out c"
    "\<not> ok \<longrightarrow> Send_fail \<in> set evs"
    using write_loop_spec [OF c(3), of evs wire] by blast
  have upd: "conn_inv (c\<lparr>wbuf := x, write_added := n\<rparr>)" "conn_inv (c\<lparr>wbuf := x\<rparr>)" if "buf_inv x" for x n
    using c(1) that by (auto simp: conn_inv_def args_inv_def)
  show ?thesis
  proof (cases ok)
    case False
    obtain s' where "fk_svr_remove_conn (c\<lparr>wbuf := b\<rparr>) s = Some s'" "tab_inv s'" "get_conn s' i = None" "conn_cnt s' = conn_cnt s - 1"
      using remove_conn_spec [OF assms(1,2) upd(2) [OF w(2)]] by auto
    then show ?thesis
      using assms(2) w False by (auto simp: fk_conn_write_cb_def)
  next
    case True
    obtain b' where b': "fk_buf_shrink b = Some b'" "buf_inv b'" "payload b' = payload b"
      using shrink_spec [OF w(2)] by blast
    let ?c = "if fk_buf_payload_len b' = 0 then c\<lparr>wbuf := b', write_added := 0\<rparr> else c\<lparr>wbuf := b'\<rparr>"
    let ?s = "s\<lparr>conns_tab := (conns_tab s)[i := Some ?c], conn_cnt := conn_cnt s\<rparr>"
    have i: "i < length (conns_tab s)" "conns_tab s ! i = Some c"
      using get_conn_lt [OF assms(2)] by auto
    have "fk_conn_write_cb evs wire i s = Some (wire', ?s)"
      using assms(2) w(1) True b'(1) i(1) by (simp add: fk_conn_write_cb_def put_conn_def upd_opt_def)
    moreover have "tab_inv ?s"
      using i c(2) upd b'(2) by (intro tab_inv_update [OF assms(1)]) auto
    moreover have "get_conn ?s i = Some ?c"
      using i(1) unfolding get_conn_update by simp
    moreover have "payload b' = [] \<longleftrightarrow> fk_buf_payload_len b' = 0"
      using length_payload [OF b'(2)] by (metis length_0_conv)
    ultimately show ?thesis
      using w(3) b'(3) assms(3) by auto
  qed
qed

theorem write_cb_in_order_witness:
  "\<exists>c wire' s'. out c = ''abc'' \<and> fk_conn_write_cb [Sent 2] [] 0 (svr_conn c) = Some (wire', s')
     \<and> (case get_conn s' 0 of Some c' \<Rightarrow> wire' @ out c' = ''abc'' | None \<Rightarrow> Send_fail \<in> {Sent 2})"
proof -
  let ?c = "(conn_with [])\<lparr>fd := 0, write_added := 1, wbuf := (rbuf (conn_with ''abc''))\<rparr>"
  have o: "out ?c = ''abc''"
    using conn_with_facts(2) [of "''abc''"] by simp
  have "conn_inv ?c"
    using conn_with_facts(1) [of "[]"] conn_with_facts(1) [of "''abc''"] by (auto simp: conn_inv_def args_inv_def)
  then have t: "tab_inv (svr_conn ?c)"
    by (auto simp: tab_inv_def svr_conn_def get_conn_def nth_opt_def split: if_splits bind_splits)
  have "write_added ?c = 1"
    by simp
  from write_cb_in_order [OF t svr_conn_facts(3) this, of "[Sent 2]" "[]"] o
  show ?thesis
    by (intro exI [of _ ?c]) (auto split: option.splits)
qed

section \<open>Accepting\<close>

text \<open>The descriptors that \<^verbatim>\<open>accept\<close> returns are unused indices of the table, which has room for all
  descriptors of the process (\<^verbatim>\<open>fk_util_conns_to_files\<close>). \<open>U\<close> are the used ones and \<open>free\<close> is the number of connections
  that are still allowed; a connection beyond the limit is closed at once, so its descriptor
  is unused again.\<close>

fun accepts_ok :: "accept_ev list \<Rightarrow> nat \<Rightarrow> nat set \<Rightarrow> int \<Rightarrow> bool" where
  "accepts_ok [] n U free \<longleftrightarrow> True"
| "accepts_ok (Accepted fd0 # evs) n U free \<longleftrightarrow>
     0 \<le> fd0 \<and> nat fd0 < n \<and> nat fd0 \<notin> U
     \<and> (if free = 0 then accepts_ok evs n U free else accepts_ok evs n (insert (nat fd0) U) (free - 1))"
| "accepts_ok (Acc_intr # evs) n U free \<longleftrightarrow> accepts_ok evs n U free"
| "accepts_ok (Acc_error # evs) n U free \<longleftrightarrow> False"

lemma create_spec:
  assumes "16 \<le> w"
  shows "\<exists>c. fk_conn_create fr w now fd0 = Some c \<and> conn_inv c \<and> fd c = fd0 \<and> last_recv c = now \<and> out c = []
    \<and> payload (rbuf c) = [] \<and> parse_done c = 0 \<and> arg_parsed c = 0 \<and> db_idx c = 0"
  using assms
  by (auto simp: fk_conn_create_def fk_buf_create_def conn_inv_def buf_inv_def args_inv_def vtr_inv_def
      fk_vtr_create_def payload_def fk_consts intro!: exI [of _ "[]"])

lemma add_conn_spec:
  assumes inv: "tab_inv s" and i: "0 \<le> fd0" "nat fd0 < length (conns_tab s)" "conns_tab s ! nat fd0 = None"
    and w: "16 \<le> max_wbuf (setting s)"
  shows "\<exists>c. fk_svr_add_conn fr now fd0 s = Some (s\<lparr>conns_tab := (conns_tab s)[nat fd0 := Some c], conn_cnt := conn_cnt s + 1\<rparr>)
    \<and> tab_inv (s\<lparr>conns_tab := (conns_tab s)[nat fd0 := Some c], conn_cnt := conn_cnt s + 1\<rparr>) \<and> out c = [] \<and> parse_done c = 0
    \<and> arg_parsed c = 0"
proof -
  obtain c where c: "fk_conn_create fr (max_wbuf (setting s)) now fd0 = Some c" "conn_inv c" "fd c = fd0" "out c = []"
    "parse_done c = 0" "arg_parsed c = 0"
    using create_spec [OF w] by blast
  have "tab_inv (s\<lparr>conns_tab := (conns_tab s)[nat fd0 := Some c], conn_cnt := conn_cnt s + 1\<rparr>)"
    using i c by (intro tab_inv_update [OF inv]) auto
  then show ?thesis
    using c i by (auto simp: fk_svr_add_conn_def upd_opt_def)
qed

definition used_fds :: "fk_svr \<Rightarrow> nat set" where
  "used_fds s = {i. get_conn s i \<noteq> None}"

lemma listen_spec:
  assumes "tab_inv s" and "conn_cnt s \<le> max_conns (setting s)" and "16 \<le> max_wbuf (setting s)"
    and "accepts_ok evs (length (conns_tab s)) (used_fds s) (max_conns (setting s) - conn_cnt s)"
  shows "\<exists>s'. fk_svr_listen_cb fr now evs s = Some s' \<and> tab_inv s' \<and> conn_cnt s' \<le> max_conns (setting s')
    \<and> setting s' = setting s \<and> (\<forall>i c. get_conn s i = Some c \<longrightarrow> get_conn s' i = Some c)"
  using assms
proof (induction evs arbitrary: s)
  case (Cons e evs)
  show ?case
  proof (cases e)
    case (Accepted fd0)
    show ?thesis
    proof (cases "conn_cnt s = max_conns (setting s)")
      case True
      then show ?thesis
        using Cons Accepted by auto
    next
      case False
      have i: "0 \<le> fd0" "nat fd0 < length (conns_tab s)" "conns_tab s ! nat fd0 = None"
        using Cons.prems(4) Accepted by (auto simp: used_fds_def get_conn_def nth_opt_def)
      obtain c where c: "fk_svr_add_conn fr now fd0 s
          = Some (s\<lparr>conns_tab := (conns_tab s)[nat fd0 := Some c], conn_cnt := conn_cnt s + 1\<rparr>)"
        "tab_inv (s\<lparr>conns_tab := (conns_tab s)[nat fd0 := Some c], conn_cnt := conn_cnt s + 1\<rparr>)"
        using add_conn_spec [OF Cons.prems(1) i Cons.prems(3)] by blast
      let ?s = "s\<lparr>conns_tab := (conns_tab s)[nat fd0 := Some c], conn_cnt := conn_cnt s + 1\<rparr>"
      have u: "used_fds ?s = insert (nat fd0) (used_fds s)"
        using i(2) unfolding used_fds_def get_conn_update by auto
      have "accepts_ok evs (length (conns_tab ?s)) (used_fds ?s) (max_conns (setting ?s) - conn_cnt ?s)"
        using Cons.prems(4) Accepted False unfolding u by (auto simp: algebra_simps split: if_splits)
      moreover have "conn_cnt ?s \<le> max_conns (setting ?s)" "16 \<le> max_wbuf (setting ?s)"
        using Cons.prems(2,3) False by simp_all
      ultimately obtain s' where s': "fk_svr_listen_cb fr now evs ?s = Some s'" "tab_inv s'" "conn_cnt s' \<le> max_conns (setting s')"
        "setting s' = setting s" "\<forall>i c'. get_conn ?s i = Some c' \<longrightarrow> get_conn s' i = Some c'"
        using Cons.IH [OF c(2)] by auto
      have "get_conn ?s i = Some c'" if "get_conn s i = Some c'" for i c'
        using that i(2,3) get_conn_lt [OF that] unfolding get_conn_update by auto
      then show ?thesis
        using Accepted False c(1) s' by auto
    qed
  qed (use Cons in auto)
qed simp



text \<open>After an error of \<^verbatim>\<open>accept\<close> other than \<^verbatim>\<open>EINTR\<close> and \<^verbatim>\<open>EAGAIN\<close> (for example no free descriptor) the code
  continues with descriptor \<open>-1\<close> and writes outside of the table.\<close>

lemma listen_accept_error:
  "conn_cnt s \<noteq> max_conns (setting s) \<Longrightarrow> fk_svr_listen_cb fr now (Acc_error # evs) s = None"
  by (simp add: fk_svr_add_conn_def split: bind_splits)

end
