(* ===== verification/Fk_Timer.thy ===== *)
theory Fk_Timer
  imports Fk_Svr
begin

text \<open>
  The server timer (\<^verbatim>\<open>fk_svr_timer_cb\<close>) with the background save and rewrite it controls, the removal of
  expired keys (\<^verbatim>\<open>fk_svr_clear_timeout_keys\<close>), and the end of the server (\<^verbatim>\<open>fk_svr_exit\<close>). The results of \<^verbatim>\<open>waitpid\<close>, \<^verbatim>\<open>fork\<close> and
  \<^verbatim>\<open>rand\<close> are arguments.
\<close>

subsection \<open>Child processes\<close>

text \<open>\<^verbatim>\<open>waitpid(pid, &st, WNOHANG)\<close>: the child runs, has ended (with exit status zero or not), is
  unknown (\<^verbatim>\<open>ECHILD\<close>), or the call failed in another way.\<close>

datatype wait_res = Wait_running | Wait_exited bool | Wait_echild | Wait_error

text \<open>\<^verbatim>\<open>fk_kdb_bgsave\<close> in the parent; \<open>pid\<close> is the result of \<^verbatim>\<open>fork\<close>. The child saves its copy of the server.\<close>

definition fk_kdb_bgsave :: "int \<Rightarrow> fk_svr \<Rightarrow> fk_svr" where
  "fk_kdb_bgsave pid s =
     (if save_pid s \<noteq> -1 then s
      else if pid < 0 then s
      else s\<lparr>save_pid := pid\<rparr>)"

definition bgsave_child :: "fk_svr \<Rightarrow> (bool \<times> fk_disk) option" where
  "bgsave_child s = do { (rt, s') \<leftarrow> fk_kdb_save s; Some (rt \<noteq> SVR_ERR, disk s') }"

definition fk_blog_bgrewrite :: "int \<Rightarrow> fk_svr \<Rightarrow> fk_svr" where
  "fk_blog_bgrewrite pid s =
     (if rewrite_pid s \<noteq> -1 then s
      else if pid < 0 then s
      else s\<lparr>rewrite_pid := pid\<rparr>)"

subsection \<open>Expired keys\<close>

text \<open>The inner loop runs \<open>try_times\<close> times from zero; \<open>rnd\<close> gives the results of \<^verbatim>\<open>rand()\<close>, counted by \<open>q\<close>.\<close>

fun clear_tries :: "nat \<Rightarrow> nat \<Rightarrow> (nat \<Rightarrow> nat) \<Rightarrow> nat \<Rightarrow> fk_svr \<Rightarrow> (nat \<times> fk_svr) option" where
  "clear_tries 0 d rnd q s = Some (q, s)"
| "clear_tries (Suc n) d rnd q s =
     do { e \<leftarrow> nth_db (expdb s) (int d);
          r \<leftarrow> fk_dict_random (rnd q) e;
          (key, _) \<leftarrow> r;
          (_, s') \<leftarrow> fk_handle_expired_key s (int d) key;
          clear_tries n d rnd (Suc q) s' }"

text \<open>One round of the outer loop with \<open>i\<close> as loop variable. Both loops use the same variable, so the
  inner loop leaves \<open>try_times\<close> in it; \<open>i++\<close> follows. \<^verbatim>\<open>(int)(0.2 * len)\<close> is a fifth, rounded
  down.\<close>

definition clear_round :: "(nat \<Rightarrow> nat) \<Rightarrow> nat \<times> nat \<times> fk_svr \<Rightarrow> (nat \<times> nat \<times> fk_svr) option" where
  "clear_round rnd = (\<lambda>(i, q, s).
     do { e \<leftarrow> nth_db (expdb s) (int i);
          if fk_dict_len e = 0 then Some (i + 1, q, s)
          else
            (let try_times = fk_dict_len e div 5
             in do { (q', s') \<leftarrow> clear_tries try_times i rnd q s; Some (try_times + 1, q', s') }) })"

partial_function (option) clear_loop :: "(nat \<Rightarrow> nat) \<Rightarrow> nat \<times> nat \<times> fk_svr \<Rightarrow> fk_svr option" where
  "clear_loop rnd st =
     (if fst st < dbcnt (snd (snd st)) then do { st' \<leftarrow> clear_round rnd st; clear_loop rnd st' }
      else Some (snd (snd st)))"

definition fk_svr_clear_timeout_keys :: "(nat \<Rightarrow> nat) \<Rightarrow> fk_svr \<Rightarrow> fk_svr option" where
  "fk_svr_clear_timeout_keys rnd s = clear_loop rnd (0, 0, s)"

subsection \<open>The server timer\<close>

record timer_env =
  wait_save :: wait_res
  wait_rewrite :: wait_res
  fork_save :: int
  fork_rewrite :: int
  time_now :: int
  stop_flag :: bool
  rands :: "nat \<Rightarrow> nat"

datatype timer_out = Timer_exit | Timer_stop fk_svr | Timer_next fk_svr

definition after_wait :: "wait_res \<Rightarrow> 'a \<Rightarrow> 'a \<Rightarrow> 'a option" where
  "after_wait w done s = (case w of Wait_error \<Rightarrow> None | Wait_exited True \<Rightarrow> Some done | _ \<Rightarrow> Some s)"

definition fk_svr_timer_cb :: "timer_env \<Rightarrow> fk_svr \<Rightarrow> timer_out option" where
  "fk_svr_timer_cb env s =
     (let s0 = s\<lparr>timer_cnt := (timer_cnt s + 1) mod 2 ^ 64\<rparr>
      in case (if save_pid s0 \<noteq> -1
               then after_wait (wait_save env) (s0\<lparr>save_pid := -1, last_save := time_now env\<rparr>) s0 else Some s0) of
           None \<Rightarrow> Some Timer_exit
         | Some s1 \<Rightarrow>
             (case (if rewrite_pid s1 \<noteq> -1
                    then after_wait (wait_rewrite env) (s1\<lparr>rewrite_pid := -1\<rparr>) s1 else Some s1) of
                None \<Rightarrow> Some Timer_exit
              | Some s2 \<Rightarrow>
                  if stop_flag env then Some (Timer_stop s2)
                  else
                    (let s3 = (if dump (setting s2) = 1 then fk_kdb_bgsave (fork_save env) s2 else s2);
                         s4 = (if blog_on (setting s3) = 1 then fk_blog_bgrewrite (fork_rewrite env) s3 else s3)
                     in do { s5 \<leftarrow> fk_svr_clear_timeout_keys (rands env) s4; Some (Timer_next s5) })))"

text \<open>The result is the exit status when the process ends with a failure.\<close>

definition fk_svr_exit :: "fk_svr \<Rightarrow> (int option \<times> fk_svr) option" where
  "fk_svr_exit s =
     (if dump (setting s) \<noteq> 1 then Some (None, s)
      else do { (rt, s') \<leftarrow> fk_kdb_save s; Some (if rt = SVR_ERR then Some 1 else None, s') })"

section \<open>Removal of expired keys\<close>

text \<open>The rounds of the outer loop without its end test.\<close>

fun rounds :: "(nat \<Rightarrow> nat) \<Rightarrow> nat \<Rightarrow> nat \<times> nat \<times> fk_svr \<Rightarrow> (nat \<times> nat \<times> fk_svr) option" where
  "rounds rnd 0 st = Some st"
| "rounds rnd (Suc n) st = do { st' \<leftarrow> clear_round rnd st; rounds rnd n st' }"

lemma clear_loop_stuck:
  assumes "clear_round rnd st = Some st" and "fst st < dbcnt (snd (snd st))"
  shows "clear_loop rnd st = None"
proof -
  have "r = rnd \<longrightarrow> x \<noteq> st" if "clear_loop r x = Some y" for r x y
    using _ that
  proof (rule clear_loop.raw_induct)
    fix f r x y
    assume IH: "\<And>r x y. f r x = Some y \<Longrightarrow> r = rnd \<longrightarrow> x \<noteq> st"
      and eq: "(if fst x < dbcnt (snd (snd x)) then do { st' \<leftarrow> clear_round r x; f r st' } else Some (snd (snd x))) = Some y"
    show "r = rnd \<longrightarrow> x \<noteq> st"
      using assms IH [of rnd st y] eq by auto
  qed
  then show ?thesis
    by (cases "clear_loop rnd st") blast+
qed

text \<open>
  C21. \<^verbatim>\<open>fk_svr_clear_timeout_keys\<close> need not return: both of its loops use the variable \<open>i\<close>. When the first database has
  no key with an expiry time and the second has between one and four of them, then every round after the
  first starts again with \<open>i = 1\<close> and does nothing, whatever \<^verbatim>\<open>rand()\<close> gives, so the server hangs in
  its timer.\<close>

theorem clear_keys_hang:
  assumes "1 < dbcnt s" and "nth_db (expdb s) 0 = Some e0" and "fk_dict_len e0 = 0"
    and "nth_db (expdb s) 1 = Some e1" and "0 < fk_dict_len e1" and "fk_dict_len e1 < 5"
  shows "fk_svr_clear_timeout_keys rnd s = None \<and> (\<forall>n. rounds rnd (Suc n) (0, 0, s) = Some (1, 0, s))"
proof -
  have r0: "clear_round rnd (0, 0, s) = Some (1, 0, s)"
    using assms(2,3) by (simp add: clear_round_def)
  have r1: "clear_round rnd (1, 0, s) = Some (1, 0, s)"
    using assms(4-6) by (simp add: clear_round_def)
  have "clear_loop rnd (1, 0, s) = None"
    using clear_loop_stuck [OF r1] assms(1) by simp
  then have "fk_svr_clear_timeout_keys rnd s = None"
    using r0 assms(1) by (simp add: fk_svr_clear_timeout_keys_def clear_loop.simps [of rnd "(0, 0, s)"])
  moreover have "rounds rnd n (1, 0, s) = Some (1, 0, s)" for n
    using r1 by (induction n) auto
  ultimately show ?thesis
    using r0 by simp
qed

theorem clear_keys_hang_witness:
  "\<exists>s. svr_inv s \<and> dbcnt s = 2 \<and> fk_svr_clear_timeout_keys (\<lambda>_. 0) s = None"
proof -
  have ok: "arg_ok ''k''" "exp_ok (Num 5)"
    by (simp_all add: arg_ok_def fk_consts)
  obtain e where e: "db_inv exp_ok e" "dict_map e = [''k'' \<mapsto> Num 5]"
    using db_add [OF db_inv_create ok(1), of exp_ok "Num 5"] ok(2) by auto
  have len: "fk_dict_len e = 1"
    using e strd.store.cnt_card [of e] by (simp add: db_inv_def fk_dict_len_def)
  let ?s = "(svr_fresh 2 0)\<lparr>expdb := [fk_dict_create, e]\<rparr>"
  have "svr_inv ?s"
    using e(1) by (simp add: svr_inv_def svr_fresh_def list_all_iff)
  moreover have "dbcnt ?s = 2"
    by (simp add: svr_fresh_def)
  moreover have "fk_svr_clear_timeout_keys (\<lambda>_. 0) ?s = None"
    using clear_keys_hang [of ?s fk_dict_create e "\<lambda>_. 0"] len
    by (simp add: svr_fresh_def nth_db_def nth_opt_def fk_dict_len_def fk_dict_create_def fk_dict_init_def)
  ultimately show ?thesis
    by blast
qed

text \<open>What may happen to a key while expired keys are removed from database \<open>d\<close>.\<close>

definition swept :: "(nat \<Rightarrow> timeval) \<Rightarrow> nat \<Rightarrow> astate \<Rightarrow> astate \<Rightarrow> bool" where
  "swept clk d a a' \<longleftrightarrow>
     (\<forall>k. a_get d k a' = a_get d k a \<and> (a_exps a' ! d) k = (a_exps a ! d) k
        \<or> a_get d k a' = None \<and> (a_exps a' ! d) k = None
          \<and> (\<exists>m t. (a_exps a ! d) k = Some (ANum m) \<and> m < fk_util_tv2millis (clk t)))"

lemma swept_refl: "swept clk d a a"
  by (simp add: swept_def)

lemma swept_trans:
  assumes "swept clk d a b" and "swept clk d b c"
  shows "swept clk d a c"
  unfolding swept_def
proof
  fix k
  show "a_get d k c = a_get d k a \<and> (a_exps c ! d) k = (a_exps a ! d) k
      \<or> a_get d k c = None \<and> (a_exps c ! d) k = None
        \<and> (\<exists>m t. (a_exps a ! d) k = Some (ANum m) \<and> m < fk_util_tv2millis (clk t))"
    using assms [unfolded swept_def, THEN spec, of k] by metis
qed

lemma a_expire_swept:
  assumes "d < length (a_dbs a)" and "d < length (a_exps a)"
  shows "swept clk d a (a_expire clk d k a)"
proof -
  consider m where "(a_exps a ! d) k = Some (ANum m)" "m < fk_util_tv2millis (clk (a_tick a))"
    | m where "(a_exps a ! d) k = Some (ANum m)" "\<not> m < fk_util_tv2millis (clk (a_tick a))"
    | "\<forall>m. (a_exps a ! d) k \<noteq> Some (ANum m)"
    by blast
  then show ?thesis
  proof cases
    case 1
    then have e: "a_expire clk d k a = a_del_exp d k (a_del d k (a\<lparr>a_tick := a_tick a + 1\<rparr>))"
      by (simp add: a_expire_def)
    show ?thesis
      unfolding e swept_def using 1 assms by (auto simp: a_get_def a_del_exp_def a_del_def)
  next
    case 2
    then show ?thesis
      by (simp add: a_expire_def swept_def a_get_def)
  next
    case 3
    then have "a_expire clk d k a = a"
      by (auto simp: a_expire_def split: option.splits aval.splits)
    then show ?thesis
      by (simp add: swept_refl)
  qed
qed

lemma used_card:
  assumes "in_range s (int d)"
  shows "used (expdb s ! d) = card (dom (a_exps (abs_svr s) ! d))" and "finite (dom (a_exps (abs_svr s) ! d))"
proof -
  have inv: "dict_inv str_eop str_ok (expdb s ! d)" and d: "d < length (expdb s)"
    using in_rangeD(2,6) [OF assms] by (auto simp: db_inv_def)
  have dm: "dom (a_exps (abs_svr s) ! d) = dom (dict_map (expdb s ! d))"
    using d by (auto simp: abs_svr_def abs_db_def)
  show "used (expdb s ! d) = card (dom (a_exps (abs_svr s) ! d))"
    using strd.store.cnt_card [OF inv] dm by simp
  show "finite (dom (a_exps (abs_svr s) ! d))"
    using strd.store.finite_absm [OF inv] dm by simp
qed

lemma expire_card:
  assumes "in_range s (int d)" and "in_range s' (int d)" and "abs_svr s' = a_expire clk d k (abs_svr s)"
  shows "used (expdb s ! d) \<le> Suc (used (expdb s' ! d))" and "used (expdb s' ! d) \<le> used (expdb s ! d)"
proof -
  let ?e = "a_exps (abs_svr s) ! d" and ?e' = "a_exps (abs_svr s') ! d"
  have len: "d < length (a_exps (abs_svr s))"
    using in_rangeD(2) [OF assms(1)] by (simp add: abs_svr_def)
  have "?e' = ?e \<or> ?e' = ?e(k := None)"
    unfolding assms(3) using len
    by (auto simp: a_expire_def a_del_exp_def a_del_def Let_def split: option.splits aval.splits)
  then have "dom ?e \<subseteq> insert k (dom ?e')" "dom ?e' \<subseteq> dom ?e"
    by (auto split: if_splits)
  then have "card (dom ?e) \<le> card (insert k (dom ?e'))" "card (dom ?e') \<le> card (dom ?e)"
    using used_card(2) [OF assms(1)] used_card(2) [OF assms(2)] by (auto intro: card_mono)
  moreover have "card (insert k (dom ?e')) \<le> Suc (card (dom ?e'))"
    using used_card(2) [OF assms(2)] by (simp add: card_insert_if)
  ultimately show "used (expdb s ! d) \<le> Suc (used (expdb s' ! d))" "used (expdb s' ! d) \<le> used (expdb s ! d)"
    using used_card(1) [OF assms(1)] used_card(1) [OF assms(2)] by linarith+
qed

lemma clear_tries_spec:
  assumes "in_range s (int d)" and "n < used (expdb s ! d)" and "used (expdb s ! d) < 2147483648"
  shows "\<exists>q' s'. clear_tries n d rnd q s = Some (q', s') \<and> in_range s' (int d) \<and> svr_rest s s'
    \<and> swept (clock s) d (abs_svr s) (abs_svr s')"
  using assms
proof (induction n arbitrary: q s)
  case 0
  then show ?case by (simp add: swept_refl)
next
  case (Suc n)
  note r = in_rangeD [OF Suc.prems(1)]
  let ?e = "expdb s ! d"
  have e: "nth_db (expdb s) (int d) = Some ?e" "dict_inv str_eop str_ok ?e"
    using r(2,6) by (simp_all add: nth_db_def nth_opt_def db_inv_def)
  have rd: "fk_dict_random (rnd q) ?e = Some (Some (dict_elts ?e ! (rnd q mod used ?e)))"
    using fk_dict_random_eq [OF e(2) _ Suc.prems(3)] Suc.prems(2) by simp
  obtain key v where kv: "dict_elts ?e ! (rnd q mod used ?e) = (key, v)"
    by fastforce
  have l: "used ?e = length (dict_elts ?e)" "distinct (map fst (dict_elts ?e))"
    using e(2) unfolding dict_inv_def by blast+
  have "rnd q mod used ?e < used ?e"
    using Suc.prems(2) by simp
  then have "(key, v) \<in> set (dict_elts ?e)"
    using kv l(1) by (metis nth_mem)
  then have "dict_map ?e key = Some v"
    using l(2) by (simp add: dict_map_def)
  then have key: "arg_ok key"
    using r(6) unfolding db_inv_def by simp
  obtain s1 ex where s1: "fk_handle_expired_key s (int d) key = Some (ex, s1)" "in_range s1 (int d)" "svr_rest s s1"
    "abs_svr s1 = a_expire (clock s) d key (abs_svr s)"
    using expire_spec [OF Suc.prems(1) key] by auto
  have "n < used (expdb s1 ! d)" "used (expdb s1 ! d) < 2147483648"
    using expire_card [OF Suc.prems(1) s1(2,4)] Suc.prems(2,3) by linarith+
  from Suc.IH [OF s1(2) this, of "Suc q"]
  obtain q' s' where s': "clear_tries n d rnd (Suc q) s1 = Some (q', s')" "in_range s' (int d)" "svr_rest s1 s'"
    "swept (clock s1) d (abs_svr s1) (abs_svr s')"
    by blast
  have "swept (clock s) d (abs_svr s) (abs_svr s1)"
    unfolding s1(4) using r(1,2) by (intro a_expire_swept) (simp_all add: abs_svr_def)
  then have "swept (clock s) d (abs_svr s) (abs_svr s')"
    using s'(4) svr_rest_fields [OF s1(3)] swept_trans by metis
  then show ?case
    using e(1) rd kv s1(1) s'(1,2) svr_rest_trans [OF s1(3) s'(3)] by auto
qed

text \<open>
  C20. With one database the removal of expired keys returns and removes only expired keys: every key keeps
  its value and its expiry time unless the time had passed on some reading of the clock, and then both
  are gone.\<close>

theorem clear_keys_one_db:
  assumes "svr_inv s" and "dbcnt s = 1" and "used (expdb s ! 0) < 2147483648"
  shows "\<exists>s'. fk_svr_clear_timeout_keys rnd s = Some s' \<and> svr_inv s' \<and> svr_rest s s'
    \<and> swept (clock s) 0 (abs_svr s) (abs_svr s')"
proof -
  have r: "in_range s (int 0)"
    using assms(1,2) by (simp add: in_range_def)
  let ?e = "expdb s ! 0"
  have e: "nth_db (expdb s) 0 = Some ?e"
    using in_rangeD(2) [OF r] by (simp add: nth_db_def nth_opt_def)
  show ?thesis
  proof (cases "fk_dict_len ?e = 0")
    case True
    then have "fk_svr_clear_timeout_keys rnd s = Some s"
      using e assms(2) by (simp add: fk_svr_clear_timeout_keys_def clear_loop.simps clear_round_def)
    then show ?thesis
      using assms(1) by (simp add: swept_refl)
  next
    case False
    let ?n = "fk_dict_len ?e div 5"
    have "?n < used ?e"
      using False by (simp add: fk_dict_len_def)
    then obtain q' s' where s': "clear_tries ?n 0 rnd 0 s = Some (q', s')" "in_range s' (int 0)" "svr_rest s s'"
      "swept (clock s) 0 (abs_svr s) (abs_svr s')"
      using clear_tries_spec [OF r _ assms(3)] by blast
    have "clear_round rnd (0, 0, s) = Some (?n + 1, q', s')"
      using e False s'(1) by (simp add: clear_round_def Let_def)
    moreover have "dbcnt s' = 1"
      using assms(2) svr_rest_fields [OF s'(3)] by simp
    ultimately have "fk_svr_clear_timeout_keys rnd s = Some s'"
      using assms(2) by (simp add: fk_svr_clear_timeout_keys_def clear_loop.simps)
    then show ?thesis
      using s' by (auto simp: in_range_def)
  qed
qed

theorem clear_keys_one_db_witness:
  "\<exists>s'. fk_svr_clear_timeout_keys (\<lambda>_. 0) (svr_fresh 1 0) = Some s' \<and> svr_inv s'"
proof -
  have "dbcnt (svr_fresh 1 0) = 1" "used (expdb (svr_fresh 1 0) ! 0) < 2147483648"
    by (simp_all add: svr_fresh_def fk_dict_create_def fk_dict_init_def)
  then show ?thesis
    using clear_keys_one_db [OF svr_inv_fresh, of 1 0 "\<lambda>_. 0"] by auto
qed

section \<open>Background saves\<close>

lemma clear_tries_keeps:
  "clear_tries n d rnd q s = Some (q', s') \<Longrightarrow> save_pid s' = save_pid s \<and> setting s' = setting s"
proof (induction n arbitrary: q s)
  case (Suc n)
  have "save_pid t' = save_pid t \<and> setting t' = setting t" if "fk_handle_expired_key t i k = Some (r, t')" for t t' i k r
    using that by (auto simp: fk_handle_expired_key_def fk_util_get_time_def on_db_def on_expdb_def Let_def
        split: bind_splits if_splits option.splits)
  then show ?case
    using Suc by (auto split: bind_splits)
qed simp

lemma clear_loop_keeps:
  assumes "clear_loop rnd st = Some s'"
  shows "save_pid s' = save_pid (snd (snd st)) \<and> setting s' = setting (snd (snd st))"
  using _ assms
proof (rule clear_loop.raw_induct)
  fix f r x y
  assume IH: "\<And>r x y. f r x = Some y \<Longrightarrow> save_pid y = save_pid (snd (snd x)) \<and> setting y = setting (snd (snd x))"
    and eq: "(if fst x < dbcnt (snd (snd x)) then do { st' \<leftarrow> clear_round r x; f r st' } else Some (snd (snd x))) = Some y"
  show "save_pid y = save_pid (snd (snd x)) \<and> setting y = setting (snd (snd x))"
  proof (cases "fst x < dbcnt (snd (snd x))")
    case True
    then obtain x' where x': "clear_round r x = Some x'" "f r x' = Some y"
      using eq by (auto split: bind_splits)
    have "save_pid (snd (snd x')) = save_pid (snd (snd x)) \<and> setting (snd (snd x')) = setting (snd (snd x))"
      using x'(1) clear_tries_keeps by (cases x) (fastforce simp: clear_round_def Let_def split: bind_splits if_splits)
    then show ?thesis
      using IH [OF x'(2)] by simp
  qed (use eq in simp)
qed

text \<open>The results of \<^verbatim>\<open>waitpid\<close> from the moment a child has ended with a failure: once that, then \<^verbatim>\<open>ECHILD\<close>.\<close>

definition child_gone :: "wait_res \<Rightarrow> bool" where
  "child_gone w \<longleftrightarrow> w = Wait_exited False \<or> w = Wait_echild"

fun timer_run :: "timer_env list \<Rightarrow> fk_svr \<Rightarrow> timer_out option" where
  "timer_run [] s = Some (Timer_next s)"
| "timer_run (env # envs) s =
     do { r \<leftarrow> fk_svr_timer_cb env s;
          case r of Timer_next s' \<Rightarrow> timer_run envs s' | _ \<Rightarrow> Some r }"

lemma timer_cb_keeps_pid:
  assumes "save_pid s \<noteq> -1" and "child_gone (wait_save env)" and "fk_svr_timer_cb env s = Some (Timer_next s')"
  shows "save_pid s' = save_pid s"
proof -
  have w: "after_wait (wait_save env) a b = Some b" for a b :: fk_svr
    using assms(2) by (auto simp: child_gone_def after_wait_def)
  have keep: "save_pid t = save_pid s" if "after_wait w (s\<lparr>timer_cnt := n, rewrite_pid := -1\<rparr>) (s\<lparr>timer_cnt := n\<rparr>) = Some t" for w n t
    using that by (auto simp: after_wait_def split: wait_res.splits bool.splits)
  show ?thesis
    using assms(1,3) clear_loop_keeps keep
    by (fastforce simp: fk_svr_timer_cb_def w Let_def fk_svr_clear_timeout_keys_def fk_kdb_bgsave_def fk_blog_bgrewrite_def
        split: option.splits if_splits bind_splits)
qed

text \<open>
  C22. After a background save that failed no further one is started: when the child has ended with a failure,
  \<^verbatim>\<open>save_pid\<close> keeps its number for ever (later calls of \<^verbatim>\<open>waitpid\<close> give \<^verbatim>\<open>ECHILD\<close>, which the timer ignores), so
  \<^verbatim>\<open>fk_kdb_bgsave\<close> does nothing at every following tick, whatever \<^verbatim>\<open>fork\<close> would return.\<close>

theorem failed_save_blocks:
  assumes "save_pid s \<noteq> -1" and "\<forall>env \<in> set envs. child_gone (wait_save env)" and "timer_run envs s = Some (Timer_next s')"
  shows "save_pid s' = save_pid s \<and> (\<forall>pid. fk_kdb_bgsave pid s' = s')"
proof -
  have "save_pid s' = save_pid s"
    using assms
  proof (induction envs arbitrary: s)
    case (Cons env envs)
    then obtain s1 where s1: "fk_svr_timer_cb env s = Some (Timer_next s1)" "timer_run envs s1 = Some (Timer_next s')"
      by (auto split: bind_splits timer_out.splits)
    have "save_pid s1 = save_pid s"
      using timer_cb_keeps_pid [OF Cons.prems(1) _ s1(1)] Cons.prems(2) by simp
    then show ?case
      using Cons.IH [OF _ _ s1(2)] Cons.prems(1,2) by simp
  qed simp
  then show ?thesis
    using assms(1) by (simp add: fk_kdb_bgsave_def)
qed

theorem failed_save_blocks_witness:
  "\<exists>s'. timer_run [\<lparr>wait_save = Wait_exited False, wait_rewrite = Wait_running, fork_save = 7, fork_rewrite = 8, time_now = 0,
        stop_flag = False, rands = (\<lambda>_. 0)\<rparr>,
      \<lparr>wait_save = Wait_echild, wait_rewrite = Wait_running, fork_save = 9, fork_rewrite = 10, time_now = 0,
        stop_flag = False, rands = (\<lambda>_. 0)\<rparr>] ((svr_fresh 1 0)\<lparr>save_pid := 5\<rparr>) = Some (Timer_next s') \<and> save_pid s' = 5"
proof -
  let ?envs = "[\<lparr>wait_save = Wait_exited False, wait_rewrite = Wait_running, fork_save = 7, fork_rewrite = 8, time_now = 0,
        stop_flag = False, rands = (\<lambda>_. 0)\<rparr>,
      \<lparr>wait_save = Wait_echild, wait_rewrite = Wait_running, fork_save = 9, fork_rewrite = 10, time_now = 0,
        stop_flag = False, rands = (\<lambda>_. 0)\<rparr>]" and ?s = "(svr_fresh 1 0)\<lparr>save_pid := 5\<rparr>"
  have clr: "fk_svr_clear_timeout_keys (\<lambda>_. 0) (?s\<lparr>timer_cnt := n\<rparr>) = Some (?s\<lparr>timer_cnt := n\<rparr>)" for n
    by (simp add: fk_svr_clear_timeout_keys_def clear_loop.simps clear_round_def svr_fresh_def nth_db_def nth_opt_def
        fk_dict_len_def fk_dict_create_def fk_dict_init_def)
  have "timer_run ?envs ?s = Some (Timer_next (?s\<lparr>timer_cnt := Suc (Suc 0)\<rparr>))"
    using clr [of "Suc 0"] clr [of "Suc (Suc 0)"]
    by (simp add: fk_svr_timer_cb_def after_wait_def Let_def fk_kdb_bgsave_def fk_blog_bgrewrite_def svr_fresh_def)
  then show ?thesis
    using failed_save_blocks [of ?s ?envs] by (auto simp: child_gone_def)
qed

end
