(* ===== verification/Fk_Blog.thy ===== *)
theory Fk_Blog
  imports Fk_Timer
begin

text \<open>
  The replay of the binary log (\<^verbatim>\<open>fk_blog_read_data\<close> and \<^verbatim>\<open>fk_blog_load\<close> of \<^verbatim>\<open>fk_svr_blog.c\<close>) and the start of
  the server (\<^verbatim>\<open>fk_svr_init\<close>): a log of the write requests, replayed into empty databases,
  rebuilds them, as long as no request has more than four arguments.
\<close>

subsection \<open>Replaying the log\<close>

text \<open>\<^verbatim>\<open>read\<close> from a regular file: \<open>rest\<close> is what follows the file position.\<close>

definition fk_blog_read_data :: "string \<Rightarrow> fk_conn \<Rightarrow> (svr_rc \<times> string \<times> fk_conn) option" where
  "fk_blog_read_data rest c =
     do { b1 \<leftarrow> (if fk_buf_payload_len (rbuf c) > 3 * (blen (rbuf c) div 4)
                 then fk_buf_shift (rbuf c) else Some (rbuf c));
          let b2 = (if fk_buf_free_len b1 = 0 then fk_buf_stretch b1 else b1);
          if fk_buf_free_len b2 = 0 then Some (SVR_ERR, rest, c\<lparr>rbuf := b2\<rparr>)
          else
            (let bs = take (fk_buf_free_len b2) rest
             in if bs = [] then Some (SVR_DONE, rest, c\<lparr>rbuf := b2\<rparr>)
                else
                  do { b3 \<leftarrow> buf_put b2 bs;
                       Some (if length bs < fk_buf_free_len b2 then SVR_DONE else SVR_OK,
                             drop (length bs) rest, c\<lparr>rbuf := b3\<rparr>) }) }"

text \<open>The inner loop is that of the read callback; on an error the function returns.\<close>

partial_function (option) fk_blog_load :: "pmap \<Rightarrow> string \<Rightarrow> fk_svr \<Rightarrow> fk_conn \<Rightarrow> (fk_svr \<times> fk_conn) option" where
  "fk_blog_load pm rest s c =
     do { (rt, rest1, c1) \<leftarrow> fk_blog_read_data rest c;
          if rt = SVR_ERR then Some (s, c1)
          else
            do { (rt2, s2, c2) \<leftarrow> req_loop pm s c1;
                 if rt2 = SVR_ERR then Some (s2, c2)
                 else
                   do { b \<leftarrow> fk_buf_shrink (rbuf c2);
                        let c3 = c2\<lparr>rbuf := b, arg_vtr := fk_vtr_shrink (arg_vtr c2)\<rparr>;
                        if rt = SVR_DONE then Some (s2, c3) else fk_blog_load pm rest1 s2 c3 } } }"

text \<open>The part of \<^verbatim>\<open>fk_svr_init\<close> that sets up the databases and restores their contents; \<open>log\<close> is the contents
  of the binary log, which \<^verbatim>\<open>fk_blog_init\<close> creates when it does not exist.\<close>

definition fk_svr_init ::
    "pmap \<Rightarrow> lua_state \<Rightarrow> (nat \<Rightarrow> char) \<Rightarrow> int \<Rightarrow> string \<Rightarrow> fk_conf \<Rightarrow> nat \<Rightarrow> fk_svr \<Rightarrow> fk_svr kres" where
  "fk_svr_init pm g fr now log conf n s =
     (case fk_lua_init g fr now
         (s\<lparr>setting := conf, dbcnt := n, save_pid := -1, rewrite_pid := -1, last_save := now, conn_cnt := 0,
            timer_cnt := 0, conns_tab := replicate (nat (max_conns conf + 17)) None,
            db := replicate n fk_dict_create, expdb := replicate n fk_dict_create\<rparr>) of
        None \<Rightarrow> KUb
      | Some s1 \<Rightarrow>
          if blog_on conf = 1 then
            (case fk_conn_create fr (max_wbuf conf) now FK_CONN_FAKE_FD of
               None \<Rightarrow> KUb
             | Some bc \<Rightarrow> (case fk_blog_load pm log s1 bc of None \<Rightarrow> KUb | Some (s2, _) \<Rightarrow> KOk s2))
          else if dump conf = 1 \<and> files (disk s1) (db_file conf) \<noteq> None then fk_kdb_load (db_file conf) s1
          else KOk s1)"

section \<open>Replaying what was logged\<close>

text \<open>As long as there is something to read, the file is read like a socket that holds its rest.\<close>

lemma blog_read_as_recv:
  assumes "rest \<noteq> []"
  shows "fk_blog_read_data rest c =
    map_option (\<lambda>(rc, sock, c'). (rc, sock_data sock, c')) (fk_conn_recv_data (last_recv c) [Chunk rest] c)"
proof (cases "if fk_buf_payload_len (rbuf c) > 3 * (blen (rbuf c) div 4) then fk_buf_shift (rbuf c) else Some (rbuf c)")
  case None
  then show ?thesis
    by (simp add: fk_blog_read_data_def fk_conn_recv_data_def)
next
  case (Some b1)
  define b2 where "b2 = (if fk_buf_free_len b1 = 0 then fk_buf_stretch b1 else b1)"
  have L: "fk_blog_read_data rest c =
      (if fk_buf_free_len b2 = 0 then Some (SVR_ERR, rest, c\<lparr>rbuf := b2\<rparr>)
       else (let bs = take (fk_buf_free_len b2) rest
             in if bs = [] then Some (SVR_DONE, rest, c\<lparr>rbuf := b2\<rparr>)
                else do { b3 \<leftarrow> buf_put b2 bs;
                          Some (if length bs < fk_buf_free_len b2 then SVR_DONE else SVR_OK,
                                drop (length bs) rest, c\<lparr>rbuf := b3\<rparr>) }))"
    unfolding fk_blog_read_data_def Some b2_def by (simp add: Let_def)
  have R: "fk_conn_recv_data (last_recv c) [Chunk rest] c =
      (if fk_buf_free_len b2 = 0 then Some (SVR_ERR, [Chunk rest], c\<lparr>rbuf := b2\<rparr>)
       else (let free_len = fk_buf_free_len b2
             in case recv [Chunk rest] free_len of
                  (Closed, sock') \<Rightarrow> Some (SVR_ERR, sock', c\<lparr>rbuf := b2\<rparr>)
                | (Error, sock') \<Rightarrow> Some (SVR_ERR, sock', c\<lparr>rbuf := b2\<rparr>)
                | (Would_block, sock') \<Rightarrow> Some (SVR_AGAIN, sock', c\<lparr>rbuf := b2\<rparr>)
                | (Got bs, sock') \<Rightarrow>
                    do { b3 \<leftarrow> buf_put b2 bs;
                         Some (if length bs < free_len then SVR_DONE else SVR_OK, sock', c\<lparr>rbuf := b3\<rparr>) }))"
    unfolding fk_conn_recv_data_def Some b2_def by (simp add: Let_def cong: recv_res.case_cong prod.case_cong)
  show ?thesis
  proof (cases "fk_buf_free_len b2 = 0")
    case True
    then show ?thesis
      unfolding L R by simp
  next
    case room: False
    show ?thesis
    proof (cases "length rest \<le> fk_buf_free_len b2")
      case True
      then show ?thesis
        unfolding L R using room assms by (cases "buf_put b2 rest") (simp_all add: Let_def)
    next
      case False
      then have "take (fk_buf_free_len b2) rest \<noteq> []" "length (take (fk_buf_free_len b2) rest) = fk_buf_free_len b2"
        using room assms by auto
      then show ?thesis
        unfolding L R using room assms False
        by (cases "buf_put b2 (take (fk_buf_free_len b2) rest)") (simp_all add: Let_def)
    qed
  qed
qed

lemma blog_read_shape:
  assumes "fk_blog_read_data rest c = Some (rc, rest', c')"
  shows "(\<exists>b. c' = c\<lparr>rbuf := b\<rparr>) \<and> (rc = SVR_DONE \<longrightarrow> rest' = [])"
  using assms unfolding fk_blog_read_data_def Let_def
  by (auto split: bind_splits if_splits)

lemma blog_read_spec:
  assumes inv: "conn_inv c" and room: "high (rbuf c) < highwat (rbuf c)" and ne: "rest \<noteq> []"
  shows "\<exists>rc b bs rest'. fk_blog_read_data rest c = Some (rc, rest', c\<lparr>rbuf := b\<rparr>) \<and> conn_inv (c\<lparr>rbuf := b\<rparr>)
    \<and> payload b = payload (rbuf c) @ bs \<and> rest = bs @ rest' \<and> bs \<noteq> [] \<and> highwat b = highwat (rbuf c)
    \<and> high b \<le> high (rbuf c) + length bs \<and> (rc = SVR_OK \<or> rc = SVR_DONE \<and> rest' = [])"
proof -
  have "chunks [Chunk rest]" by simp
  from recv_data_chunks [OF inv this room, of "last_recv c"]
  obtain rc sock' b t bs where r: "fk_conn_recv_data (last_recv c) [Chunk rest] c = Some (rc, sock', c\<lparr>rbuf := b, last_recv := t\<rparr>)"
    "conn_inv (c\<lparr>rbuf := b, last_recv := t\<rparr>)" "payload b = payload (rbuf c) @ bs" "rest = bs @ sock_data sock'"
    "highwat b = highwat (rbuf c)" "high b \<le> high (rbuf c) + length bs"
    "if bs = [] then rc = SVR_AGAIN \<and> sock_data [Chunk rest] = [] else rc = SVR_OK \<or> rc = SVR_DONE"
    by auto
  have rd: "fk_blog_read_data rest c = Some (rc, sock_data sock', c\<lparr>rbuf := b, last_recv := t\<rparr>)"
    using blog_read_as_recv [OF ne] r(1) by simp
  then obtain b' where "c\<lparr>rbuf := b, last_recv := t\<rparr> = c\<lparr>rbuf := b'\<rparr>"
    using blog_read_shape by blast
  then have eq: "c\<lparr>rbuf := b, last_recv := t\<rparr> = c\<lparr>rbuf := b\<rparr>"
    by (metis fk_conn.surjective fk_conn.update_convs(4,6))
  have "bs \<noteq> []" "rc = SVR_OK \<or> rc = SVR_DONE \<and> sock_data sock' = []"
    using r(7) ne blog_read_shape [OF rd] by (auto split: if_splits)
  then show ?thesis
    using rd r eq by metis
qed

text \<open>Shrinking the vector of arguments between two reads does no harm to a request with at most four of them.\<close>

lemma vtr_shrink_id: "args_inv c as \<Longrightarrow> arg_parsed c \<le> 4 \<Longrightarrow> fk_vtr_shrink (arg_vtr c) = arg_vtr c"
  by (auto simp: args_inv_def fk_vtr_shrink_def fk_consts)

definition few_args :: "string list list \<Rightarrow> bool" where
  "few_args rs \<longleftrightarrow> (\<forall>as \<in> set rs. length as \<le> 4)"

lemma stream_at_parsed:
  assumes "stream_at c rs fut" and "few_args rs"
  shows "fk_vtr_shrink (arg_vtr c) = arg_vtr c"
proof -
  obtain as where as: "args_inv c as"
    using assms(1) by (auto simp: stream_at_def conn_inv_def)
  have "arg_parsed c \<le> 4"
  proof (cases rs)
    case Nil
    then show ?thesis
      using assms(1) by (simp add: stream_at_def)
  next
    case (Cons x xs)
    then have "arg_parsed c = 0 \<or> arg_parsed c = int (length x)"
      using assms(1) by (auto simp: stream_at_def parse_at_def)
    then show ?thesis
      using assms(2) Cons by (auto simp: few_args_def)
  qed
  then show ?thesis
    using vtr_shrink_id [OF as] by blast
qed

lemma blog_read_end:
  assumes inv: "conn_inv c" and room: "high (rbuf c) < highwat (rbuf c)"
  shows "\<exists>b. fk_blog_read_data [] c = Some (SVR_DONE, [], c\<lparr>rbuf := b\<rparr>) \<and> buf_inv b \<and> payload b = payload (rbuf c)
    \<and> highwat b = highwat (rbuf c) \<and> high b \<le> high (rbuf c)"
proof -
  have "chunks []" by simp
  from recv_data_chunks [OF inv this room, of "last_recv c"]
  obtain b t where r: "fk_conn_recv_data (last_recv c) [] c = Some (SVR_AGAIN, [], c\<lparr>rbuf := b, last_recv := t\<rparr>)"
    "conn_inv (c\<lparr>rbuf := b, last_recv := t\<rparr>)" "payload b = payload (rbuf c)" "highwat b = highwat (rbuf c)" "high b \<le> high (rbuf c)"
    by (auto simp: fk_conn_recv_data_def Let_def split: bind_splits if_splits)
  have "fk_blog_read_data [] c = Some (SVR_DONE, [], c\<lparr>rbuf := b\<rparr>)"
  proof (cases "if fk_buf_payload_len (rbuf c) > 3 * (blen (rbuf c) div 4) then fk_buf_shift (rbuf c) else Some (rbuf c)")
    case None
    then show ?thesis
      using r(1) by (simp add: fk_conn_recv_data_def)
  next
    case (Some b1)
    define b2 where "b2 = (if fk_buf_free_len b1 = 0 then fk_buf_stretch b1 else b1)"
    have "fk_buf_free_len b2 \<noteq> 0" "c\<lparr>rbuf := b2\<rparr> = c\<lparr>rbuf := b, last_recv := t\<rparr>"
      using r(1) unfolding fk_conn_recv_data_def Some b2_def by (auto simp: Let_def split: if_splits)
    then have "fk_blog_read_data [] c = Some (SVR_DONE, [], c\<lparr>rbuf := b2\<rparr>)" "rbuf (c\<lparr>rbuf := b2\<rparr>) = b"
      unfolding fk_blog_read_data_def Some b2_def by (auto simp: Let_def)
    then show ?thesis
      by simp
  qed
  then show ?thesis
    using r by (auto simp: conn_inv_def)
qed

lemma remaining_rbuf:
  assumes "remaining s c rs (bs @ fut) a' i' out'" and "conn_inv (c\<lparr>rbuf := b\<rparr>)" and "payload b = payload (rbuf c) @ bs"
  shows "remaining s (c\<lparr>rbuf := b\<rparr>) rs fut a' i' out'"
  using assms stream_at_recv [where c = c and rs = rs and bs = bs and fut = fut and b = b and t = "last_recv c"] by (auto simp: remaining_def can_serve_def unlogged_def)

text \<open>One turn of the loop after the read, with the two shrinking steps.\<close>

lemma blog_turn:
  assumes rm: "remaining s c rs fut a' i' bs" and few: "few_args rs" and pm: "fk_proto_init ev = Some pm"
  shows "\<exists>rest s' c2 b b1 b2. req_loop pm s c = Some (SVR_OK, s', c2) \<and> fk_buf_shrink (rbuf c2) = Some b \<and> bs = b1 @ b2
    \<and> c2\<lparr>rbuf := b, arg_vtr := fk_vtr_shrink (arg_vtr c2)\<rparr> = c2\<lparr>rbuf := b\<rparr>
    \<and> remaining s' (c2\<lparr>rbuf := b\<rparr>) rest fut a' i' b2 \<and> (rest = [] \<or> fut \<noteq> []) \<and> few_args rest
    \<and> out c2 = out c @ b1 \<and> highwat b = highwat (rbuf c) \<and> high b \<le> high (rbuf c)"
proof -
  obtain rest s' c2 a1 i1 b1 b2 dn where l: "req_loop pm s c = Some (SVR_OK, s', c2)" "bs = b1 @ b2"
    "progressed s c s' c2 a1 i1 b1" "remaining s' c2 rest fut a' i' b2" "rest = [] \<or> fut \<noteq> []" "rs = dn @ rest"
    using req_loop_remaining [OF rm pm] by blast
  have few': "few_args rest"
    using few l(6) by (simp add: few_args_def)
  have st: "stream_at c2 rest fut"
    using l(4) by (simp add: remaining_def)
  then have inv: "conn_inv c2"
    by (simp add: stream_at_def)
  then obtain b where b: "fk_buf_shrink (rbuf c2) = Some b" "buf_inv b" "payload b = payload (rbuf c2)" "highwat b = highwat (rbuf c2)"
    using shrink_spec [of "rbuf c2"] by (auto simp: conn_inv_def)
  have inv_b: "conn_inv (c2\<lparr>rbuf := b\<rparr>)"
    using inv b(2) by (auto simp: conn_inv_def args_inv_def)
  have "remaining s' (c2\<lparr>rbuf := b\<rparr>) rest fut a' i' b2"
    using remaining_rbuf [of s' c2 rest "[]" fut a' i' b2 b] l(4) inv_b b(3) by simp
  moreover have "c2\<lparr>rbuf := b, arg_vtr := fk_vtr_shrink (arg_vtr c2)\<rparr> = c2\<lparr>rbuf := b\<rparr>"
    unfolding stream_at_parsed [OF st few'] by simp
  moreover have "out c2 = out c @ b1" "highwat b = highwat (rbuf c)" "high b \<le> high (rbuf c)"
    using l(3) b(4) shrink_high [OF b(1)] by (auto simp: progressed_def reached_def)
  ultimately show ?thesis
    using l(1,2,5) b(1) few' by blast
qed

lemma blog_load_remaining:
  assumes "remaining s c rs log a' i' bs" and "few_args rs" and "fk_proto_init ev = Some pm"
    and "high (rbuf c) + length log < highwat (rbuf c)" and "rs = [] \<or> log \<noteq> []"
  shows "\<exists>s' c'. fk_blog_load pm log s c = Some (s', c') \<and> out c' = out c @ bs \<and> remaining s' c' [] [] a' i' []"
  using assms
proof (induction "length log" arbitrary: log s c rs bs rule: less_induct)
  case less
  have inv: "conn_inv c"
    using less.prems(1) by (simp add: remaining_def stream_at_def)
  have room: "high (rbuf c) < highwat (rbuf c)"
    using less.prems(4) by simp
  show ?case
  proof (cases "log = []")
    case True
    obtain b where b: "fk_blog_read_data [] c = Some (SVR_DONE, [], c\<lparr>rbuf := b\<rparr>)" "buf_inv b" "payload b = payload (rbuf c)"
      using blog_read_end [OF inv room] by blast
    have "conn_inv (c\<lparr>rbuf := b\<rparr>)"
      using inv b(2) by (auto simp: conn_inv_def args_inv_def)
    then have "remaining s (c\<lparr>rbuf := b\<rparr>) rs [] a' i' bs"
      using remaining_rbuf [of s c rs "[]" "[]" a' i' bs b] less.prems(1) b(3) True by simp
    from blog_turn [OF this less.prems(2,3)]
    obtain s' c2 b' b1 b2 where t: "req_loop pm s (c\<lparr>rbuf := b\<rparr>) = Some (SVR_OK, s', c2)" "fk_buf_shrink (rbuf c2) = Some b'"
      "bs = b1 @ b2" "c2\<lparr>rbuf := b', arg_vtr := fk_vtr_shrink (arg_vtr c2)\<rparr> = c2\<lparr>rbuf := b'\<rparr>"
      "remaining s' (c2\<lparr>rbuf := b'\<rparr>) [] [] a' i' b2" "out c2 = out c @ b1"
      by auto
    have "fk_blog_load pm log s c = Some (s', c2\<lparr>rbuf := b'\<rparr>)"
      using b(1) t(1,2,4) True by (simp add: fk_blog_load.simps Let_def)
    then show ?thesis
      using t by (auto simp: remaining_def)
  next
    case False
    obtain rc b ds rest' where r: "fk_blog_read_data log c = Some (rc, rest', c\<lparr>rbuf := b\<rparr>)" "conn_inv (c\<lparr>rbuf := b\<rparr>)"
      "payload b = payload (rbuf c) @ ds" "log = ds @ rest'" "ds \<noteq> []" "highwat b = highwat (rbuf c)"
      "high b \<le> high (rbuf c) + length ds" "rc = SVR_OK \<or> rc = SVR_DONE \<and> rest' = []"
      using blog_read_spec [OF inv room False] by blast
    have "remaining s (c\<lparr>rbuf := b\<rparr>) rs rest' a' i' bs"
      using remaining_rbuf [OF _ r(2,3)] less.prems(1) r(4) by simp
    from blog_turn [OF this less.prems(2,3)]
    obtain rest s' c2 b' b1 b2 where t: "req_loop pm s (c\<lparr>rbuf := b\<rparr>) = Some (SVR_OK, s', c2)" "fk_buf_shrink (rbuf c2) = Some b'"
      "bs = b1 @ b2" "c2\<lparr>rbuf := b', arg_vtr := fk_vtr_shrink (arg_vtr c2)\<rparr> = c2\<lparr>rbuf := b'\<rparr>"
      "remaining s' (c2\<lparr>rbuf := b'\<rparr>) rest rest' a' i' b2" "rest = [] \<or> rest' \<noteq> []" "few_args rest" "out c2 = out c @ b1"
      "highwat b' = highwat b" "high b' \<le> high b"
      by auto
    show ?thesis
    proof (cases "rc = SVR_DONE")
      case True
      then have "fk_blog_load pm log s c = Some (s', c2\<lparr>rbuf := b'\<rparr>)"
        using r(1) t(1,2,4) by (simp add: fk_blog_load.simps Let_def)
      moreover have "rest = []" "rest' = []"
        using True r(8) t(6) by auto
      ultimately show ?thesis
        using t by (auto simp: remaining_def)
    next
      case not_done: False
      then have step: "fk_blog_load pm log s c = fk_blog_load pm rest' s' (c2\<lparr>rbuf := b'\<rparr>)"
        using r(1,8) t(1,2,4) by (subst fk_blog_load.simps) (simp add: Let_def)
      have "length rest' < length log" "high (rbuf (c2\<lparr>rbuf := b'\<rparr>)) + length rest' < highwat (rbuf (c2\<lparr>rbuf := b'\<rparr>))"
        using r(4-7) t(9,10) less.prems(4) by auto
      from less.hyps [OF this(1) t(5,7) less.prems(3) this(2) t(6)]
      show ?thesis
        using step t(3,8) by auto
    qed
  qed
qed

subsection \<open>The start of the server\<close>

definition a_empty :: "nat \<Rightarrow> nat \<Rightarrow> astate" where
  "a_empty n t = \<lparr>a_dbs = replicate n Map.empty, a_exps = replicate n Map.empty, a_tick = t\<rparr>"

text \<open>
  C27. A server that starts with the binary log switched on rebuilds its databases from the log: when the log
  holds the bytes of the requests \<open>rs\<close>, the start returns with exactly the databases that \<open>rs\<close> mean one
  after the other on empty databases. The bounds are those of the code: the log is replayed through one
  connection, so the log must fit below the high-water mark of its read buffer, all replies (which
  nobody reads) below that of its write buffer, and no request has more than four arguments.\<close>

theorem log_replay:
  assumes on: "blog_on conf = 1" and n: "0 < n" "n < 2 ^ 31" and pm: "fk_proto_init ev = Some pm"
    and rs: "list_all req_ok rs" "few_args rs" and log: "length (enc_reqs rs) < FK_BUF_HIGHWAT"
    and run: "a_run (clock s) n rs (a_empty n (ticks s)) 0 = Some (a', i', bs)"
    and out: "length bs \<le> max_wbuf conf" "FK_BUF_INIT_LEN \<le> max_wbuf conf" "max_wbuf conf < 536870912"
  shows "\<exists>s'. fk_svr_init pm g fr now (enc_reqs rs) conf n s = KOk s' \<and> svr_inv s' \<and> abs_svr s' = a'"
proof -
  define s0 where "s0 = s\<lparr>setting := conf, dbcnt := n, save_pid := -1, rewrite_pid := -1, last_save := now, conn_cnt := 0,
      timer_cnt := 0, conns_tab := replicate (nat (max_conns conf + 17)) None,
      db := replicate n fk_dict_create, expdb := replicate n fk_dict_create\<rparr>"
  obtain c where c: "fk_conn_create fr (max_wbuf conf) now FK_CONN_FAKE_FD = Some c" "conn_inv c" "parse_done c = 0"
    "arg_parsed c = 0" "db_idx c = 0" "payload (rbuf c) = []" "out c = []" "high (rbuf c) = 0"
    "highwat (rbuf c) = FK_BUF_HIGHWAT" "highwat (wbuf c) = max_wbuf conf" "ctype c = CONN_FAKE"
    using out(2)
    by (auto simp: fk_conn_create_def fk_buf_create_def conn_inv_def buf_inv_def args_inv_def vtr_inv_def payload_def
        fk_vtr_create_def fk_consts)
  obtain s1 where s1_def: "fk_lua_init g fr now s0 = Some s1" "s1 = s0\<lparr>gL := g, lua_conn := Some c\<rparr>"
    using c(1) by (simp add: fk_lua_init_def s0_def)
  have s1: "svr_inv s1" "dbcnt s1 = n" "abs_svr s1 = a_empty n (ticks s)" "clock s1 = clock s"
    using n by (simp_all add: s1_def s0_def svr_inv_def list_all_iff abs_svr_def a_empty_def)
  have "remaining s1 c rs (enc_reqs rs) a' i' bs"
    using c out n s1 run rs(1) unfolding remaining_def can_serve_def unlogged_def
    by (auto intro!: stream_at_start)
  moreover have "rs = [] \<or> enc_reqs rs \<noteq> []"
    by (cases rs) (auto simp: enc_reqs_def enc_req_def)
  ultimately obtain s' c' where r: "fk_blog_load pm (enc_reqs rs) s1 c = Some (s', c')" "remaining s' c' [] [] a' i' []"
    using blog_load_remaining [OF _ rs(2) pm, of s1 c "enc_reqs rs" a' i' bs] log c(8,9) by auto
  have "fk_svr_init pm g fr now (enc_reqs rs) conf n s = KOk s'"
    using on c(1) r(1) s1_def(1) by (simp add: fk_svr_init_def s0_def)
  then show ?thesis
    using r(2) by (auto simp: remaining_def can_serve_def)
qed

theorem log_replay_witness:
  "\<exists>pm s'. fk_proto_init (\<lambda>s c. None) = Some pm
     \<and> fk_svr_init pm (gL (svr_fresh 1 0)) (\<lambda>_. CHR 0x00) 0 (enc_reqs [[''SET'', ''k'', ''v''], [''SET'', ''k'', ''w'']])
         ((setting (svr_fresh 1 0))\<lparr>blog_on := 1\<rparr>) 1 (svr_fresh 1 0) = KOk s'
     \<and> a_get 0 ''k'' (abs_svr s') = Some (AStr ''w'')"
proof -
  let ?rs = "[[''SET'', ''k'', ''v''], [''SET'', ''k'', ''w'']]" and ?conf = "(setting (svr_fresh 1 0))\<lparr>blog_on := 1\<rparr>"
  obtain pm where pm: "fk_proto_init (\<lambda>s c. None) = Some pm"
    using proto_init_spec by blast
  have u: "fk_str_2upper ''SET'' = ''SET''"
    by code_simp
  define a where "a = a_put 0 ''k'' (AStr ''w'') (a_put 0 ''k'' (AStr ''v'') (a_empty 1 0))"
  have run: "a_run (clock (svr_fresh 1 0)) 1 ?rs (a_empty 1 (ticks (svr_fresh 1 0))) 0
      = Some (a, 0, rsp_status FK_RSP_OK @ rsp_status FK_RSP_OK)"
    using u by (simp add: a_exec_def a_cmd_def a_def svr_fresh_def)
  have "length (enc_reqs ?rs) < 4194304" "length (rsp_status FK_RSP_OK @ rsp_status FK_RSP_OK) < 4096"
    by (simp_all add: enc_reqs_def enc_req_def enc_args_def enc_arg_def crlf_def print_nat.simps print_int_def rsp_status_def
        FK_RSP_OK_def)
  moreover have "list_all req_ok ?rs" "few_args ?rs"
    by (simp_all add: req_ok_def arg_ok_def fk_consts few_args_def)
  moreover have "max_wbuf ?conf = 4096" "blog_on ?conf = 1"
    by (simp_all add: svr_fresh_def)
  ultimately obtain s' where "fk_svr_init pm (gL (svr_fresh 1 0)) (\<lambda>_. CHR 0x00) 0 (enc_reqs ?rs) ?conf 1 (svr_fresh 1 0) = KOk s'" "abs_svr s' = a"
    using log_replay [OF _ _ _ pm _ _ _ run, of ?conf "gL (svr_fresh 1 0)" "\<lambda>_. CHR 0x00" 0] by (auto simp: fk_consts)
  moreover have "a_get 0 ''k'' a = Some (AStr ''w'')"
    by (simp add: a_def a_get_def a_put_def a_empty_def)
  ultimately show ?thesis
    using pm by auto
qed

end
