(* ===== verification/Fk_List.thy ===== *)
theory Fk_List
  imports Fk_Prelude
begin

text \<open>
  The doubly linked lists of \<^verbatim>\<open>fk_list.h\<close> and \<^verbatim>\<open>fk_list.c\<close> at the level of pointers: the nodes are in a store
  with their links, their data and whether they are allocated, a list is its head, its tail and its
  length. An access to a node that is not allocated is \<open>None\<close>. The lists of the other theories are
  HOL lists; what is shown here is that the pointer operations implement them.
\<close>

subsection \<open>Nodes and raw lists\<close>

record ('p, 'd) nodes =
  prv :: "'p \<Rightarrow> 'p option"
  nxt :: "'p \<Rightarrow> 'p option"
  dat :: "'p \<Rightarrow> 'd"
  alive :: "'p \<Rightarrow> bool"

record 'p rawlist =
  head :: "'p option"
  tail :: "'p option"
  len :: nat

definition set_prv :: "'p \<Rightarrow> 'p option \<Rightarrow> ('p, 'd) nodes \<Rightarrow> ('p, 'd) nodes option" where
  "set_prv p v st = (if alive st p then Some (st\<lparr>prv := (prv st)(p := v)\<rparr>) else None)"

definition set_nxt :: "'p \<Rightarrow> 'p option \<Rightarrow> ('p, 'd) nodes \<Rightarrow> ('p, 'd) nodes option" where
  "set_nxt p v st = (if alive st p then Some (st\<lparr>nxt := (nxt st)(p := v)\<rparr>) else None)"

definition get_prv :: "'p \<Rightarrow> ('p, 'd) nodes \<Rightarrow> 'p option option" where
  "get_prv p st = (if alive st p then Some (prv st p) else None)"

definition get_nxt :: "'p \<Rightarrow> ('p, 'd) nodes \<Rightarrow> 'p option option" where
  "get_nxt p st = (if alive st p then Some (nxt st p) else None)"

definition get_dat :: "'p \<Rightarrow> ('p, 'd) nodes \<Rightarrow> 'd option" where
  "get_dat p st = (if alive st p then Some (dat st p) else None)"

definition fk_rawlist_init :: "'p rawlist" where
  "fk_rawlist_init = \<lparr>head = None, tail = None, len = 0\<rparr>"

definition fk_rawlist_insert_head ::
    "'p \<Rightarrow> ('p, 'd) nodes \<times> 'p rawlist \<Rightarrow> (('p, 'd) nodes \<times> 'p rawlist) option" where
  "fk_rawlist_insert_head nd = (\<lambda>(st, l).
     if len l = 0 then
       do { st1 \<leftarrow> set_nxt nd None st;
            st2 \<leftarrow> set_prv nd None st1;
            Some (st2, l\<lparr>tail := Some nd, head := Some nd, len := len l + 1\<rparr>) }
     else
       do { st1 \<leftarrow> set_prv nd None st;
            st2 \<leftarrow> set_nxt nd (head l) st1;
            h \<leftarrow> head l;
            st3 \<leftarrow> set_prv h (Some nd) st2;
            Some (st3, l\<lparr>head := Some nd, len := len l + 1\<rparr>) })"

definition fk_rawlist_insert_tail ::
    "'p \<Rightarrow> ('p, 'd) nodes \<times> 'p rawlist \<Rightarrow> (('p, 'd) nodes \<times> 'p rawlist) option" where
  "fk_rawlist_insert_tail nd = (\<lambda>(st, l).
     if len l = 0 then
       do { st1 \<leftarrow> set_nxt nd None st;
            st2 \<leftarrow> set_prv nd None st1;
            Some (st2, l\<lparr>head := Some nd, tail := Some nd, len := len l + 1\<rparr>) }
     else
       do { st1 \<leftarrow> set_prv nd (tail l) st;
            st2 \<leftarrow> set_nxt nd None st1;
            t \<leftarrow> tail l;
            st3 \<leftarrow> set_nxt t (Some nd) st2;
            Some (st3, l\<lparr>tail := Some nd, len := len l + 1\<rparr>) })"

text \<open>\<^verbatim>\<open>len\<close> is a \<^verbatim>\<open>size_t\<close>: the decrement of 0 wraps.\<close>

definition fk_rawlist_remove_anyone ::
    "'p \<Rightarrow> ('p, 'd) nodes \<times> 'p rawlist \<Rightarrow> (('p, 'd) nodes \<times> 'p rawlist) option" where
  "fk_rawlist_remove_anyone nd = (\<lambda>(st, l).
     do { p \<leftarrow> get_prv nd st;
          n \<leftarrow> get_nxt nd st;
          (st1, l1) \<leftarrow> (case p of
             Some q \<Rightarrow> do { st' \<leftarrow> set_nxt q n st; Some (st', l) }
           | None \<Rightarrow> Some (st, l\<lparr>head := n\<rparr>));
          n1 \<leftarrow> get_nxt nd st1;
          (st2, l2) \<leftarrow> (case n1 of
             Some q \<Rightarrow> do { p1 \<leftarrow> get_prv nd st1; st' \<leftarrow> set_prv q p1 st1; Some (st', l1) }
           | None \<Rightarrow> do { p1 \<leftarrow> get_prv nd st1; Some (st1, l1\<lparr>tail := p1\<rparr>) });
          st3 \<leftarrow> set_prv nd None st2;
          st4 \<leftarrow> set_nxt nd None st3;
          Some (st4, l2\<lparr>len := (if len l2 = 0 then 2 ^ 64 - 1 else len l2 - 1)\<rparr>) })"

subsection \<open>Lists of nodes\<close>

text \<open>A segment of linked nodes between \<open>pr\<close> and \<open>nx\<close>, and a whole list.\<close>

fun seg :: "('p, 'd) nodes \<Rightarrow> 'p option \<Rightarrow> 'p list \<Rightarrow> 'p option \<Rightarrow> bool" where
  "seg st pr [] nx \<longleftrightarrow> True"
| "seg st pr (x # xs) nx \<longleftrightarrow> alive st x \<and> prv st x = pr \<and> nxt st x = (if xs = [] then nx else Some (hd xs))
     \<and> seg st (Some x) xs nx"

abbreviation hd_or :: "'p list \<Rightarrow> 'p option \<Rightarrow> 'p option" where
  "hd_or xs d \<equiv> if xs = [] then d else Some (hd xs)"

abbreviation last_or :: "'p list \<Rightarrow> 'p option \<Rightarrow> 'p option" where
  "last_or xs d \<equiv> if xs = [] then d else Some (last xs)"

definition dll :: "('p, 'd) nodes \<times> 'p rawlist \<Rightarrow> 'p list \<Rightarrow> bool" where
  "dll = (\<lambda>(st, l) xs. distinct xs \<and> len l = length xs \<and> head l = hd_or xs None \<and> tail l = last_or xs None \<and> seg st None xs None)"

text \<open>Two stores that differ in the links of the nodes in \<open>A\<close> only.\<close>

definition frame :: "'p set \<Rightarrow> ('p, 'd) nodes \<Rightarrow> ('p, 'd) nodes \<Rightarrow> bool" where
  "frame A st st' \<longleftrightarrow> dat st' = dat st \<and> alive st' = alive st \<and> (\<forall>p. p \<notin> A \<longrightarrow> prv st' p = prv st p \<and> nxt st' p = nxt st p)"

lemma seg_append:
  "seg st pr (xs @ ys) nx \<longleftrightarrow> seg st pr xs (hd_or ys nx) \<and> seg st (last_or xs pr) ys nx"
  by (induction xs arbitrary: pr) auto

lemma seg_frame: "frame A st st' \<Longrightarrow> A \<inter> set xs = {} \<Longrightarrow> seg st' pr xs nx \<longleftrightarrow> seg st pr xs nx"
  by (induction xs arbitrary: pr) (auto simp: frame_def)

lemma seg_alive: "seg st pr xs nx \<Longrightarrow> x \<in> set xs \<Longrightarrow> alive st x"
  by (induction xs arbitrary: pr) auto

lemma seg_set_first:
  assumes "seg st pr (x # xs) nx" and "distinct (x # xs)"
  shows "seg (st\<lparr>prv := (prv st)(x := pr')\<rparr>) pr' (x # xs) nx"
  using assms seg_frame [of "{x}" st "st\<lparr>prv := (prv st)(x := pr')\<rparr>" xs "Some x" nx] by (auto simp: frame_def)

lemma seg_set_last:
  assumes "seg st pr (xs @ [x]) nx" and "distinct (xs @ [x])"
  shows "seg (st\<lparr>nxt := (nxt st)(x := nx')\<rparr>) pr (xs @ [x]) nx'"
  using assms seg_frame [of "{x}" st "st\<lparr>nxt := (nxt st)(x := nx')\<rparr>" xs pr "Some x"]
  by (auto simp: frame_def seg_append)

lemma seg_agree:
  assumes "\<And>x. x \<in> set xs \<Longrightarrow> alive st' x = alive st x \<and> prv st' x = prv st x \<and> nxt st' x = nxt st x"
  shows "seg st' pr xs nx = seg st pr xs nx"
  using assms by (induction xs arbitrary: pr) auto

text \<open>The three operations on lists; the links of other nodes stay.\<close>

lemma insert_head_dll:
  assumes d: "dll (st, l) xs" and nd: "alive st nd" "nd \<notin> set xs"
  shows "\<exists>st' l'. fk_rawlist_insert_head nd (st, l) = Some (st', l') \<and> dll (st', l') (nd # xs) \<and> frame (set (nd # xs)) st st'"
proof (cases xs)
  case Nil
  then show ?thesis
    using d nd by (auto simp: dll_def fk_rawlist_insert_head_def set_nxt_def set_prv_def frame_def)
next
  case (Cons x ys)
  let ?st1 = "st\<lparr>prv := (prv st)(nd := None), nxt := (nxt st)(nd := Some x)\<rparr>"
  let ?st = "?st1\<lparr>prv := (prv ?st1)(x := Some nd)\<rparr>"
  have l: "len l \<noteq> 0" "head l = Some x" "alive st x" "x \<noteq> nd"
    using d Cons nd(2) by (auto simp: dll_def)
  have "fk_rawlist_insert_head nd (st, l) = Some (?st, l\<lparr>head := Some nd, len := len l + 1\<rparr>)"
    using l nd(1) by (simp add: fk_rawlist_insert_head_def set_prv_def set_nxt_def)
  moreover have "seg ?st1 None xs None"
    using d nd(2) by (subst seg_agree [of xs ?st1 st]) (auto simp: dll_def)
  then have "seg ?st (Some nd) xs None"
    using d seg_set_first [of ?st1 None x ys None "Some nd"] unfolding Cons dll_def by blast
  moreover have "frame (set (nd # xs)) st ?st"
    using Cons by (auto simp: frame_def)
  moreover have "dll (?st, l\<lparr>head := Some nd, len := len l + 1\<rparr>) (nd # xs)"
    using calculation(2) d nd l Cons by (auto simp: dll_def)
  ultimately show ?thesis
    by blast
qed

lemma insert_tail_dll:
  assumes d: "dll (st, l) xs" and nd: "alive st nd" "nd \<notin> set xs"
  shows "\<exists>st' l'. fk_rawlist_insert_tail nd (st, l) = Some (st', l') \<and> dll (st', l') (xs @ [nd]) \<and> frame (set (nd # xs)) st st'"
proof (cases xs rule: rev_cases)
  case Nil
  then show ?thesis
    using d nd by (auto simp: dll_def fk_rawlist_insert_tail_def set_nxt_def set_prv_def frame_def)
next
  case (snoc ys x)
  let ?st1 = "st\<lparr>prv := (prv st)(nd := Some x), nxt := (nxt st)(nd := None)\<rparr>"
  let ?st = "?st1\<lparr>nxt := (nxt ?st1)(x := Some nd)\<rparr>"
  have l: "len l \<noteq> 0" "tail l = Some x" "alive st x" "x \<noteq> nd"
    using d snoc nd(2) by (auto simp: dll_def seg_append)
  have op: "fk_rawlist_insert_tail nd (st, l) = Some (?st, l\<lparr>tail := Some nd, len := len l + 1\<rparr>)"
    using l nd(1) by (simp add: fk_rawlist_insert_tail_def set_prv_def set_nxt_def)
  have "seg ?st1 None xs None"
    using d nd(2) by (subst seg_agree [of xs ?st1 st]) (auto simp: dll_def)
  then have "seg ?st None xs (Some nd)"
    using d seg_set_last [of ?st1 None ys x None "Some nd"] unfolding snoc dll_def by blast
  moreover have "seg ?st (Some x) [nd] None"
    using nd l by simp
  ultimately have "seg ?st None (xs @ [nd]) None"
    unfolding seg_append [of ?st None xs] using snoc by simp
  moreover have "frame (set (nd # xs)) st ?st"
    using snoc by (auto simp: frame_def)
  moreover have "dll (?st, l\<lparr>tail := Some nd, len := len l + 1\<rparr>) (xs @ [nd])"
    using calculation(1) d nd l snoc by (auto simp: dll_def hd_append)
  ultimately show ?thesis
    using op by blast
qed

lemma remove_anyone_dll:
  assumes d: "dll (st, l) (ys @ nd # zs)"
  shows "\<exists>st' l'. fk_rawlist_remove_anyone nd (st, l) = Some (st', l') \<and> dll (st', l') (ys @ zs) \<and> frame (set (ys @ nd # zs)) st st'"
proof -
  have dd: "distinct (ys @ nd # zs)" "len l = length (ys @ nd # zs)" "head l = hd_or (ys @ nd # zs) None"
      "tail l = last_or (ys @ nd # zs) None" and s: "seg st None ys (Some nd)" "seg st (last_or ys None) (nd # zs) None"
    using d by (auto simp: dll_def seg_append)
  define st1 where "st1 = (if ys = [] then st else st\<lparr>nxt := (nxt st)(last ys := hd_or zs None)\<rparr>)"
  define st2 where "st2 = (if zs = [] then st1 else st1\<lparr>prv := (prv st1)(hd zs := last_or ys None)\<rparr>)"
  define st3 where "st3 = st2\<lparr>prv := (prv st2)(nd := None), nxt := (nxt st2)(nd := None)\<rparr>"
  have nd: "alive st nd" "prv st nd = last_or ys None" "nxt st nd = hd_or zs None"
    using s(2) by auto
  have ends: "ys \<noteq> [] \<Longrightarrow> last ys \<noteq> nd \<and> alive st (last ys)" "zs \<noteq> [] \<Longrightarrow> hd zs \<noteq> nd \<and> alive st (hd zs)"
    using dd(1) s seg_alive by fastforce+
  have al: "alive st1 = alive st" "alive st2 = alive st" "alive st3 = alive st" "dat st3 = dat st"
    by (simp_all add: st1_def st2_def st3_def)
  have op: "fk_rawlist_remove_anyone nd (st, l) = Some (st3, l\<lparr>head := hd_or (ys @ zs) None, tail := last_or (ys @ zs) None, len := len l - 1\<rparr>)"
    using nd ends dd al
    by (auto simp: fk_rawlist_remove_anyone_def get_prv_def get_nxt_def set_prv_def set_nxt_def st1_def st2_def st3_def
        split: option.splits)
  have "set ys \<inter> set zs = {}"
    using dd(1) by auto
  then have dis: "ys \<noteq> [] \<Longrightarrow> last ys \<notin> set zs" "zs \<noteq> [] \<Longrightarrow> hd zs \<notin> set ys"
    using last_in_set [of ys] hd_in_set [of zs] by blast+
  have "seg st1 None ys (hd_or zs None)"
  proof (cases ys rule: rev_cases)
    case (snoc us u)
    then show ?thesis
      using seg_set_last [of st None us u "Some nd" "hd_or zs None"] s(1) dd(1) by (simp add: st1_def)
  qed simp
  then have left: "seg st3 None ys (hd_or zs None)"
    using dd(1) dis by (subst seg_agree [of ys st3 st1]) (auto simp: st3_def st2_def)
  have "seg st1 (Some nd) zs None"
    using s(2) dis by (subst seg_agree [of zs st1 st]) (auto simp: st1_def)
  then have "seg st2 (last_or ys None) zs None"
    using seg_set_first [of st1 "Some nd" "hd zs" "tl zs" None "last_or ys None"] dd(1) by (cases zs) (auto simp: st2_def)
  then have "seg st3 (last_or ys None) zs None"
    using dd(1) by (subst seg_agree [of zs st3 st2]) (auto simp: st3_def)
  then have "seg st3 None (ys @ zs) None"
    using left by (simp add: seg_append)
  moreover have "frame (set (ys @ nd # zs)) st st3"
    using al by (auto simp: frame_def st1_def st2_def st3_def)
  moreover have "dll (st3, l\<lparr>head := hd_or (ys @ zs) None, tail := last_or (ys @ zs) None, len := len l - 1\<rparr>) (ys @ zs)"
    using calculation(1) dd(1,2) unfolding dll_def by simp
  ultimately show ?thesis
    using op by blast
qed

subsection \<open>Lists that own their nodes\<close>

text \<open>\<^verbatim>\<open>fk_list_t\<close>: the operations on the data are \<open>cp\<close> (\<^verbatim>\<open>data_copy\<close>, the identity when it is NULL) and \<open>cmp\<close>
  (\<^verbatim>\<open>data_cmp\<close>). \<^verbatim>\<open>fk_node_create\<close> gets the node \<open>nd\<close> from the allocator, \<^verbatim>\<open>fk_node_destroy\<close> returns it.\<close>

definition fk_node_create :: "'p \<Rightarrow> ('p, 'd) nodes \<Rightarrow> ('p, 'd) nodes" where
  "fk_node_create nd st = st\<lparr>alive := (alive st)(nd := True)\<rparr>"

definition fk_node_data_set :: "('d \<Rightarrow> 'd) \<Rightarrow> 'p \<Rightarrow> 'd \<Rightarrow> ('p, 'd) nodes \<Rightarrow> ('p, 'd) nodes option" where
  "fk_node_data_set cp nd v st = (if alive st nd then Some (st\<lparr>dat := (dat st)(nd := cp v)\<rparr>) else None)"

definition fk_list_insert_head ::
    "('d \<Rightarrow> 'd) \<Rightarrow> 'p \<Rightarrow> 'd \<Rightarrow> ('p, 'd) nodes \<times> 'p rawlist \<Rightarrow> (('p, 'd) nodes \<times> 'p rawlist) option" where
  "fk_list_insert_head cp nd v = (\<lambda>(st, l).
     do { st1 \<leftarrow> fk_node_data_set cp nd v (fk_node_create nd st); fk_rawlist_insert_head nd (st1, l) })"

definition fk_list_insert_tail ::
    "('d \<Rightarrow> 'd) \<Rightarrow> 'p \<Rightarrow> 'd \<Rightarrow> ('p, 'd) nodes \<times> 'p rawlist \<Rightarrow> (('p, 'd) nodes \<times> 'p rawlist) option" where
  "fk_list_insert_tail cp nd v = (\<lambda>(st, l).
     do { st1 \<leftarrow> fk_node_data_set cp nd v (fk_node_create nd st); fk_rawlist_insert_tail nd (st1, l) })"

definition fk_list_remove_anyone ::
    "'p \<Rightarrow> ('p, 'd) nodes \<times> 'p rawlist \<Rightarrow> (('p, 'd) nodes \<times> 'p rawlist) option" where
  "fk_list_remove_anyone nd s =
     do { (st, l) \<leftarrow> fk_rawlist_remove_anyone nd s;
          Some (st\<lparr>alive := (alive st)(nd := False)\<rparr>, l) }"

partial_function (option) fk_list_search ::
    "('d \<Rightarrow> 'd \<Rightarrow> int) \<Rightarrow> 'd \<Rightarrow> 'p option \<Rightarrow> ('p, 'd) nodes \<Rightarrow> 'p option option" where
  "fk_list_search cmp k cur st =
     (case cur of
        None \<Rightarrow> Some None
      | Some nd \<Rightarrow>
          do { d \<leftarrow> get_dat nd st;
               if cmp d k = 0 then Some (Some nd)
               else do { n \<leftarrow> get_nxt nd st; fk_list_search cmp k n st } })"

partial_function (option) fk_list_clear ::
    "('p, 'd) nodes \<times> 'p rawlist \<Rightarrow> (('p, 'd) nodes \<times> 'p rawlist) option" where
  "fk_list_clear s =
     (case head (snd s) of
        None \<Rightarrow> Some s
      | Some nd \<Rightarrow> do { s1 \<leftarrow> fk_list_remove_anyone nd s; fk_list_clear s1 })"

definition fk_list_empty :: "('p, 'd) nodes \<times> 'p rawlist \<Rightarrow> (('p, 'd) nodes \<times> 'p rawlist) option" where
  "fk_list_empty s = do { (st, l) \<leftarrow> fk_list_clear s; Some (st, fk_rawlist_init) }"

text \<open>The iterator: the current and the next node; \<open>h2t\<close> is the direction.\<close>

record 'p list_iter =
  icur :: "'p option"
  inxt :: "'p option"

definition fk_list_iter_begin :: "'p list_iter" where
  "fk_list_iter_begin = \<lparr>icur = None, inxt = None\<rparr>"

definition fk_list_iter_next ::
    "bool \<Rightarrow> ('p, 'd) nodes \<times> 'p rawlist \<Rightarrow> 'p list_iter \<Rightarrow> ('p option \<times> 'p list_iter) option" where
  "fk_list_iter_next h2t = (\<lambda>(st, l) it.
     (let c = (if icur it = None then (if h2t then head l else tail l) else inxt it)
      in case c of
           None \<Rightarrow> Some (None, it\<lparr>icur := None\<rparr>)
         | Some nd \<Rightarrow>
             do { n \<leftarrow> (if h2t then get_nxt nd st else get_prv nd st);
                  Some (Some nd, \<lparr>icur = Some nd, inxt = n\<rparr>) }))"

text \<open>\<^verbatim>\<open>fk_list_insert_sorted_only\<close>: the two ends move towards each other, the result is the place and
  whether the node goes before it.\<close>

partial_function (option) sorted_place ::
    "('d \<Rightarrow> 'd \<Rightarrow> int) \<Rightarrow> 'd \<Rightarrow> 'p option \<Rightarrow> 'p option \<Rightarrow> ('p, 'd) nodes \<Rightarrow> ('p option \<times> 'p option \<times> bool) option" where
  "sorted_place cmp v low high st =
     (case low of
        None \<Rightarrow> Some (low, high, True)
      | Some lo \<Rightarrow>
          do { dl \<leftarrow> get_dat lo st;
               if cmp dl v \<ge> 0 then Some (low, high, True)
               else
                 do { hi \<leftarrow> high;
                      dh \<leftarrow> get_dat hi st;
                      if cmp dh v \<le> 0 then Some (low, high, False)
                      else do { n \<leftarrow> get_nxt lo st; p \<leftarrow> get_prv hi st; sorted_place cmp v n p st } } })"

declare fk_list_search.simps [code] fk_list_clear.simps [code] sorted_place.simps [code]

definition fk_list_insert_sorted_only ::
    "('d \<Rightarrow> 'd \<Rightarrow> int) \<Rightarrow> 'p \<Rightarrow> ('p, 'd) nodes \<times> 'p rawlist \<Rightarrow> (('p, 'd) nodes \<times> 'p rawlist) option" where
  "fk_list_insert_sorted_only cmp nd = (\<lambda>(st, l).
     if len l = 0 then
       do { st1 \<leftarrow> set_prv nd None st; st2 \<leftarrow> set_nxt nd None st1;
            Some (st2, \<lparr>head = Some nd, tail = Some nd, len = len l + 1\<rparr>) }
     else
       do { v \<leftarrow> get_dat nd st;
            (low, high, before) \<leftarrow> sorted_place cmp v (head l) (tail l) st;
            if before then
              do { lo \<leftarrow> low;
                   (st1, l1) \<leftarrow>
                     (if low = head l then do { st1 \<leftarrow> set_prv nd None st; Some (st1, l\<lparr>head := Some nd\<rparr>) }
                      else do { q \<leftarrow> get_prv lo st; r \<leftarrow> q; st0 \<leftarrow> set_nxt r (Some nd) st;
                                q1 \<leftarrow> get_prv lo st0; st1 \<leftarrow> set_prv nd q1 st0; Some (st1, l) });
                   st2 \<leftarrow> set_prv lo (Some nd) st1;
                   st3 \<leftarrow> set_nxt nd low st2;
                   Some (st3, l1\<lparr>len := len l + 1\<rparr>) }
            else
              do { hi \<leftarrow> high;
                   (st1, l1) \<leftarrow>
                     (if high = tail l then do { st1 \<leftarrow> set_nxt nd None st; Some (st1, l\<lparr>tail := Some nd\<rparr>) }
                      else do { q \<leftarrow> get_nxt hi st; r \<leftarrow> q; st0 \<leftarrow> set_prv r (Some nd) st;
                                q1 \<leftarrow> get_nxt hi st0; st1 \<leftarrow> set_nxt nd q1 st0; Some (st1, l) });
                   st2 \<leftarrow> set_prv nd high st1;
                   st3 \<leftarrow> set_nxt hi (Some nd) st2;
                   Some (st3, l1\<lparr>len := len l + 1\<rparr>) } })"

section \<open>Correctness\<close>

subsection \<open>Walking\<close>

lemma seg_nth:
  assumes "seg st pr xs nx" and "i < length xs"
  shows "alive st (xs ! i)" "nxt st (xs ! i) = (if Suc i < length xs then Some (xs ! Suc i) else nx)"
    "prv st (xs ! i) = (if i = 0 then pr else Some (xs ! (i - 1)))"
  using assms
proof (induction xs arbitrary: pr i)
  case (Cons x xs)
  {
    case 1
    then show ?case using Cons.IH(1) [of "Some x" "i - 1"] by (cases i) auto
  next
    case 2
    then show ?case using Cons.IH(2) [of "Some x" "i - 1"] by (cases i; cases xs) auto
  next
    case 3
    then show ?case using Cons.IH(3) [of "Some x" "i - 1"] by (cases i) (auto simp: nth_Cons')
  }
qed simp_all

text \<open>The iterator visits the nodes in order, or in the reverse order, and then ends.\<close>

fun visits :: "bool \<Rightarrow> ('p, 'd) nodes \<times> 'p rawlist \<Rightarrow> 'p list_iter \<Rightarrow> nat \<Rightarrow> ('p list \<times> 'p option) option" where
  "visits h2t s it 0 = map_option (\<lambda>(r, _). ([], r)) (fk_list_iter_next h2t s it)"
| "visits h2t s it (Suc n) =
     do { (r, it1) \<leftarrow> fk_list_iter_next h2t s it; x \<leftarrow> r; (xs, e) \<leftarrow> visits h2t s it1 n; Some (x # xs, e) }"

lemma iter_h2t:
  assumes "seg st pr xs None" and "xs \<noteq> []"
  shows "visits True (st, l) \<lparr>icur = Some x, inxt = Some (hd xs)\<rparr> (length xs) = Some (xs, None)"
  using assms
proof (induction xs arbitrary: pr x)
  case (Cons y ys)
  then show ?case
    by (cases ys) (auto simp: fk_list_iter_next_def get_nxt_def)
qed simp

lemma iter_t2h:
  assumes "seg st None xs nx" and "xs \<noteq> []"
  shows "visits False (st, l) \<lparr>icur = Some x, inxt = Some (last xs)\<rparr> (length xs) = Some (rev xs, None)"
  using assms
proof (induction xs arbitrary: nx x rule: rev_induct)
  case (snoc y ys)
  then show ?case
    by (cases ys rule: rev_cases) (auto simp: fk_list_iter_next_def get_prv_def seg_append)
qed simp

lemma iter_first:
  assumes "visits h2t (st, l) \<lparr>icur = Some x, inxt = Some y\<rparr> n = r" and "(if h2t then head l else tail l) = Some y"
  shows "visits h2t (st, l) fk_list_iter_begin n = r"
proof -
  have "fk_list_iter_next h2t (st, l) fk_list_iter_begin = fk_list_iter_next h2t (st, l) \<lparr>icur = Some x, inxt = Some y\<rparr>"
    using assms(2) by (cases h2t) (simp_all add: fk_list_iter_next_def fk_list_iter_begin_def)
  then show ?thesis
    using assms(1) by (cases n) (simp_all only: visits.simps)
qed

lemma search_seg:
  assumes "seg st pr xs None"
  shows "fk_list_search cmp k (hd_or xs None) st = Some (find (\<lambda>p. cmp (dat st p) k = 0) xs)"
  using assms
proof (induction xs arbitrary: pr)
  case Nil
  then show ?case by (simp add: fk_list_search.simps)
next
  case (Cons x xs)
  then show ?case
    using Cons.IH [of "Some x"] by (subst fk_list_search.simps) (auto simp: get_dat_def get_nxt_def)
qed

subsection \<open>Removing everything\<close>

lemma list_clear_dll:
  assumes "dll (st, l) xs"
  shows "\<exists>st' l'. fk_list_clear (st, l) = Some (st', l') \<and> dll (st', l') []
    \<and> alive st' = (\<lambda>p. alive st p \<and> p \<notin> set xs)"
  using assms
proof (induction xs arbitrary: st l)
  case Nil
  then show ?case by (auto simp: fk_list_clear.simps dll_def)
next
  case (Cons x xs)
  obtain st1 l1 where r: "fk_rawlist_remove_anyone x (st, l) = Some (st1, l1)" "dll (st1, l1) xs" "frame (set (x # xs)) st st1"
    using remove_anyone_dll [of st l "[]" x xs] Cons.prems by auto
  let ?st = "st1\<lparr>alive := (alive st1)(x := False)\<rparr>"
  have "seg ?st None xs None"
    using r(2) Cons.prems by (subst seg_agree [of xs ?st st1]) (auto simp: dll_def)
  then have "dll (?st, l1) xs"
    using r(2) by (simp add: dll_def)
  from Cons.IH [OF this] obtain st' l' where c: "fk_list_clear (?st, l1) = Some (st', l')" "dll (st', l') []"
    "alive st' = (\<lambda>p. alive ?st p \<and> p \<notin> set xs)"
    by blast
  have "fk_list_clear (st, l) = fk_list_clear (?st, l1)"
    using Cons.prems r(1) by (subst fk_list_clear.simps) (simp add: dll_def fk_list_remove_anyone_def)
  then show ?case
    using c r(3) by (intro exI [of _ st'] exI [of _ l']) (auto simp: frame_def fun_eq_iff)
qed

subsection \<open>Inserting in order\<close>

text \<open>A node between two parts of a list.\<close>

definition splice :: "'p list \<Rightarrow> 'p \<Rightarrow> 'p list \<Rightarrow> ('p, 'd) nodes \<Rightarrow> ('p, 'd) nodes" where
  "splice ys nd zs st =
     st\<lparr>nxt := (if ys = [] then nxt st else (nxt st)(last ys := Some nd))(nd := hd_or zs None),
        prv := (if zs = [] then prv st else (prv st)(hd zs := Some nd))(nd := last_or ys None)\<rparr>"

lemma splice_dll:
  assumes d: "dll (st, l) (ys @ zs)" and nd: "alive st nd" "nd \<notin> set (ys @ zs)"
    and l': "head l' = hd_or (ys @ [nd]) None" "tail l' = last_or (nd # zs) None" "len l' = len l + 1"
  shows "dll (splice ys nd zs st, l') (ys @ nd # zs)"
proof -
  let ?st = "splice ys nd zs st"
  have dd: "distinct (ys @ nd # zs)" and s: "seg st None ys (hd_or zs None)" "seg st (last_or ys None) zs None"
    using d nd by (auto simp: dll_def seg_append)
  have "set ys \<inter> set zs = {}"
    using dd by auto
  then have dis: "ys \<noteq> [] \<Longrightarrow> last ys \<notin> set zs" "zs \<noteq> [] \<Longrightarrow> hd zs \<notin> set ys"
    using last_in_set [of ys] hd_in_set [of zs] by blast+
  have "seg ?st None ys (Some nd)"
  proof (cases ys rule: rev_cases)
    case (snoc us u)
    let ?s1 = "st\<lparr>nxt := (nxt st)(u := Some nd)\<rparr>"
    have "seg ?s1 None ys (Some nd)"
      using seg_set_last [of st None us u "hd_or zs None" "Some nd"] s(1) dd snoc by simp
    then show ?thesis
      using dd dis nd snoc by (subst seg_agree [of ys ?st ?s1]) (auto simp: splice_def)
  qed simp
  moreover have "seg ?st (Some nd) zs None"
  proof (cases zs)
    case (Cons u us)
    let ?s1 = "st\<lparr>prv := (prv st)(u := Some nd)\<rparr>"
    have "seg ?s1 (Some nd) zs None"
      using seg_set_first [of st "last_or ys None" u us None "Some nd"] s(2) dd Cons by simp
    then show ?thesis
      using dd dis nd Cons by (subst seg_agree [of zs ?st ?s1]) (auto simp: splice_def)
  qed simp
  ultimately have "seg ?st None (ys @ nd # zs) None"
    using nd by (auto simp: seg_append splice_def)
  then show ?thesis
    using d dd l' by (auto simp: dll_def hd_append)
qed

context key_order
begin

text \<open>The search from both ends stops at a place that keeps the order.\<close>

lemma sorted_place_spec:
  assumes s: "seg st None xs None" and D: "v \<in> D" "\<forall>p \<in> set xs. dat st p \<in> D"
    and ord: "sorted (map (\<lambda>p. key (dat st p)) xs)"
    and i: "i < length xs" "\<forall>j < i. key (dat st (xs ! j)) < key v"
      "\<forall>j < length xs. length xs - 1 - i < j \<longrightarrow> key v < key (dat st (xs ! j))"
  shows "\<exists>k low high before. sorted_place cmp v (Some (xs ! i)) (Some (xs ! (length xs - 1 - i))) st = Some (low, high, before)
    \<and> k < length xs \<and> (if before then low = Some (xs ! k) else high = Some (xs ! k))
    \<and> (\<forall>j < (if before then k else Suc k). key (dat st (xs ! j)) \<le> key v)
    \<and> (\<forall>j < length xs. (if before then k else Suc k) \<le> j \<longrightarrow> key v \<le> key (dat st (xs ! j)))"
  using i
proof (induction "length xs - i" arbitrary: i rule: less_induct)
  case less
  let ?n = "length xs"
  let ?lo = "xs ! i" and ?hi = "xs ! (?n - 1 - i)"
  have hi_lt: "?n - 1 - i < ?n"
    using less.prems(1) by simp
  note lo = seg_nth [OF s less.prems(1)] and hi = seg_nth [OF s hi_lt]
  have DD: "dat st ?lo \<in> D" "dat st ?hi \<in> D"
    using D(2) less.prems(1) hi_lt by simp_all
  have mono: "key (dat st (xs ! a)) \<le> key (dat st (xs ! b))" if "a \<le> b" "b < ?n" for a b
    using sorted_nth_mono [OF ord that(1)] that by simp
  consider "cmp (dat st ?lo) v \<ge> 0" | "cmp (dat st ?lo) v < 0" "cmp (dat st ?hi) v \<le> 0"
    | "cmp (dat st ?lo) v < 0" "cmp (dat st ?hi) v > 0"
    by linarith
  then show ?case
  proof cases
    case 1
    then have "sorted_place cmp v (Some ?lo) (Some ?hi) st = Some (Some ?lo, Some ?hi, True)"
      using lo(1) by (subst sorted_place.simps) (simp add: get_dat_def)
    moreover have "key v \<le> key (dat st ?lo)"
      using 1 cmp_ge [OF DD(1) D(1)] by simp
    ultimately show ?thesis
      using less.prems(1,2) mono by (intro exI [of _ i] exI conjI) (auto intro: order_trans less_imp_le)
  next
    case 2
    then have "sorted_place cmp v (Some ?lo) (Some ?hi) st = Some (Some ?lo, Some ?hi, False)"
      using lo(1) hi(1) by (subst sorted_place.simps) (simp add: get_dat_def)
    moreover have le: "key (dat st ?hi) \<le> key v"
      using 2 cmp_le [OF DD(2) D(1)] by simp
    moreover have "key (dat st (xs ! j)) \<le> key v" if "j < Suc (?n - 1 - i)" for j
      using mono [of j "?n - 1 - i"] that hi_lt le by auto
    moreover have "key v \<le> key (dat st (xs ! j))" if "j < ?n" "Suc (?n - 1 - i) \<le> j" for j
      using less.prems(3) that by (simp add: less_imp_le Suc_le_eq)
    ultimately show ?thesis
      using hi_lt by (intro exI [of _ "?n - 1 - i"] exI [of _ "Some ?lo"] exI [of _ "Some ?hi"] exI [of _ False]) simp
  next
    case 3
    have k: "key (dat st ?lo) < key v" "key v < key (dat st ?hi)"
      using 3 cmp_less [OF DD(1) D(1)] cmp_greater [OF DD(2) D(1)] by auto
    have "i < ?n - 1 - i"
      using k mono [of "?n - 1 - i" i] less.prems(1) by (meson leI not_le order_less_trans)
    then have i1: "Suc i < ?n" "?n - 1 - i \<noteq> 0" "?n - 1 - i - 1 = ?n - 1 - Suc i"
      by auto
    have low': "\<forall>j < Suc i. key (dat st (xs ! j)) < key v"
      using less.prems(2) k(1) by (auto simp: less_Suc_eq)
    have high': "\<forall>j < ?n. ?n - 1 - Suc i < j \<longrightarrow> key v < key (dat st (xs ! j))"
    proof (intro allI impI)
      fix j assume j: "j < ?n" "?n - 1 - Suc i < j"
      show "key v < key (dat st (xs ! j))"
      proof (cases "j = ?n - 1 - i")
        case False
        then have "?n - 1 - i < j" using j i1 by arith
        then show ?thesis using less.prems(3) j(1) by blast
      qed (use k(2) in simp)
    qed
    have "sorted_place cmp v (Some ?lo) (Some ?hi) st =
        sorted_place cmp v (Some (xs ! Suc i)) (Some (xs ! (?n - 1 - Suc i))) st"
      using 3 lo hi i1 by (subst sorted_place.simps) (simp add: get_dat_def get_nxt_def get_prv_def)
    then show ?thesis
      using less.hyps [of "Suc i"] low' high' i1(1) by simp
  qed
qed

end

text \<open>The two ways to link the node are the same list.\<close>

lemma insert_before:
  assumes d: "dll (st, l) (ys @ lo # zs)" and nd: "alive st nd" "nd \<notin> set (ys @ lo # zs)"
    and p: "sorted_place cmp (dat st nd) (head l) (tail l) st = Some (Some lo, high, True)"
  shows "\<exists>l'. fk_list_insert_sorted_only cmp nd (st, l) = Some (splice ys nd (lo # zs) st, l')
    \<and> head l' = hd_or (ys @ [nd]) None \<and> tail l' = tail l \<and> len l' = len l + 1"
proof -
  have dd: "distinct (ys @ lo # zs)" "len l \<noteq> 0" "head l = Some (hd (ys @ [lo]))" "alive st lo" "prv st lo = last_or ys None"
    using d by (auto simp: dll_def seg_append hd_append)
  have "\<And>x. x \<in> set ys \<Longrightarrow> alive st x"
    using d seg_alive by (fastforce simp: dll_def)
  then have al: "ys \<noteq> [] \<Longrightarrow> alive st (last ys)"
    by simp
  have ne: "nd \<noteq> lo" "ys \<noteq> [] \<Longrightarrow> last ys \<noteq> nd \<and> last ys \<noteq> lo \<and> hd ys \<noteq> lo"
    using nd(2) dd(1) by auto
  show ?thesis
  proof (cases "ys = []")
    case True
    then show ?thesis
      using dd nd(1) ne p
      by (auto simp: fk_list_insert_sorted_only_def get_dat_def get_prv_def set_prv_def set_nxt_def splice_def fun_upd_twist)
  next
    case False
    then show ?thesis
      using dd nd(1) ne al p
      by (auto simp: fk_list_insert_sorted_only_def get_dat_def get_prv_def set_prv_def set_nxt_def splice_def fun_upd_twist)
  qed
qed

lemma insert_behind:
  assumes d: "dll (st, l) (ys @ hi # zs)" and nd: "alive st nd" "nd \<notin> set (ys @ hi # zs)"
    and p: "sorted_place cmp (dat st nd) (head l) (tail l) st = Some (low, Some hi, False)"
  shows "\<exists>l'. fk_list_insert_sorted_only cmp nd (st, l) = Some (splice (ys @ [hi]) nd zs st, l')
    \<and> head l' = head l \<and> tail l' = last_or (nd # zs) None \<and> len l' = len l + 1"
proof -
  have dd: "distinct (ys @ hi # zs)" "len l \<noteq> 0" "tail l = Some (last (hi # zs))" "alive st hi" "nxt st hi = hd_or zs None"
    using d by (auto simp: dll_def seg_append)
  have "\<And>x. x \<in> set zs \<Longrightarrow> alive st x"
    using d seg_alive by (fastforce simp: dll_def)
  then have al: "zs \<noteq> [] \<Longrightarrow> alive st (hd zs)"
    by simp
  have ne: "nd \<noteq> hi" "zs \<noteq> [] \<Longrightarrow> hd zs \<noteq> nd \<and> hd zs \<noteq> hi \<and> last zs \<noteq> hi"
    using nd(2) dd(1) by auto
  show ?thesis
  proof (cases "zs = []")
    case True
    then show ?thesis
      using dd nd(1) ne p
      by (auto simp: fk_list_insert_sorted_only_def get_dat_def get_nxt_def set_prv_def set_nxt_def splice_def fun_upd_twist)
  next
    case False
    then show ?thesis
      using dd nd(1) ne al p
      by (auto simp: fk_list_insert_sorted_only_def get_dat_def get_nxt_def set_prv_def set_nxt_def splice_def fun_upd_twist)
  qed
qed

lemma insert_sorted_dll:
  assumes "key_order cmp key D" and d: "dll (st, l) xs" and nd: "alive st nd" "nd \<notin> set xs"
    and D: "\<forall>p \<in> set (nd # xs). dat st p \<in> D" and ord: "sorted (map (\<lambda>p. key (dat st p)) xs)"
  shows "\<exists>s' ys zs. fk_list_insert_sorted_only cmp nd (st, l) = Some s' \<and> dll s' (ys @ nd # zs) \<and> xs = ys @ zs
    \<and> fst s' = splice ys nd zs st \<and> (\<forall>p \<in> set ys. key (dat st p) \<le> key (dat st nd)) \<and> (\<forall>p \<in> set zs. key (dat st nd) \<le> key (dat st p))"
proof (cases "xs = []")
  case True
  then have "fk_list_insert_sorted_only cmp nd (st, l) =
      Some (splice [] nd [] st, \<lparr>head = Some nd, tail = Some nd, len = len l + 1\<rparr>)"
    using d nd by (simp add: fk_list_insert_sorted_only_def set_prv_def set_nxt_def splice_def dll_def)
  then show ?thesis
    using splice_dll [of st l "[]" "[]"] d nd True
    by (intro exI [of _ "(splice [] nd [] st, \<lparr>head = Some nd, tail = Some nd, len = len l + 1\<rparr>)"] exI [of _ "[]"]) auto
next
  case False
  then have l: "head l = Some (xs ! 0)" "tail l = Some (xs ! (length xs - 1))" and s: "seg st None xs None"
    using d by (simp_all add: dll_def hd_conv_nth last_conv_nth)
  have "\<forall>j < length xs. length xs - 1 - 0 < j \<longrightarrow> key (dat st nd) < key (dat st (xs ! j))"
    by auto
  then obtain k low high before where k: "sorted_place cmp (dat st nd) (head l) (tail l) st = Some (low, high, before)" "k < length xs"
    "if before then low = Some (xs ! k) else high = Some (xs ! k)"
    "\<forall>j < (if before then k else Suc k). key (dat st (xs ! j)) \<le> key (dat st nd)"
    "\<forall>j < length xs. (if before then k else Suc k) \<le> j \<longrightarrow> key (dat st nd) \<le> key (dat st (xs ! j))"
    using key_order.sorted_place_spec [OF assms(1) s, of "dat st nd" 0] D ord False unfolding l diff_zero by (simp del: One_nat_def) blast
  define m where "m = (if before then k else Suc k)"
  have split: "xs = take k xs @ xs ! k # drop (Suc k) xs" "xs = take m xs @ drop m xs"
    using k(2) by (simp_all add: id_take_nth_drop)
  have "\<exists>l'. fk_list_insert_sorted_only cmp nd (st, l) = Some (splice (take m xs) nd (drop m xs) st, l')
      \<and> head l' = hd_or (take m xs @ [nd]) None \<and> tail l' = last_or (nd # drop m xs) None \<and> len l' = len l + 1"
  proof (cases before)
    case True
    have dr: "drop k xs = xs ! k # drop (Suc k) xs"
      using k(2) by (simp add: Cons_nth_drop_Suc)
    have "last_or (nd # drop k xs) None = tail l"
      using k(2) False l(2) by (simp add: last_conv_nth)
    then show ?thesis
      using insert_before [of st l "take k xs" "xs ! k" "drop (Suc k) xs" nd cmp high] d nd split(1) k(1,3) True dr
      by (simp add: m_def)
  next
    case before: False
    have tk: "take (Suc k) xs = take k xs @ [xs ! k]"
      using k(2) by (simp add: take_Suc_conv_app_nth)
    have "hd_or (take (Suc k) xs @ [nd]) None = head l"
      using False l(1) by (cases xs) auto
    then show ?thesis
      using insert_behind [of st l "take k xs" "xs ! k" "drop (Suc k) xs" nd cmp low] d nd split(1) k(1,3) before tk
      by (simp add: m_def)
  qed
  then obtain l' where l': "fk_list_insert_sorted_only cmp nd (st, l) = Some (splice (take m xs) nd (drop m xs) st, l')"
    "head l' = hd_or (take m xs @ [nd]) None" "tail l' = last_or (nd # drop m xs) None" "len l' = len l + 1"
    by blast
  have "dll (splice (take m xs) nd (drop m xs) st, l') (take m xs @ nd # drop m xs)"
    using splice_dll [of st l "take m xs" "drop m xs" nd l'] d nd l' by simp
  moreover have "\<forall>p \<in> set (take m xs). key (dat st p) \<le> key (dat st nd)" "\<forall>p \<in> set (drop m xs). key (dat st nd) \<le> key (dat st p)"
    using k(4,5) unfolding m_def [symmetric] by (auto simp: set_conv_nth)
  ultimately show ?thesis
    using l'(1) split(2) by (intro exI [of _ "(splice (take m xs) nd (drop m xs) st, l')"] exI [of _ "take m xs"] exI [of _ "drop m xs"]) simp
qed

subsection \<open>The lists of the other theories\<close>

text \<open>A list of data, together with the nodes that hold them, and what the operations mean on it.\<close>

definition list_rep :: "('p, 'd) nodes \<times> 'p rawlist \<Rightarrow> ('p \<times> 'd) list \<Rightarrow> bool" where
  "list_rep = (\<lambda>(st, l) es. dll (st, l) (map fst es) \<and> alive st = (\<lambda>p. p \<in> set (map fst es)) \<and> (\<forall>(p, d) \<in> set es. dat st p = d))"

datatype ('p, 'd) list_op = Ins_head 'p 'd | Ins_tail 'p 'd | Ins_sorted 'p 'd | Remove 'p | Empty

definition fk_list_sorted_insert ::
    "('d \<Rightarrow> 'd) \<Rightarrow> ('d \<Rightarrow> 'd \<Rightarrow> int) \<Rightarrow> 'p \<Rightarrow> 'd \<Rightarrow> ('p, 'd) nodes \<times> 'p rawlist \<Rightarrow> (('p, 'd) nodes \<times> 'p rawlist) option" where
  "fk_list_sorted_insert cp cmp nd v = (\<lambda>(st, l).
     do { st1 \<leftarrow> fk_node_data_set cp nd v (fk_node_create nd st); fk_list_insert_sorted_only cmp nd (st1, l) })"

fun list_step :: "('d \<Rightarrow> 'd \<Rightarrow> int) \<Rightarrow> ('p, 'd) list_op \<Rightarrow> ('p, 'd) nodes \<times> 'p rawlist \<Rightarrow> (('p, 'd) nodes \<times> 'p rawlist) option" where
  "list_step cmp (Ins_head p d) s = fk_list_insert_head id p d s"
| "list_step cmp (Ins_tail p d) s = fk_list_insert_tail id p d s"
| "list_step cmp (Ins_sorted p d) s = fk_list_sorted_insert id cmp p d s"
| "list_step cmp (Remove p) s = fk_list_remove_anyone p s"
| "list_step cmp Empty s = fk_list_empty s"

text \<open>\<open>a_list_step\<close> relates the list before to the list after; a new node is one the list does not have.\<close>

fun a_list_step :: "('d \<Rightarrow> int) \<Rightarrow> ('p, 'd) list_op \<Rightarrow> ('p \<times> 'd) list \<Rightarrow> ('p \<times> 'd) list \<Rightarrow> bool" where
  "a_list_step key (Ins_head p d) es es' \<longleftrightarrow> es' = (p, d) # es"
| "a_list_step key (Ins_tail p d) es es' \<longleftrightarrow> es' = es @ [(p, d)]"
| "a_list_step key (Ins_sorted p d) es es' \<longleftrightarrow>
     (\<exists>ys zs. es = ys @ zs \<and> es' = ys @ (p, d) # zs \<and> sorted (map (key \<circ> snd) es'))"
| "a_list_step key (Remove p) es es' \<longleftrightarrow> es' = filter (\<lambda>e. fst e \<noteq> p) es"
| "a_list_step key Empty es es' \<longleftrightarrow> es' = []"

fun list_op_ok :: "('d \<Rightarrow> int) \<Rightarrow> ('p, 'd) list_op \<Rightarrow> ('p \<times> 'd) list \<Rightarrow> bool" where
  "list_op_ok key (Ins_head p d) es \<longleftrightarrow> p \<notin> set (map fst es)"
| "list_op_ok key (Ins_tail p d) es \<longleftrightarrow> p \<notin> set (map fst es)"
| "list_op_ok key (Ins_sorted p d) es \<longleftrightarrow> p \<notin> set (map fst es) \<and> sorted (map (key \<circ> snd) es)"
| "list_op_ok key (Remove p) es \<longleftrightarrow> p \<in> set (map fst es)"
| "list_op_ok key Empty es \<longleftrightarrow> True"

text \<open>A new node that holds its data.\<close>

lemma node_new:
  assumes "list_rep (st, l) es" and "p \<notin> set (map fst es)"
  obtains st1 where "fk_node_data_set id p d (fk_node_create p st) = Some st1" "dll (st1, l) (map fst es)" "alive st1 p"
    "alive st1 = (\<lambda>x. x = p \<or> alive st x)" "dat st1 = (dat st)(p := d)"
proof -
  let ?st = "st\<lparr>alive := (alive st)(p := True), dat := (dat st)(p := d)\<rparr>"
  have "fk_node_data_set id p d (fk_node_create p st) = Some ?st"
    by (simp add: fk_node_data_set_def fk_node_create_def)
  moreover have "seg ?st None (map fst es) None"
    using assms by (subst seg_agree [of _ ?st st]) (auto simp: list_rep_def dll_def)
  then have "dll (?st, l) (map fst es)"
    using assms(1) by (simp add: list_rep_def dll_def)
  ultimately show thesis
    by (intro that [of ?st]) (auto simp: fun_eq_iff)
qed

lemma list_repI:
  assumes "dll (st', l') (map fst es')" and "alive st' = (\<lambda>x. x = p \<or> alive st x)" and "dat st' = (dat st)(p := d)"
    and "list_rep (st, l) es" and "set es' = insert (p, d) (set es)" and "p \<notin> set (map fst es)"
  shows "list_rep (st', l') es'"
proof -
  have "set (map fst es') = insert p (set (map fst es))"
    using assms(5) by auto
  moreover have "dat st' x = y" if "(x, y) \<in> set es'" for x y
    using that assms(3,4,5,6) by (auto simp: list_rep_def image_iff)
  ultimately show ?thesis
    using assms(1,2,4) by (auto simp: list_rep_def fun_eq_iff)
qed

lemma rem_node:
  assumes rep: "list_rep (st, l) es" and p: "p \<in> set (map fst es)"
  shows "\<exists>s'. fk_list_remove_anyone p (st, l) = Some s' \<and> list_rep s' (filter (\<lambda>e. fst e \<noteq> p) es)"
proof -
  let ?es = "filter (\<lambda>e. fst e \<noteq> p) es"
  obtain ys zs where yz: "map fst es = ys @ p # zs"
    using p by (meson split_list)
  then obtain st1 l1 where r: "fk_rawlist_remove_anyone p (st, l) = Some (st1, l1)" "dll (st1, l1) (ys @ zs)" "frame (set (ys @ p # zs)) st st1"
    using remove_anyone_dll [of st l ys p zs] rep by (auto simp: list_rep_def)
  have d: "distinct (ys @ p # zs)"
    using rep yz by (simp add: list_rep_def dll_def)
  have "filter (\<lambda>x. x \<noteq> p) ys = ys" "filter (\<lambda>x. x \<noteq> p) zs = zs"
    using d by (auto intro!: filter_True)
  then have "filter (\<lambda>x. x \<noteq> p) (map fst es) = ys @ zs"
    using yz by simp
  then have fst: "map fst ?es = ys @ zs"
    by (simp add: filter_map o_def)
  have "alive st1 = (\<lambda>x. x \<in> set (map fst es))"
    using rep r(3) by (simp add: list_rep_def frame_def)
  then have al: "alive st1 = (\<lambda>x. x \<in> set (ys @ p # zs))"
    unfolding yz .
  let ?st = "st1\<lparr>alive := (alive st1)(p := False)\<rparr>"
  have "seg ?st None (ys @ zs) None"
    using r(2) d by (subst seg_agree [of _ ?st st1]) (auto simp: dll_def)
  then have "dll (?st, l1) (map fst ?es)"
    using r(2) fst by (simp add: dll_def)
  moreover have "alive ?st = (\<lambda>x. x \<in> set (map fst ?es))"
    using al d unfolding fst by (auto simp: fun_eq_iff)
  moreover have "\<forall>(x, y) \<in> set ?es. dat ?st x = y"
    using rep r(3) by (auto simp: list_rep_def frame_def)
  ultimately have "list_rep (?st, l1) ?es"
    by (simp add: list_rep_def)
  then show ?thesis
    using r(1) by (auto simp: fk_list_remove_anyone_def)
qed

lemma sorted_node:
  assumes "key_order cmp key UNIV" and rep: "list_rep (st, l) es" and p: "p \<notin> set (map fst es)" and ord: "sorted (map (key \<circ> snd) es)"
  shows "\<exists>s' ys zs. fk_list_sorted_insert id cmp p d (st, l) = Some s' \<and> list_rep s' (ys @ (p, d) # zs) \<and> es = ys @ zs
    \<and> sorted (map (key \<circ> snd) (ys @ (p, d) # zs))"
proof -
  obtain st1 where n: "fk_node_data_set id p d (fk_node_create p st) = Some st1" "dll (st1, l) (map fst es)" "alive st1 p"
    "alive st1 = (\<lambda>x. x = p \<or> alive st x)" "dat st1 = (dat st)(p := d)"
    using node_new [OF rep p] by blast
  have dat1: "dat st1 (fst e) = snd e" if "e \<in> set es" for e
    using rep that p n(5) by (cases e) (auto simp: list_rep_def image_iff)
  then have "map (\<lambda>p. key (dat st1 p)) (map fst es) = map (key \<circ> snd) es"
    by auto
  then have ord1: "sorted (map (\<lambda>p. key (dat st1 p)) (map fst es))"
    using ord by metis
  obtain s' as bs where s': "fk_list_insert_sorted_only cmp p (st1, l) = Some s'" "dll s' (as @ p # bs)" "map fst es = as @ bs"
    "fst s' = splice as p bs st1" "\<forall>q \<in> set as. key (dat st1 q) \<le> key (dat st1 p)" "\<forall>q \<in> set bs. key (dat st1 p) \<le> key (dat st1 q)"
    using insert_sorted_dll [OF assms(1) n(2,3) p _ ord1] by blast
  obtain ys zs where yz: "es = ys @ zs" "map fst ys = as" "map fst zs = bs"
    using s'(3) by (metis map_eq_append_conv)
  obtain st2 l2 where s2: "s' = (st2, l2)" by (cases s')
  have st2: "alive st2 = alive st1" "dat st2 = dat st1"
    using s'(4) s2 by (auto simp: splice_def)
  have "list_rep s' (ys @ (p, d) # zs)"
    unfolding s2 using s'(2) [unfolded s2] yz st2 n(4,5)
    by (intro list_repI [OF _ _ _ rep _ p]) simp_all
  moreover have "dat st1 p = d"
    using n(5) by simp
  then have "key (snd e) \<le> key d" if "e \<in> set ys" for e
    using s'(5) yz dat1 [of e] that by fastforce
  moreover have "key d \<le> key (snd e)" if "e \<in> set zs" for e
    using s'(6) yz dat1 [of e] that \<open>dat st1 p = d\<close> by fastforce
  ultimately have "list_rep s' (ys @ (p, d) # zs)" "sorted (map (key \<circ> snd) (ys @ (p, d) # zs))"
    using ord yz(1) by (auto simp: sorted_append)
  then show ?thesis
    using n(1) s'(1) yz(1) by (intro exI [of _ s'] exI [of _ ys] exI [of _ zs]) (simp add: fk_list_sorted_insert_def)
qed

text \<open>
  C36. The linked lists implement lists: every operation on a well-formed list (a new node at either end or
  at its place in the order, the removal of a node, emptying the list) touches allocated nodes only,
  returns, and leaves a well-formed list with the meaning of the operation; the nodes that are
  allocated are those of the list, so nothing is leaked and nothing is freed twice.\<close>

theorem list_step_refines:
  assumes cmp: "\<forall>a b. (cmp a b < 0 \<longleftrightarrow> key a < key b) \<and> (cmp a b > 0 \<longleftrightarrow> key a > (key b :: int))"
    and rep: "list_rep s es" and ok: "list_op_ok key op es"
  shows "\<exists>s' es'. list_step cmp op s = Some s' \<and> list_rep s' es' \<and> a_list_step key op es es'"
proof -
  obtain st l where s: "s = (st, l)" by (cases s)
  have ko: "key_order cmp key UNIV"
    using cmp by unfold_locales auto
  show ?thesis
  proof (cases op)
    case (Ins_head p d)
    then have p: "p \<notin> set (map fst es)"
      using ok by simp
    obtain st1 where n: "fk_node_data_set id p d (fk_node_create p st) = Some st1" "dll (st1, l) (map fst es)" "alive st1 p"
      "alive st1 = (\<lambda>x. x = p \<or> alive st x)" "dat st1 = (dat st)(p := d)"
      using node_new [OF rep [unfolded s] p] by blast
    obtain st' l' where i: "fk_rawlist_insert_head p (st1, l) = Some (st', l')" "dll (st', l') (p # map fst es)"
      "frame (set (p # map fst es)) st1 st'"
      using insert_head_dll [OF n(2,3) p] by blast
    have "alive st' = alive st1" "dat st' = dat st1"
      using i(3) by (simp_all add: frame_def)
    then have "list_rep (st', l') ((p, d) # es)"
      using n(4,5) i(2) by (intro list_repI [OF _ _ _ rep [unfolded s] _ p]) simp_all
    then show ?thesis
      using n(1) i(1) Ins_head s by (auto simp: fk_list_insert_head_def)
  next
    case (Ins_tail p d)
    then have p: "p \<notin> set (map fst es)"
      using ok by simp
    obtain st1 where n: "fk_node_data_set id p d (fk_node_create p st) = Some st1" "dll (st1, l) (map fst es)" "alive st1 p"
      "alive st1 = (\<lambda>x. x = p \<or> alive st x)" "dat st1 = (dat st)(p := d)"
      using node_new [OF rep [unfolded s] p] by blast
    obtain st' l' where i: "fk_rawlist_insert_tail p (st1, l) = Some (st', l')" "dll (st', l') (map fst es @ [p])"
      "frame (set (p # map fst es)) st1 st'"
      using insert_tail_dll [OF n(2,3) p] by blast
    have "alive st' = alive st1" "dat st' = dat st1"
      using i(3) by (simp_all add: frame_def)
    then have "list_rep (st', l') (es @ [(p, d)])"
      using n(4,5) i(2) by (intro list_repI [OF _ _ _ rep [unfolded s] _ p]) simp_all
    then show ?thesis
      using n(1) i(1) Ins_tail s by (auto simp: fk_list_insert_tail_def)
  next
    case (Ins_sorted p d)
    then have "p \<notin> set (map fst es)" "sorted (map (key \<circ> snd) es)"
      using ok by simp_all
    from sorted_node [OF ko rep [unfolded s] this, of d] show ?thesis
      unfolding Ins_sorted s list_step.simps a_list_step.simps by blast
  next
    case (Remove p)
    then show ?thesis
      using rem_node [of st l es p] rep s ok by auto
  next
    case Empty
    then show ?thesis
      using list_clear_dll [of st l "map fst es"] rep s
      by (auto simp: list_rep_def fk_list_empty_def dll_def fk_rawlist_init_def fun_eq_iff)
  qed
qed

definition nodes_none :: "(nat, int) nodes" where
  "nodes_none = \<lparr>prv = (\<lambda>_. None), nxt = (\<lambda>_. None), dat = (\<lambda>_. 0), alive = (\<lambda>_. False)\<rparr>"

theorem list_step_refines_witness:
  "\<exists>s' es'. list_step (\<lambda>a b. a - b) (Ins_sorted 1 7) (nodes_none, fk_rawlist_init) = Some s' \<and> list_rep s' es'
     \<and> a_list_step id (Ins_sorted 1 7) [] es'"
proof -
  have "\<forall>a b. ((\<lambda>a b. a - b) a b < 0 \<longleftrightarrow> id a < id b) \<and> ((\<lambda>a b. a - b) a b > (0::int) \<longleftrightarrow> id a > id b)"
    by simp
  moreover have "list_rep (nodes_none, fk_rawlist_init) []"
    by (simp add: list_rep_def nodes_none_def fk_rawlist_init_def dll_def)
  ultimately show ?thesis
    using list_step_refines [of "\<lambda>a b. a - b" id "(nodes_none, fk_rawlist_init)" "[]" "Ins_sorted 1 7"] by simp
qed

text \<open>
  Reading a list: the iterator of a well-formed list visits each node once, from the head to the tail or
  from the tail to the head, and then reports the end; the search returns the first node whose
  data compare equal to the key, or NULL.\<close>

theorem list_walk:
  assumes "dll (st, l) xs"
  shows "visits True (st, l) fk_list_iter_begin (length xs) = Some (xs, None)
    \<and> visits False (st, l) fk_list_iter_begin (length xs) = Some (rev xs, None)
    \<and> fk_list_search cmp k (head l) st = Some (find (\<lambda>p. cmp (dat st p) k = 0) xs)"
proof -
  have l: "head l = hd_or xs None" "tail l = last_or xs None" and s: "seg st None xs None"
    using assms by (auto simp: dll_def)
  have "visits True (st, l) fk_list_iter_begin (length xs) = Some (xs, None)
    \<and> visits False (st, l) fk_list_iter_begin (length xs) = Some (rev xs, None)"
  proof (cases "xs = []")
    case True
    then show ?thesis
      using l by (simp add: fk_list_iter_next_def fk_list_iter_begin_def)
  next
    case False
    then show ?thesis
      using iter_first [OF iter_h2t [OF s False, of l undefined]] iter_first [OF iter_t2h [OF s False, of l undefined]] l by simp
  qed
  then show ?thesis
    using search_seg [OF s] l(1) by simp
qed

theorem list_walk_witness:
  "\<exists>st l. fk_list_insert_tail id (3::nat) (5::int) (nodes_none, fk_rawlist_init) = Some (st, l)
     \<and> visits True (st, l) fk_list_iter_begin 1 = Some ([3], None) \<and> fk_list_search (-) 5 (head l) st = Some (Some 3)"
proof -
  let ?st = "nodes_none\<lparr>alive := (alive nodes_none)(3 := True), dat := (dat nodes_none)(3 := 5),
      nxt := (nxt nodes_none)(3 := None), prv := (prv nodes_none)(3 := None)\<rparr>"
  let ?l = "\<lparr>head = Some 3, tail = Some 3, len = 1\<rparr>"
  have i: "fk_list_insert_tail id 3 5 (nodes_none, fk_rawlist_init) = Some (?st, ?l)"
    by (simp add: fk_list_insert_tail_def fk_node_create_def fk_node_data_set_def fk_rawlist_insert_tail_def fk_rawlist_init_def
        set_nxt_def set_prv_def)
  have "dll (?st, ?l) [3]"
    by (simp add: dll_def)
  then show ?thesis
    using list_walk [of ?st ?l "[3]" "(-)" 5] i by (intro exI [of _ ?st] exI [of _ ?l]) simp
qed

end
