(* ===== verification/Fk_Heap.thy ===== *)
theory Fk_Heap
  imports Fk_Util
begin

text \<open>
  The binary heap of \<^verbatim>\<open>fk_heap.c\<close>, which holds the timers. The leaves are pointers (type \<open>'p\<close>) and
  every leaf carries its own position, the field \<^verbatim>\<open>idx\<close>, so the model has the array of pointers and the
  \<^verbatim>\<open>idx\<close> fields of all the leaves; position 0 of the array is unused and an \<^verbatim>\<open>idx\<close> of 0 says that the
  leaf is in no heap. The comparison is a parameter of the operations as it is in the code. A NULL
  pointer that is dereferenced or an access outside of the array is \<open>None\<close>.
\<close>

subsection \<open>State and operations\<close>

record 'p fk_heap =
  hsize :: nat
  hlast :: nat
  htree :: "'p option list"
  lidx :: "'p \<Rightarrow> nat"

definition FK_HEAP_INIT_SIZE :: nat where
  "FK_HEAP_INIT_SIZE = 64"

definition fk_heap_init :: "'p fk_heap \<Rightarrow> 'p fk_heap" where
  "fk_heap_init hp = hp\<lparr>hsize := FK_HEAP_INIT_SIZE, htree := replicate FK_HEAP_INIT_SIZE None, hlast := 0\<rparr>"

text \<open>\<^verbatim>\<open>fk_heap_create\<close>: \<open>ix\<close> are the \<^verbatim>\<open>idx\<close> fields of the leaves that exist.\<close>

definition fk_heap_create :: "('p \<Rightarrow> nat) \<Rightarrow> 'p fk_heap" where
  "fk_heap_create ix = fk_heap_init \<lparr>hsize = 0, hlast = 0, htree = [], lidx = ix\<rparr>"

text \<open>\<^verbatim>\<open>fk_heap_empty\<close> forgets the leaves without a change of their \<^verbatim>\<open>idx\<close>; the array is freed by
  \<^verbatim>\<open>fk_heap_clear\<close>, which writes NULL to the positions up to \<^verbatim>\<open>last\<close> first.\<close>

definition fk_heap_clear :: "'p fk_heap \<Rightarrow> 'p fk_heap option" where
  "fk_heap_clear hp =
     (if hlast hp < length (htree hp) then Some (hp\<lparr>htree := []\<rparr>) else None)"

definition fk_heap_empty :: "'p fk_heap \<Rightarrow> 'p fk_heap option" where
  "fk_heap_empty hp = map_option fk_heap_init (fk_heap_clear hp)"

definition fk_heap_stretch :: "'p fk_heap \<Rightarrow> 'p fk_heap" where
  "fk_heap_stretch hp = hp\<lparr>htree := htree hp @ replicate (hsize hp) None, hsize := 2 * hsize hp\<rparr>"

definition leaf_at :: "'p fk_heap \<Rightarrow> nat \<Rightarrow> 'p option" where
  "leaf_at hp i = (case nth_opt (htree hp) i of Some (Some p) \<Rightarrow> Some p | _ \<Rightarrow> None)"

text \<open>The exchange of two leaves with their \<^verbatim>\<open>idx\<close>, as both loops do it.\<close>

definition swap_leaves :: "'p fk_heap \<Rightarrow> nat \<Rightarrow> nat \<Rightarrow> 'p fk_heap option" where
  "swap_leaves hp i j =
     do { a \<leftarrow> leaf_at hp i;
          b \<leftarrow> leaf_at hp j;
          Some (hp\<lparr>htree := (htree hp)[i := Some b, j := Some a], lidx := (lidx hp)(b := i, a := j)\<rparr>) }"

text \<open>The loop of \<^verbatim>\<open>fk_heap_remove\<close>, from position \<open>i\<close> downwards.\<close>

definition min_child :: "('p \<Rightarrow> 'p \<Rightarrow> int) \<Rightarrow> 'p fk_heap \<Rightarrow> nat \<Rightarrow> nat option" where
  "min_child cmp hp i =
     (if 2 * i + 1 \<le> hlast hp
      then do { l \<leftarrow> leaf_at hp (2 * i);
                r \<leftarrow> leaf_at hp (2 * i + 1);
                Some (if cmp l r > 0 then 2 * i + 1 else 2 * i) }
      else Some (2 * i))"

partial_function (option) sift_down :: "('p \<Rightarrow> 'p \<Rightarrow> int) \<Rightarrow> nat \<Rightarrow> 'p fk_heap \<Rightarrow> 'p fk_heap option" where
  "sift_down cmp i hp =
     (if 2 * i \<le> hlast hp
      then do { j \<leftarrow> min_child cmp hp i;
                p \<leftarrow> leaf_at hp i;
                m \<leftarrow> leaf_at hp j;
                if cmp p m > 0 then do { hp1 \<leftarrow> swap_leaves hp i j; sift_down cmp j hp1 } else Some hp }
      else Some hp)"

declare sift_down.simps [code]

definition fk_heap_remove :: "('p \<Rightarrow> 'p \<Rightarrow> int) \<Rightarrow> 'p fk_heap \<Rightarrow> 'p \<Rightarrow> 'p fk_heap option" where
  "fk_heap_remove cmp hp leaf =
     (let idx = lidx hp leaf
      in if idx < 1 \<or> idx > hlast hp then Some hp
         else
           do { m \<leftarrow> leaf_at hp (hlast hp);
                _ \<leftarrow> nth_opt (htree hp) idx;
                sift_down cmp idx
                  (hp\<lparr>htree := (htree hp)[idx := Some m, hlast hp := None],
                      hlast := hlast hp - 1, lidx := (lidx hp)(m := idx, leaf := 0)\<rparr>) })"

definition fk_heap_root :: "'p fk_heap \<Rightarrow> 'p option option" where
  "fk_heap_root hp = (if hlast hp = 0 then Some None else nth_opt (htree hp) 1)"

definition fk_heap_pop :: "('p \<Rightarrow> 'p \<Rightarrow> int) \<Rightarrow> 'p fk_heap \<Rightarrow> ('p option \<times> 'p fk_heap) option" where
  "fk_heap_pop cmp hp =
     (if hlast hp < 1 then Some (None, hp)
      else do { root \<leftarrow> leaf_at hp 1; hp1 \<leftarrow> fk_heap_remove cmp hp root; Some (Some root, hp1) })"

text \<open>The loop of \<^verbatim>\<open>fk_heap_push\<close>, from position \<open>i\<close> upwards.\<close>

fun sift_up :: "('p \<Rightarrow> 'p \<Rightarrow> int) \<Rightarrow> nat \<Rightarrow> 'p fk_heap \<Rightarrow> 'p fk_heap option" where
  "sift_up cmp i hp =
     (if i div 2 > 0
      then do { x \<leftarrow> leaf_at hp i;
                y \<leftarrow> leaf_at hp (i div 2);
                if cmp x y < 0 then do { hp1 \<leftarrow> swap_leaves hp (i div 2) i; sift_up cmp (i div 2) hp1 } else Some hp }
      else Some hp)"

declare sift_up.simps [simp del]

definition fk_heap_push :: "('p \<Rightarrow> 'p \<Rightarrow> int) \<Rightarrow> 'p fk_heap \<Rightarrow> 'p \<Rightarrow> 'p fk_heap option" where
  "fk_heap_push cmp hp leaf =
     (let hp1 = (if hlast hp = hsize hp - 1 then fk_heap_stretch hp else hp);
          n = hlast hp1 + 1
      in if n < length (htree hp1)
         then sift_up cmp n (hp1\<lparr>htree := (htree hp1)[n := Some leaf], hlast := n, lidx := (lidx hp1)(leaf := n)\<rparr>)
         else None)"

subsection \<open>Invariant\<close>

text \<open>The positions \<open>1 .. hlast\<close> hold the leaves, each of which knows where it is.\<close>

definition heap_inv :: "'p fk_heap \<Rightarrow> bool" where
  "heap_inv hp \<longleftrightarrow> length (htree hp) = hsize hp \<and> hlast hp < hsize hp
     \<and> (\<forall>i. 1 \<le> i \<and> i \<le> hlast hp \<longrightarrow> (\<exists>p. htree hp ! i = Some p \<and> lidx hp p = i))
     \<and> (\<forall>p. lidx hp p \<noteq> 0 \<longrightarrow> lidx hp p \<le> hlast hp \<and> htree hp ! lidx hp p = Some p)"

text \<open>The leaves of a heap, and the key of a position.\<close>

definition leaves :: "'p fk_heap \<Rightarrow> 'p set" where
  "leaves hp = {p. lidx hp p \<noteq> 0}"

abbreviation key_at :: "('p \<Rightarrow> int) \<Rightarrow> 'p fk_heap \<Rightarrow> nat \<Rightarrow> int" where
  "key_at key hp i \<equiv> key (the (htree hp ! i))"

definition ordered :: "('p \<Rightarrow> int) \<Rightarrow> 'p fk_heap \<Rightarrow> bool" where
  "ordered key hp \<longleftrightarrow> (\<forall>i. 2 \<le> i \<and> i \<le> hlast hp \<longrightarrow> key_at key hp (i div 2) \<le> key_at key hp i)"

lemma heap_invD:
  assumes "heap_inv hp" and "1 \<le> i" and "i \<le> hlast hp"
  shows "leaf_at hp i = Some (the (htree hp ! i))" and "i < length (htree hp)"
    and "htree hp ! i = Some (the (htree hp ! i))" and "lidx hp (the (htree hp ! i)) = i"
    and "the (htree hp ! i) \<in> leaves hp"
  using assms by (fastforce simp: heap_inv_def leaf_at_def nth_opt_def leaves_def)+

lemma heap_inv_leaf:
  assumes "heap_inv hp" and "p \<in> leaves hp"
  shows "1 \<le> lidx hp p" "lidx hp p \<le> hlast hp" "the (htree hp ! lidx hp p) = p"
  using assms by (auto simp: heap_inv_def leaves_def)

lemma heap_inv_empty: "(\<forall>p. ix p = 0) \<Longrightarrow> heap_inv (fk_heap_create ix) \<and> leaves (fk_heap_create ix) = {} \<and> ordered key (fk_heap_create ix)"
  by (simp add: heap_inv_def leaves_def ordered_def fk_heap_create_def fk_heap_init_def FK_HEAP_INIT_SIZE_def)

text \<open>The root of an ordered heap has the least key.\<close>

lemma root_least:
  assumes "ordered key hp" and "1 \<le> i" and "i \<le> hlast hp"
  shows "key_at key hp 1 \<le> key_at key hp i"
  using assms(2,3)
proof (induction i rule: less_induct)
  case (less i)
  show ?case
  proof (cases "i = 1")
    case False
    then have "1 \<le> i div 2" "i div 2 < i" "2 \<le> i"
      using less.prems by auto
    then show ?thesis
      using less.IH [of "i div 2"] less.prems assms(1) by (fastforce simp: ordered_def)
  qed simp
qed

lemma swap_spec:
  assumes inv: "heap_inv hp" and i: "1 \<le> i" "i \<le> hlast hp" and j: "1 \<le> j" "j \<le> hlast hp" and ne: "i \<noteq> j"
  obtains hp' where "swap_leaves hp i j = Some hp'" "heap_inv hp'" "leaves hp' = leaves hp" "hlast hp' = hlast hp"
    "htree hp' = (htree hp)[i := htree hp ! j, j := htree hp ! i]"
proof -
  let ?a = "the (htree hp ! i)" and ?b = "the (htree hp ! j)"
  let ?hp = "hp\<lparr>htree := (htree hp)[i := Some ?b, j := Some ?a], lidx := (lidx hp)(?b := i, ?a := j)\<rparr>"
  note fi = heap_invD [OF inv i] and fj = heap_invD [OF inv j]
  have ab: "?a \<noteq> ?b"
    using fi(4) fj(4) ne by metis
  have other: "p \<noteq> ?a \<and> p \<noteq> ?b" if "htree hp ! k = Some p" "1 \<le> k" "k \<le> hlast hp" "k \<noteq> i" "k \<noteq> j" for p k
    using that heap_invD(4) [OF inv that(2,3)] fi(4) fj(4) by auto
  have "heap_inv ?hp"
    unfolding heap_inv_def
  proof (intro conjI allI impI)
    show "length (htree ?hp) = hsize ?hp" "hlast ?hp < hsize ?hp"
      using inv by (simp_all add: heap_inv_def)
    fix k assume k: "1 \<le> k \<and> k \<le> hlast ?hp"
    then obtain p where p: "htree hp ! k = Some p" "lidx hp p = k"
      using heap_invD [OF inv] by force
    show "\<exists>p. htree ?hp ! k = Some p \<and> lidx ?hp p = k"
      using k p other [OF p(1)] fi(2) fj(2) ab ne by (cases "k = i"; cases "k = j") auto
  next
    fix p assume p: "lidx ?hp p \<noteq> 0"
    show "lidx ?hp p \<le> hlast ?hp" "htree ?hp ! lidx ?hp p = Some p"
      using p i j ab ne fi fj inv by (auto simp: heap_inv_def nth_list_update split: if_splits)
  qed
  moreover have "leaves ?hp = leaves hp"
    using fi(5) fj(5) i j by (auto simp: leaves_def)
  moreover have "swap_leaves hp i j = Some ?hp"
    using fi(1) fj(1) by (simp add: swap_leaves_def)
  moreover have "htree ?hp = (htree hp)[i := htree hp ! j, j := htree hp ! i]"
    using fi(3) fj(3) by simp
  ultimately show thesis
    using that [of ?hp] by simp
qed

lemma swap_key:
  assumes "htree hp' = (htree hp)[i := htree hp ! j, j := htree hp ! i]" and "i < length (htree hp)" and "j < length (htree hp)"
  shows "key_at key hp' k = (if k = i then key_at key hp j else if k = j then key_at key hp i else key_at key hp k)"
  using assms by (auto simp: nth_list_update)

subsection \<open>The loops keep the structure, whatever the comparison\<close>

lemma sift_up_total:
  assumes "heap_inv hp" and "1 \<le> i" and "i \<le> hlast hp"
  shows "\<exists>hp'. sift_up cmp i hp = Some hp' \<and> heap_inv hp' \<and> leaves hp' = leaves hp \<and> hlast hp' = hlast hp"
  using assms
proof (induction i arbitrary: hp rule: less_induct)
  case (less i)
  show ?case
  proof (cases "i div 2 > 0")
    case True
    then have i: "1 \<le> i div 2" "i div 2 \<le> hlast hp" "i div 2 \<noteq> i" "i div 2 < i"
      using less.prems(3) by auto
    obtain hp1 where h: "swap_leaves hp (i div 2) i = Some hp1" "heap_inv hp1" "leaves hp1 = leaves hp" "hlast hp1 = hlast hp"
      using swap_spec [OF less.prems(1) i(1,2) less.prems(2,3) i(3)] by blast
    obtain hp' where "sift_up cmp (i div 2) hp1 = Some hp' \<and> heap_inv hp' \<and> leaves hp' = leaves hp1 \<and> hlast hp' = hlast hp1"
      using less.IH [OF i(4) h(2)] h(4) i by auto
    then show ?thesis
      using heap_invD(1) [OF less.prems(1)] less.prems i h by (auto simp: sift_up.simps [of cmp i])
  qed (use less.prems in \<open>auto simp: sift_up.simps\<close>)
qed

lemma min_child_spec:
  assumes "heap_inv hp" and "1 \<le> i" and "2 * i \<le> hlast hp"
  obtains j where "min_child cmp hp i = Some j" "j = 2 * i \<or> j = 2 * i + 1" "j \<le> hlast hp" "i < j"
proof (cases "2 * i + 1 \<le> hlast hp")
  case True
  then obtain l r where "leaf_at hp (2 * i) = Some l" "leaf_at hp (2 * i + 1) = Some r"
    using assms heap_invD(1) [OF assms(1), of "2 * i"] heap_invD(1) [OF assms(1), of "2 * i + 1"] by simp
  then have "min_child cmp hp i = Some (if cmp l r > 0 then 2 * i + 1 else 2 * i)"
    using True by (simp add: min_child_def)
  then show thesis
    using True assms by (intro that [of "if cmp l r > 0 then 2 * i + 1 else 2 * i"]) auto
next
  case False
  then show thesis
    using assms by (intro that [of "2 * i"]) (auto simp: min_child_def)
qed

lemma sift_down_total:
  assumes "heap_inv hp" and "1 \<le> i"
  shows "\<exists>hp'. sift_down cmp i hp = Some hp' \<and> heap_inv hp' \<and> leaves hp' = leaves hp \<and> hlast hp' = hlast hp"
  using assms
proof (induction "hlast hp - i" arbitrary: i hp rule: less_induct)
  case less
  show ?case
  proof (cases "2 * i \<le> hlast hp")
    case True
    obtain j where j: "min_child cmp hp i = Some j" "j \<le> hlast hp" "i < j"
      using min_child_spec [OF less.prems True] by blast
    then have ij: "i \<le> hlast hp" "1 \<le> j" "i \<noteq> j"
      by auto
    obtain hp1 where h: "swap_leaves hp i j = Some hp1" "heap_inv hp1" "leaves hp1 = leaves hp" "hlast hp1 = hlast hp"
      using swap_spec [OF less.prems ij(1,2) j(2) ij(3)] by blast
    obtain hp' where "sift_down cmp j hp1 = Some hp' \<and> heap_inv hp' \<and> leaves hp' = leaves hp1 \<and> hlast hp' = hlast hp1"
      using less.hyps [of hp1 j, OF _ h(2)] h(4) j ij diff_less_mono2 [OF j(3)] by auto
    then show ?thesis
      using heap_invD(1) [OF less.prems(1,2) ij(1)] heap_invD(1) [OF less.prems(1) ij(2) j(2)] less.prems True j(1) h
      by (auto simp: sift_down.simps [of cmp i])
  qed (use less.prems in \<open>auto simp: sift_down.simps\<close>)
qed

subsection \<open>The loops keep the order\<close>

context key_order
begin

text \<open>Upwards: the order holds but for the position \<open>i\<close> and its parent, and it holds across \<open>i\<close>.\<close>

definition up_inv :: "nat \<Rightarrow> 'p fk_heap \<Rightarrow> bool" where
  "up_inv i hp \<longleftrightarrow> (\<forall>k. 2 \<le> k \<and> k \<le> hlast hp \<and> k \<noteq> i \<longrightarrow> key_at key hp (k div 2) \<le> key_at key hp k)
     \<and> (\<forall>k. k \<le> hlast hp \<and> k div 2 = i \<and> 2 \<le> i \<longrightarrow> key_at key hp (i div 2) \<le> key_at key hp k)"

lemma up_step:
  assumes up: "up_inv i hp" and i: "2 \<le> i" "i \<le> hlast hp" "hlast hp < length (htree hp)"
    and lt: "key_at key hp i < key_at key hp (i div 2)"
    and t: "htree hp' = (htree hp)[i div 2 := htree hp ! i, i := htree hp ! (i div 2)]" "hlast hp' = hlast hp"
  shows "up_inv (i div 2) hp'"
proof -
  have ii: "i div 2 < i" "1 \<le> i div 2" "i \<noteq> i div 2"
    using i(1) by auto
  have key: "key_at key hp' k =
      (if k = i div 2 then key_at key hp i else if k = i then key_at key hp (i div 2) else key_at key hp k)" for k
    using swap_key [OF t(1), of key k] i ii by simp
  have par: "key_at key hp' (k div 2) \<le> key_at key hp' k" if k: "2 \<le> k" "k \<le> hlast hp" "k \<noteq> i div 2" for k
  proof -
    consider "k = i" | "k \<noteq> i" "k div 2 = i" | "k \<noteq> i" "k div 2 \<noteq> i"
      by blast
    then show ?thesis
    proof cases
      case 1
      then show ?thesis
        using lt ii unfolding key by simp
    next
      case 2
      then have "key_at key hp (i div 2) \<le> key_at key hp k"
        using up k i by (simp add: up_inv_def)
      then show ?thesis
        using 2 k(3) ii unfolding key by simp
    next
      case 3
      then have "key_at key hp (k div 2) \<le> key_at key hp k"
        using up k by (simp add: up_inv_def)
      then show ?thesis
        using 3 k(3) lt unfolding key by (cases "k div 2 = i div 2") simp_all
    qed
  qed
  moreover have "key_at key hp' (i div 2 div 2) \<le> key_at key hp' k" if k: "k \<le> hlast hp" "k div 2 = i div 2" "2 \<le> i div 2" for k
  proof -
    have q: "i div 2 div 2 \<noteq> i div 2" "i div 2 div 2 \<noteq> i" "k \<noteq> i div 2"
      using k ii by auto
    have "key_at key hp (i div 2 div 2) \<le> key_at key hp (i div 2)"
      using up k i(2) ii by (simp add: up_inv_def)
    moreover have "2 \<le> k"
      using k by auto
    then have "key_at key hp (k div 2) \<le> key_at key hp k" if "k \<noteq> i"
      using up k that unfolding up_inv_def by blast
    ultimately show ?thesis
      using q k unfolding key by (cases "k = i") auto
  qed
  ultimately show ?thesis
    using t(2) by (auto simp: up_inv_def)
qed

lemma up_done:
  assumes "up_inv i hp" and "i \<le> 1 \<or> key_at key hp (i div 2) \<le> key_at key hp i"
  shows "ordered key hp"
  using assms by (auto simp: up_inv_def ordered_def)

lemma sift_up_ordered:
  assumes "heap_inv hp" and "leaves hp \<subseteq> D" and "1 \<le> i" and "i \<le> hlast hp" and "up_inv i hp" and "sift_up cmp i hp = Some hp'"
  shows "ordered key hp'"
  using assms
proof (induction i arbitrary: hp rule: less_induct)
  case (less i)
  show ?case
  proof (cases "i div 2 > 0")
    case False
    then have "i \<le> 1" by auto
    then show ?thesis
      using less.prems up_done [of i hp] by (auto simp: sift_up.simps)
  next
    case True
    then have i: "2 \<le> i" "1 \<le> i div 2" "i div 2 \<le> hlast hp" "i div 2 \<noteq> i" "i div 2 < i"
      using less.prems(4) by auto
    note fi = heap_invD [OF less.prems(1,3,4)] and fp = heap_invD [OF less.prems(1) i(2,3)]
    let ?x = "the (htree hp ! i)" and ?y = "the (htree hp ! (i div 2))"
    have c: "cmp ?x ?y < 0 \<longleftrightarrow> key ?x < key ?y"
      using cmp_less fi(5) fp(5) less.prems(2) by auto
    obtain hp1 where h: "swap_leaves hp (i div 2) i = Some hp1" "heap_inv hp1" "leaves hp1 = leaves hp" "hlast hp1 = hlast hp"
      "htree hp1 = (htree hp)[i div 2 := htree hp ! i, i := htree hp ! (i div 2)]"
      using swap_spec [OF less.prems(1) i(2,3) less.prems(3,4) i(4)] by blast
    have len: "hlast hp < length (htree hp)"
      using less.prems(1) by (simp add: heap_inv_def)
    show ?thesis
    proof (cases "cmp ?x ?y < 0")
      case False
      then have "hp' = hp"
        using less.prems(6) True fi(1) fp(1) by (simp add: sift_up.simps)
      then show ?thesis
        using less.prems(5) False c up_done [of i hp] by auto
    next
      case lt: True
      then have "up_inv (i div 2) hp1"
        using up_step [OF less.prems(5) i(1) less.prems(4) len _ h(5,4)] c by blast
      moreover have "sift_up cmp (i div 2) hp1 = Some hp'"
        using less.prems(6) True fi(1) fp(1) lt h(1) by (simp add: sift_up.simps [of cmp i])
      ultimately show ?thesis
        using less.IH [OF i(5) h(2)] less.prems(2) h(3,4) i by auto
    qed
  qed
qed

text \<open>Downwards: the order holds but for the children of \<open>i\<close>, and it holds across \<open>i\<close>.\<close>

definition down_inv :: "nat \<Rightarrow> 'p fk_heap \<Rightarrow> bool" where
  "down_inv i hp \<longleftrightarrow> (\<forall>k. 2 \<le> k \<and> k \<le> hlast hp \<and> k div 2 \<noteq> i \<longrightarrow> key_at key hp (k div 2) \<le> key_at key hp k)
     \<and> (\<forall>k. k \<le> hlast hp \<and> k div 2 = i \<and> 2 \<le> i \<longrightarrow> key_at key hp (i div 2) \<le> key_at key hp k)"

lemma down_step:
  assumes dn: "down_inv i hp" and i: "1 \<le> i" "hlast hp < length (htree hp)"
    and j: "j div 2 = i" "j \<le> hlast hp" and least: "\<And>k. k div 2 = i \<Longrightarrow> k \<le> hlast hp \<Longrightarrow> key_at key hp j \<le> key_at key hp k"
    and lt: "key_at key hp j < key_at key hp i"
    and t: "htree hp' = (htree hp)[i := htree hp ! j, j := htree hp ! i]" "hlast hp' = hlast hp"
  shows "down_inv j hp'"
proof -
  have ij: "i < j" "2 \<le> j"
    using j(1) i(1) by auto
  have key: "key_at key hp' k =
      (if k = i then key_at key hp j else if k = j then key_at key hp i else key_at key hp k)" for k
    using swap_key [OF t(1), of key k] i ij j by simp
  have "key_at key hp' (k div 2) \<le> key_at key hp' k" if k: "2 \<le> k" "k \<le> hlast hp" "k div 2 \<noteq> j" for k
  proof (cases "k div 2 = i")
    case True
    then have "k \<noteq> i" using k i by auto
    then show ?thesis
      using True least [OF True k(2)] lt k(3) unfolding key by auto
  next
    case False
    then have "key_at key hp (k div 2) \<le> key_at key hp k"
      using dn k by (simp add: down_inv_def)
    moreover have "key_at key hp (i div 2) \<le> key_at key hp j" if "k = i"
      using dn j k that by (simp add: down_inv_def)
    ultimately show ?thesis
      using False k j(1) unfolding key by auto
  qed
  moreover have "key_at key hp' (j div 2) \<le> key_at key hp' k" if k: "k \<le> hlast hp" "k div 2 = j" for k
  proof -
    have "2 \<le> k" "k div 2 \<noteq> i" "k \<noteq> i" "k \<noteq> j"
      using k ij by auto
    then have "key_at key hp (k div 2) \<le> key_at key hp k"
      using dn k unfolding down_inv_def by blast
    then show ?thesis
      using k j(1) \<open>k \<noteq> i\<close> \<open>k \<noteq> j\<close> unfolding key by simp
  qed
  ultimately show ?thesis
    using t(2) by (auto simp: down_inv_def)
qed

lemma down_done:
  assumes "down_inv i hp" and "\<And>k. 2 \<le> k \<Longrightarrow> k \<le> hlast hp \<Longrightarrow> k div 2 = i \<Longrightarrow> key_at key hp i \<le> key_at key hp k"
  shows "ordered key hp"
  using assms by (auto simp: down_inv_def ordered_def)

lemma min_child_least:
  assumes inv: "heap_inv hp" "leaves hp \<subseteq> D" and i: "1 \<le> i" "2 * i \<le> hlast hp" and m: "min_child cmp hp i = Some j"
    and k: "k div 2 = i" "k \<le> hlast hp"
  shows "key_at key hp j \<le> key_at key hp k"
proof -
  have kk: "k = 2 * i \<or> k = 2 * i + 1"
    using k(1) by presburger
  show ?thesis
  proof (cases "2 * i + 1 \<le> hlast hp")
    case True
    let ?l = "the (htree hp ! (2 * i))" and ?r = "the (htree hp ! (2 * i + 1))"
    have l: "leaf_at hp (2 * i) = Some ?l" "?l \<in> D" and r: "leaf_at hp (2 * i + 1) = Some ?r" "?r \<in> D"
      using heap_invD(1,5) [OF inv(1), of "2 * i"] heap_invD(1,5) [OF inv(1), of "2 * i + 1"] i True inv(2) by auto
    have "cmp ?l ?r > 0 \<longleftrightarrow> key ?r < key ?l"
      using cmp_greater l(2) r(2) by blast
    then show ?thesis
      using m kk l(1) r(1) True by (auto simp: min_child_def split: if_splits)
  next
    case False
    then show ?thesis
      using m kk k(2) by (simp add: min_child_def)
  qed
qed

lemma sift_down_ordered:
  assumes "heap_inv hp" and "leaves hp \<subseteq> D" and "1 \<le> i" and "down_inv i hp" and "sift_down cmp i hp = Some hp'"
  shows "ordered key hp'"
  using assms
proof (induction "hlast hp - i" arbitrary: i hp rule: less_induct)
  case less
  show ?case
  proof (cases "2 * i \<le> hlast hp")
    case False
    then have "hp' = hp" "\<And>k. k \<le> hlast hp \<Longrightarrow> k div 2 \<noteq> i"
      using less.prems(5) by (auto simp: sift_down.simps [of cmp i])
    then show ?thesis
      using less.prems(4) down_done [of i hp] by auto
  next
    case True
    obtain j where j: "min_child cmp hp i = Some j" "j = 2 * i \<or> j = 2 * i + 1" "j \<le> hlast hp" "i < j"
      using min_child_spec [OF less.prems(1,3) True] by blast
    then have ij: "i \<le> hlast hp" "1 \<le> j" "i \<noteq> j" "j div 2 = i"
      by auto
    note fi = heap_invD [OF less.prems(1,3) ij(1)] and fj = heap_invD [OF less.prems(1) ij(2) j(3)]
    note least = min_child_least [OF less.prems(1,2,3) True j(1)]
    have c: "cmp (the (htree hp ! i)) (the (htree hp ! j)) > 0 \<longleftrightarrow> key_at key hp j < key_at key hp i"
      using cmp_greater fi(5) fj(5) less.prems(2) by blast
    obtain hp1 where h: "swap_leaves hp i j = Some hp1" "heap_inv hp1" "leaves hp1 = leaves hp" "hlast hp1 = hlast hp"
      "htree hp1 = (htree hp)[i := htree hp ! j, j := htree hp ! i]"
      using swap_spec [OF less.prems(1,3) ij(1,2) j(3) ij(3)] by blast
    have len: "hlast hp < length (htree hp)"
      using less.prems(1) by (simp add: heap_inv_def)
    show ?thesis
    proof (cases "cmp (the (htree hp ! i)) (the (htree hp ! j)) > 0")
      case False
      then have "hp' = hp" "\<And>k. k \<le> hlast hp \<Longrightarrow> k div 2 = i \<Longrightarrow> key_at key hp i \<le> key_at key hp k"
        using less.prems(5) True fi(1) fj(1) j(1) c least by (force simp: sift_down.simps [of cmp i])+
      then show ?thesis
        using less.prems(4) down_done [of i hp] by auto
    next
      case gt: True
      then have "down_inv j hp1"
        using down_step [OF less.prems(4,3) len ij(4) j(3) least _ h(5,4)] c by blast
      moreover have "sift_down cmp j hp1 = Some hp'"
        using less.prems(5) True fi(1) fj(1) gt h(1) j(1) by (simp add: sift_down.simps [of cmp i])
      ultimately show ?thesis
        using less.hyps [of hp1 j] h(2,3,4) less.prems(2) j ij by auto
    qed
  qed
qed

end

subsection \<open>The operations\<close>

text \<open>The state in which the loop of \<^verbatim>\<open>fk_heap_remove\<close> starts: the last leaf has taken the place.\<close>

definition unplug :: "'p fk_heap \<Rightarrow> 'p \<Rightarrow> 'p fk_heap" where
  "unplug hp leaf =
     (let m = the (htree hp ! hlast hp); idx = lidx hp leaf
      in hp\<lparr>htree := (htree hp)[idx := Some m, hlast hp := None], hlast := hlast hp - 1,
            lidx := (lidx hp)(m := idx, leaf := 0)\<rparr>)"

lemma remove_unplug:
  assumes inv: "heap_inv hp" and leaf: "leaf \<in> leaves hp"
  shows "fk_heap_remove cmp hp leaf = sift_down cmp (lidx hp leaf) (unplug hp leaf)"
    and "heap_inv (unplug hp leaf)" and "leaves (unplug hp leaf) = leaves hp - {leaf}"
proof -
  let ?n = "hlast hp" and ?i = "lidx hp leaf"
  let ?m = "the (htree hp ! ?n)"
  note i = heap_inv_leaf [OF inv leaf]
  then have n: "1 \<le> ?n" by linarith
  note fn = heap_invD [OF inv n order_refl] and fi = heap_invD [OF inv i(1,2)]
  show "fk_heap_remove cmp hp leaf = sift_down cmp ?i (unplug hp leaf)"
    using fn(1) fi(2) i by (simp add: fk_heap_remove_def unplug_def nth_opt_def Let_def)
  have other: "lidx hp p = k" "p \<noteq> ?m" "p \<noteq> leaf" if "htree hp ! k = Some p" "1 \<le> k" "k < ?n" "k \<noteq> ?i" for p k
    using that heap_invD(4) [OF inv that(2)] fn(4) by auto
  show "heap_inv (unplug hp leaf)"
    unfolding heap_inv_def
  proof (intro conjI allI impI)
    show "length (htree (unplug hp leaf)) = hsize (unplug hp leaf)" "hlast (unplug hp leaf) < hsize (unplug hp leaf)"
      using inv by (auto simp: heap_inv_def unplug_def Let_def)
  next
    fix k assume k: "1 \<le> k \<and> k \<le> hlast (unplug hp leaf)"
    then have kn: "k < ?n" "1 \<le> k"
      using n by (auto simp: unplug_def Let_def)
    obtain p where p: "htree hp ! k = Some p"
      using heap_invD(3) [OF inv kn(2)] kn(1) by auto
    show "\<exists>p. htree (unplug hp leaf) ! k = Some p \<and> lidx (unplug hp leaf) p = k"
      using kn fi(2) fn(4) i(3) other [OF p kn(2,1)] p by (cases "k = ?i") (auto simp: unplug_def Let_def)
  next
    fix p assume p: "lidx (unplug hp leaf) p \<noteq> 0"
    then have pl: "p \<noteq> leaf"
      by (auto simp: unplug_def Let_def)
    have "lidx hp p < ?n \<and> lidx hp p \<noteq> ?i \<and> htree hp ! lidx hp p = Some p" if "p \<noteq> ?m"
    proof -
      have "lidx hp p \<noteq> 0"
        using p pl that by (simp add: unplug_def Let_def)
      then have "lidx hp p \<le> ?n" "htree hp ! lidx hp p = Some p"
        using inv by (auto simp: heap_inv_def)
      moreover from this have "lidx hp p \<noteq> ?n" "lidx hp p \<noteq> ?i"
        using that pl i(3) by (metis option.sel)+
      ultimately show ?thesis by simp
    qed
    moreover have "?i < ?n" if "p = ?m"
      using that pl i by (metis le_neq_implies_less)
    ultimately show "lidx (unplug hp leaf) p \<le> hlast (unplug hp leaf)" "htree (unplug hp leaf) ! lidx (unplug hp leaf) p = Some p"
      using pl fi(2) by (cases "p = ?m"; auto simp: unplug_def Let_def)+
  qed
  show "leaves (unplug hp leaf) = leaves hp - {leaf}"
    using fn(5) i(1) by (auto simp: leaves_def unplug_def Let_def)
qed

lemma remove_out: "heap_inv hp \<Longrightarrow> leaf \<notin> leaves hp \<Longrightarrow> fk_heap_remove cmp hp leaf = Some hp"
  by (simp add: fk_heap_remove_def leaves_def)

lemma heap_remove_spec:
  assumes "heap_inv hp"
  shows "\<exists>hp'. fk_heap_remove cmp hp leaf = Some hp' \<and> heap_inv hp' \<and> leaves hp' = leaves hp - {leaf}"
proof (cases "leaf \<in> leaves hp")
  case True
  show ?thesis
    using sift_down_total [OF remove_unplug(2) [OF assms True] heap_inv_leaf(1) [OF assms True], of cmp]
    unfolding remove_unplug(1,3) [OF assms True] by blast
next
  case False
  then show ?thesis
    using assms remove_out [OF assms False] by simp
qed

text \<open>The state in which the loop of \<^verbatim>\<open>fk_heap_push\<close> starts: the new leaf is the last one.\<close>

definition plug :: "'p fk_heap \<Rightarrow> 'p \<Rightarrow> 'p fk_heap" where
  "plug hp leaf =
     (let n = hlast hp + 1
      in hp\<lparr>htree := (htree hp)[n := Some leaf], hlast := n, lidx := (lidx hp)(leaf := n)\<rparr>)"

definition grown :: "'p fk_heap \<Rightarrow> 'p fk_heap" where
  "grown hp = (if hlast hp = hsize hp - 1 then fk_heap_stretch hp else hp)"

lemma grown_spec:
  assumes "heap_inv hp"
  shows "heap_inv (grown hp)" "leaves (grown hp) = leaves hp" "hlast (grown hp) = hlast hp" "hlast (grown hp) + 1 < hsize (grown hp)"
    "i \<le> hlast hp \<Longrightarrow> htree (grown hp) ! i = htree hp ! i"
proof -
  have "lidx hp p < hsize hp" for p
    using assms by (cases "lidx hp p = 0") (auto simp: heap_inv_def intro: le_less_trans)
  then show "heap_inv (grown hp)" "leaves (grown hp) = leaves hp" "hlast (grown hp) = hlast hp"
    "hlast (grown hp) + 1 < hsize (grown hp)" "i \<le> hlast hp \<Longrightarrow> htree (grown hp) ! i = htree hp ! i"
    using assms by (auto simp: heap_inv_def grown_def fk_heap_stretch_def leaves_def nth_append)
qed

lemma plug_inv:
  assumes inv: "heap_inv hp" and leaf: "leaf \<notin> leaves hp" and room: "hlast hp + 1 < hsize hp"
  shows "heap_inv (plug hp leaf)" and "leaves (plug hp leaf) = insert leaf (leaves hp)"
proof -
  have len: "hlast hp + 1 < length (htree hp)" and l0: "lidx hp leaf = 0"
    using inv room leaf by (auto simp: heap_inv_def leaves_def)
  show "heap_inv (plug hp leaf)"
    unfolding heap_inv_def
  proof (intro conjI allI impI)
    show "length (htree (plug hp leaf)) = hsize (plug hp leaf)" "hlast (plug hp leaf) < hsize (plug hp leaf)"
      using inv room by (auto simp: heap_inv_def plug_def Let_def)
  next
    fix k assume k: "1 \<le> k \<and> k \<le> hlast (plug hp leaf)"
    show "\<exists>p. htree (plug hp leaf) ! k = Some p \<and> lidx (plug hp leaf) p = k"
    proof (cases "k = hlast hp + 1")
      case True
      then show ?thesis
        using len by (simp add: plug_def Let_def)
    next
      case False
      then have "k \<le> hlast hp"
        using k by (simp add: plug_def Let_def)
      then obtain p where "htree hp ! k = Some p" "lidx hp p = k"
        using heap_invD [OF inv, of k] k by auto
      then show ?thesis
        using False k l0 by (intro exI [of _ p]) (auto simp: plug_def Let_def)
    qed
  next
    fix p assume p: "lidx (plug hp leaf) p \<noteq> 0"
    have "lidx hp p \<le> hlast hp \<and> htree hp ! lidx hp p = Some p" if "p \<noteq> leaf"
      using inv p that by (auto simp: heap_inv_def plug_def Let_def)
    then show "lidx (plug hp leaf) p \<le> hlast (plug hp leaf)" "htree (plug hp leaf) ! lidx (plug hp leaf) p = Some p"
      using len by (cases "p = leaf"; auto simp: plug_def Let_def)+
  qed
  show "leaves (plug hp leaf) = insert leaf (leaves hp)"
    by (auto simp: plug_def Let_def leaves_def)
qed

lemma push_plug:
  assumes inv: "heap_inv hp" and leaf: "leaf \<notin> leaves hp"
  shows "fk_heap_push cmp hp leaf = sift_up cmp (hlast hp + 1) (plug (grown hp) leaf)"
    and "heap_inv (plug (grown hp) leaf)" and "leaves (plug (grown hp) leaf) = insert leaf (leaves hp)"
    and "i \<le> hlast hp \<Longrightarrow> htree (plug (grown hp) leaf) ! i = htree hp ! i"
    and "htree (plug (grown hp) leaf) ! (hlast hp + 1) = Some leaf"
proof -
  note g = grown_spec [OF inv]
  have len: "hlast hp + 1 < length (htree (grown hp))"
    using g by (simp add: heap_inv_def)
  have "fk_heap_push cmp hp leaf =
      (if hlast (grown hp) + 1 < length (htree (grown hp)) then sift_up cmp (hlast (grown hp) + 1) (plug (grown hp) leaf) else None)"
    unfolding fk_heap_push_def grown_def plug_def Let_def by (rule refl)
  then show "fk_heap_push cmp hp leaf = sift_up cmp (hlast hp + 1) (plug (grown hp) leaf)"
    using g(3) len by simp
  show "heap_inv (plug (grown hp) leaf)" "leaves (plug (grown hp) leaf) = insert leaf (leaves hp)"
    using plug_inv [OF g(1) _ g(4)] g(2) leaf by simp_all
  show "i \<le> hlast hp \<Longrightarrow> htree (plug (grown hp) leaf) ! i = htree hp ! i"
    "htree (plug (grown hp) leaf) ! (hlast hp + 1) = Some leaf"
    using g(3,5) len by (auto simp: plug_def Let_def)
qed

lemma push_spec:
  assumes "heap_inv hp" and "leaf \<notin> leaves hp"
  shows "\<exists>hp'. fk_heap_push cmp hp leaf = Some hp' \<and> heap_inv hp' \<and> leaves hp' = insert leaf (leaves hp)"
proof -
  have "hlast (plug (grown hp) leaf) = hlast hp + 1"
    using grown_spec(3) [OF assms(1)] by (simp add: plug_def Let_def)
  then show ?thesis
    using sift_up_total [OF push_plug(2) [OF assms], of "hlast hp + 1" cmp]
    unfolding push_plug(1,3) [OF assms] by auto
qed

lemma root_spec:
  assumes "heap_inv hp"
  shows "leaves hp = {} \<Longrightarrow> fk_heap_root hp = Some None"
    and "leaves hp \<noteq> {} \<Longrightarrow> 1 \<le> hlast hp \<and> fk_heap_root hp = Some (Some (the (htree hp ! 1))) \<and> the (htree hp ! 1) \<in> leaves hp"
proof -
  show "fk_heap_root hp = Some None" if "leaves hp = {}"
    using heap_invD(5) [OF assms, of 1] that by (cases "hlast hp") (auto simp: fk_heap_root_def)
  assume "leaves hp \<noteq> {}"
  then have "1 \<le> hlast hp"
    using heap_inv_leaf [OF assms] by fastforce
  then show "1 \<le> hlast hp \<and> fk_heap_root hp = Some (Some (the (htree hp ! 1))) \<and> the (htree hp ! 1) \<in> leaves hp"
    using heap_invD [OF assms, of 1] by (auto simp: fk_heap_root_def nth_opt_def)
qed

lemma leaves_finite: "heap_inv hp \<Longrightarrow> finite (leaves hp)"
  using finite_imageD [of "lidx hp" "leaves hp"] finite_subset [of "lidx hp ` leaves hp" "{..hlast hp}"] heap_inv_leaf(2,3)
  by (metis atMost_iff finite_atMost image_subsetI inj_onI)

lemma pop_spec:
  assumes inv: "heap_inv hp" and root: "fk_heap_root hp = Some (Some p)"
  shows "lidx hp p = 1" "p \<in> leaves hp"
    "\<exists>hp'. fk_heap_pop cmp hp = Some (Some p, hp') \<and> fk_heap_remove cmp hp p = Some hp' \<and> heap_inv hp' \<and> leaves hp' = leaves hp - {p}"
proof -
  have last: "1 \<le> hlast hp"
    using root by (cases "hlast hp") (auto simp: fk_heap_root_def)
  then have p: "leaf_at hp 1 = Some p" and "lidx hp p = 1" "p \<in> leaves hp"
    using heap_invD [OF inv, of 1] root by (auto simp: fk_heap_root_def nth_opt_def split: if_splits)
  then show "lidx hp p = 1" "p \<in> leaves hp"
    by simp_all
  show "\<exists>hp'. fk_heap_pop cmp hp = Some (Some p, hp') \<and> fk_heap_remove cmp hp p = Some hp' \<and> heap_inv hp' \<and> leaves hp' = leaves hp - {p}"
    using heap_remove_spec [OF inv, of cmp p] p last by (auto simp: fk_heap_pop_def)
qed

subsection \<open>A priority queue\<close>

definition timers_inv :: "('p \<Rightarrow> int) \<Rightarrow> 'p set \<Rightarrow> 'p fk_heap \<Rightarrow> bool" where
  "timers_inv key D hp \<longleftrightarrow> heap_inv hp \<and> ordered key hp \<and> leaves hp \<subseteq> D"

text \<open>What the event manager relies on: a finite set of elements, the least of which is the root.\<close>

locale prio_queue =
  fixes push :: "'q \<Rightarrow> 'p \<Rightarrow> 'q option" and pop :: "'q \<Rightarrow> ('p option \<times> 'q) option"
    and root :: "'q \<Rightarrow> 'p option option" and key :: "'p \<Rightarrow> int" and D :: "'p set"
    and invar :: "'q \<Rightarrow> bool" and elems :: "'q \<Rightarrow> 'p set"
  assumes elems_finite: "invar q \<Longrightarrow> finite (elems q)"
    and push_ok: "invar q \<Longrightarrow> p \<in> D \<Longrightarrow> p \<notin> elems q \<Longrightarrow> \<exists>q'. push q p = Some q' \<and> invar q' \<and> elems q' = insert p (elems q)"
    and root_none: "invar q \<Longrightarrow> elems q = {} \<Longrightarrow> root q = Some None"
    and root_min: "invar q \<Longrightarrow> elems q \<noteq> {} \<Longrightarrow> \<exists>p. root q = Some (Some p) \<and> p \<in> elems q \<and> (\<forall>x \<in> elems q. key p \<le> key x)"
    and pop_ok: "invar q \<Longrightarrow> root q = Some (Some p) \<Longrightarrow> \<exists>q'. pop q = Some (Some p, q') \<and> invar q' \<and> elems q' = elems q - {p}"

text \<open>Pushing and popping many elements.\<close>

fun pushes :: "('q \<Rightarrow> 'p \<Rightarrow> 'q option) \<Rightarrow> 'p list \<Rightarrow> 'q \<Rightarrow> 'q option" where
  "pushes push [] q = Some q"
| "pushes push (p # ps) q = do { q1 \<leftarrow> push q p; pushes push ps q1 }"

fun pops :: "('q \<Rightarrow> ('p option \<times> 'q) option) \<Rightarrow> nat \<Rightarrow> 'q \<Rightarrow> ('p list \<times> 'q) option" where
  "pops pop 0 q = Some ([], q)"
| "pops pop (Suc n) q =
     do { (p, q1) \<leftarrow> pop q; x \<leftarrow> p; (xs, q2) \<leftarrow> pops pop n q1; Some (x # xs, q2) }"

context prio_queue
begin

lemma pushes_ok:
  assumes "invar q" and "set ps \<subseteq> D" and "distinct ps" and "set ps \<inter> elems q = {}"
  shows "\<exists>q'. pushes push ps q = Some q' \<and> invar q' \<and> elems q' = set ps \<union> elems q"
  using assms
proof (induction ps arbitrary: q)
  case (Cons p ps)
  then obtain q1 where q1: "push q p = Some q1" "invar q1" "elems q1 = insert p (elems q)"
    using push_ok [of q p] by auto
  then obtain q' where "pushes push ps q1 = Some q'" "invar q'" "elems q' = set ps \<union> elems q1"
    using Cons.IH [of q1] Cons.prems by auto
  then show ?case
    using q1 by auto
qed simp

lemma pops_ok:
  assumes "invar q" and "n \<le> card (elems q)"
  shows "\<exists>xs q'. pops pop n q = Some (xs, q') \<and> invar q' \<and> elems q' = elems q - set xs \<and> set xs \<subseteq> elems q
    \<and> distinct xs \<and> length xs = n \<and> sorted (map key xs) \<and> (\<forall>x \<in> set xs. \<forall>y \<in> elems q'. key x \<le> key y)"
  using assms
proof (induction n arbitrary: q)
  case (Suc n)
  then have "elems q \<noteq> {}"
    by auto
  then obtain p where p: "root q = Some (Some p)" "p \<in> elems q" "\<forall>x \<in> elems q. key p \<le> key x"
    using root_min [OF Suc.prems(1)] by blast
  obtain q1 where q1: "pop q = Some (Some p, q1)" "invar q1" "elems q1 = elems q - {p}"
    using pop_ok [OF Suc.prems(1) p(1)] by blast
  have "n \<le> card (elems q1)"
    using Suc.prems(2) p(2) q1(3) elems_finite [OF Suc.prems(1)] by simp
  from Suc.IH [OF q1(2) this] obtain xs q' where x: "pops pop n q1 = Some (xs, q')" "invar q'" "elems q' = elems q1 - set xs"
    "set xs \<subseteq> elems q1" "distinct xs" "length xs = n" "sorted (map key xs)" "\<forall>x \<in> set xs. \<forall>y \<in> elems q'. key x \<le> key y"
    by blast
  have "pops pop (Suc n) q = Some (p # xs, q')"
    using q1(1) x(1) by simp
  moreover have "sorted (map key (p # xs))"
    using p(3) q1(3) x(4,7) by auto
  ultimately show ?case
    using p q1(3) x by (intro exI [of _ "p # xs"] exI [of _ q']) auto
qed auto

text \<open>Everything that was pushed comes out in the order of the keys.\<close>

lemma push_pop_sorted:
  assumes "invar q" and "elems q = {}" and "set ps \<subseteq> D" and "distinct ps"
  shows "\<exists>q1 xs q2. pushes push ps q = Some q1 \<and> pops pop (length ps) q1 = Some (xs, q2)
    \<and> mset xs = mset ps \<and> sorted (map key xs) \<and> elems q2 = {}"
proof -
  obtain q1 where q1: "pushes push ps q = Some q1" "invar q1" "elems q1 = set ps"
    using pushes_ok [OF assms(1,3,4)] assms(2) by auto
  then have "card (elems q1) = length ps"
    using assms(4) by (simp add: distinct_card)
  with pops_ok [OF q1(2), of "length ps"] obtain xs q2 where x: "pops pop (length ps) q1 = Some (xs, q2)" "elems q2 = elems q1 - set xs"
    "set xs \<subseteq> elems q1" "distinct xs" "length xs = length ps" "sorted (map key xs)"
    by auto
  have "set xs = set ps"
    using x(3-5) q1(3) assms(4) by (metis List.finite_set card_subset_eq distinct_card)
  then show ?thesis
    using q1 x assms(4) by (intro exI [of _ q1] exI [of _ xs] exI [of _ q2]) (auto simp: set_eq_iff_mset_eq_distinct)
qed

end

context key_order
begin

lemma push_ordered:
  assumes inv: "heap_inv hp" and D: "leaves hp \<subseteq> D" "leaf \<in> D" and new: "leaf \<notin> leaves hp"
    and ord: "ordered key hp" and push: "fk_heap_push cmp hp leaf = Some hp'"
  shows "ordered key hp'"
proof -
  let ?h = "plug (grown hp) leaf" and ?n = "hlast hp + 1"
  note pl = push_plug [OF inv new]
  have last: "hlast ?h = ?n"
    using grown_spec(3) [OF inv] by (simp add: plug_def Let_def)
  have "key_at key ?h (k div 2) \<le> key_at key ?h k" if "2 \<le> k" "k \<le> hlast hp" for k
    using that ord pl(4) [of k] pl(4) [of "k div 2"] by (simp add: ordered_def)
  then have "up_inv ?n ?h"
    using last by (auto simp: up_inv_def)
  then show ?thesis
    using sift_up_ordered [OF pl(2) _ _ _ _ push [unfolded pl(1)]] pl(3) D last by simp
qed

text \<open>\<^verbatim>\<open>fk_heap_remove\<close> keeps the order when the last leaf, which takes the place of the removed one, is not
  smaller than the parent of that place.\<close>

lemma remove_ordered:
  assumes inv: "heap_inv hp" and D: "leaves hp \<subseteq> D" and leaf: "leaf \<in> leaves hp" and ord: "ordered key hp"
    and par: "lidx hp leaf = 1 \<or> key_at key hp (lidx hp leaf div 2) \<le> key_at key hp (hlast hp)"
    and rem: "fk_heap_remove cmp hp leaf = Some hp'"
  shows "ordered key hp'"
proof -
  let ?h = "unplug hp leaf" and ?i = "lidx hp leaf"
  note un = remove_unplug [OF inv leaf] and i = heap_inv_leaf [OF inv leaf]
  have last: "hlast ?h = hlast hp - 1" "hlast hp < length (htree hp)"
    using inv by (simp_all add: unplug_def Let_def heap_inv_def)
  have key: "key_at key ?h k = (if k = ?i then key_at key hp (hlast hp) else key_at key hp k)" if "k < hlast hp" for k
    using that last(2) by (auto simp: unplug_def Let_def nth_list_update)
  have ordD: "key_at key hp (k div 2) \<le> key_at key hp k" if "2 \<le> k" "k \<le> hlast hp" for k
    using ord that by (simp add: ordered_def)
  have "key_at key ?h (k div 2) \<le> key_at key ?h k" if k: "2 \<le> k" "k < hlast hp" "k div 2 \<noteq> ?i" for k
    using k key [of k] key [of "k div 2"] ordD [of k] par by (cases "k = ?i") auto
  moreover have "key_at key ?h (?i div 2) \<le> key_at key ?h k" if k: "2 \<le> ?i" "k < hlast hp" "k div 2 = ?i" for k
  proof -
    have "2 \<le> k" "k \<noteq> ?i" "?i div 2 \<noteq> ?i" "?i div 2 < hlast hp" "?i \<le> hlast hp"
      using k by auto
    then show ?thesis
      using k key [of k] key [of "?i div 2"] ordD [of k] ordD [of ?i] by simp
  qed
  ultimately have "down_inv ?i ?h"
    using last(1) i by (auto simp: down_inv_def)
  then show ?thesis
    using sift_down_ordered [OF un(2) _ i(1) _ rem [unfolded un(1)]] un(3) D by auto
qed

lemma heap_pop_ok:
  assumes "timers_inv key D hp" and "fk_heap_root hp = Some (Some p)"
  shows "\<exists>hp'. fk_heap_pop cmp hp = Some (Some p, hp') \<and> timers_inv key D hp' \<and> leaves hp' = leaves hp - {p}"
proof -
  have inv: "heap_inv hp" "ordered key hp" "leaves hp \<subseteq> D"
    using assms(1) by (auto simp: timers_inv_def)
  note p = pop_spec [OF inv(1) assms(2)]
  obtain hp' where r: "fk_heap_pop cmp hp = Some (Some p, hp')" "fk_heap_remove cmp hp p = Some hp'" "heap_inv hp'" "leaves hp' = leaves hp - {p}"
    using p(3) [of cmp] by blast
  then show ?thesis
    using remove_ordered [OF inv(1,3) p(2) inv(2) _ r(2)] p(1) inv(3) by (auto simp: timers_inv_def)
qed

end

sublocale key_order \<subseteq> heapq: prio_queue "fk_heap_push cmp" "fk_heap_pop cmp" fk_heap_root key D "timers_inv key D" leaves
proof unfold_locales
  fix q assume q: "timers_inv key D q"
  then have inv: "heap_inv q" "ordered key q" "leaves q \<subseteq> D"
    by (auto simp: timers_inv_def)
  show "finite (leaves q)"
    by (rule leaves_finite [OF inv(1)])
  show "leaves q = {} \<Longrightarrow> fk_heap_root q = Some None"
    by (rule root_spec(1) [OF inv(1)])
  show "\<exists>p. fk_heap_root q = Some (Some p) \<and> p \<in> leaves q \<and> (\<forall>x \<in> leaves q. key p \<le> key x)" if "leaves q \<noteq> {}"
    using root_spec(2) [OF inv(1) that] root_least [OF inv(2)] heap_inv_leaf [OF inv(1)] by metis
  fix p
  show "\<exists>q'. fk_heap_push cmp q p = Some q' \<and> timers_inv key D q' \<and> leaves q' = insert p (leaves q)" if "p \<in> D" "p \<notin> leaves q"
    using push_spec [OF inv(1) that(2), of cmp] push_ordered [OF inv(1,3) that inv(2)] that(1) inv(3)
    unfolding timers_inv_def by auto
  show "\<exists>q'. fk_heap_pop cmp q = Some (Some p, q') \<and> timers_inv key D q' \<and> leaves q' = leaves q - {p}" if "fk_heap_root q = Some (Some p)"
    by (rule heap_pop_ok [OF q that])
qed

end
