(* ===== verification/Fk_Ev.thy ===== *)
theory Fk_Ev
  imports Fk_Heap
begin

text \<open>
  The event manager of \<^verbatim>\<open>fk_ev.c\<close>: registration of io events and timers, one round of the event loop
  with the callbacks, and the multiplexers \<^verbatim>\<open>fk_ev_epoll.c\<close>, \<^verbatim>\<open>fk_ev_select.c\<close> and \<^verbatim>\<open>fk_ev_poll.c\<close> behind it.

  The events are objects in a store (a pointer that is not allocated is \<open>None\<close>), the three lists of
  events are lists of pointers (the theory of linked lists shows that the macros implement them),
  the timers are in the heap. The arrays \<^verbatim>\<open>read_ev\<close> and \<^verbatim>\<open>write_ev\<close> come from \<^verbatim>\<open>malloc\<close> and are not
  initialised: an entry is \<open>None\<close> until it is written, and reading such an entry is undefined. The
  multiplexer and the callbacks are parameters, as they are function pointers in the code.
\<close>

unbundle bit_operations_syntax

section \<open>State and operations\<close>

datatype ioev_stat = IOEV_INIT | IOEV_PENDING | IOEV_ACTIVATED
datatype tmev_stat = TMEV_INIT | TMEV_PENDING | TMEV_EXPIRED | TMEV_OLD
datatype ev_rc = EV_OK | EV_ERR

type_synonym ev_type = "8 word"

definition FK_IOEV_READ :: ev_type where
  "FK_IOEV_READ = 0x01"

definition FK_IOEV_WRITE :: ev_type where
  "FK_IOEV_WRITE = 0x02"

definition FK_TMEV_CYCLE :: ev_type where
  "FK_TMEV_CYCLE = 1"

definition FK_TMEV_ONCE :: ev_type where
  "FK_TMEV_ONCE = 2"

lemmas ev_consts = FK_IOEV_READ_def FK_IOEV_WRITE_def FK_TMEV_CYCLE_def FK_TMEV_ONCE_def

record fk_ioev =
  io_fd :: int
  io_type :: ev_type
  io_stat :: ioev_stat

record fk_tmev =
  tm_type :: ev_type
  tm_stat :: tmev_stat
  interval :: int
  tm_when :: timeval

text \<open>The multiplexer is the type parameter \<open>'m\<close>.\<close>

record 'm evmgr =
  ioevs :: "nat \<Rightarrow> fk_ioev option"
  tmevs :: "nat \<Rightarrow> fk_tmev option"
  ev_stop :: bool
  max_files :: nat
  ioev_cnt :: nat
  tmev_cnt :: nat
  timer_heap :: "nat fk_heap"
  act_ioev :: "nat list"
  exp_tmev :: "nat list"
  old_tmev :: "nat list"
  read_ev :: "nat option option list"
  write_ev :: "nat option option list"
  iompx :: 'm

type_synonym 'm mpx_op = "'m \<Rightarrow> int \<Rightarrow> ev_type \<Rightarrow> (ev_rc \<times> 'm) option"

subsection \<open>Access to the objects\<close>

definition upd_ioev :: "nat \<Rightarrow> (fk_ioev \<Rightarrow> fk_ioev) \<Rightarrow> 'm evmgr \<Rightarrow> 'm evmgr option" where
  "upd_ioev p f m = do { e \<leftarrow> ioevs m p; Some (m\<lparr>ioevs := (ioevs m)(p \<mapsto> f e)\<rparr>) }"

definition upd_tmev :: "nat \<Rightarrow> (fk_tmev \<Rightarrow> fk_tmev) \<Rightarrow> 'm evmgr \<Rightarrow> 'm evmgr option" where
  "upd_tmev p f m = do { e \<leftarrow> tmevs m p; Some (m\<lparr>tmevs := (tmevs m)(p \<mapsto> f e)\<rparr>) }"

text \<open>\<^verbatim>\<open>fk_tmev_cmp\<close>; the leaves of the heap are allocated timers.\<close>

definition when_of :: "'m evmgr \<Rightarrow> nat \<Rightarrow> timeval" where
  "when_of m p = tm_when (the (tmevs m p))"

definition fk_tmev_cmp :: "'m evmgr \<Rightarrow> nat \<Rightarrow> nat \<Rightarrow> int" where
  "fk_tmev_cmp m p q = s32 (fk_util_tmval_cmp (when_of m p) (when_of m q))"

definition tab_set :: "'a list \<Rightarrow> int \<Rightarrow> 'a \<Rightarrow> 'a list option" where
  "tab_set xs i v = (if 0 \<le> i \<and> nat i < length xs then Some (xs[nat i := v]) else None)"

definition tab_get :: "'a list \<Rightarrow> int \<Rightarrow> 'a option" where
  "tab_get xs i = (if 0 \<le> i then nth_opt xs (nat i) else None)"

subsection \<open>Initialisation and creation\<close>

definition fk_ev_init :: "nat \<Rightarrow> 'm \<Rightarrow> 'm evmgr" where
  "fk_ev_init n mpx =
     \<lparr>ioevs = Map.empty, tmevs = Map.empty, ev_stop = False, max_files = n, ioev_cnt = 0, tmev_cnt = 0,
      timer_heap = fk_heap_create (\<lambda>_. 0), act_ioev = [], exp_tmev = [], old_tmev = [],
      read_ev = replicate n None, write_ev = replicate n None, iompx = mpx\<rparr>"

definition fk_ioev_create :: "nat \<Rightarrow> int \<Rightarrow> ev_type \<Rightarrow> 'm evmgr \<Rightarrow> 'm evmgr" where
  "fk_ioev_create p fd t m = m\<lparr>ioevs := (ioevs m)(p \<mapsto> \<lparr>io_fd = fd, io_type = t, io_stat = IOEV_INIT\<rparr>)\<rparr>"

definition fk_ioev_destroy :: "nat \<Rightarrow> 'm evmgr \<Rightarrow> 'm evmgr" where
  "fk_ioev_destroy p m = m\<lparr>ioevs := (ioevs m)(p := None)\<rparr>"

definition fk_tmev_create :: "nat \<Rightarrow> timeval \<Rightarrow> int \<Rightarrow> ev_type \<Rightarrow> 'm evmgr \<Rightarrow> 'm evmgr" where
  "fk_tmev_create p now iv t m =
     m\<lparr>tmevs := (tmevs m)(p \<mapsto> \<lparr>tm_type = t, tm_stat = TMEV_INIT, interval = iv, tm_when = fk_util_cal_expire now iv\<rparr>),
       timer_heap := (timer_heap m)\<lparr>lidx := (lidx (timer_heap m))(p := 0)\<rparr>\<rparr>"

definition fk_tmev_destroy :: "nat \<Rightarrow> 'm evmgr \<Rightarrow> 'm evmgr" where
  "fk_tmev_destroy p m = m\<lparr>tmevs := (tmevs m)(p := None)\<rparr>"

definition fk_ev_stop :: "'m evmgr \<Rightarrow> 'm evmgr" where
  "fk_ev_stop m = m\<lparr>ev_stop := True\<rparr>"

subsection \<open>Registration\<close>

definition fk_ev_add_ioev :: "'m mpx_op \<Rightarrow> nat \<Rightarrow> 'm evmgr \<Rightarrow> (ev_rc \<times> 'm evmgr) option" where
  "fk_ev_add_ioev mpx_add p m =
     do { e \<leftarrow> ioevs m p;
          if io_stat e \<noteq> IOEV_INIT then Some (EV_ERR, m)
          else
            do { (rt, x) \<leftarrow> mpx_add (iompx m) (io_fd e) (io_type e);
                 let m1 = m\<lparr>iompx := x\<rparr>;
                 if rt = EV_ERR then Some (EV_ERR, m1)
                 else
                   do { r \<leftarrow> (if io_type e AND FK_IOEV_READ \<noteq> 0 then tab_set (read_ev m1) (io_fd e) (Some (Some p)) else Some (read_ev m1));
                        w \<leftarrow> (if io_type e AND FK_IOEV_WRITE \<noteq> 0 then tab_set (write_ev m1) (io_fd e) (Some (Some p)) else Some (write_ev m1));
                        m2 \<leftarrow> upd_ioev p (io_stat_update (\<lambda>_. IOEV_PENDING)) (m1\<lparr>read_ev := r, write_ev := w\<rparr>);
                        Some (EV_OK, m2\<lparr>ioev_cnt := ioev_cnt m2 + 1\<rparr>) } } }"

definition fk_ev_remove_ioev :: "'m mpx_op \<Rightarrow> nat \<Rightarrow> 'm evmgr \<Rightarrow> (ev_rc \<times> 'm evmgr) option" where
  "fk_ev_remove_ioev mpx_remove p m =
     do { e \<leftarrow> ioevs m p;
          if io_stat e = IOEV_INIT then Some (EV_ERR, m)
          else
            do { (rt, x) \<leftarrow> mpx_remove (iompx m) (io_fd e) (io_type e);
                 let m1 = m\<lparr>iompx := x\<rparr>;
                 if rt = EV_ERR then Some (EV_ERR, m1)
                 else
                   do { a \<leftarrow> (if io_stat e = IOEV_ACTIVATED then rawlist_remove p (act_ioev m1) else Some (act_ioev m1));
                        m2 \<leftarrow> upd_ioev p (io_stat_update (\<lambda>_. IOEV_INIT)) (m1\<lparr>act_ioev := a\<rparr>);
                        r \<leftarrow> (if io_type e AND FK_IOEV_READ \<noteq> 0 then tab_set (read_ev m2) (io_fd e) (Some None) else Some (read_ev m2));
                        w \<leftarrow> (if io_type e AND FK_IOEV_WRITE \<noteq> 0 then tab_set (write_ev m2) (io_fd e) (Some None) else Some (write_ev m2));
                        Some (EV_OK, m2\<lparr>read_ev := r, write_ev := w, ioev_cnt := ioev_cnt m2 - 1\<rparr>) } } }"

definition fk_ev_add_tmev :: "nat \<Rightarrow> 'm evmgr \<Rightarrow> (ev_rc \<times> 'm evmgr) option" where
  "fk_ev_add_tmev p m =
     do { e \<leftarrow> tmevs m p;
          if tm_stat e \<noteq> TMEV_INIT then Some (EV_ERR, m)
          else
            do { hp \<leftarrow> fk_heap_push (fk_tmev_cmp m) (timer_heap m) p;
                 m1 \<leftarrow> upd_tmev p (tm_stat_update (\<lambda>_. TMEV_PENDING)) (m\<lparr>timer_heap := hp\<rparr>);
                 Some (EV_OK, m1\<lparr>tmev_cnt := tmev_cnt m1 + 1\<rparr>) } }"

definition fk_ev_remove_tmev :: "nat \<Rightarrow> 'm evmgr \<Rightarrow> (ev_rc \<times> 'm evmgr) option" where
  "fk_ev_remove_tmev p m =
     do { e \<leftarrow> tmevs m p;
          if tm_stat e = TMEV_INIT then Some (EV_ERR, m)
          else
            do { hp \<leftarrow> (if tm_stat e = TMEV_PENDING then fk_heap_remove (fk_tmev_cmp m) (timer_heap m) p else Some (timer_heap m));
                 ex \<leftarrow> (if tm_stat e = TMEV_EXPIRED then rawlist_remove p (exp_tmev m) else Some (exp_tmev m));
                 od \<leftarrow> (if tm_stat e = TMEV_OLD then rawlist_remove p (old_tmev m) else Some (old_tmev m));
                 m1 \<leftarrow> upd_tmev p (tm_stat_update (\<lambda>_. TMEV_INIT)) (m\<lparr>timer_heap := hp, exp_tmev := ex, old_tmev := od\<rparr>);
                 Some (EV_OK, m1\<lparr>tmev_cnt := tmev_cnt m1 - 1\<rparr>) } }"

subsection \<open>The event loop\<close>

text \<open>One half of \<^verbatim>\<open>fk_ev_activate_ioev\<close>: the entry \<open>r\<close> of one of the two arrays.\<close>

definition activate_one :: "nat option option option \<Rightarrow> 'm evmgr \<Rightarrow> 'm evmgr option" where
  "activate_one r m =
     do { entry \<leftarrow> r;
          ev \<leftarrow> entry;
          case ev of
            None \<Rightarrow> Some m
          | Some p \<Rightarrow>
              do { e \<leftarrow> ioevs m p;
                   if io_stat e = IOEV_PENDING
                   then upd_ioev p (io_stat_update (\<lambda>_. IOEV_ACTIVATED)) (m\<lparr>act_ioev := p # act_ioev m\<rparr>)
                   else Some m } }"

definition fk_ev_activate_ioev :: "int \<Rightarrow> ev_type \<Rightarrow> 'm evmgr \<Rightarrow> 'm evmgr option" where
  "fk_ev_activate_ioev fd t m =
     do { m1 \<leftarrow> (if t AND FK_IOEV_READ \<noteq> 0 then activate_one (tab_get (read_ev m) fd) m else Some m);
          if t AND FK_IOEV_WRITE \<noteq> 0 then activate_one (tab_get (write_ev m1) fd) m1 else Some m1 }"

fun activate_all :: "(int \<times> ev_type) list \<Rightarrow> 'm evmgr \<Rightarrow> 'm evmgr option" where
  "activate_all [] m = Some m"
| "activate_all ((fd, t) # es) m = do { m1 \<leftarrow> fk_ev_activate_ioev fd t m; activate_all es m1 }"

text \<open>\<^verbatim>\<open>fk_ev_update_pending_tmev\<close>, after the clock was read.\<close>

partial_function (option) fk_ev_update_pending_tmev :: "timeval \<Rightarrow> 'm evmgr \<Rightarrow> 'm evmgr option" where
  "fk_ev_update_pending_tmev now m =
     do { root \<leftarrow> fk_heap_root (timer_heap m);
          case root of
            None \<Rightarrow> Some m
          | Some p \<Rightarrow>
              do { e \<leftarrow> tmevs m p;
                   if s32 (fk_util_tmval_cmp now (tm_when e)) \<ge> 0 then
                     do { (_, hp) \<leftarrow> fk_heap_pop (fk_tmev_cmp m) (timer_heap m);
                          m1 \<leftarrow> upd_tmev p (tm_stat_update (\<lambda>_. TMEV_EXPIRED)) (m\<lparr>timer_heap := hp, exp_tmev := p # exp_tmev m\<rparr>);
                          fk_ev_update_pending_tmev now m1 }
                   else Some m } }"

text \<open>The callbacks run on the event manager and on the rest of the program, of type \<open>'w\<close>; the callback of
  a timer also returns an \<^verbatim>\<open>int\<close>. They are given by the pointers of the events.\<close>

type_synonym ('m, 'w) io_cbs = "nat \<Rightarrow> 'm evmgr \<times> 'w \<Rightarrow> ('m evmgr \<times> 'w) option"
type_synonym ('m, 'w) tm_cbs = "nat \<Rightarrow> 'm evmgr \<times> 'w \<Rightarrow> (int \<times> 'm evmgr \<times> 'w) option"

partial_function (option) fk_ev_proc_activated_ioev :: "('m, 'w) io_cbs \<Rightarrow> 'm evmgr \<times> 'w \<Rightarrow> ('m evmgr \<times> 'w) option" where
  "fk_ev_proc_activated_ioev iocb s =
     (case act_ioev (fst s) of
        [] \<Rightarrow> Some s
      | p # ps \<Rightarrow>
          do { m1 \<leftarrow> upd_ioev p (io_stat_update (\<lambda>_. IOEV_PENDING)) ((fst s)\<lparr>act_ioev := ps\<rparr>);
               s1 \<leftarrow> iocb p (m1, snd s);
               fk_ev_proc_activated_ioev iocb s1 })"

text \<open>A timer whose callback returned 0 is put into the heap again when it is a cyclic one; \<open>now\<close> is the
  clock reading of \<^verbatim>\<open>fk_util_cal_expire\<close>, one for each timer.\<close>

definition rearm :: "timeval \<Rightarrow> nat \<Rightarrow> int \<Rightarrow> 'm evmgr \<Rightarrow> 'm evmgr option" where
  "rearm now p iv m =
     do { od \<leftarrow> rawlist_remove p (old_tmev m);
          m1 \<leftarrow> upd_tmev p (tm_when_update (\<lambda>_. fk_util_cal_expire now iv)) (m\<lparr>old_tmev := od\<rparr>);
          hp \<leftarrow> fk_heap_push (fk_tmev_cmp m1) (timer_heap m1) p;
          upd_tmev p (tm_stat_update (\<lambda>_. TMEV_PENDING)) (m1\<lparr>timer_heap := hp\<rparr>) }"

partial_function (option) fk_ev_proc_expired_tmev :: "(nat \<Rightarrow> timeval) \<Rightarrow> ('m, 'w) tm_cbs \<Rightarrow> 'm evmgr \<times> 'w \<Rightarrow> ('m evmgr \<times> 'w) option" where
  "fk_ev_proc_expired_tmev nows tmcb s =
     (case exp_tmev (fst s) of
        [] \<Rightarrow> Some s
      | p # ps \<Rightarrow>
          do { e \<leftarrow> tmevs (fst s) p;
               m1 \<leftarrow> upd_tmev p (tm_stat_update (\<lambda>_. TMEV_OLD)) ((fst s)\<lparr>exp_tmev := ps, old_tmev := p # old_tmev (fst s)\<rparr>);
               (rt, m2, w2) \<leftarrow> tmcb p (m1, snd s);
               m3 \<leftarrow> (if rt = 0 \<and> tm_type e = FK_TMEV_CYCLE then rearm (nows p) p (interval e) m2 else Some m2);
               fk_ev_proc_expired_tmev nows tmcb (m3, w2) })"

declare fk_ev_update_pending_tmev.simps [code] fk_ev_proc_activated_ioev.simps [code] fk_ev_proc_expired_tmev.simps [code]

text \<open>The argument of the multiplexer: no timer means to wait without an end.\<close>

definition wait_time :: "timeval \<Rightarrow> 'm evmgr \<Rightarrow> timeval option option" where
  "wait_time now m =
     do { root \<leftarrow> fk_heap_root (timer_heap m);
          case root of
            None \<Rightarrow> Some None
          | Some p \<Rightarrow>
              do { e \<leftarrow> tmevs m p;
                   let timeout = fk_util_tmval_sub (tm_when e) now;
                   Some (Some (if fk_util_tv2millis timeout < 0 then \<lparr>tv_sec = 0, tv_usec = 0\<rparr> else timeout)) } }"

text \<open>\<^verbatim>\<open>fk_ev_dispatch\<close>: \<open>wait\<close> is the multiplexer's dispatch with what the kernel reports; \<open>now1\<close>, \<open>now2\<close> and \<open>nows\<close>
  are the readings of the clock.\<close>

definition fk_ev_dispatch ::
    "(timeval option \<Rightarrow> 'm evmgr \<Rightarrow> (ev_rc \<times> 'm evmgr) option) \<Rightarrow> timeval \<Rightarrow> timeval \<Rightarrow> (nat \<Rightarrow> timeval) \<Rightarrow> ('m, 'w) io_cbs \<Rightarrow> ('m, 'w) tm_cbs
     \<Rightarrow> 'm evmgr \<times> 'w \<Rightarrow> (ev_rc \<times> 'm evmgr \<times> 'w) option" where
  "fk_ev_dispatch wait now1 now2 nows iocb tmcb s =
     do { pto \<leftarrow> wait_time now1 (fst s);
          (rt, m1) \<leftarrow> wait pto (fst s);
          if rt = EV_ERR then Some (EV_ERR, m1, snd s)
          else
            do { m2 \<leftarrow> fk_ev_update_pending_tmev now2 m1;
                 s3 \<leftarrow> fk_ev_proc_activated_ioev iocb (m2, snd s);
                 s4 \<leftarrow> fk_ev_proc_expired_tmev nows tmcb s3;
                 Some (EV_OK, s4) } }"

text \<open>\<^verbatim>\<open>fk_ev_cycle\<close>: \<open>rs k\<close> is what the kernel and the clock do in round \<open>k\<close>. The result of a round is not looked at.\<close>

type_synonym 'm round = "(timeval option \<Rightarrow> 'm evmgr \<Rightarrow> (ev_rc \<times> 'm evmgr) option) \<times> timeval \<times> timeval \<times> (nat \<Rightarrow> timeval)"

fun one_round :: "'m round \<Rightarrow> ('m, 'w) io_cbs \<Rightarrow> ('m, 'w) tm_cbs \<Rightarrow> 'm evmgr \<times> 'w \<Rightarrow> ('m evmgr \<times> 'w) option" where
  "one_round (wait, now1, now2, nows) iocb tmcb s = map_option snd (fk_ev_dispatch wait now1 now2 nows iocb tmcb s)"

partial_function (option) fk_ev_cycle ::
    "(nat \<Rightarrow> 'm round) \<Rightarrow> ('m, 'w) io_cbs \<Rightarrow> ('m, 'w) tm_cbs \<Rightarrow> nat \<Rightarrow> 'm evmgr \<times> 'w \<Rightarrow> ('m evmgr \<times> 'w) option" where
  "fk_ev_cycle rs iocb tmcb k s =
     (if ev_stop (fst s) then Some s
      else do { s1 \<leftarrow> one_round (rs k) iocb tmcb s; fk_ev_cycle rs iocb tmcb (k + 1) s1 })"

declare fk_ev_cycle.simps [code]

section \<open>Timers\<close>

text \<open>The two halves of the event manager.\<close>

definition io_part :: "'m evmgr \<Rightarrow> (nat \<Rightarrow> fk_ioev option) \<times> nat \<times> nat \<times> nat list \<times> nat option option list \<times> nat option option list \<times> 'm" where
  "io_part m = (ioevs m, max_files m, ioev_cnt m, act_ioev m, read_ev m, write_ev m, iompx m)"

definition tm_part :: "'m evmgr \<Rightarrow> (nat \<Rightarrow> fk_tmev option) \<times> nat \<times> nat fk_heap \<times> nat list \<times> nat list" where
  "tm_part m = (tmevs m, tmev_cnt m, timer_heap m, exp_tmev m, old_tmev m)"

lemma io_part_upd [simp]:
  "io_part (m\<lparr>tmevs := a\<rparr>) = io_part m" "io_part (m\<lparr>tmev_cnt := b\<rparr>) = io_part m" "io_part (m\<lparr>timer_heap := c\<rparr>) = io_part m"
  "io_part (m\<lparr>exp_tmev := d\<rparr>) = io_part m" "io_part (m\<lparr>old_tmev := d\<rparr>) = io_part m" "io_part (m\<lparr>ev_stop := e\<rparr>) = io_part m"
  by (simp_all add: io_part_def)

lemma tm_part_upd [simp]:
  "tm_part (m\<lparr>ioevs := a\<rparr>) = tm_part m" "tm_part (m\<lparr>ioev_cnt := b\<rparr>) = tm_part m" "tm_part (m\<lparr>act_ioev := c\<rparr>) = tm_part m"
  "tm_part (m\<lparr>read_ev := d\<rparr>) = tm_part m" "tm_part (m\<lparr>write_ev := d\<rparr>) = tm_part m" "tm_part (m\<lparr>ev_stop := e\<rparr>) = tm_part m"
  "tm_part (m\<lparr>iompx := x\<rparr>) = tm_part m"
  by (simp_all add: tm_part_def)

subsection \<open>The state machine of a timer\<close>

definition tstat :: "'m evmgr \<Rightarrow> nat \<Rightarrow> tmev_stat option" where
  "tstat m p = map_option tm_stat (tmevs m p)"

text \<open>A timer is in the heap, in the list of the expired timers or in the list of the old ones exactly when its
  state says so, and the counter counts them.\<close>

definition tm_inv :: "'m evmgr \<Rightarrow> bool" where
  "tm_inv m \<longleftrightarrow> heap_inv (timer_heap m) \<and> leaves (timer_heap m) = {p. tstat m p = Some TMEV_PENDING}
     \<and> distinct (exp_tmev m) \<and> set (exp_tmev m) = {p. tstat m p = Some TMEV_EXPIRED}
     \<and> distinct (old_tmev m) \<and> set (old_tmev m) = {p. tstat m p = Some TMEV_OLD}
     \<and> tmev_cnt m = card (leaves (timer_heap m)) + length (exp_tmev m) + length (old_tmev m)"

lemma tm_inv_part: "tm_part m' = tm_part m \<Longrightarrow> tm_inv m' = tm_inv m"
  by (simp add: tm_inv_def tm_part_def tstat_def)

lemma tm_invD:
  assumes "tm_inv m"
  shows "heap_inv (timer_heap m)" "p \<in> leaves (timer_heap m) \<longleftrightarrow> tstat m p = Some TMEV_PENDING" "finite (leaves (timer_heap m))"
    "distinct (exp_tmev m)" "p \<in> set (exp_tmev m) \<longleftrightarrow> tstat m p = Some TMEV_EXPIRED"
    "distinct (old_tmev m)" "p \<in> set (old_tmev m) \<longleftrightarrow> tstat m p = Some TMEV_OLD"
    "tmev_cnt m = card (leaves (timer_heap m)) + length (exp_tmev m) + length (old_tmev m)"
  using assms leaves_finite [of "timer_heap m"] by (simp_all add: tm_inv_def)

text \<open>A timer that changes its place.\<close>

lemma tstat_move: "tmevs m' = (tmevs m)(p \<mapsto> e') \<Longrightarrow> tstat m' = (tstat m)(p \<mapsto> tm_stat e')"
  by (auto simp: tstat_def)

lemma tm_inv_move:
  assumes inv: "tm_inv m" and ts: "tmevs m' = (tmevs m)(p \<mapsto> e')"
    and hp: "heap_inv (timer_heap m')"
      "leaves (timer_heap m') = (if tm_stat e' = TMEV_PENDING then insert p (leaves (timer_heap m)) else leaves (timer_heap m) - {p})"
    and ex: "exp_tmev m' = (if tm_stat e' = TMEV_EXPIRED then p # remove1 p (exp_tmev m) else remove1 p (exp_tmev m))"
    and od: "old_tmev m' = (if tm_stat e' = TMEV_OLD then p # remove1 p (old_tmev m) else remove1 p (old_tmev m))"
    and cnt: "tmev_cnt m' = (case tstat m p of
        Some s \<Rightarrow> if s = TMEV_INIT then if tm_stat e' = TMEV_INIT then tmev_cnt m else tmev_cnt m + 1
          else if tm_stat e' = TMEV_INIT then tmev_cnt m - 1 else tmev_cnt m
      | None \<Rightarrow> if tm_stat e' = TMEV_INIT then tmev_cnt m else tmev_cnt m + 1)"
  shows "tm_inv m'"
proof -
  note I = tm_invD [OF inv] and ts' = tstat_move [OF ts]
  have "set (exp_tmev m') = {q. tstat m' q = Some TMEV_EXPIRED}" "set (old_tmev m') = {q. tstat m' q = Some TMEV_OLD}"
    "distinct (exp_tmev m')" "distinct (old_tmev m')" "leaves (timer_heap m') = {q. tstat m' q = Some TMEV_PENDING}"
    using I hp(2) ex od by (auto simp: ts')
  moreover have "tmev_cnt m' = card (leaves (timer_heap m')) + length (exp_tmev m') + length (old_tmev m')"
  proof -
    define h x d where "h = card (leaves (timer_heap m))" and "x = length (exp_tmev m)" and "d = length (old_tmev m)"
    have pos: "tstat m p = Some TMEV_PENDING \<Longrightarrow> 0 < h" "tstat m p = Some TMEV_EXPIRED \<Longrightarrow> 0 < x" "tstat m p = Some TMEV_OLD \<Longrightarrow> 0 < d"
      using I by (auto simp: h_def x_def d_def card_gt_0_iff)
    have c: "card (leaves (timer_heap m')) =
        (if tm_stat e' = TMEV_PENDING then 1 else 0) + (if tstat m p = Some TMEV_PENDING then h - 1 else h)"
      using I(2,3) hp(2) pos(1) by (auto simp: card_insert_if card_Diff_singleton_if h_def)
    have l: "length (remove1 p (exp_tmev m)) = (if tstat m p = Some TMEV_EXPIRED then x - 1 else x)"
      "length (remove1 p (old_tmev m)) = (if tstat m p = Some TMEV_OLD then d - 1 else d)"
      using I(5,7) by (auto simp: length_remove1 x_def d_def)
    have len: "length (exp_tmev m') = (if tm_stat e' = TMEV_EXPIRED then 1 else 0) + (if tstat m p = Some TMEV_EXPIRED then x - 1 else x)"
      "length (old_tmev m') = (if tm_stat e' = TMEV_OLD then 1 else 0) + (if tstat m p = Some TMEV_OLD then d - 1 else d)"
      using ex od l by simp_all
    have "tmev_cnt m = h + x + d"
      using I(8) by (simp add: h_def x_def d_def)
    then show ?thesis
      using c len pos cnt by (cases "tstat m p"; cases "the (tstat m p)"; cases "tm_stat e'") simp_all
  qed
  ultimately show "tm_inv m'"
    using hp(1) by (simp add: tm_inv_def)
qed

lemma tmev_places:
  assumes "tm_inv m" and "tmevs m p = Some e"
  shows "tstat m p = Some (tm_stat e)" "p \<in> leaves (timer_heap m) \<longleftrightarrow> tm_stat e = TMEV_PENDING"
    "p \<in> set (exp_tmev m) \<longleftrightarrow> tm_stat e = TMEV_EXPIRED" "p \<in> set (old_tmev m) \<longleftrightarrow> tm_stat e = TMEV_OLD"
  using tm_invD [OF assms(1)] assms(2) by (auto simp: tstat_def)

lemma when_of_upd:
  assumes "tmevs m p = Some e" and "tmevs m' = (tmevs m)(p \<mapsto> e')" and "tm_when e' = tm_when e"
  shows "when_of m' = when_of m"
  using assms by (auto simp: when_of_def)

lemma add_tmev_spec:
  assumes inv: "tm_inv m" and e: "tmevs m p = Some e"
  shows "\<exists>rc m'. fk_ev_add_tmev p m = Some (rc, m') \<and> tm_inv m' \<and> exp_tmev m' = exp_tmev m \<and> io_part m' = io_part m
    \<and> when_of m' = when_of m
    \<and> (if tm_stat e = TMEV_INIT
        then rc = EV_OK \<and> tstat m' = (tstat m)(p \<mapsto> TMEV_PENDING) \<and> tmev_cnt m' = tmev_cnt m + 1
        else rc = EV_ERR \<and> m' = m)"
proof (cases "tm_stat e = TMEV_INIT")
  case True
  note pl = tmev_places [OF inv e]
  obtain hp where hp: "fk_heap_push (fk_tmev_cmp m) (timer_heap m) p = Some hp" "heap_inv hp"
    "leaves hp = insert p (leaves (timer_heap m))"
    using push_spec [OF tm_invD(1) [OF inv], of p] pl(2) True by auto
  define m' where "m' = m\<lparr>timer_heap := hp, tmevs := (tmevs m)(p \<mapsto> e\<lparr>tm_stat := TMEV_PENDING\<rparr>), tmev_cnt := tmev_cnt m + 1\<rparr>"
  have "tstat m' = (tstat m)(p \<mapsto> tm_stat (e\<lparr>tm_stat := TMEV_PENDING\<rparr>))"
    by (rule tstat_move) (simp add: m'_def)
  moreover have "tm_inv m'"
    using hp pl True
    by (auto intro!: tm_inv_move [OF inv, where p = p and e' = "e\<lparr>tm_stat := TMEV_PENDING\<rparr>"] simp: m'_def remove1_idem)
  moreover have "fk_ev_add_tmev p m = Some (EV_OK, m')"
    using e True hp(1) by (simp add: fk_ev_add_tmev_def upd_tmev_def m'_def)
  moreover have "when_of m' = when_of m"
    by (rule when_of_upd [OF e, where e' = "e\<lparr>tm_stat := TMEV_PENDING\<rparr>"]) (simp_all add: m'_def)
  ultimately show ?thesis
    using True by (intro exI [of _ EV_OK] exI [of _ m']) (simp add: m'_def)
next
  case False
  then show ?thesis
    using e inv by (simp add: fk_ev_add_tmev_def)
qed

lemma remove_tmev_spec:
  assumes inv: "tm_inv m" and e: "tmevs m p = Some e"
  shows "\<exists>rc m'. fk_ev_remove_tmev p m = Some (rc, m') \<and> tm_inv m' \<and> exp_tmev m' = remove1 p (exp_tmev m) \<and> io_part m' = io_part m
    \<and> (if tm_stat e \<noteq> TMEV_INIT
        then rc = EV_OK \<and> tstat m' = (tstat m)(p \<mapsto> TMEV_INIT) \<and> tmev_cnt m = tmev_cnt m' + 1
        else rc = EV_ERR \<and> m' = m)"
proof (cases "tm_stat e = TMEV_INIT")
  case True
  then show ?thesis
    using e inv tmev_places [OF inv e] by (simp add: fk_ev_remove_tmev_def remove1_idem)
next
  case False
  note pl = tmev_places [OF inv e] and I = tm_invD [OF inv]
  obtain hp where hp: "(if tm_stat e = TMEV_PENDING then fk_heap_remove (fk_tmev_cmp m) (timer_heap m) p else Some (timer_heap m)) = Some hp"
    "heap_inv hp" "leaves hp = leaves (timer_heap m) - {p}"
    using heap_remove_spec [OF I(1), of "fk_tmev_cmp m" p] I(1) pl(2) by (cases "tm_stat e = TMEV_PENDING") auto
  define m' where "m' = m\<lparr>timer_heap := hp, exp_tmev := remove1 p (exp_tmev m), old_tmev := remove1 p (old_tmev m),
      tmevs := (tmevs m)(p \<mapsto> e\<lparr>tm_stat := TMEV_INIT\<rparr>), tmev_cnt := tmev_cnt m - 1\<rparr>"
  have "tstat m' = (tstat m)(p \<mapsto> tm_stat (e\<lparr>tm_stat := TMEV_INIT\<rparr>))"
    by (rule tstat_move) (simp add: m'_def)
  moreover have "tm_inv m'"
    using hp(2,3) pl(1) False by (intro tm_inv_move [OF inv, where p = p and e' = "e\<lparr>tm_stat := TMEV_INIT\<rparr>"]) (simp_all add: m'_def)
  moreover have "fk_ev_remove_tmev p m = Some (EV_OK, m')"
    using e False hp(1) pl
    by (cases "tm_stat e") (simp_all add: fk_ev_remove_tmev_def upd_tmev_def rawlist_remove_def remove1_idem m'_def)
  moreover have "0 < tmev_cnt m"
    using I False pl by (cases "tm_stat e") (auto simp: card_gt_0_iff)
  ultimately show ?thesis
    using False by (intro exI [of _ EV_OK] exI [of _ m']) (simp add: m'_def)
qed

lemma rearm_spec:
  assumes inv: "tm_inv m" and old: "tstat m p = Some TMEV_OLD"
  shows "\<exists>m'. rearm now p iv m = Some m' \<and> tm_inv m' \<and> exp_tmev m' = exp_tmev m \<and> io_part m' = io_part m
    \<and> tstat m' = (tstat m)(p \<mapsto> TMEV_PENDING) \<and> tmev_cnt m' = tmev_cnt m
    \<and> when_of m' = (when_of m)(p := fk_util_cal_expire now iv)"
proof -
  obtain e where e: "tmevs m p = Some e" "tm_stat e = TMEV_OLD"
    using old by (auto simp: tstat_def)
  note pl = tmev_places [OF inv e(1)]
  define m1 where "m1 = m\<lparr>old_tmev := remove1 p (old_tmev m),
      tmevs := (tmevs m)(p \<mapsto> e\<lparr>tm_when := fk_util_cal_expire now iv\<rparr>)\<rparr>"
  obtain hp where hp: "fk_heap_push (fk_tmev_cmp m1) (timer_heap m) p = Some hp" "heap_inv hp"
    "leaves hp = insert p (leaves (timer_heap m))"
    using push_spec [OF tm_invD(1) [OF inv], of p] pl(2) e(2) by auto
  let ?e = "e\<lparr>tm_when := fk_util_cal_expire now iv, tm_stat := TMEV_PENDING\<rparr>"
  define m' where "m' = m1\<lparr>timer_heap := hp, tmevs := (tmevs m)(p \<mapsto> ?e)\<rparr>"
  have "tstat m' = (tstat m)(p \<mapsto> tm_stat ?e)"
    by (rule tstat_move) (simp add: m'_def m1_def)
  moreover have "tm_inv m'"
    using hp pl e(2) by (auto intro!: tm_inv_move [OF inv, where p = p and e' = ?e] simp: m'_def m1_def remove1_idem)
  moreover have "rearm now p iv m = Some m'"
    using e hp(1) pl by (simp add: rearm_def upd_tmev_def rawlist_remove_def m1_def [symmetric]) (simp add: m1_def m'_def)
  moreover have "when_of m' = (when_of m)(p := fk_util_cal_expire now iv)"
    by (auto simp: m'_def when_of_def)
  ultimately show ?thesis
    by (intro exI [of _ m']) (simp add: m'_def m1_def)
qed

text \<open>Taking the first expired timer from its list.\<close>

lemma expired_to_old:
  assumes inv: "tm_inv m" and ex: "exp_tmev m = p # ps"
  shows "\<exists>e m1. tmevs m p = Some e
    \<and> upd_tmev p (tm_stat_update (\<lambda>_. TMEV_OLD)) (m\<lparr>exp_tmev := ps, old_tmev := p # old_tmev m\<rparr>) = Some m1
    \<and> tm_inv m1 \<and> exp_tmev m1 = ps \<and> io_part m1 = io_part m \<and> tstat m1 = (tstat m)(p \<mapsto> TMEV_OLD) \<and> when_of m1 = when_of m
    \<and> tmev_cnt m1 = tmev_cnt m"
proof -
  obtain e where e: "tmevs m p = Some e" "tm_stat e = TMEV_EXPIRED"
    using tm_invD(5) [OF inv, of p] ex by (auto simp: tstat_def)
  note pl = tmev_places [OF inv e(1)]
  define m1 where "m1 = m\<lparr>exp_tmev := ps, old_tmev := p # old_tmev m, tmevs := (tmevs m)(p \<mapsto> e\<lparr>tm_stat := TMEV_OLD\<rparr>)\<rparr>"
  have "tstat m1 = (tstat m)(p \<mapsto> tm_stat (e\<lparr>tm_stat := TMEV_OLD\<rparr>))"
    by (rule tstat_move) (simp add: m1_def)
  moreover have "tm_inv m1"
    using pl e(2) ex tm_invD(1) [OF inv]
    by (auto intro!: tm_inv_move [OF inv, where p = p and e' = "e\<lparr>tm_stat := TMEV_OLD\<rparr>"] simp: m1_def remove1_idem)
  moreover have "when_of m1 = when_of m"
    by (rule when_of_upd [OF e(1), where e' = "e\<lparr>tm_stat := TMEV_OLD\<rparr>"]) (simp_all add: m1_def)
  ultimately show ?thesis
    using e(1) by (intro exI [of _ e] exI [of _ m1]) (simp add: m1_def upd_tmev_def)
qed

subsection \<open>Expiry\<close>

definition tm_key :: "'m evmgr \<Rightarrow> nat \<Rightarrow> int" where
  "tm_key m p = tv_micros (when_of m p)"

text \<open>Points in time as the clock gives them; the comparison converts a difference of seconds to an \<^verbatim>\<open>int\<close>.\<close>

definition tv_ok :: "timeval \<Rightarrow> bool" where
  "tv_ok t \<longleftrightarrow> tv_norm t \<and> 0 \<le> tv_sec t \<and> tv_sec t < 2147483648"

definition tm_dom :: "'m evmgr \<Rightarrow> nat set" where
  "tm_dom m = {p. tv_ok (when_of m p)}"

lemma s32_tmval_cmp:
  assumes "tv_ok a" and "tv_ok b"
  shows "s32 (fk_util_tmval_cmp a b) = fk_util_tmval_cmp a b"
  using assms by (intro s32_id) (auto simp: tv_ok_def tv_norm_def fk_util_tmval_cmp_def)

lemma tmval_cmp_sign:
  assumes "tv_ok a" and "tv_ok b"
  shows "s32 (fk_util_tmval_cmp a b) < 0 \<longleftrightarrow> tv_micros a < tv_micros b"
    and "0 < s32 (fk_util_tmval_cmp a b) \<longleftrightarrow> tv_micros b < tv_micros a"
  using tmval_cmp_micros [of a b] s32_tmval_cmp [OF assms] assms by (auto simp: tv_ok_def)

interpretation tmo: key_order "fk_tmev_cmp m" "tm_key m" "tm_dom m" for m :: "'m evmgr"
  by unfold_locales (simp_all add: fk_tmev_cmp_def tm_key_def tm_dom_def tmval_cmp_sign)

definition tm_ordered :: "'m evmgr \<Rightarrow> bool" where
  "tm_ordered m \<longleftrightarrow> ordered (tm_key m) (timer_heap m) \<and> leaves (timer_heap m) \<subseteq> tm_dom m"

definition has_expired :: "timeval \<Rightarrow> 'm evmgr \<Rightarrow> nat \<Rightarrow> bool" where
  "has_expired now m p \<longleftrightarrow> s32 (fk_util_tmval_cmp now (when_of m p)) \<ge> 0"

lemma has_expired_micros: "tv_ok now \<Longrightarrow> p \<in> tm_dom m \<Longrightarrow> has_expired now m p \<longleftrightarrow> tm_key m p \<le> tv_micros now"
  using tmval_cmp_sign(1) [of now "when_of m p"] by (auto simp: has_expired_def tm_dom_def tm_key_def)

lemma when_of_eqs:
  assumes "when_of m' = when_of m"
  shows "fk_tmev_cmp m' = fk_tmev_cmp m" "tm_key m' = tm_key m" "tm_dom m' = tm_dom m" "has_expired now m' = has_expired now m"
  using assms by (auto simp: fk_tmev_cmp_def tm_key_def tm_dom_def has_expired_def fun_eq_iff)

text \<open>One expired root.\<close>

lemma pop_expired:
  assumes inv: "tm_inv m" and root: "fk_heap_root (timer_heap m) = Some (Some p)"
  shows "\<exists>e hp m1. tmevs m p = Some e \<and> p \<in> leaves (timer_heap m) \<and> when_of m p = tm_when e
    \<and> fk_heap_pop (fk_tmev_cmp m) (timer_heap m) = Some (Some p, hp)
    \<and> upd_tmev p (tm_stat_update (\<lambda>_. TMEV_EXPIRED)) (m\<lparr>timer_heap := hp, exp_tmev := p # exp_tmev m\<rparr>) = Some m1
    \<and> tm_inv m1 \<and> io_part m1 = io_part m \<and> when_of m1 = when_of m \<and> tmev_cnt m1 = tmev_cnt m \<and> old_tmev m1 = old_tmev m
    \<and> exp_tmev m1 = p # exp_tmev m \<and> leaves (timer_heap m1) = leaves (timer_heap m) - {p} \<and> (tm_ordered m \<longrightarrow> tm_ordered m1)"
proof -
  note hp0 = pop_spec [OF tm_invD(1) [OF inv] root]
  obtain hp where hp: "fk_heap_pop (fk_tmev_cmp m) (timer_heap m) = Some (Some p, hp)" "heap_inv hp" "leaves hp = leaves (timer_heap m) - {p}"
    using hp0(3) [of "fk_tmev_cmp m"] by blast
  obtain e where e: "tmevs m p = Some e" "tm_stat e = TMEV_PENDING"
    using tm_invD(2) [OF inv, of p] hp0(2) by (auto simp: tstat_def)
  note pl = tmev_places [OF inv e(1)]
  let ?e = "e\<lparr>tm_stat := TMEV_EXPIRED\<rparr>"
  define m1 where "m1 = m\<lparr>timer_heap := hp, exp_tmev := p # exp_tmev m, tmevs := (tmevs m)(p \<mapsto> ?e)\<rparr>"
  have "tm_inv m1"
    using pl e(2) hp by (intro tm_inv_move [OF inv, where p = p and e' = ?e]) (simp_all add: m1_def remove1_idem)
  moreover have w: "when_of m1 = when_of m"
    by (rule when_of_upd [OF e(1), where e' = ?e]) (simp_all add: m1_def)
  moreover have "tm_ordered m1" if "tm_ordered m"
  proof -
    have "timers_inv (tm_key m) (tm_dom m) (timer_heap m)"
      using that tm_invD(1) [OF inv] by (simp add: timers_inv_def tm_ordered_def)
    from tmo.heap_pop_ok [OF this root] show ?thesis
      using hp(1) when_of_eqs [OF w] by (auto simp: timers_inv_def tm_ordered_def m1_def)
  qed
  ultimately show ?thesis
    using e hp hp0(2) by (intro exI [of _ e] exI [of _ hp] exI [of _ m1]) (simp add: m1_def upd_tmev_def when_of_def)
qed

lemma update_pending_spec:
  assumes "tm_inv m"
  shows "\<exists>m' xs. fk_ev_update_pending_tmev now m = Some m' \<and> tm_inv m' \<and> io_part m' = io_part m \<and> when_of m' = when_of m
    \<and> tmev_cnt m' = tmev_cnt m \<and> old_tmev m' = old_tmev m \<and> exp_tmev m' = xs @ exp_tmev m
    \<and> set xs \<subseteq> leaves (timer_heap m) \<and> leaves (timer_heap m') = leaves (timer_heap m) - set xs \<and> (\<forall>p \<in> set xs. has_expired now m p)
    \<and> (tm_ordered m \<longrightarrow> tm_ordered m') \<and> (\<forall>p. fk_heap_root (timer_heap m') = Some (Some p) \<longrightarrow> \<not> has_expired now m' p)"
  using assms
proof (induction "card (leaves (timer_heap m))" arbitrary: m rule: less_induct)
  case less
  show ?case
  proof (cases "leaves (timer_heap m) = {}")
    case True
    then have root: "fk_heap_root (timer_heap m) = Some None"
      using root_spec(1) tm_invD(1) [OF less.prems] by blast
    then have "fk_ev_update_pending_tmev now m = Some m"
      by (subst fk_ev_update_pending_tmev.simps) simp
    then show ?thesis
      using less.prems root by (intro exI [of _ m] exI [of _ "[]"]) simp
  next
    case False
    then obtain p where root: "fk_heap_root (timer_heap m) = Some (Some p)"
      using root_spec(2) tm_invD(1) [OF less.prems] by blast
    from pop_expired [OF less.prems root]
    obtain e hp m1 where m1: "tmevs m p = Some e" "p \<in> leaves (timer_heap m)" "when_of m p = tm_when e"
      "fk_heap_pop (fk_tmev_cmp m) (timer_heap m) = Some (Some p, hp)"
      "upd_tmev p (tm_stat_update (\<lambda>_. TMEV_EXPIRED)) (m\<lparr>timer_heap := hp, exp_tmev := p # exp_tmev m\<rparr>) = Some m1"
      "tm_inv m1" "io_part m1 = io_part m" "when_of m1 = when_of m" "tmev_cnt m1 = tmev_cnt m" "old_tmev m1 = old_tmev m"
      "exp_tmev m1 = p # exp_tmev m" "leaves (timer_heap m1) = leaves (timer_heap m) - {p}" "tm_ordered m \<longrightarrow> tm_ordered m1"
      by blast
    show ?thesis
    proof (cases "has_expired now m p")
      case True
      have "card (leaves (timer_heap m1)) < card (leaves (timer_heap m))"
        using m1(2) tm_invD(3) [OF less.prems] unfolding m1(12) by (meson card_Diff1_less)
      from less.hyps [OF this m1(6)] obtain m' xs where m': "fk_ev_update_pending_tmev now m1 = Some m'" "tm_inv m'"
        "io_part m' = io_part m1" "when_of m' = when_of m1" "tmev_cnt m' = tmev_cnt m1" "old_tmev m' = old_tmev m1"
        "exp_tmev m' = xs @ exp_tmev m1" "set xs \<subseteq> leaves (timer_heap m1)" "leaves (timer_heap m') = leaves (timer_heap m1) - set xs"
        "\<forall>p \<in> set xs. has_expired now m1 p" "tm_ordered m1 \<longrightarrow> tm_ordered m'"
        "\<forall>p. fk_heap_root (timer_heap m') = Some (Some p) \<longrightarrow> \<not> has_expired now m' p"
        by blast
      have "fk_ev_update_pending_tmev now m = fk_ev_update_pending_tmev now m1"
        using True m1(1,3,4,5) root by (subst fk_ev_update_pending_tmev.simps) (simp add: has_expired_def)
      then show ?thesis
        using m' m1 True when_of_eqs(4) [OF m1(8), of now] by (intro exI [of _ m'] exI [of _ "xs @ [p]"]) auto
    next
      case False
      then have "fk_ev_update_pending_tmev now m = Some m"
        using m1(1,3) root by (subst fk_ev_update_pending_tmev.simps) (simp add: has_expired_def)
      then show ?thesis
        using less.prems root False by (intro exI [of _ m] exI [of _ "[]"]) simp
    qed
  qed
qed

text \<open>
  Expiry of timers: when the timers are ordered in the heap, one pass over the heap moves exactly the
  timers whose point in time has been reached into the list of the expired timers, keeps the other
  ones in the heap, and keeps the order and the book-keeping of the timers.\<close>

theorem update_pending_exact:
  assumes inv: "tm_inv m" and ord: "tm_ordered m" and now: "tv_ok now"
  shows "\<exists>m'. fk_ev_update_pending_tmev now m = Some m' \<and> tm_inv m' \<and> tm_ordered m'
    \<and> set (exp_tmev m') = set (exp_tmev m) \<union> {p \<in> leaves (timer_heap m). tv_micros (when_of m p) \<le> tv_micros now}
    \<and> leaves (timer_heap m') = {p \<in> leaves (timer_heap m). tv_micros now < tv_micros (when_of m p)}"
proof -
  from update_pending_spec [OF inv, of now] obtain m' xs where m': "fk_ev_update_pending_tmev now m = Some m'" "tm_inv m'"
    "when_of m' = when_of m" "exp_tmev m' = xs @ exp_tmev m" "set xs \<subseteq> leaves (timer_heap m)"
    "leaves (timer_heap m') = leaves (timer_heap m) - set xs" "\<forall>p \<in> set xs. has_expired now m p" "tm_ordered m'"
    "\<forall>p. fk_heap_root (timer_heap m') = Some (Some p) \<longrightarrow> \<not> has_expired now m' p"
    using ord by blast
  have dom: "leaves (timer_heap m) \<subseteq> tm_dom m"
    using ord by (simp add: tm_ordered_def)
  have late: "tv_micros now < tm_key m p" if p: "p \<in> leaves (timer_heap m')" for p
  proof -
    have ti: "timers_inv (tm_key m') (tm_dom m') (timer_heap m')"
      using m'(2,8) tm_invD(1) by (auto simp: timers_inv_def tm_ordered_def)
    obtain r where r: "fk_heap_root (timer_heap m') = Some (Some r)" "r \<in> leaves (timer_heap m')" "\<forall>x \<in> leaves (timer_heap m'). tm_key m' r \<le> tm_key m' x"
      using tmo.heapq.root_min [OF ti] p by blast
    then have "\<not> has_expired now m r"
      using m'(9) when_of_eqs(4) [OF m'(3)] by metis
    then have "tv_micros now < tm_key m r"
      using has_expired_micros [OF now, of r m] r(2) m'(6) dom by auto
    also have "\<dots> \<le> tm_key m p"
      using r(3) p when_of_eqs(2) [OF m'(3)] by metis
    finally show ?thesis .
  qed
  have early: "tm_key m p \<le> tv_micros now" if "p \<in> set xs" for p
    using that m'(5,7) dom has_expired_micros [OF now] by blast
  have "set xs = {p \<in> leaves (timer_heap m). tv_micros (when_of m p) \<le> tv_micros now}"
    "leaves (timer_heap m') = {p \<in> leaves (timer_heap m). tv_micros now < tv_micros (when_of m p)}"
    using late early m'(5,6) unfolding tm_key_def by fastforce+
  then show ?thesis
    using m' by auto
qed

subsection \<open>Adding timers\<close>

lemma tm_inv_init: "tm_inv (fk_ev_init n x)" and tm_ordered_init: "tm_ordered (fk_ev_init n x)"
proof -
  have h: "timer_heap (fk_ev_init n x) = fk_heap_create (\<lambda>_. 0)"
    by (simp add: fk_ev_init_def)
  show "tm_ordered (fk_ev_init n x)"
    unfolding tm_ordered_def h using heap_inv_empty [of "\<lambda>_. 0" "tm_key (fk_ev_init n x)"] by simp
  show "tm_inv (fk_ev_init n x)"
    using heap_inv_empty [of "\<lambda>_ :: nat. 0" "\<lambda>_. 0"] unfolding tm_inv_def h by (simp add: fk_ev_init_def tstat_def)
qed

lemma create_tmev_spec:
  assumes "tm_inv m" and "tmevs m p = None"
  shows "tm_inv (fk_tmev_create p now iv t m)" and "tm_ordered m \<Longrightarrow> tm_ordered (fk_tmev_create p now iv t m)"
    and "io_part (fk_tmev_create p now iv t m) = io_part m" and "exp_tmev (fk_tmev_create p now iv t m) = exp_tmev m"
proof -
  define e where "e = \<lparr>tm_type = t, tm_stat = TMEV_INIT, interval = iv, tm_when = fk_util_cal_expire now iv\<rparr>"
  have p: "p \<notin> leaves (timer_heap m)" "p \<notin> set (exp_tmev m)" "p \<notin> set (old_tmev m)" "tstat m p = None"
    using tm_invD [OF assms(1)] assms(2) by (auto simp: tstat_def)
  then have "lidx (timer_heap m) p = 0"
    by (simp add: leaves_def)
  then have eq: "fk_tmev_create p now iv t m = m\<lparr>tmevs := (tmevs m)(p \<mapsto> e)\<rparr>"
    by (simp add: fk_tmev_create_def e_def fun_upd_idem)
  show "tm_inv (fk_tmev_create p now iv t m)"
    unfolding eq using p tm_invD(1) [OF assms(1)]
    by (intro tm_inv_move [OF assms(1), where p = p and e' = e]) (simp_all add: e_def remove1_idem)
  show "io_part (fk_tmev_create p now iv t m) = io_part m" "exp_tmev (fk_tmev_create p now iv t m) = exp_tmev m"
    by (simp_all add: eq)
  assume ord: "tm_ordered m"
  have at: "the (htree (timer_heap m) ! i) \<noteq> p" if "1 \<le> i" "i \<le> hlast (timer_heap m)" for i
    using heap_invD(5) [OF tm_invD(1) [OF assms(1)] that] p(1) by metis
  have "1 \<le> i div 2 \<and> i div 2 \<le> hlast (timer_heap m)" if "2 \<le> i" "i \<le> hlast (timer_heap m)" for i :: nat
    using that by auto
  then show "tm_ordered (fk_tmev_create p now iv t m)"
    using ord at p(1) unfolding eq by (auto simp: tm_ordered_def ordered_def tm_key_def tm_dom_def when_of_def subset_iff)
qed

lemma add_tmev_ordered:
  assumes inv: "tm_inv m" and ord: "tm_ordered m" and e: "tmevs m p = Some e" and ok: "tv_ok (tm_when e)"
    and add: "fk_ev_add_tmev p m = Some (rc, m')"
  shows "tm_ordered m'"
proof (cases "tm_stat e = TMEV_INIT")
  case True
  then obtain hp where hp: "fk_heap_push (fk_tmev_cmp m) (timer_heap m) p = Some hp"
    "m' = m\<lparr>timer_heap := hp, tmevs := (tmevs m)(p \<mapsto> e\<lparr>tm_stat := TMEV_PENDING\<rparr>), tmev_cnt := tmev_cnt m + 1\<rparr>"
    using add e by (auto simp: fk_ev_add_tmev_def upd_tmev_def split: bind_splits)
  have w: "when_of m' = when_of m"
    by (rule when_of_upd [OF e, where e' = "e\<lparr>tm_stat := TMEV_PENDING\<rparr>"]) (simp_all add: hp(2))
  have "timers_inv (tm_key m) (tm_dom m) (timer_heap m)" "p \<in> tm_dom m" "p \<notin> leaves (timer_heap m)"
    using ord tm_invD(1) [OF inv] e ok tmev_places(2) [OF inv e] True
    by (auto simp: timers_inv_def tm_ordered_def tm_dom_def when_of_def)
  from tmo.heapq.push_ok [OF this] show ?thesis
    using hp(1) when_of_eqs [OF w] by (auto simp: timers_inv_def tm_ordered_def hp(2))
next
  case False
  then show ?thesis
    using add e ord by (simp add: fk_ev_add_tmev_def)
qed

text \<open>A manager with one pending timer, which was created at second 100.\<close>

abbreviation clock_at :: "int \<Rightarrow> timeval" where
  "clock_at s \<equiv> \<lparr>tv_sec = s, tv_usec = 0\<rparr>"

lemma one_timer:
  obtains m where "fk_ev_add_tmev 5 (fk_tmev_create 5 (clock_at 100) iv FK_TMEV_CYCLE (fk_ev_init 4 ())) = Some (EV_OK, m)"
    "tm_inv m" "iv = 1000 \<Longrightarrow> tm_ordered m" "leaves (timer_heap m) = {5}" "when_of m 5 = fk_util_cal_expire (clock_at 100) iv"
    "exp_tmev m = []"
proof -
  let ?m = "fk_tmev_create 5 (clock_at 100) iv FK_TMEV_CYCLE (fk_ev_init 4 ())"
  have none: "tmevs (fk_ev_init 4 ()) 5 = None"
    by (simp add: fk_ev_init_def)
  note c = create_tmev_spec [OF tm_inv_init none, of "clock_at 100" iv FK_TMEV_CYCLE]
  let ?e = "\<lparr>tm_type = FK_TMEV_CYCLE, tm_stat = TMEV_INIT, interval = iv, tm_when = fk_util_cal_expire (clock_at 100) iv\<rparr>"
  have e: "tmevs ?m 5 = Some ?e" "tstat ?m = [5 \<mapsto> TMEV_INIT]" "exp_tmev ?m = []"
    by (auto simp: fk_tmev_create_def fk_ev_init_def tstat_def)
  from add_tmev_spec [OF c(1) e(1)] obtain rc m where m: "fk_ev_add_tmev 5 ?m = Some (rc, m)" "tm_inv m"
    "exp_tmev m = exp_tmev ?m" "when_of m = when_of ?m"
    and cond: "if tm_stat ?e = TMEV_INIT then rc = EV_OK \<and> tstat m = (tstat ?m)(5 \<mapsto> TMEV_PENDING) \<and> tmev_cnt m = tmev_cnt ?m + 1
      else rc = EV_ERR \<and> m = ?m"
    by blast
  from cond have rc: "rc = EV_OK" "tstat m = [5 \<mapsto> TMEV_PENDING]"
    using e(2) by simp_all
  have "tm_ordered m" if "iv = 1000"
  proof -
    have "tv_ok (fk_util_cal_expire (clock_at 100) iv)"
      using that by (simp add: tv_ok_def tv_norm_def fk_util_cal_expire_def fk_util_tmval_add_def fk_util_millis2tv_def Let_def)
    then show ?thesis
      using add_tmev_ordered [OF c(1) c(2) [OF tm_ordered_init] e(1) _ m(1)] by simp
  qed
  moreover have "leaves (timer_heap m) = {5}"
    by (rule set_eqI) (simp add: tm_invD(2) [OF m(2)] rc(2))
  moreover have "when_of m 5 = fk_util_cal_expire (clock_at 100) iv"
    unfolding m(4) when_of_def e(1) by simp
  moreover have "exp_tmev m = []"
    using m(3) e(3) by simp
  ultimately show thesis
    using that [OF m(1) [unfolded rc(1)] m(2)] by blast
qed

theorem update_pending_exact_witness:
  "\<exists>m m'. fk_ev_add_tmev 5 (fk_tmev_create 5 (clock_at 100) 1000 FK_TMEV_CYCLE (fk_ev_init 4 ())) = Some (EV_OK, m)
     \<and> fk_ev_update_pending_tmev (clock_at 102) m = Some m' \<and> 5 \<in> set (exp_tmev m') \<and> 5 \<notin> leaves (timer_heap m')"
proof -
  obtain m where m: "fk_ev_add_tmev 5 (fk_tmev_create 5 (clock_at 100) 1000 FK_TMEV_CYCLE (fk_ev_init 4 ())) = Some (EV_OK, m)"
    "tm_inv m" "tm_ordered m" "leaves (timer_heap m) = {5}" "when_of m 5 = fk_util_cal_expire (clock_at 100) 1000" "exp_tmev m = []"
    using one_timer [of 1000] by metis
  have "tv_ok (clock_at 102)"
    by (simp add: tv_ok_def tv_norm_def)
  moreover have "tv_micros (when_of m 5) = 101000000" "tv_micros (clock_at 102) = 102000000"
    unfolding m(5) cal_expire_micros by (simp_all add: tv_micros_def)
  ultimately obtain m' where "fk_ev_update_pending_tmev (clock_at 102) m = Some m'" "5 \<in> set (exp_tmev m')" "5 \<notin> leaves (timer_heap m')"
    using update_pending_exact [OF m(2,3), of "clock_at 102"] m(4) by auto
  then show ?thesis
    using m(1) by auto
qed

text \<open>
  C37. Timers come out of the heap in the order of their expiry: when distinct timers are pushed into an empty
  heap in any order and then all popped, each of them is popped once and their points in time ascend.\<close>

theorem timers_sorted:
  assumes "distinct ps" and "\<forall>p \<in> set ps. tv_ok (when_of m p)"
  shows "\<exists>hp xs hp'. pushes (fk_heap_push (fk_tmev_cmp m)) ps (fk_heap_create (\<lambda>_. 0)) = Some hp
    \<and> pops (fk_heap_pop (fk_tmev_cmp m)) (length ps) hp = Some (xs, hp')
    \<and> mset xs = mset ps \<and> sorted (map (\<lambda>p. tv_micros (when_of m p)) xs) \<and> leaves hp' = {}"
proof -
  have "timers_inv (tm_key m) (tm_dom m) (fk_heap_create (\<lambda>_. 0))" "leaves (fk_heap_create (\<lambda>_ :: nat. 0)) = {}"
    using heap_inv_empty [of "\<lambda>_ :: nat. 0" "tm_key m"] by (simp_all add: timers_inv_def)
  moreover have "set ps \<subseteq> tm_dom m"
    using assms(2) by (auto simp: tm_dom_def)
  ultimately show ?thesis
    using tmo.heapq.push_pop_sorted [of m "fk_heap_create (\<lambda>_. 0)" ps] assms(1) by (simp add: tm_key_def [abs_def])
qed

text \<open>A manager that has timers at the given seconds; a timer's pointer is its second.\<close>

definition timers_at :: "nat set \<Rightarrow> unit evmgr" where
  "timers_at P = (fk_ev_init 0 ())\<lparr>tmevs := (\<lambda>p. if p \<in> P
     then Some \<lparr>tm_type = FK_TMEV_ONCE, tm_stat = TMEV_INIT, interval = 0, tm_when = clock_at (int p)\<rparr> else None)\<rparr>"

theorem timers_sorted_witness:
  "\<exists>hp xs hp'. pushes (fk_heap_push (fk_tmev_cmp (timers_at {1, 2, 3}))) [3, 1, 2] (fk_heap_create (\<lambda>_. 0)) = Some hp
     \<and> pops (fk_heap_pop (fk_tmev_cmp (timers_at {1, 2, 3}))) 3 hp = Some (xs, hp') \<and> mset xs = mset [3, 1, 2]
     \<and> sorted (map (\<lambda>p. tv_micros (when_of (timers_at {1, 2, 3}) p)) xs)"
  using timers_sorted [of "[3, 1, 2]" "timers_at {1, 2, 3}"]
  by (auto simp: timers_at_def when_of_def tv_ok_def tv_norm_def numeral_3_eq_3)

fun add_timers :: "nat list \<Rightarrow> 'm evmgr \<Rightarrow> 'm evmgr option" where
  "add_timers [] m = Some m"
| "add_timers (p # ps) m = do { (_, m1) \<leftarrow> fk_ev_add_tmev p m; add_timers ps m1 }"


subsection \<open>How long to wait\<close>

text \<open>\<^verbatim>\<open>ms_timeout\<close> of the dispatch functions of \<^verbatim>\<open>epoll\<close> and \<^verbatim>\<open>poll\<close>.\<close>

definition ms_timeout :: "timeval option \<Rightarrow> int" where
  "ms_timeout pto = (case pto of None \<Rightarrow> -1 | Some t \<Rightarrow> s32 (fk_util_tv2millis t))"

text \<open>The event loop does not sleep past a timer: without a timer it waits without an end, otherwise the time
  it passes to the kernel is not negative and, when the first timer is at most 24 days away, not
  longer than the time until the root of the heap expires (to the millisecond below), and it is zero
  exactly when that is less than a millisecond away.\<close>

theorem wait_bound:
  assumes inv: "tm_inv m" and ok: "\<forall>p \<in> leaves (timer_heap m). tv_ok (when_of m p)" and now: "tv_ok now"
  shows "\<exists>pto. wait_time now m = Some pto
    \<and> (leaves (timer_heap m) = {} \<longrightarrow> pto = None \<and> ms_timeout pto = -1)
    \<and> (\<forall>p. fk_heap_root (timer_heap m) = Some (Some p) \<longrightarrow> tv_micros (when_of m p) - tv_micros now < 2147483648000 \<longrightarrow>
         ms_timeout pto = max 0 ((tv_micros (when_of m p) - tv_micros now) div 1000))"
proof (cases "leaves (timer_heap m) = {}")
  case True
  then show ?thesis
    using root_spec(1) [OF tm_invD(1) [OF inv]] by (auto simp: wait_time_def ms_timeout_def)
next
  case False
  then obtain p where root: "fk_heap_root (timer_heap m) = Some (Some p)" "p \<in> leaves (timer_heap m)"
    using root_spec(2) [OF tm_invD(1) [OF inv]] by blast
  obtain e where e: "tmevs m p = Some e"
    using tm_invD(2) [OF inv, of p] root(2) by (auto simp: tstat_def)
  have w: "when_of m p = tm_when e"
    using e by (simp add: when_of_def)
  define d where "d = fk_util_tmval_sub (tm_when e) now"
  have n: "tv_norm d" "tv_micros d = tv_micros (tm_when e) - tv_micros now"
    using ok root(2) w now by (auto simp: d_def tv_ok_def tmval_sub_norm tmval_sub_micros)
  note ms = tv2millis_micros [OF n(1)]
  define pto where "pto = Some (if fk_util_tv2millis d < 0 then \<lparr>tv_sec = 0, tv_usec = 0\<rparr> else d)"
  have "wait_time now m = Some pto"
    using root(1) e by (simp add: wait_time_def d_def pto_def Let_def)
  moreover have "ms_timeout pto = max 0 (tv_micros d div 1000)" if "tv_micros d < 2147483648000"
  proof (cases "tv_micros d div 1000 < 0")
    case True
    then show ?thesis
      using ms by (simp add: pto_def ms_timeout_def fk_util_tv2millis_def quot_def s32_id)
  next
    case False
    then have "s32 (tv_micros d div 1000) = tv_micros d div 1000"
      using that by (intro s32_id) auto
    then show ?thesis
      using False ms by (simp add: pto_def ms_timeout_def)
  qed
  ultimately show ?thesis
    using False root n(2) w by auto
qed

theorem wait_bound_witness:
  "\<exists>m pto. fk_ev_add_tmev 5 (fk_tmev_create 5 (clock_at 100) 1000 FK_TMEV_CYCLE (fk_ev_init 4 ())) = Some (EV_OK, m)
     \<and> wait_time \<lparr>tv_sec = 100, tv_usec = 750000\<rparr> m = Some pto \<and> ms_timeout pto = 250"
proof -
  obtain m where m: "fk_ev_add_tmev 5 (fk_tmev_create 5 (clock_at 100) 1000 FK_TMEV_CYCLE (fk_ev_init 4 ())) = Some (EV_OK, m)"
    "tm_inv m" "tm_ordered m" "leaves (timer_heap m) = {5}" "when_of m 5 = fk_util_cal_expire (clock_at 100) 1000"
    using one_timer [of 1000] by metis
  let ?now = "\<lparr>tv_sec = 100, tv_usec = 750000\<rparr>"
  have ok: "\<forall>p \<in> leaves (timer_heap m). tv_ok (when_of m p)" "tv_ok ?now"
    using m(3) by (auto simp: tm_ordered_def tm_dom_def tv_ok_def tv_norm_def)
  have root: "fk_heap_root (timer_heap m) = Some (Some 5)"
    using root_spec(2) [OF tm_invD(1) [OF m(2)]] m(4) by auto
  have "tv_micros (when_of m 5) = 101000000" "tv_micros ?now = 100750000"
    unfolding m(5) cal_expire_micros by (simp_all add: tv_micros_def)
  then show ?thesis
    using wait_bound [OF m(2) ok] root m(1) by auto
qed

end
