(* ===== verification/Fk_Ev_Loop.thy ===== *)
theory Fk_Ev_Loop
  imports Fk_Ev
begin

text \<open>
  The io events of the event manager and one round of the event loop. What the manager relies on of a
  multiplexer is a locale; the callbacks may make any calls of the manager, and a round of the loop
  returns, handles every activated event and every expired timer, and keeps the invariant.
\<close>

section \<open>Io events\<close>

subsection \<open>The multiplexer\<close>

text \<open>\<open>watched\<close> is the set of pairs of a file descriptor and a direction that the kernel is asked to watch; a call
  that fails changes nothing. The events of the program have one direction each.\<close>

definition single :: "ev_type \<Rightarrow> bool" where
  "single t \<longleftrightarrow> t = FK_IOEV_READ \<or> t = FK_IOEV_WRITE"

locale mpx_base =
  fixes madd mremove :: "'m mpx_op" and minv :: "nat \<Rightarrow> 'm \<Rightarrow> bool" and watched :: "'m \<Rightarrow> (int \<times> ev_type) set"
  assumes add_new: "minv n x \<Longrightarrow> 0 \<le> fd \<Longrightarrow> fd < int n \<Longrightarrow> single t \<Longrightarrow> (fd, t) \<notin> watched x \<Longrightarrow>
      \<exists>rc x'. madd x fd t = Some (rc, x') \<and> minv n x' \<and> watched x' = (if rc = EV_OK then insert (fd, t) (watched x) else watched x)"
    and remove_old: "minv n x \<Longrightarrow> single t \<Longrightarrow> (fd, t) \<in> watched x \<Longrightarrow>
      \<exists>rc x'. mremove x fd t = Some (rc, x') \<and> minv n x' \<and> watched x' = (if rc = EV_OK then watched x - {(fd, t)} else watched x)"

text \<open>A multiplexer that also refuses a pair that it watches already, so that no client can take the place of another.\<close>

locale multiplexer = mpx_base +
  assumes add_old: "minv n x \<Longrightarrow> single t \<Longrightarrow> (fd, t) \<in> watched x \<Longrightarrow> madd x fd t = Some (EV_ERR, x)"

subsection \<open>The invariant of the io events\<close>

definition istat :: "'m evmgr \<Rightarrow> nat \<Rightarrow> ioev_stat option" where
  "istat m p = map_option io_stat (ioevs m p)"

definition registered :: "'m evmgr \<Rightarrow> nat set" where
  "registered m = {p. istat m p = Some IOEV_PENDING \<or> istat m p = Some IOEV_ACTIVATED}"

text \<open>The array for a direction.\<close>

definition ev_tab :: "ev_type \<Rightarrow> 'm evmgr \<Rightarrow> nat option option list" where
  "ev_tab t m = (if t = FK_IOEV_READ then read_ev m else write_ev m)"

text \<open>An event is registered exactly when the entry of its file descriptor and direction points to it, which is
  exactly when the kernel watches them; the list holds the activated events.\<close>

definition io_inv :: "(nat \<Rightarrow> 'm \<Rightarrow> bool) \<Rightarrow> ('m \<Rightarrow> (int \<times> ev_type) set) \<Rightarrow> 'm evmgr \<Rightarrow> bool" where
  "io_inv minv watched m \<longleftrightarrow> minv (max_files m) (iompx m) \<and> length (read_ev m) = max_files m \<and> length (write_ev m) = max_files m
     \<and> (\<forall>p \<in> registered m. \<exists>e. ioevs m p = Some e \<and> single (io_type e) \<and> 0 \<le> io_fd e \<and> io_fd e < int (max_files m)
          \<and> ev_tab (io_type e) m ! nat (io_fd e) = Some (Some p))
     \<and> (\<forall>t i p. single t \<and> i < max_files m \<and> ev_tab t m ! i = Some (Some p) \<longrightarrow>
          (\<exists>e. ioevs m p = Some e \<and> p \<in> registered m \<and> io_fd e = int i \<and> io_type e = t))
     \<and> (\<forall>fd t. (fd, t) \<in> watched (iompx m) \<longleftrightarrow> (\<exists>p e. p \<in> registered m \<and> ioevs m p = Some e \<and> io_fd e = fd \<and> io_type e = t))
     \<and> distinct (act_ioev m) \<and> set (act_ioev m) = {p. istat m p = Some IOEV_ACTIVATED}
     \<and> finite (registered m) \<and> ioev_cnt m = card (registered m)"

lemma io_inv_part: "io_part m' = io_part m \<Longrightarrow> io_inv minv watched m' = io_inv minv watched m"
  by (simp add: io_inv_def io_part_def registered_def istat_def ev_tab_def)

lemma single_bits [simp]:
  "single FK_IOEV_READ" "single FK_IOEV_WRITE"
  "FK_IOEV_READ AND FK_IOEV_READ \<noteq> 0" "FK_IOEV_READ AND FK_IOEV_WRITE = 0" "FK_IOEV_WRITE AND FK_IOEV_READ = 0"
  "FK_IOEV_WRITE AND FK_IOEV_WRITE \<noteq> 0" "FK_IOEV_READ \<noteq> FK_IOEV_WRITE" "FK_IOEV_WRITE \<noteq> FK_IOEV_READ"
  "FK_IOEV_READ \<noteq> 0" "FK_IOEV_WRITE \<noteq> 0"
  by (simp_all add: single_def ev_consts)

lemma ev_tab_upd [simp]:
  "ev_tab t (m\<lparr>iompx := x\<rparr>) = ev_tab t m" "ev_tab t (m\<lparr>ioevs := a\<rparr>) = ev_tab t m" "ev_tab t (m\<lparr>ioev_cnt := n\<rparr>) = ev_tab t m"
  "ev_tab t (m\<lparr>act_ioev := ps\<rparr>) = ev_tab t m"
  by (simp_all add: ev_tab_def)

text \<open>Writing the entry of an event.\<close>

definition set_tab :: "ev_type \<Rightarrow> nat \<Rightarrow> nat option option \<Rightarrow> 'm evmgr \<Rightarrow> 'm evmgr" where
  "set_tab t i v m = m\<lparr>read_ev := (if t = FK_IOEV_READ then (read_ev m)[i := v] else read_ev m),
     write_ev := (if t = FK_IOEV_WRITE then (write_ev m)[i := v] else write_ev m)\<rparr>"

lemma set_tab_fields [simp]:
  "ioevs (set_tab t i v m) = ioevs m" "max_files (set_tab t i v m) = max_files m" "ioev_cnt (set_tab t i v m) = ioev_cnt m"
  "act_ioev (set_tab t i v m) = act_ioev m" "iompx (set_tab t i v m) = iompx m" "length (read_ev (set_tab t i v m)) = length (read_ev m)"
  "length (write_ev (set_tab t i v m)) = length (write_ev m)" "tm_part (set_tab t i v m) = tm_part m"
  by (simp_all add: set_tab_def)

lemma set_tab_entry:
  assumes "single t" and "single u" and "i < max_files m" and "length (read_ev m) = max_files m" and "length (write_ev m) = max_files m"
  shows "ev_tab u (set_tab t i v m) ! j = (if u = t \<and> j = i then v else ev_tab u m ! j)"
  using assms by (auto simp: set_tab_def ev_tab_def single_def nth_list_update)

lemma io_invD:
  assumes "io_inv minv watched m"
  shows "minv (max_files m) (iompx m)" "length (read_ev m) = max_files m" "length (write_ev m) = max_files m"
    "finite (registered m)" "ioev_cnt m = card (registered m)" "distinct (act_ioev m)"
    "p \<in> set (act_ioev m) \<longleftrightarrow> istat m p = Some IOEV_ACTIVATED"
  using assms by (auto simp: io_inv_def)

lemma io_inv_watched:
  assumes "io_inv minv watched m"
  shows "(fd, t) \<in> watched (iompx m) \<longleftrightarrow> (\<exists>p e. p \<in> registered m \<and> ioevs m p = Some e \<and> io_fd e = fd \<and> io_type e = t)"
  using assms by (simp add: io_inv_def)

lemma io_inv_reg:
  assumes "io_inv minv watched m" and "p \<in> registered m"
  obtains e where "ioevs m p = Some e" "single (io_type e)" "0 \<le> io_fd e" "io_fd e < int (max_files m)"
    "ev_tab (io_type e) m ! nat (io_fd e) = Some (Some p)" "(io_fd e, io_type e) \<in> watched (iompx m)"
proof -
  have "\<exists>e. ioevs m p = Some e \<and> single (io_type e) \<and> 0 \<le> io_fd e \<and> io_fd e < int (max_files m)
      \<and> ev_tab (io_type e) m ! nat (io_fd e) = Some (Some p)"
    using assms by (simp add: io_inv_def)
  then show thesis
    using that io_inv_watched [OF assms(1)] assms(2) by blast
qed

lemma io_inv_entry:
  assumes "io_inv minv watched m" and "single t" and "i < max_files m" and "ev_tab t m ! i = Some (Some p)"
  obtains e where "ioevs m p = Some e" "p \<in> registered m" "io_fd e = int i" "io_type e = t"
proof -
  have "\<exists>e. ioevs m p = Some e \<and> p \<in> registered m \<and> io_fd e = int i \<and> io_type e = t"
    using assms by (simp add: io_inv_def)
  then show thesis
    using that by blast
qed

text \<open>Registering an event.\<close>

text \<open>One event is registered or taken back: its entry, its state and what is watched change together.\<close>

lemma io_inv_move:
  assumes inv: "io_inv minv watched m" and e: "ioevs m p = Some e" "single (io_type e)" "0 \<le> io_fd e" "io_fd e < int (max_files m)"
    and other: "\<And>q f. q \<in> registered m \<Longrightarrow> ioevs m q = Some f \<Longrightarrow> q \<noteq> p \<Longrightarrow> (io_fd f, io_type f) \<noteq> (io_fd e, io_type e)"
    and evs: "ioevs m' = (ioevs m)(p \<mapsto> e\<lparr>io_stat := st\<rparr>)"
    and sizes: "max_files m' = max_files m" "length (read_ev m') = max_files m" "length (write_ev m') = max_files m"
    and tab: "\<And>u j. single u \<Longrightarrow> ev_tab u m' ! j =
      (if u = io_type e \<and> j = nat (io_fd e) then Some (if st = IOEV_INIT then None else Some p) else ev_tab u m ! j)"
    and mpx: "minv (max_files m) (iompx m')"
      "\<And>fd t. (fd, t) \<in> watched (iompx m') \<longleftrightarrow> (if (fd, t) = (io_fd e, io_type e) then st \<noteq> IOEV_INIT else (fd, t) \<in> watched (iompx m))"
    and act: "distinct (act_ioev m')" "set (act_ioev m') = {q. istat m' q = Some IOEV_ACTIVATED}"
    and cnt: "finite (registered m')" "ioev_cnt m' = card (registered m')"
  shows "io_inv minv watched m'"
proof -
  have reg: "q \<in> registered m' \<longleftrightarrow> (if q = p then st \<noteq> IOEV_INIT else q \<in> registered m)" for q
    by (cases st) (auto simp: registered_def istat_def evs)
  have entry: "\<exists>f. ioevs m' q = Some f \<and> single (io_type f) \<and> 0 \<le> io_fd f \<and> io_fd f < int (max_files m')
      \<and> ev_tab (io_type f) m' ! nat (io_fd f) = Some (Some q)" if q: "q \<in> registered m'" for q
  proof (cases "q = p")
    case True
    then show ?thesis
      using q e tab [OF e(2)] by (simp add: evs sizes reg)
  next
    case False
    then have "q \<in> registered m"
      using q reg by simp
    then obtain f where f: "ioevs m q = Some f" "single (io_type f)" "0 \<le> io_fd f" "io_fd f < int (max_files m)"
      "ev_tab (io_type f) m ! nat (io_fd f) = Some (Some q)"
      using io_inv_reg [OF inv] by metis
    then have "\<not> (io_type f = io_type e \<and> nat (io_fd f) = nat (io_fd e))"
      using other [OF \<open>q \<in> registered m\<close> f(1) False] e(3) by (auto simp: nat_eq_iff)
    then show ?thesis
      using f False tab [OF f(2)] by (simp add: evs sizes)
  qed
  have entries: "\<exists>f. ioevs m' q = Some f \<and> q \<in> registered m' \<and> io_fd f = int i \<and> io_type f = t"
    if a: "single t" "i < max_files m" "ev_tab t m' ! i = Some (Some q)" for t i q
  proof (cases "t = io_type e \<and> i = nat (io_fd e)")
    case True
    then have "q = p" "st \<noteq> IOEV_INIT"
      using a tab [of t i] by (auto split: if_splits)
    then show ?thesis
      using True e(3) reg [of p] by (simp add: evs)
  next
    case False
    then have "ev_tab t m ! i = Some (Some q)"
      using a tab [of t i] unfolding if_not_P [OF False] by simp
    then obtain f where f: "ioevs m q = Some f" "q \<in> registered m" "io_fd f = int i" "io_type f = t"
      using io_inv_entry [OF inv] a(1,2) by metis
    then have "q \<noteq> p"
      using e(1) False by auto
    then show ?thesis
      using f reg by (simp add: evs)
  qed
  have "(fd, t) \<in> watched (iompx m') \<longleftrightarrow> (\<exists>q f. q \<in> registered m' \<and> ioevs m' q = Some f \<and> io_fd f = fd \<and> io_type f = t)" for fd t
  proof (cases "(fd, t) = (io_fd e, io_type e)")
    case True
    then have "(\<exists>q f. q \<in> registered m' \<and> ioevs m' q = Some f \<and> io_fd f = fd \<and> io_type f = t) \<longleftrightarrow> st \<noteq> IOEV_INIT"
      using other unfolding reg evs by (auto split: if_splits)
    then show ?thesis
      using mpx(2) True by simp
  next
    case False
    then have "q \<in> registered m' \<and> ioevs m' q = Some f \<and> io_fd f = fd \<and> io_type f = t
        \<longleftrightarrow> q \<in> registered m \<and> ioevs m q = Some f \<and> io_fd f = fd \<and> io_type f = t" for q f
      using e(1) unfolding reg evs by auto
    then show ?thesis
      using mpx(2) [of fd t] io_inv_watched [OF inv, of fd t] unfolding if_not_P [OF False] by simp
  qed
  with entry entries show ?thesis
    unfolding io_inv_def using sizes mpx(1) act cnt by simp
qed

lemma io_inv_register:
  assumes inv: "io_inv minv watched m" and e: "ioevs m p = Some e" "io_stat e = IOEV_INIT" "single (io_type e)"
      "0 \<le> io_fd e" "io_fd e < int (max_files m)" and new: "(io_fd e, io_type e) \<notin> watched (iompx m)"
    and x: "minv (max_files m) x" "watched x = insert (io_fd e, io_type e) (watched (iompx m))"
    and m': "m' = (set_tab (io_type e) (nat (io_fd e)) (Some (Some p)) (m\<lparr>iompx := x\<rparr>))\<lparr>
      ioevs := (ioevs m)(p \<mapsto> e\<lparr>io_stat := IOEV_PENDING\<rparr>), ioev_cnt := ioev_cnt m + 1\<rparr>"
  shows "io_inv minv watched m'" and "istat m' = (istat m)(p \<mapsto> IOEV_PENDING)"
proof -
  note D = io_invD [OF inv]
  show ist: "istat m' = (istat m)(p \<mapsto> IOEV_PENDING)"
    by (auto simp: m' istat_def)
  have pn: "p \<notin> registered m"
    using e(1,2) by (simp add: registered_def istat_def)
  have reg: "registered m' = insert p (registered m)"
    by (auto simp: registered_def ist)
  have ni: "nat (io_fd e) < max_files m"
    using e(4,5) by linarith
  have ev': "act_ioev m' = act_ioev m" "iompx m' = x" "ioev_cnt m' = ioev_cnt m + 1"
    by (simp_all add: m')
  show "io_inv minv watched m'"
  proof (rule io_inv_move [OF inv e(1,3-5), where st = IOEV_PENDING])
    show "(io_fd f, io_type f) \<noteq> (io_fd e, io_type e)" if "q \<in> registered m" "ioevs m q = Some f" for q f
      using io_inv_reg [OF inv that(1)] that(2) new by (metis option.inject)
    show "ev_tab u m' ! j = (if u = io_type e \<and> j = nat (io_fd e) then Some (if IOEV_PENDING = IOEV_INIT then None else Some p) else ev_tab u m ! j)"
      if "single u" for u j
      using set_tab_entry [of "io_type e" u "nat (io_fd e)" "m\<lparr>iompx := x\<rparr>" "Some (Some p)" j] e(3) that ni D(2,3) by (simp add: m')
    show "set (act_ioev m') = {q. istat m' q = Some IOEV_ACTIVATED}"
      using D(7) e(1,2) by (auto simp: ist ev'(1)) (simp add: istat_def)
    show "(fd, t) \<in> watched (iompx m') \<longleftrightarrow> (if (fd, t) = (io_fd e, io_type e) then IOEV_PENDING \<noteq> IOEV_INIT else (fd, t) \<in> watched (iompx m))" for fd t
      using x(2) by (auto simp: ev'(2))
    show "finite (registered m')" "ioev_cnt m' = card (registered m')"
      using D(4,5) pn by (simp_all add: reg ev'(3))
    show "distinct (act_ioev m')" "minv (max_files m) (iompx m')"
      using D(6) x(1) by (simp_all add: ev')
    show "length (read_ev m') = max_files m" "length (write_ev m') = max_files m"
      using D(2,3) by (simp_all add: m')
  qed (simp_all add: m')
qed

text \<open>Taking an event back.\<close>

lemma io_inv_unregister:
  assumes inv: "io_inv minv watched m" and e: "ioevs m p = Some e" "p \<in> registered m"
    and x: "minv (max_files m) x" "watched x = watched (iompx m) - {(io_fd e, io_type e)}"
    and m': "m' = (set_tab (io_type e) (nat (io_fd e)) (Some None) (m\<lparr>iompx := x, act_ioev := remove1 p (act_ioev m),
      ioevs := (ioevs m)(p \<mapsto> e\<lparr>io_stat := IOEV_INIT\<rparr>)\<rparr>))\<lparr>ioev_cnt := ioev_cnt m - 1\<rparr>"
  shows "io_inv minv watched m'" and "istat m' = (istat m)(p \<mapsto> IOEV_INIT)"
proof -
  note D = io_invD [OF inv]
  have r: "single (io_type e)" "0 \<le> io_fd e" "io_fd e < int (max_files m)" "ev_tab (io_type e) m ! nat (io_fd e) = Some (Some p)"
    using io_inv_reg [OF inv e(2)] e(1) by (metis option.inject)+
  have ni: "nat (io_fd e) < max_files m"
    using r(2,3) by linarith
  show ist: "istat m' = (istat m)(p \<mapsto> IOEV_INIT)"
    by (auto simp: m' istat_def)
  have reg: "registered m' = registered m - {p}"
    by (auto simp: registered_def ist)
  have ev': "act_ioev m' = remove1 p (act_ioev m)" "iompx m' = x" "ioev_cnt m' = ioev_cnt m - 1"
    by (simp_all add: m')
  show "io_inv minv watched m'"
  proof (rule io_inv_move [OF inv e(1) r(1-3), where st = IOEV_INIT])
    show "(io_fd f, io_type f) \<noteq> (io_fd e, io_type e)" if "q \<in> registered m" "ioevs m q = Some f" "q \<noteq> p" for q f
      using io_inv_reg [OF inv that(1)] that(2,3) r(4) by (metis option.inject prod.inject)
    show "ev_tab u m' ! j = (if u = io_type e \<and> j = nat (io_fd e) then Some (if IOEV_INIT = IOEV_INIT then None else Some p) else ev_tab u m ! j)"
      if "single u" for u j
      using set_tab_entry [of "io_type e" u "nat (io_fd e)" "m\<lparr>iompx := x, act_ioev := remove1 p (act_ioev m),
        ioevs := (ioevs m)(p \<mapsto> e\<lparr>io_stat := IOEV_INIT\<rparr>)\<rparr>" "Some None" j] r(1) that ni D(2,3) by (simp add: m')
    show "set (act_ioev m') = {q. istat m' q = Some IOEV_ACTIVATED}" "distinct (act_ioev m')"
      using D(6,7) by (auto simp: ist ev'(1))
    show "(fd, t) \<in> watched (iompx m') \<longleftrightarrow> (if (fd, t) = (io_fd e, io_type e) then IOEV_INIT \<noteq> IOEV_INIT else (fd, t) \<in> watched (iompx m))" for fd t
      using x(2) by (auto simp: ev'(2))
    show "finite (registered m')" "ioev_cnt m' = card (registered m')"
      using D(4,5) e(2) by (simp_all add: reg ev'(3))
    show "minv (max_files m) (iompx m')"
      using x(1) by (simp add: ev')
    show "length (read_ev m') = max_files m" "length (write_ev m') = max_files m"
      using D(2,3) by (simp_all add: m')
  qed (simp_all add: m')
qed

text \<open>Moving an event between the two registered states.\<close>

lemma io_inv_switch:
  assumes inv: "io_inv minv watched m" and e: "ioevs m p = Some e" "p \<in> registered m" and s: "s \<noteq> IOEV_INIT"
    and act: "distinct as" "set as = (if s = IOEV_ACTIVATED then insert p (set (act_ioev m)) else set (act_ioev m) - {p})"
  shows "io_inv minv watched (m\<lparr>ioevs := (ioevs m)(p \<mapsto> e\<lparr>io_stat := s\<rparr>), act_ioev := as\<rparr>)"
    and "istat (m\<lparr>ioevs := (ioevs m)(p \<mapsto> e\<lparr>io_stat := s\<rparr>), act_ioev := as\<rparr>) = (istat m)(p \<mapsto> s)"
proof -
  define m' where "m' = m\<lparr>ioevs := (ioevs m)(p \<mapsto> e\<lparr>io_stat := s\<rparr>), act_ioev := as\<rparr>"
  note D = io_invD [OF inv]
  have ist: "istat m' = (istat m)(p \<mapsto> s)"
    by (auto simp: m'_def istat_def)
  have reg: "registered m' = registered m"
    using e(2) s by (cases s) (auto simp: registered_def ist)
  have ev': "ioevs m' = (ioevs m)(p \<mapsto> e\<lparr>io_stat := s\<rparr>)" "max_files m' = max_files m" "iompx m' = iompx m" "act_ioev m' = as"
    "\<And>u. ev_tab u m' = ev_tab u m"
    by (simp_all add: m'_def)
  have ex: "(\<exists>f. ioevs m' q = Some f \<and> P (io_fd f) (io_type f)) = (\<exists>f. ioevs m q = Some f \<and> P (io_fd f) (io_type f))" for q P
    using e(1) by (auto simp: ev')
  have sets: "set as = {q. istat m' q = Some IOEV_ACTIVATED}"
    using act(2) D(7) s by (auto simp: ist)
  have "io_inv minv watched m'"
    unfolding io_inv_def
  proof (intro conjI ballI allI impI)
    fix q assume "q \<in> registered m'"
    then obtain f where "ioevs m q = Some f" "single (io_type f)" "0 \<le> io_fd f" "io_fd f < int (max_files m)"
      "ev_tab (io_type f) m ! nat (io_fd f) = Some (Some q)"
      using io_inv_reg [OF inv] reg by metis
    then show "\<exists>f. ioevs m' q = Some f \<and> single (io_type f) \<and> 0 \<le> io_fd f \<and> io_fd f < int (max_files m')
        \<and> ev_tab (io_type f) m' ! nat (io_fd f) = Some (Some q)"
      using ex [of q "\<lambda>d t. single t \<and> 0 \<le> d \<and> d < int (max_files m') \<and> ev_tab t m' ! nat d = Some (Some q)"] by (simp add: ev'(2,5))
  next
    fix t i q assume "single t \<and> i < max_files m' \<and> ev_tab t m' ! i = Some (Some q)"
    then obtain f where "ioevs m q = Some f" "q \<in> registered m" "io_fd f = int i" "io_type f = t"
      using io_inv_entry [OF inv] unfolding ev' by metis
    then show "\<exists>f. ioevs m' q = Some f \<and> q \<in> registered m' \<and> io_fd f = int i \<and> io_type f = t"
      using ex [of q "\<lambda>d u. q \<in> registered m' \<and> d = int i \<and> u = t"] reg by simp
  next
    fix fd t
    show "(fd, t) \<in> watched (iompx m') \<longleftrightarrow> (\<exists>q f. q \<in> registered m' \<and> ioevs m' q = Some f \<and> io_fd f = fd \<and> io_type f = t)"
      using io_inv_watched [OF inv, of fd t] ex [of _ "\<lambda>d u. d = fd \<and> u = t"] reg unfolding ev'(3) by blast
  qed (use D reg act(1) sets in \<open>simp_all add: m'_def\<close>)
  then show "io_inv minv watched (m\<lparr>ioevs := (ioevs m)(p \<mapsto> e\<lparr>io_stat := s\<rparr>), act_ioev := as\<rparr>)"
    "istat (m\<lparr>ioevs := (ioevs m)(p \<mapsto> e\<lparr>io_stat := s\<rparr>), act_ioev := as\<rparr>) = (istat m)(p \<mapsto> s)"
    using ist by (simp_all add: m'_def)
qed

text \<open>An event that is not registered.\<close>

lemma io_inv_outside:
  assumes inv: "io_inv minv watched m" and p: "p \<notin> registered m" and v: "\<And>e. v = Some e \<Longrightarrow> io_stat e = IOEV_INIT"
  shows "io_inv minv watched (m\<lparr>ioevs := (ioevs m)(p := v)\<rparr>)"
proof -
  define m' where "m' = m\<lparr>ioevs := (ioevs m)(p := v)\<rparr>"
  note D = io_invD [OF inv]
  have ist: "istat m' q = (if q = p then map_option io_stat v else istat m q)" for q
    by (simp add: m'_def istat_def)
  have vi: "map_option io_stat v \<noteq> Some IOEV_PENDING" "map_option io_stat v \<noteq> Some IOEV_ACTIVATED"
    using v by (cases v; simp)+
  then have reg: "registered m' = registered m"
    using p by (auto simp: registered_def ist)
  have ev': "ioevs m' q = ioevs m q" if "q \<in> registered m" for q
    using p that by (auto simp: m'_def)
  have eqs: "max_files m' = max_files m" "iompx m' = iompx m" "act_ioev m' = act_ioev m" "\<And>u. ev_tab u m' = ev_tab u m"
    by (simp_all add: m'_def)
  have acts: "set (act_ioev m') = {q. istat m' q = Some IOEV_ACTIVATED}"
    using D(7) p vi by (auto simp: ist eqs registered_def)
  have "io_inv minv watched m'"
    unfolding io_inv_def
  proof (intro conjI ballI allI impI)
    fix q assume q: "q \<in> registered m'"
    then obtain f where "ioevs m q = Some f" "single (io_type f)" "0 \<le> io_fd f" "io_fd f < int (max_files m)"
      "ev_tab (io_type f) m ! nat (io_fd f) = Some (Some q)"
      using io_inv_reg [OF inv] reg by metis
    then show "\<exists>f. ioevs m' q = Some f \<and> single (io_type f) \<and> 0 \<le> io_fd f \<and> io_fd f < int (max_files m')
        \<and> ev_tab (io_type f) m' ! nat (io_fd f) = Some (Some q)"
      using q reg ev' by (simp add: eqs)
  next
    fix t i q assume "single t \<and> i < max_files m' \<and> ev_tab t m' ! i = Some (Some q)"
    then obtain f where "ioevs m q = Some f" "q \<in> registered m" "io_fd f = int i" "io_type f = t"
      using io_inv_entry [OF inv] unfolding eqs by metis
    then show "\<exists>f. ioevs m' q = Some f \<and> q \<in> registered m' \<and> io_fd f = int i \<and> io_type f = t"
      using reg ev' by simp
  next
    fix fd t
    show "(fd, t) \<in> watched (iompx m') \<longleftrightarrow> (\<exists>q f. q \<in> registered m' \<and> ioevs m' q = Some f \<and> io_fd f = fd \<and> io_type f = t)"
      using io_inv_watched [OF inv, of fd t] ev' unfolding eqs reg by metis
  qed (use D reg acts in \<open>simp_all add: m'_def\<close>)
  then show ?thesis
    by (simp add: m'_def)
qed

lemma io_inv_iompx:
  assumes "io_inv minv watched m" and "minv (max_files m) x" and "watched x = watched (iompx m)"
  shows "io_inv minv watched (m\<lparr>iompx := x\<rparr>)" and "istat (m\<lparr>iompx := x\<rparr>) = istat m"
proof -
  have i: "istat (m\<lparr>iompx := x\<rparr>) = istat m"
    by (simp add: istat_def fun_eq_iff)
  then have "registered (m\<lparr>iompx := x\<rparr>) = registered m"
    by (simp add: registered_def)
  then show "io_inv minv watched (m\<lparr>iompx := x\<rparr>)" "istat (m\<lparr>iompx := x\<rparr>) = istat m"
    using assms i by (simp_all add: io_inv_def)
qed

lemma istat_cases:
  assumes "ioevs m p = Some e"
  shows "p \<in> registered m \<longleftrightarrow> io_stat e \<noteq> IOEV_INIT" "istat m p = Some (io_stat e)"
  using assms by (cases "io_stat e"; simp add: registered_def istat_def)+

context mpx_base
begin

abbreviation inv :: "'m evmgr \<Rightarrow> bool" where
  "inv \<equiv> io_inv minv watched"

lemma add_ioev_new:
  assumes inv: "inv m" and e: "ioevs m p = Some e" "single (io_type e)" "0 \<le> io_fd e" "io_fd e < int (max_files m)"
    and new: "io_stat e = IOEV_INIT" "(io_fd e, io_type e) \<notin> watched (iompx m)"
  shows "\<exists>rc m'. fk_ev_add_ioev madd p m = Some (rc, m') \<and> inv m' \<and> tm_part m' = tm_part m \<and> act_ioev m' = act_ioev m
    \<and> istat m' = (if rc = EV_OK then (istat m)(p \<mapsto> IOEV_PENDING) else istat m)"
proof -
  note D = io_invD [OF inv]
  obtain rc x where x: "madd (iompx m) (io_fd e) (io_type e) = Some (rc, x)" "minv (max_files m) x"
    "watched x = (if rc = EV_OK then insert (io_fd e, io_type e) (watched (iompx m)) else watched (iompx m))"
    using add_new [OF D(1) e(3,4,2) new(2)] by blast
  show ?thesis
  proof (cases rc)
    case EV_ERR
    then have "fk_ev_add_ioev madd p m = Some (EV_ERR, m\<lparr>iompx := x\<rparr>)"
      using e(1) new x(1) by (simp add: fk_ev_add_ioev_def)
    moreover have "watched x = watched (iompx m)"
      using x(3) EV_ERR by simp
    ultimately show ?thesis
      using io_inv_iompx [OF inv x(2)] by simp
  next
    case EV_OK
    define m' where "m' = (set_tab (io_type e) (nat (io_fd e)) (Some (Some p)) (m\<lparr>iompx := x\<rparr>))\<lparr>
      ioevs := (ioevs m)(p \<mapsto> e\<lparr>io_stat := IOEV_PENDING\<rparr>), ioev_cnt := ioev_cnt m + 1\<rparr>"
    have "watched x = insert (io_fd e, io_type e) (watched (iompx m))"
      using x(3) EV_OK by simp
    from io_inv_register [OF inv e(1) _ e(2,3,4) _ x(2) this m'_def] new
    have "inv m'" "istat m' = (istat m)(p \<mapsto> IOEV_PENDING)"
      by simp_all
    moreover have "tab_set (read_ev m) (io_fd e) v = Some ((read_ev m)[nat (io_fd e) := v])"
      "tab_set (write_ev m) (io_fd e) v = Some ((write_ev m)[nat (io_fd e) := v])" for v
      using e(3,4) D(2,3) by (simp_all add: tab_set_def nat_less_iff)
    then have "fk_ev_add_ioev madd p m = Some (EV_OK, m')"
      using e(1,2) x(1) new EV_OK
      by (cases "io_type e = FK_IOEV_READ") (simp_all add: fk_ev_add_ioev_def upd_ioev_def single_def m'_def set_tab_def Let_def)
    moreover have "tm_part m' = tm_part m" "act_ioev m' = act_ioev m"
      by (simp_all add: m'_def)
    ultimately show ?thesis
      by (intro exI [of _ EV_OK] exI [of _ m']) simp
  qed
qed

lemma remove_ioev_spec:
  assumes inv: "inv m" and e: "ioevs m p = Some e"
  shows "\<exists>rc m'. fk_ev_remove_ioev mremove p m = Some (rc, m') \<and> inv m' \<and> tm_part m' = tm_part m
    \<and> (if rc = EV_OK then io_stat e \<noteq> IOEV_INIT \<and> istat m' = (istat m)(p \<mapsto> IOEV_INIT) \<and> act_ioev m' = remove1 p (act_ioev m)
        else istat m' = istat m \<and> act_ioev m' = act_ioev m)"
proof (cases "io_stat e = IOEV_INIT")
  case True
  then have "fk_ev_remove_ioev mremove p m = Some (EV_ERR, m)"
    using e by (simp add: fk_ev_remove_ioev_def)
  then show ?thesis
    using inv by simp
next
  case False
  note D = io_invD [OF inv]
  have reg: "p \<in> registered m"
    using istat_cases(1) [OF e] False by simp
  then have r: "single (io_type e)" "0 \<le> io_fd e" "io_fd e < int (max_files m)" "(io_fd e, io_type e) \<in> watched (iompx m)"
    using io_inv_reg [OF inv reg] e by (metis option.inject)+
  obtain rc x where x: "mremove (iompx m) (io_fd e) (io_type e) = Some (rc, x)" "minv (max_files m) x"
    "watched x = (if rc = EV_OK then watched (iompx m) - {(io_fd e, io_type e)} else watched (iompx m))"
    using remove_old [OF D(1) r(1,4)] by blast
  show ?thesis
  proof (cases rc)
    case EV_ERR
    then have "fk_ev_remove_ioev mremove p m = Some (EV_ERR, m\<lparr>iompx := x\<rparr>)"
      using e(1) False x(1) by (simp add: fk_ev_remove_ioev_def)
    moreover have "watched x = watched (iompx m)"
      using x(3) EV_ERR by simp
    ultimately show ?thesis
      using io_inv_iompx [OF inv x(2)] by simp
  next
    case EV_OK
    define m' where "m' = (set_tab (io_type e) (nat (io_fd e)) (Some None) (m\<lparr>iompx := x, act_ioev := remove1 p (act_ioev m),
      ioevs := (ioevs m)(p \<mapsto> e\<lparr>io_stat := IOEV_INIT\<rparr>)\<rparr>))\<lparr>ioev_cnt := ioev_cnt m - 1\<rparr>"
    have "watched x = watched (iompx m) - {(io_fd e, io_type e)}"
      using x(3) EV_OK by simp
    note u = io_inv_unregister [OF inv e reg x(2) this m'_def]
    have act: "(if io_stat e = IOEV_ACTIVATED then rawlist_remove p (act_ioev m) else Some (act_ioev m)) = Some (remove1 p (act_ioev m))"
      using D(7) [of p] istat_cases(2) [OF e] by (auto simp: rawlist_remove_def remove1_idem)
    have ts: "tab_set (read_ev m) (io_fd e) v = Some ((read_ev m)[nat (io_fd e) := v])"
      "tab_set (write_ev m) (io_fd e) v = Some ((write_ev m)[nat (io_fd e) := v])" for v
      using r(2,3) D(2,3) by (simp_all add: tab_set_def nat_less_iff)
    have "fk_ev_remove_ioev mremove p m = Some (EV_OK, m')"
      using r(1) e x(1) False EV_OK act
      by (cases "io_stat e = IOEV_ACTIVATED"; cases "io_type e = FK_IOEV_READ")
        (simp_all add: fk_ev_remove_ioev_def upd_ioev_def ts single_def m'_def set_tab_def Let_def)
    then show ?thesis
      using u False by (simp add: m'_def)
  qed
qed

end

context multiplexer
begin

lemma add_ioev_spec:
  assumes inv: "inv m" and e: "ioevs m p = Some e" "single (io_type e)" "0 \<le> io_fd e" "io_fd e < int (max_files m)"
  shows "\<exists>rc m'. fk_ev_add_ioev madd p m = Some (rc, m') \<and> inv m' \<and> tm_part m' = tm_part m \<and> act_ioev m' = act_ioev m
    \<and> istat m' = (if rc = EV_OK then (istat m)(p \<mapsto> IOEV_PENDING) else istat m)
    \<and> (rc = EV_OK \<longrightarrow> io_stat e = IOEV_INIT \<and> (io_fd e, io_type e) \<notin> watched (iompx m))"
proof (cases "io_stat e = IOEV_INIT \<and> (io_fd e, io_type e) \<notin> watched (iompx m)")
  case False
  have "fk_ev_add_ioev madd p m = Some (EV_ERR, m)"
  proof (cases "io_stat e = IOEV_INIT")
    case True
    then have "madd (iompx m) (io_fd e) (io_type e) = Some (EV_ERR, iompx m)"
      using add_old [OF io_invD(1) [OF inv] e(2)] False by simp
    then show ?thesis
      using e(1) True by (simp add: fk_ev_add_ioev_def)
  qed (use e(1) in \<open>simp add: fk_ev_add_ioev_def\<close>)
  then show ?thesis
    using inv by simp
next
  case True
  then show ?thesis
    using add_ioev_new [OF inv e] by auto
qed

end

section \<open>The calls of the event manager\<close>

definition ev_inv :: "(nat \<Rightarrow> 'm \<Rightarrow> bool) \<Rightarrow> ('m \<Rightarrow> (int \<times> ev_type) set) \<Rightarrow> 'm evmgr \<Rightarrow> bool" where
  "ev_inv minv watched m \<longleftrightarrow> io_inv minv watched m \<and> tm_inv m"

text \<open>What a client may do: create events, register and take back allocated ones, and destroy an event that
  is not registered.\<close>

inductive ev_call :: "'m mpx_op \<Rightarrow> 'm mpx_op \<Rightarrow> 'm evmgr \<Rightarrow> 'm evmgr \<Rightarrow> bool" for madd mremove where
  io_create: "ioevs m p = None \<Longrightarrow> ev_call madd mremove m (fk_ioev_create p fd t m)"
| io_destroy: "ioevs m p = Some e \<Longrightarrow> io_stat e = IOEV_INIT \<Longrightarrow> ev_call madd mremove m (fk_ioev_destroy p m)"
| io_add: "ioevs m p = Some e \<Longrightarrow> single (io_type e) \<Longrightarrow> 0 \<le> io_fd e \<Longrightarrow> io_fd e < int (max_files m) \<Longrightarrow>
    fk_ev_add_ioev madd p m = Some (rc, m') \<Longrightarrow> ev_call madd mremove m m'"
| io_remove: "ioevs m p = Some e \<Longrightarrow> fk_ev_remove_ioev mremove p m = Some (rc, m') \<Longrightarrow> ev_call madd mremove m m'"
| tm_create: "tmevs m p = None \<Longrightarrow> ev_call madd mremove m (fk_tmev_create p now iv t m)"
| tm_destroy: "tmevs m p = Some e \<Longrightarrow> tm_stat e = TMEV_INIT \<Longrightarrow> ev_call madd mremove m (fk_tmev_destroy p m)"
| tm_add: "tmevs m p = Some e \<Longrightarrow> fk_ev_add_tmev p m = Some (rc, m') \<Longrightarrow> ev_call madd mremove m m'"
| tm_remove: "tmevs m p = Some e \<Longrightarrow> fk_ev_remove_tmev p m = Some (rc, m') \<Longrightarrow> ev_call madd mremove m m'"
| stop: "ev_call madd mremove m (fk_ev_stop m)"

abbreviation ev_calls :: "'m mpx_op \<Rightarrow> 'm mpx_op \<Rightarrow> 'm evmgr \<Rightarrow> 'm evmgr \<Rightarrow> bool" where
  "ev_calls madd mremove \<equiv> (ev_call madd mremove)\<^sup>*\<^sup>*"

text \<open>What a call does not add to: the two lists of events that wait for their callbacks.\<close>

definition shrinks :: "'m evmgr \<Rightarrow> 'm evmgr \<Rightarrow> bool" where
  "shrinks m m' \<longleftrightarrow> set (act_ioev m') \<subseteq> set (act_ioev m) \<and> set (exp_tmev m') \<subseteq> set (exp_tmev m)"

lemma part_fields:
  "io_part m' = io_part m \<Longrightarrow> act_ioev m' = act_ioev m" "tm_part m' = tm_part m \<Longrightarrow> exp_tmev m' = exp_tmev m"
  by (simp_all add: io_part_def tm_part_def)

lemma ev_inv_parts:
  assumes "ev_inv minv watched m"
  shows "io_inv minv watched m' \<Longrightarrow> tm_part m' = tm_part m \<Longrightarrow> ev_inv minv watched m'"
    and "tm_inv m' \<Longrightarrow> io_part m' = io_part m \<Longrightarrow> ev_inv minv watched m'"
  using assms io_inv_part [of m' m minv watched] tm_inv_part [of m' m] by (auto simp: ev_inv_def)

lemma ev_inv_create:
  assumes "ev_inv minv watched m" and "ioevs m p = None"
  shows "ev_inv minv watched (fk_ioev_create p fd t m)"
proof -
  have "p \<notin> registered m"
    using assms(2) by (simp add: registered_def istat_def)
  then have "io_inv minv watched (fk_ioev_create p fd t m)"
    unfolding fk_ioev_create_def using assms(1) by (intro io_inv_outside) (auto simp: ev_inv_def)
  then show ?thesis
    using ev_inv_parts(1) [OF assms(1)] by (simp add: fk_ioev_create_def)
qed

lemma tm_inv_destroy:
  assumes inv: "tm_inv m" and e: "tmevs m p = Some e" "tm_stat e = TMEV_INIT"
  shows "tm_inv (fk_tmev_destroy p m)"
proof -
  have ts: "tstat (fk_tmev_destroy p m) q = (if q = p then None else tstat m q)" for q
    by (simp add: fk_tmev_destroy_def tstat_def)
  have "tstat m p = Some TMEV_INIT"
    using e by (simp add: tstat_def)
  then have "{q. tstat (fk_tmev_destroy p m) q = Some s} = {q. tstat m q = Some s}" if "s \<noteq> TMEV_INIT" for s
    using that by (auto simp: ts)
  then show ?thesis
    using inv unfolding tm_inv_def by (simp add: fk_tmev_destroy_def)
qed

context multiplexer
begin

lemma ev_call_inv:
  assumes "ev_call madd mremove m m'" and "ev_inv minv watched m"
  shows "ev_inv minv watched m' \<and> shrinks m m'"
  using assms
proof (induction rule: ev_call.induct)
  case (io_create m p fd t)
  then show ?case
    using ev_inv_create by (simp add: fk_ioev_create_def shrinks_def)
next
  case (io_destroy m p e)
  then have "p \<notin> registered m"
    using istat_cases(1) by metis
  then have "io_inv minv watched (fk_ioev_destroy p m)"
    unfolding fk_ioev_destroy_def using io_destroy.prems by (intro io_inv_outside) (auto simp: ev_inv_def)
  then show ?case
    using ev_inv_parts(1) [OF io_destroy.prems] by (simp add: fk_ioev_destroy_def shrinks_def)
next
  case (io_add m p e rc m')
  have "io_inv minv watched m"
    using io_add.prems by (simp add: ev_inv_def)
  from add_ioev_spec [OF this io_add.hyps(1-4)] io_add.hyps(5)
  have "io_inv minv watched m'" "tm_part m' = tm_part m" "act_ioev m' = act_ioev m"
    by auto
  then show ?case
    using ev_inv_parts(1) [OF io_add.prems] part_fields(2) [of m' m] by (simp add: shrinks_def)
next
  case (io_remove m p e rc m')
  have "io_inv minv watched m"
    using io_remove.prems by (simp add: ev_inv_def)
  from remove_ioev_spec [OF this io_remove.hyps(1)] io_remove.hyps(2)
  have "io_inv minv watched m'" "tm_part m' = tm_part m" "set (act_ioev m') \<subseteq> set (act_ioev m)"
    using set_remove1_subset [of p "act_ioev m"] by (auto split: if_splits)
  then show ?case
    using ev_inv_parts(1) [OF io_remove.prems] part_fields(2) [of m' m] by (simp add: shrinks_def)
next
  case (tm_create m p now iv t)
  then show ?case
    using create_tmev_spec [of m p now iv t] ev_inv_parts(2) [OF tm_create.prems] part_fields(1) [of "fk_tmev_create p now iv t m" m]
    by (simp add: shrinks_def ev_inv_def)
next
  case (tm_destroy m p e)
  then have "tm_inv (fk_tmev_destroy p m)"
    using tm_inv_destroy by (auto simp: ev_inv_def)
  then show ?case
    using ev_inv_parts(2) [OF tm_destroy.prems] by (simp add: fk_tmev_destroy_def shrinks_def)
next
  case (tm_add m p e rc m')
  have "tm_inv m"
    using tm_add.prems by (simp add: ev_inv_def)
  from add_tmev_spec [OF this tm_add.hyps(1)] tm_add.hyps(2)
  have "tm_inv m'" "exp_tmev m' = exp_tmev m" "io_part m' = io_part m"
    by auto
  then show ?case
    using ev_inv_parts(2) [OF tm_add.prems] part_fields(1) [of m' m] by (simp add: shrinks_def)
next
  case (tm_remove m p e rc m')
  have "tm_inv m"
    using tm_remove.prems by (simp add: ev_inv_def)
  from remove_tmev_spec [OF this tm_remove.hyps(1)] tm_remove.hyps(2)
  have "tm_inv m'" "set (exp_tmev m') \<subseteq> set (exp_tmev m)" "io_part m' = io_part m"
    using set_remove1_subset [of p "exp_tmev m"] by auto
  then show ?case
    using ev_inv_parts(2) [OF tm_remove.prems] part_fields(1) [of m' m] by (simp add: shrinks_def)
next
  case (stop m)
  then show ?case
    using io_inv_part [of "fk_ev_stop m" m] tm_inv_part [of "fk_ev_stop m" m] by (simp add: ev_inv_def fk_ev_stop_def shrinks_def)
qed

lemma ev_calls_inv:
  assumes "ev_calls madd mremove m m'" and "ev_inv minv watched m"
  shows "ev_inv minv watched m' \<and> shrinks m m'"
  using assms
proof (induction rule: rtranclp_induct)
  case (step m1 m2)
  then have "ev_inv minv watched m1" "shrinks m m1"
    by blast+
  with ev_call_inv [OF step.hyps(2)] show ?case
    by (auto simp: shrinks_def)
qed (simp add: shrinks_def)

end

section \<open>A round of the event loop\<close>

text \<open>Callbacks that only use the calls of the manager; a timer whose callback returns 0 has not been taken back.\<close>

definition io_cb_ok :: "('m evmgr \<Rightarrow> bool) \<Rightarrow> ('m evmgr \<Rightarrow> 'm evmgr \<Rightarrow> bool) \<Rightarrow> ('m, 'w) io_cbs \<Rightarrow> bool" where
  "io_cb_ok I calls iocb \<longleftrightarrow> (\<forall>p m w. I m \<longrightarrow> (\<exists>m' w'. iocb p (m, w) = Some (m', w') \<and> calls m m'))"

definition tm_cb_ok :: "('m evmgr \<Rightarrow> bool) \<Rightarrow> ('m evmgr \<Rightarrow> 'm evmgr \<Rightarrow> bool) \<Rightarrow> ('m, 'w) tm_cbs \<Rightarrow> bool" where
  "tm_cb_ok I calls tmcb \<longleftrightarrow> (\<forall>p m w. I m \<longrightarrow> tstat m p = Some TMEV_OLD \<longrightarrow>
     (\<exists>rt m' w'. tmcb p (m, w) = Some (rt, m', w') \<and> calls m m' \<and> (rt = 0 \<longrightarrow> tstat m' p = Some TMEV_OLD)))"

context multiplexer
begin

lemma activated_to_pending:
  assumes inv: "ev_inv minv watched m" and act: "act_ioev m = p # ps"
  shows "\<exists>m1. upd_ioev p (io_stat_update (\<lambda>_. IOEV_PENDING)) (m\<lparr>act_ioev := ps\<rparr>) = Some m1 \<and> ev_inv minv watched m1
    \<and> act_ioev m1 = ps \<and> exp_tmev m1 = exp_tmev m"
proof -
  have io: "io_inv minv watched m"
    using inv by (simp add: ev_inv_def)
  obtain e where e: "ioevs m p = Some e" "io_stat e = IOEV_ACTIVATED"
    using io_invD(7) [OF io, of p] act by (auto simp: istat_def)
  let ?m = "m\<lparr>ioevs := (ioevs m)(p \<mapsto> e\<lparr>io_stat := IOEV_PENDING\<rparr>), act_ioev := ps\<rparr>"
  have "io_inv minv watched ?m"
    using io_inv_switch(1) [OF io e(1), of IOEV_PENDING ps] istat_cases(1) [OF e(1)] e(2) act io_invD(6) [OF io] by simp
  then have "ev_inv minv watched ?m"
    using ev_inv_parts(1) [OF inv] by simp
  then show ?thesis
    using e(1) by (intro exI [of _ ?m]) (simp add: upd_ioev_def)
qed

lemma proc_activated_total:
  assumes cb: "io_cb_ok (ev_inv minv watched) (ev_calls madd mremove) iocb" and "ev_inv minv watched m"
  shows "\<exists>m' w'. fk_ev_proc_activated_ioev iocb (m, w) = Some (m', w') \<and> ev_inv minv watched m' \<and> act_ioev m' = []
    \<and> set (exp_tmev m') \<subseteq> set (exp_tmev m)"
  using assms(2)
proof (induction "card (set (act_ioev m))" arbitrary: m w rule: less_induct)
  case less
  show ?case
  proof (cases "act_ioev m")
    case Nil
    then show ?thesis
      using less.prems by (subst fk_ev_proc_activated_ioev.simps) simp
  next
    case (Cons p ps)
    obtain m1 where m1: "upd_ioev p (io_stat_update (\<lambda>_. IOEV_PENDING)) (m\<lparr>act_ioev := ps\<rparr>) = Some m1" "ev_inv minv watched m1"
      "act_ioev m1 = ps" "exp_tmev m1 = exp_tmev m"
      using activated_to_pending [OF less.prems Cons] by blast
    obtain m2 w2 where m2: "iocb p (m1, w) = Some (m2, w2)" "ev_calls madd mremove m1 m2"
      using cb m1(2) unfolding io_cb_ok_def by blast
    then have inv2: "ev_inv minv watched m2" "shrinks m1 m2"
      using ev_calls_inv m1(2) by blast+
    have "distinct (act_ioev m)"
      using less.prems io_invD(6) by (auto simp: ev_inv_def)
    then have "p \<notin> set (act_ioev m2)" "set (act_ioev m2) \<subseteq> set (act_ioev m)"
      using inv2(2) Cons m1(3) by (auto simp: shrinks_def)
    then have "card (set (act_ioev m2)) < card (set (act_ioev m))"
      using Cons by (intro psubset_card_mono) auto
    from less.hyps [OF this inv2(1)] obtain m' w' where "fk_ev_proc_activated_ioev iocb (m2, w2) = Some (m', w')"
      "ev_inv minv watched m'" "act_ioev m' = []" "set (exp_tmev m') \<subseteq> set (exp_tmev m2)"
      by blast
    then show ?thesis
      using Cons m1(1,4) m2(1) inv2(2) by (subst fk_ev_proc_activated_ioev.simps) (auto simp: shrinks_def)
  qed
qed

lemma rearm_if_cycle:
  assumes inv: "ev_inv minv watched m" and old: "rt = 0 \<longrightarrow> tstat m p = Some TMEV_OLD"
  shows "\<exists>m'. (if rt = 0 \<and> t = FK_TMEV_CYCLE then rearm now p iv m else Some m) = Some m'
    \<and> ev_inv minv watched m' \<and> exp_tmev m' = exp_tmev m \<and> act_ioev m' = act_ioev m"
proof (cases "rt = 0 \<and> t = FK_TMEV_CYCLE")
  case True
  have "tm_inv m"
    using inv by (simp add: ev_inv_def)
  from rearm_spec [OF this, of p now iv] True old
  obtain m' where "rearm now p iv m = Some m'" "tm_inv m'" "exp_tmev m' = exp_tmev m" "io_part m' = io_part m"
    by blast
  then show ?thesis
    using True ev_inv_parts(2) [OF inv] part_fields(1) by auto
next
  case False
  then show ?thesis
    using inv by (simp only: if_False) blast
qed

lemma proc_expired_total:
  assumes cb: "tm_cb_ok (ev_inv minv watched) (ev_calls madd mremove) tmcb" and "ev_inv minv watched m" and "act_ioev m = []"
  shows "\<exists>m' w'. fk_ev_proc_expired_tmev nows tmcb (m, w) = Some (m', w') \<and> ev_inv minv watched m' \<and> act_ioev m' = [] \<and> exp_tmev m' = []"
  using assms(2,3)
proof (induction "card (set (exp_tmev m))" arbitrary: m w rule: less_induct)
  case less
  have tm: "tm_inv m"
    using less.prems(1) by (simp add: ev_inv_def)
  show ?case
  proof (cases "exp_tmev m")
    case Nil
    then show ?thesis
      using less.prems by (subst fk_ev_proc_expired_tmev.simps) simp
  next
    case (Cons p ps)
    obtain e m1 where m1: "tmevs m p = Some e"
      "upd_tmev p (tm_stat_update (\<lambda>_. TMEV_OLD)) (m\<lparr>exp_tmev := ps, old_tmev := p # old_tmev m\<rparr>) = Some m1"
      "tm_inv m1" "exp_tmev m1 = ps" "io_part m1 = io_part m" "tstat m1 = (tstat m)(p \<mapsto> TMEV_OLD)"
      using expired_to_old [OF tm Cons] by blast
    have inv1: "ev_inv minv watched m1"
      using ev_inv_parts(2) [OF less.prems(1) m1(3,5)] .
    have "tstat m1 p = Some TMEV_OLD"
      using m1(6) by simp
    with cb inv1 obtain rt m2 w2 where m2: "tmcb p (m1, w) = Some (rt, m2, w2)" "ev_calls madd mremove m1 m2"
      "rt = 0 \<longrightarrow> tstat m2 p = Some TMEV_OLD"
      unfolding tm_cb_ok_def by blast
    then have inv2: "ev_inv minv watched m2" "shrinks m1 m2"
      using ev_calls_inv inv1 by blast+
    obtain m3 where m3: "(if rt = 0 \<and> tm_type e = FK_TMEV_CYCLE then rearm (nows p) p (interval e) m2 else Some m2) = Some m3"
      "ev_inv minv watched m3" "exp_tmev m3 = exp_tmev m2" "act_ioev m3 = act_ioev m2"
      using rearm_if_cycle [OF inv2(1) m2(3)] by blast
    have "act_ioev m1 = []"
      using part_fields(1) [OF m1(5)] less.prems(2) by simp
    then have act: "act_ioev m3 = []"
      using m3(4) inv2(2) by (simp add: shrinks_def)
    have "p \<notin> set (exp_tmev m3)" "set (exp_tmev m3) \<subseteq> set (exp_tmev m)"
      using inv2(2) m1(4) m3(3) Cons tm_invD(4) [OF tm] by (auto simp: shrinks_def)
    then have "card (set (exp_tmev m3)) < card (set (exp_tmev m))"
      using Cons by (intro psubset_card_mono) auto
    from less.hyps [OF this m3(2) act] obtain m' w' where "fk_ev_proc_expired_tmev nows tmcb (m3, w2) = Some (m', w')"
      "ev_inv minv watched m'" "act_ioev m' = []" "exp_tmev m' = []"
      by blast
    then show ?thesis
      using Cons m1(1,2) m2(1) m3(1) by (subst fk_ev_proc_expired_tmev.simps) simp
  qed
qed

lemma dispatch_round:
  assumes inv: "ev_inv minv watched m"
    and wait: "\<And>pto. \<exists>rc m'. wait pto m = Some (rc, m') \<and> ev_inv minv watched m'"
    and cbs: "io_cb_ok (ev_inv minv watched) (ev_calls madd mremove) iocb" "tm_cb_ok (ev_inv minv watched) (ev_calls madd mremove) tmcb"
  shows "\<exists>rc m' w'. fk_ev_dispatch wait now1 now2 nows iocb tmcb (m, w) = Some (rc, m', w') \<and> ev_inv minv watched m'
    \<and> (rc = EV_OK \<longrightarrow> act_ioev m' = [] \<and> exp_tmev m' = [])"
proof -
  have tm: "tm_inv m"
    using inv by (simp add: ev_inv_def)
  have "\<exists>pto. wait_time now1 m = Some pto"
  proof (cases "leaves (timer_heap m) = {}")
    case True
    then show ?thesis
      using root_spec(1) [OF tm_invD(1) [OF tm]] by (simp add: wait_time_def)
  next
    case False
    then obtain p where "fk_heap_root (timer_heap m) = Some (Some p)" "p \<in> leaves (timer_heap m)"
      using root_spec(2) [OF tm_invD(1) [OF tm]] by blast
    then show ?thesis
      using tm_invD(2) [OF tm, of p] by (auto simp: wait_time_def tstat_def Let_def)
  qed
  then obtain pto where pto: "wait_time now1 m = Some pto" by blast
  obtain rc m1 where m1: "wait pto m = Some (rc, m1)" "ev_inv minv watched m1"
    using wait by blast
  show ?thesis
  proof (cases rc)
    case EV_ERR
    then show ?thesis
      using pto m1 by (simp add: fk_ev_dispatch_def)
  next
    case EV_OK
    have "tm_inv m1"
      using m1(2) by (simp add: ev_inv_def)
    from update_pending_spec [OF this, of now2]
    obtain m2 where m2: "fk_ev_update_pending_tmev now2 m1 = Some m2" "tm_inv m2" "io_part m2 = io_part m1"
      by blast
    then have "ev_inv minv watched m2"
      using ev_inv_parts(2) [OF m1(2)] by blast
    from proc_activated_total [OF cbs(1) this, of w] obtain m3 w3 where m3: "fk_ev_proc_activated_ioev iocb (m2, w) = Some (m3, w3)"
      "ev_inv minv watched m3" "act_ioev m3 = []"
      by blast
    from proc_expired_total [OF cbs(2) m3(2,3), of nows w3] obtain m4 w4 where m4: "fk_ev_proc_expired_tmev nows tmcb (m3, w3) = Some (m4, w4)"
      "ev_inv minv watched m4" "act_ioev m4 = []" "exp_tmev m4 = []"
      by blast
    have "fk_ev_dispatch wait now1 now2 nows iocb tmcb (m, w) = Some (EV_OK, m4, w4)"
      using EV_OK pto m1(1) m2(1) m3(1) m4(1) by (simp add: fk_ev_dispatch_def)
    then show ?thesis
      using m4 by simp
  qed
qed

end

section \<open>Activation\<close>

text \<open>What the kernel reports is a list of file descriptors with directions; the entries for them must have been
  written.\<close>

definition report_ok :: "'m evmgr \<Rightarrow> int \<times> ev_type \<Rightarrow> bool" where
  "report_ok m = (\<lambda>(fd, t). 0 \<le> fd \<and> fd < int (max_files m)
     \<and> (t AND FK_IOEV_READ \<noteq> 0 \<longrightarrow> read_ev m ! nat fd \<noteq> None) \<and> (t AND FK_IOEV_WRITE \<noteq> 0 \<longrightarrow> write_ev m ! nat fd \<noteq> None))"

definition reported :: "'m evmgr \<Rightarrow> (int \<times> ev_type) list \<Rightarrow> nat set" where
  "reported m es = {p. p \<in> registered m \<and> (\<exists>e t. ioevs m p = Some e \<and> (io_fd e, t) \<in> set es \<and> io_type e AND t \<noteq> 0)}"

text \<open>The event of one entry.\<close>

definition entry_ev :: "ev_type \<Rightarrow> int \<Rightarrow> 'm evmgr \<Rightarrow> nat set" where
  "entry_ev t fd m = {p. \<exists>e. p \<in> registered m \<and> ioevs m p = Some e \<and> io_fd e = fd \<and> io_type e = t}"

definition same_regs :: "'m evmgr \<Rightarrow> 'm evmgr \<Rightarrow> bool" where
  "same_regs m m' \<longleftrightarrow> registered m' = registered m \<and> max_files m' = max_files m \<and> read_ev m' = read_ev m \<and> write_ev m' = write_ev m
     \<and> tm_part m' = tm_part m \<and> (\<forall>p. map_option (\<lambda>e. (io_fd e, io_type e)) (ioevs m' p) = map_option (\<lambda>e. (io_fd e, io_type e)) (ioevs m p))"

lemma entry_ev_only:
  assumes inv: "io_inv minv watched m" and v: "ev_tab t m ! nat fd = Some v" and q: "q \<in> entry_ev t fd m"
  shows "v = Some q"
proof -
  obtain f where f: "q \<in> registered m" "ioevs m q = Some f" "io_fd f = fd" "io_type f = t"
    using q by (auto simp: entry_ev_def)
  then have "ev_tab t m ! nat fd = Some (Some q)"
    using io_inv_reg [OF inv f(1)] by (metis option.inject)
  then show ?thesis
    using v by simp
qed

lemma activate_pending:
  assumes inv: "io_inv minv watched m" and e: "ioevs m p = Some e" "p \<in> registered m" "io_stat e = IOEV_PENDING"
  defines "m' \<equiv> m\<lparr>ioevs := (ioevs m)(p \<mapsto> e\<lparr>io_stat := IOEV_ACTIVATED\<rparr>), act_ioev := p # act_ioev m\<rparr>"
  shows "activate_one (Some (Some (Some p))) m = Some m'" "io_inv minv watched m'" "same_regs m m'"
proof -
  note D = io_invD [OF inv]
  show "activate_one (Some (Some (Some p))) m = Some m'"
    using e by (simp add: activate_one_def upd_ioev_def m'_def)
  have "p \<notin> set (act_ioev m)"
    using e(3) istat_cases(2) [OF e(1)] D(7) [of p] by simp
  then have sw: "io_inv minv watched m'" "istat m' = (istat m)(p \<mapsto> IOEV_ACTIVATED)"
    using io_inv_switch [OF inv e(1,2), of IOEV_ACTIVATED "p # act_ioev m"] D(6) by (simp_all add: m'_def)
  then show "io_inv minv watched m'"
    by simp
  have "registered m' = registered m"
    using e(2) by (auto simp: registered_def sw(2))
  then show "same_regs m m'"
    using e(1) by (simp add: same_regs_def m'_def)
qed

lemma activate_one_spec:
  assumes inv: "io_inv minv watched m" and t: "single t" and fd: "0 \<le> fd" "fd < int (max_files m)" and init: "ev_tab t m ! nat fd \<noteq> None"
  shows "\<exists>m'. activate_one (tab_get (ev_tab t m) fd) m = Some m' \<and> io_inv minv watched m' \<and> same_regs m m'
    \<and> set (act_ioev m') = set (act_ioev m) \<union> entry_ev t fd m"
proof -
  note D = io_invD [OF inv]
  have i: "nat fd < max_files m" "nat fd < length (ev_tab t m)"
    using fd D(2,3) by (auto simp: ev_tab_def)
  obtain v where v: "ev_tab t m ! nat fd = Some v"
    using init by blast
  have get: "tab_get (ev_tab t m) fd = Some (Some v)"
    using fd i(2) v by (simp add: tab_get_def nth_opt_def)
  note only = entry_ev_only [OF inv v]
  show ?thesis
  proof (cases v)
    case None
    then have "entry_ev t fd m = {}"
      using only by auto
    then show ?thesis
      using get None inv by (simp add: activate_one_def same_regs_def)
  next
    case (Some p)
    obtain e where e: "ioevs m p = Some e" "p \<in> registered m" "io_fd e = int (nat fd)" "io_type e = t"
      using io_inv_entry [OF inv t i(1)] v Some by metis
    then have "p \<in> entry_ev t fd m"
      using fd(1) by (simp add: entry_ev_def)
    moreover have "q = p" if "q \<in> entry_ev t fd m" for q
      using only [OF that] Some by simp
    ultimately have ev: "entry_ev t fd m = {p}"
      by blast
    show ?thesis
    proof (cases "io_stat e = IOEV_PENDING")
      case False
      then have "p \<in> set (act_ioev m)"
        using istat_cases [OF e(1)] e(2) D(7) [of p] False by (cases "io_stat e") simp_all
      then have "set (act_ioev m) \<union> {p} = set (act_ioev m)"
        by auto
      then show ?thesis
        using False get Some e(1) inv unfolding ev by (intro exI [of _ m]) (simp add: activate_one_def same_regs_def)
    next
      case True
      then show ?thesis
        using activate_pending [OF inv e(1,2)] get Some ev
        by (intro exI [of _ "m\<lparr>ioevs := (ioevs m)(p \<mapsto> e\<lparr>io_stat := IOEV_ACTIVATED\<rparr>), act_ioev := p # act_ioev m\<rparr>"]) simp
    qed
  qed
qed

lemma same_regs_eqs:
  assumes "same_regs m m'"
  shows "entry_ev t fd m' = entry_ev t fd m" "ev_tab t m' = ev_tab t m" "reported m' es = reported m es" "report_ok m' r = report_ok m r"
proof -
  have r: "registered m' = registered m" "max_files m' = max_files m" "read_ev m' = read_ev m" "write_ev m' = write_ev m"
    using assms by (simp_all add: same_regs_def)
  have f: "(\<exists>e. ioevs m' p = Some e \<and> Q (io_fd e) (io_type e)) = (\<exists>e. ioevs m p = Some e \<and> Q (io_fd e) (io_type e))" for p Q
  proof -
    have "map_option (\<lambda>e. (io_fd e, io_type e)) (ioevs m' p) = map_option (\<lambda>e. (io_fd e, io_type e)) (ioevs m p)"
      using assms by (simp add: same_regs_def)
    then show ?thesis
      by (cases "ioevs m' p"; cases "ioevs m p") auto
  qed
  show "entry_ev t fd m' = entry_ev t fd m"
    using f [of _ "\<lambda>d u. d = fd \<and> u = t"] by (auto simp: entry_ev_def r)
  show "reported m' es = reported m es"
    using f [of _ "\<lambda>d u. \<exists>t. (d, t) \<in> set es \<and> u AND t \<noteq> 0"] by (auto simp: reported_def r)
  show "ev_tab t m' = ev_tab t m" "report_ok m' r = report_ok m r"
    by (simp_all add: ev_tab_def report_ok_def r split: prod.splits)
qed

lemma activate_spec:
  assumes inv: "io_inv minv watched m" and ok: "report_ok m (fd, t)"
  shows "\<exists>m'. fk_ev_activate_ioev fd t m = Some m' \<and> io_inv minv watched m' \<and> same_regs m m'
    \<and> set (act_ioev m') = set (act_ioev m) \<union> reported m [(fd, t)]"
proof -
  have fd: "0 \<le> fd" "fd < int (max_files m)"
    using ok by (auto simp: report_ok_def)
  have tabs: "ev_tab FK_IOEV_READ m = read_ev m" "\<And>n. ev_tab FK_IOEV_WRITE n = write_ev n"
    by (simp_all add: ev_tab_def)
  have rep: "reported m [(fd, t)] = (if t AND FK_IOEV_READ \<noteq> 0 then entry_ev FK_IOEV_READ fd m else {})
      \<union> (if t AND FK_IOEV_WRITE \<noteq> 0 then entry_ev FK_IOEV_WRITE fd m else {})"
  proof -
    have "single (io_type e)" if "p \<in> registered m" "ioevs m p = Some e" for p e
      using io_inv_reg [OF inv that(1)] that(2) by (metis option.inject)
    then show ?thesis
      unfolding reported_def entry_ev_def single_def by (auto simp: and.commute) (metis and.commute)+
  qed
  obtain m1 where m1: "(if t AND FK_IOEV_READ \<noteq> 0 then activate_one (tab_get (read_ev m) fd) m else Some m) = Some m1"
    "io_inv minv watched m1" "same_regs m m1"
    "set (act_ioev m1) = set (act_ioev m) \<union> (if t AND FK_IOEV_READ \<noteq> 0 then entry_ev FK_IOEV_READ fd m else {})"
  proof (cases "t AND FK_IOEV_READ \<noteq> 0")
    case True
    then show thesis
      using activate_one_spec [OF inv _ fd, of FK_IOEV_READ] ok that by (auto simp: tabs report_ok_def)
  next
    case False
    then show thesis
      using inv that [of m] by (simp add: same_regs_def)
  qed
  have fd1: "fd < int (max_files m1)"
    using fd(2) m1(3) by (simp add: same_regs_def)
  obtain m2 where m2: "(if t AND FK_IOEV_WRITE \<noteq> 0 then activate_one (tab_get (write_ev m1) fd) m1 else Some m1) = Some m2"
    "io_inv minv watched m2" "same_regs m1 m2"
    "set (act_ioev m2) = set (act_ioev m1) \<union> (if t AND FK_IOEV_WRITE \<noteq> 0 then entry_ev FK_IOEV_WRITE fd m1 else {})"
  proof (cases "t AND FK_IOEV_WRITE \<noteq> 0")
    case True
    then have "ev_tab FK_IOEV_WRITE m1 ! nat fd \<noteq> None"
      using ok same_regs_eqs(2) [OF m1(3)] by (simp add: report_ok_def tabs)
    then show thesis
      using activate_one_spec [OF m1(2) _ fd(1) fd1, of FK_IOEV_WRITE] True that by (auto simp: tabs)
  next
    case False
    then show thesis
      using m1(2) that [of m1] by (simp add: same_regs_def)
  qed
  have "same_regs m m2"
    using m1(3) m2(3) by (simp add: same_regs_def)
  then show ?thesis
    using m1(1,4) m2 rep same_regs_eqs(1) [OF m1(3)] by (auto simp: fk_ev_activate_ioev_def)
qed

lemma activate_all_spec:
  assumes "io_inv minv watched m" and "\<forall>r \<in> set es. report_ok m r"
  shows "\<exists>m'. activate_all es m = Some m' \<and> io_inv minv watched m' \<and> same_regs m m'
    \<and> set (act_ioev m') = set (act_ioev m) \<union> reported m es"
  using assms
proof (induction es arbitrary: m)
  case Nil
  then show ?case
    by (auto simp: same_regs_def reported_def)
next
  case (Cons r es)
  obtain fd t where r: "r = (fd, t)" by (cases r)
  obtain m1 where m1: "fk_ev_activate_ioev fd t m = Some m1" "io_inv minv watched m1" "same_regs m m1"
    "set (act_ioev m1) = set (act_ioev m) \<union> reported m [(fd, t)]"
    using activate_spec [of minv watched m fd t] Cons.prems r by auto
  obtain m' where m': "activate_all es m1 = Some m'" "io_inv minv watched m'" "same_regs m1 m'"
    "set (act_ioev m') = set (act_ioev m1) \<union> reported m1 es"
    using Cons.IH [OF m1(2)] Cons.prems(2) same_regs_eqs(4) [OF m1(3)] by auto
  have "reported m (r # es) = reported m [(fd, t)] \<union> reported m es"
    by (auto simp: reported_def r)
  moreover have "same_regs m m'"
    using m1(3) m'(3) by (simp add: same_regs_def)
  ultimately show ?case
    using m1 m' r same_regs_eqs(3) [OF m1(3)] by auto
qed

lemma ev_init_inv:
  assumes "minv n x" and "watched x = {}"
  shows "ev_inv minv watched (fk_ev_init n x)"
proof -
  have "registered (fk_ev_init n x) = {}"
    by (simp add: registered_def istat_def fk_ev_init_def)
  then have "io_inv minv watched (fk_ev_init n x)"
    using assms by (auto simp: io_inv_def ev_tab_def fk_ev_init_def istat_def)
  then show ?thesis
    using tm_inv_init by (simp add: ev_inv_def)
qed

end
