(* ===== verification/Fk_Mpx.thy ===== *)
theory Fk_Mpx
  imports Fk_Ev_Loop
begin

text \<open>
  The multiplexer over epoll, \<^verbatim>\<open>fk_ev_epoll.c\<close>: it fulfils the contract of the event manager, so the event
  loop over it keeps its books and serves every event.
\<close>

section \<open>epoll\<close>

text \<open>The constants of \<^verbatim>\<open>sys/epoll.h\<close>.\<close>

type_synonym events = "32 word"

definition EPOLLIN :: events where
  "EPOLLIN = 0x001"

definition EPOLLOUT :: events where
  "EPOLLOUT = 0x004"

definition EPOLLERR :: events where
  "EPOLLERR = 0x008"

definition EPOLLHUP :: events where
  "EPOLLHUP = 0x010"

lemmas epoll_consts = EPOLLIN_def EPOLLOUT_def EPOLLERR_def EPOLLHUP_def

text \<open>\<open>kern\<close> is the interest list of the epoll instance in the kernel and \<open>ectl_ok\<close> says whether the kernel has
  the resources for a change of it; \<^verbatim>\<open>epoll_ctl\<close> is as documented: the descriptor of an addition must be
  absent, that of the other operations present.\<close>

record fk_epoll =
  emask :: "ev_type list"
  kern :: "int \<Rightarrow> events option"
  ectl_ok :: bool

datatype ctl_op = CTL_ADD | CTL_MOD | CTL_DEL

definition epoll_ctl :: "ctl_op \<Rightarrow> int \<Rightarrow> events \<Rightarrow> fk_epoll \<Rightarrow> (int \<Rightarrow> events option) option" where
  "epoll_ctl op fd ev x =
     (if \<not> ectl_ok x then None
      else case op of
        CTL_ADD \<Rightarrow> if kern x fd = None then Some ((kern x)(fd \<mapsto> ev)) else None
      | CTL_MOD \<Rightarrow> if kern x fd = None then None else Some ((kern x)(fd \<mapsto> ev))
      | CTL_DEL \<Rightarrow> if kern x fd = None then None else Some ((kern x)(fd := None)))"

text \<open>The array \<^verbatim>\<open>emask\<close> of bytes has the size of an array of pointers.\<close>

definition fk_epoll_create :: "nat \<Rightarrow> fk_epoll" where
  "fk_epoll_create n = \<lparr>emask = replicate (8 * n) 0, kern = Map.empty, ectl_ok = True\<rparr>"

definition epoll_evs :: "ev_type \<Rightarrow> events" where
  "epoll_evs t = (if t AND FK_IOEV_READ \<noteq> 0 then EPOLLIN else 0) OR (if t AND FK_IOEV_WRITE \<noteq> 0 then EPOLLOUT else 0)"

definition fk_epoll_add :: "fk_epoll mpx_op" where
  "fk_epoll_add x fd t =
     do { otp \<leftarrow> tab_get (emask x) fd;
          if t AND otp \<noteq> 0 then Some (EV_ERR, x)
          else
            (let oev = epoll_evs otp; nev = epoll_evs t
             in case epoll_ctl (if oev = 0 then CTL_ADD else CTL_MOD) fd (oev OR nev) x of
                  None \<Rightarrow> Some (EV_ERR, x)
                | Some k \<Rightarrow> do { em \<leftarrow> tab_set (emask x) fd (otp OR t); Some (EV_OK, x\<lparr>emask := em, kern := k\<rparr>) }) }"

definition fk_epoll_remove :: "fk_epoll mpx_op" where
  "fk_epoll_remove x fd t =
     do { otp \<leftarrow> tab_get (emask x) fd;
          if t AND otp = 0 then Some (EV_ERR, x)
          else
            (let oev = epoll_evs otp; nev = epoll_evs t
             in case epoll_ctl (if oev = nev then CTL_DEL else CTL_MOD) fd (oev AND NOT nev) x of
                  None \<Rightarrow> Some (EV_ERR, x)
                | Some k \<Rightarrow> do { em \<leftarrow> tab_set (emask x) fd (otp AND NOT t); Some (EV_OK, x\<lparr>emask := em, kern := k\<rparr>) }) }"

text \<open>What \<^verbatim>\<open>epoll_wait\<close> returns, given the time to wait.\<close>

datatype wait_res = Wait_intr | Wait_fail | Wait_ready "(int \<times> events) list"

definition epoll_type :: "events \<Rightarrow> ev_type" where
  "epoll_type ev = (if ev AND (EPOLLIN OR EPOLLHUP OR EPOLLERR) \<noteq> 0 then FK_IOEV_READ else 0)
     OR (if ev AND (EPOLLOUT OR EPOLLHUP OR EPOLLERR) \<noteq> 0 then FK_IOEV_WRITE else 0)"

definition fk_epoll_dispatch :: "(int \<Rightarrow> wait_res) \<Rightarrow> timeval option \<Rightarrow> 'm evmgr \<Rightarrow> (ev_rc \<times> 'm evmgr) option" where
  "fk_epoll_dispatch epoll_wait pto m =
     (case epoll_wait (ms_timeout pto) of
        Wait_fail \<Rightarrow> Some (EV_ERR, m)
      | Wait_intr \<Rightarrow> Some (EV_OK, m)
      | Wait_ready es \<Rightarrow> do { m1 \<leftarrow> activate_all (map (\<lambda>(fd, ev). (fd, epoll_type ev)) es) m; Some (EV_OK, m1) })"

subsection \<open>The contract\<close>

text \<open>The kernel watches what \<^verbatim>\<open>emask\<close> says.\<close>

definition mask_ok :: "ev_type \<Rightarrow> bool" where
  "mask_ok t \<longleftrightarrow> t = 0 \<or> t = 1 \<or> t = 2 \<or> t = 3"

definition epoll_inv :: "nat \<Rightarrow> fk_epoll \<Rightarrow> bool" where
  "epoll_inv n x \<longleftrightarrow> length (emask x) = 8 * n
     \<and> (\<forall>i < 8 * n. mask_ok (emask x ! i) \<and> kern x (int i) = (if emask x ! i = 0 then None else Some (epoll_evs (emask x ! i))))"

definition epoll_watched :: "fk_epoll \<Rightarrow> (int \<times> ev_type) set" where
  "epoll_watched x = {(fd, t). 0 \<le> fd \<and> nat fd < length (emask x) \<and> single t \<and> emask x ! nat fd AND t \<noteq> 0}"

lemma mask_cases:
  assumes "mask_ok o'" and "single t"
  shows "o' AND t = 0 \<Longrightarrow> mask_ok (o' OR t) \<and> o' OR t \<noteq> 0 \<and> epoll_evs (o' OR t) = epoll_evs o' OR epoll_evs t
      \<and> (epoll_evs o' = 0 \<longleftrightarrow> o' = 0)"
    and "o' AND t \<noteq> 0 \<Longrightarrow> mask_ok (o' AND NOT t) \<and> o' \<noteq> 0 \<and> epoll_evs (o' AND NOT t) = epoll_evs o' AND NOT (epoll_evs t)
      \<and> (epoll_evs o' = epoll_evs t \<longleftrightarrow> o' AND NOT t = 0)"
    and "single u \<Longrightarrow> o' AND t = 0 \<Longrightarrow> (o' OR t) AND u \<noteq> 0 \<longleftrightarrow> u = t \<or> o' AND u \<noteq> 0"
    and "single u \<Longrightarrow> o' AND t \<noteq> 0 \<Longrightarrow> (o' AND NOT t) AND u \<noteq> 0 \<longleftrightarrow> u \<noteq> t \<and> o' AND u \<noteq> 0"
  using assms unfolding mask_ok_def single_def ev_consts epoll_evs_def epoll_consts by (elim disjE; simp)+

lemma epoll_inv_upd:
  assumes inv: "epoll_inv n x" and fd: "0 \<le> fd" "nat fd < 8 * n" and v: "mask_ok v"
    and k: "k = (kern x)(fd := (if v = 0 then None else Some (epoll_evs v)))"
  shows "epoll_inv n (x\<lparr>emask := (emask x)[nat fd := v], kern := k\<rparr>)"
proof -
  have ne: "int i \<noteq> fd" if "i \<noteq> nat fd" for i
    using that fd(1) by auto
  show ?thesis
    using inv fd v ne unfolding epoll_inv_def k by (auto simp: nth_list_update)
qed

lemma epoll_watchedD: "epoll_inv n x \<Longrightarrow> (fd, t) \<in> epoll_watched x \<Longrightarrow> 0 \<le> fd \<and> nat fd < 8 * n \<and> single t \<and> emask x ! nat fd AND t \<noteq> 0"
  by (simp add: epoll_watched_def epoll_inv_def)

lemma epoll_watched_mem:
  assumes "0 \<le> fd" and "nat fd < length (emask x)"
  shows "(fd, u) \<in> epoll_watched x \<longleftrightarrow> single u \<and> emask x ! nat fd AND u \<noteq> 0"
  using assms by (simp add: epoll_watched_def)

lemma epoll_watched_upd:
  assumes "0 \<le> fd" and "nat fd < length (emask x)"
  shows "(g, u) \<in> epoll_watched (x\<lparr>emask := (emask x)[nat fd := v], kern := k\<rparr>) \<longleftrightarrow>
    (if g = fd then single u \<and> v AND u \<noteq> 0 else (g, u) \<in> epoll_watched x)"
  using assms by (auto simp: epoll_watched_def nth_list_update)

lemma epoll_at:
  assumes "epoll_inv n x" and "0 \<le> fd" and "nat fd < 8 * n"
  shows "nat fd < length (emask x)" "mask_ok (emask x ! nat fd)"
    "kern x fd = (if emask x ! nat fd = 0 then None else Some (epoll_evs (emask x ! nat fd)))"
  using assms by (auto simp: epoll_inv_def)

text \<open>Both operations with the kernel's consent.\<close>

lemma epoll_add_ok:
  assumes inv: "epoll_inv n x" and fd: "0 \<le> fd" "nat fd < 8 * n" and t: "single t" and free: "emask x ! nat fd AND t = 0"
    and ok: "ectl_ok x"
  shows "\<exists>x'. fk_epoll_add x fd t = Some (EV_OK, x') \<and> epoll_inv n x' \<and> epoll_watched x' = insert (fd, t) (epoll_watched x)"
proof -
  let ?o = "emask x ! nat fd"
  note o = epoll_at [OF inv fd]
  note mc = mask_cases(1) [OF o(2) t free]
  let ?x = "x\<lparr>emask := (emask x)[nat fd := ?o OR t], kern := (kern x)(fd \<mapsto> epoll_evs ?o OR epoll_evs t)\<rparr>"
  have "fk_epoll_add x fd t = Some (EV_OK, ?x)"
    using ok fd(1) o free mc
    by (cases "?o = 0") (simp_all add: fk_epoll_add_def tab_get_def tab_set_def nth_opt_def and.commute epoll_ctl_def Let_def)
  moreover have "epoll_inv n ?x"
    using mc by (intro epoll_inv_upd [OF inv fd]) auto
  moreover have "(g, u) \<in> epoll_watched ?x \<longleftrightarrow> (g, u) \<in> insert (fd, t) (epoll_watched x)" for g u
    unfolding epoll_watched_upd [OF fd(1) o(1)] insert_iff
    using mask_cases(3) [OF o(2) t _ free, of u] epoll_watched_mem [OF fd(1) o(1), of u] t by (cases "g = fd") auto
  ultimately show ?thesis
    by (intro exI [of _ ?x]) auto
qed

lemma epoll_remove_ok:
  assumes inv: "epoll_inv n x" and fd: "0 \<le> fd" "nat fd < 8 * n" and t: "single t" and has: "emask x ! nat fd AND t \<noteq> 0"
    and ok: "ectl_ok x"
  shows "\<exists>x'. fk_epoll_remove x fd t = Some (EV_OK, x') \<and> epoll_inv n x' \<and> epoll_watched x' = epoll_watched x - {(fd, t)}"
proof -
  let ?o = "emask x ! nat fd"
  note o = epoll_at [OF inv fd]
  note mc = mask_cases(2) [OF o(2) t has]
  let ?k = "(kern x)(fd := (if ?o AND NOT t = 0 then None else Some (epoll_evs (?o AND NOT t))))"
  let ?x = "x\<lparr>emask := (emask x)[nat fd := ?o AND NOT t], kern := ?k\<rparr>"
  have "fk_epoll_remove x fd t = Some (EV_OK, ?x)"
    using ok fd o has mc
    by (cases "?o AND NOT t = 0") (simp_all add: fk_epoll_remove_def tab_get_def tab_set_def nth_opt_def and.commute [of t] epoll_ctl_def Let_def)
  moreover have "epoll_inv n ?x"
    using mc by (intro epoll_inv_upd [OF inv fd]) auto
  moreover have "(g, u) \<in> epoll_watched ?x \<longleftrightarrow> (g, u) \<in> epoll_watched x - {(fd, t)}" for g u
    unfolding epoll_watched_upd [OF fd(1) o(1)] Diff_iff
    using mask_cases(4) [OF o(2) t _ has, of u] epoll_watched_mem [OF fd(1) o(1), of u] by (cases "g = fd") auto
  ultimately show ?thesis
    by (intro exI [of _ ?x]) auto
qed

interpretation epoll: multiplexer fk_epoll_add fk_epoll_remove epoll_inv epoll_watched
proof (unfold_locales, goal_cases)
  case (1 n x fd t)
  then have fd: "nat fd < 8 * n" and free: "emask x ! nat fd AND t = 0"
    by (auto simp: epoll_watched_def epoll_inv_def)
  show ?case
  proof (cases "ectl_ok x")
    case True
    then show ?thesis
      using epoll_add_ok [OF 1(1,2) fd 1(4) free] by (metis (full_types))
  next
    case False
    then have "fk_epoll_add x fd t = Some (EV_ERR, x)"
      using epoll_at [OF 1(1,2) fd] 1(2) free
      by (simp add: fk_epoll_add_def tab_get_def nth_opt_def and.commute epoll_ctl_def Let_def)
    then show ?thesis
      using 1(1) by simp
  qed
next
  case (2 n x t fd)
  then have fd: "0 \<le> fd" "nat fd < 8 * n" and has: "emask x ! nat fd AND t \<noteq> 0"
    using epoll_watchedD by blast+
  show ?case
  proof (cases "ectl_ok x")
    case True
    then show ?thesis
      using epoll_remove_ok [OF 2(1) fd 2(2) has] by (metis (full_types))
  next
    case False
    then have "fk_epoll_remove x fd t = Some (EV_ERR, x)"
      using epoll_at [OF 2(1) fd] fd(1) has
      by (simp add: fk_epoll_remove_def tab_get_def nth_opt_def and.commute epoll_ctl_def Let_def)
    then show ?thesis
      using 2(1) by simp
  qed
next
  case (3 n x t fd)
  then show ?case
    by (auto simp: epoll_watched_def fk_epoll_add_def tab_get_def nth_opt_def and.commute)
qed

subsection \<open>The event loop over epoll\<close>

lemma epoll_init_inv: "ev_inv epoll_inv epoll_watched (fk_ev_init n (fk_epoll_create n))"
  by (rule ev_init_inv) (auto simp: epoll_inv_def fk_epoll_create_def mask_ok_def epoll_watched_def)


definition with_read_ev :: "fk_epoll evmgr" where
  "with_read_ev = fk_ioev_create 7 3 FK_IOEV_READ (fk_ev_init 4 (fk_epoll_create 4))"

lemma with_read_ev_add:
  obtains m where "fk_ev_add_ioev fk_epoll_add 7 with_read_ev = Some (EV_OK, m)" "write_ev m = replicate 4 None"
    "read_ev m = [None, None, None, Some (Some 7)]" "max_files m = 4"
  by (simp add: with_read_ev_def fk_ioev_create_def fk_ev_init_def fk_ev_add_ioev_def fk_epoll_add_def fk_epoll_create_def epoll_evs_def
      epoll_ctl_def tab_get_def tab_set_def nth_opt_def upd_ioev_def ev_consts epoll_consts Let_def numeral_eq_Suc)

lemma with_read_ev_calls:
  assumes "fk_ev_add_ioev fk_epoll_add 7 with_read_ev = Some (EV_OK, m)"
  shows "ev_calls fk_epoll_add fk_epoll_remove (fk_ev_init 4 (fk_epoll_create 4)) m"
proof -
  let ?e = "\<lparr>io_fd = 3, io_type = FK_IOEV_READ, io_stat = IOEV_INIT\<rparr>"
  have "ev_call fk_epoll_add fk_epoll_remove (fk_ev_init 4 (fk_epoll_create 4)) with_read_ev"
    unfolding with_read_ev_def by (rule ev_call.io_create) (simp add: fk_ev_init_def)
  moreover have "ev_call fk_epoll_add fk_epoll_remove with_read_ev m"
    by (rule ev_call.io_add [where p = 7 and e = ?e and rc = EV_OK]) (use assms in \<open>simp_all add: with_read_ev_def fk_ioev_create_def fk_ev_init_def\<close>)
  ultimately show ?thesis
    by (meson converse_rtranclp_into_rtranclp rtranclp.rtrancl_refl)
qed


text \<open>
  Activation: what \<^verbatim>\<open>epoll_wait\<close> reports activates exactly the registered events of the reported descriptors and
  directions (a hang-up or an error counts as both directions), each of them once, as long as the
  entries that are looked up have been written.\<close>

theorem epoll_dispatch_exact:
  assumes inv: "ev_inv epoll_inv epoll_watched m" and wait: "epoll_wait (ms_timeout pto) = Wait_ready es"
    and ok: "\<forall>(fd, ev) \<in> set es. report_ok m (fd, epoll_type ev)"
  shows "\<exists>m'. fk_epoll_dispatch epoll_wait pto m = Some (EV_OK, m') \<and> ev_inv epoll_inv epoll_watched m' \<and> distinct (act_ioev m')
    \<and> set (act_ioev m') = set (act_ioev m)
        \<union> {p \<in> registered m. \<exists>e ev. ioevs m p = Some e \<and> (io_fd e, ev) \<in> set es \<and> io_type e AND epoll_type ev \<noteq> 0}"
proof -
  let ?es = "map (\<lambda>(fd, ev). (fd, epoll_type ev)) es"
  have io: "io_inv epoll_inv epoll_watched m"
    using inv by (simp add: ev_inv_def)
  have "\<forall>r \<in> set ?es. report_ok m r"
    using ok by auto
  from activate_all_spec [OF io this] obtain m' where m': "activate_all ?es m = Some m'" "io_inv epoll_inv epoll_watched m'" "same_regs m m'"
    "set (act_ioev m') = set (act_ioev m) \<union> reported m ?es"
    by blast
  have "ev_inv epoll_inv epoll_watched m'"
    using ev_inv_parts(1) [OF inv m'(2)] m'(3) by (simp add: same_regs_def)
  moreover have "reported m ?es = {p \<in> registered m. \<exists>e ev. ioevs m p = Some e \<and> (io_fd e, ev) \<in> set es \<and> io_type e AND epoll_type ev \<noteq> 0}"
    unfolding reported_def by force
  ultimately show ?thesis
    using m' wait io_invD(6) [OF m'(2)] by (simp add: fk_epoll_dispatch_def)
qed

theorem epoll_dispatch_exact_witness:
  "\<exists>m m'. fk_ev_add_ioev fk_epoll_add 7 with_read_ev = Some (EV_OK, m)
     \<and> fk_epoll_dispatch (\<lambda>_. Wait_ready [(3, EPOLLIN)]) None m = Some (EV_OK, m') \<and> set (act_ioev m') \<subseteq> set (act_ioev m) \<union> registered m"
proof -
  obtain m where m: "fk_ev_add_ioev fk_epoll_add 7 with_read_ev = Some (EV_OK, m)" "read_ev m = [None, None, None, Some (Some 7)]" "max_files m = 4"
    using with_read_ev_add by blast
  have inv: "ev_inv epoll_inv epoll_watched m"
    using epoll.ev_calls_inv [OF with_read_ev_calls [OF m(1)] epoll_init_inv] by blast
  have "\<forall>(fd, ev) \<in> set [(3, EPOLLIN)]. report_ok m (fd, epoll_type ev)"
    using m(2,3) by (simp add: report_ok_def epoll_type_def epoll_consts ev_consts)
  from epoll_dispatch_exact [OF inv, of "\<lambda>_. Wait_ready [(3, EPOLLIN)]" None, OF _ this] show ?thesis
    using m(1) by auto
qed

lemma epoll_dispatch_inv:
  assumes inv: "ev_inv epoll_inv epoll_watched m"
    and kernel: "\<forall>ms es. epoll_wait ms = Wait_ready es \<longrightarrow> (\<forall>(fd, ev) \<in> set es. report_ok m (fd, epoll_type ev))"
  shows "\<exists>rc m'. fk_epoll_dispatch epoll_wait pto m = Some (rc, m') \<and> ev_inv epoll_inv epoll_watched m'"
proof (cases "epoll_wait (ms_timeout pto)")
  case (Wait_ready es)
  let ?es = "map (\<lambda>(fd, ev). (fd, epoll_type ev)) es"
  have ok: "\<forall>r \<in> set ?es. report_ok m r"
    using kernel [rule_format, OF Wait_ready] by auto
  have "io_inv epoll_inv epoll_watched m"
    using inv by (simp add: ev_inv_def)
  from activate_all_spec [OF this ok] obtain m' where "activate_all ?es m = Some m'" "io_inv epoll_inv epoll_watched m'" "same_regs m m'"
    by blast
  then show ?thesis
    using ev_inv_parts(1) [OF inv] Wait_ready by (simp add: fk_epoll_dispatch_def same_regs_def)
qed (simp_all add: fk_epoll_dispatch_def inv)




section \<open>The loop\<close>

text \<open>The state after a number of rounds, whether or not the loop has been told to stop.\<close>

primrec after_rounds ::
    "(nat \<Rightarrow> 'm round) \<Rightarrow> ('m, 'w) io_cbs \<Rightarrow> ('m, 'w) tm_cbs \<Rightarrow> 'm evmgr \<times> 'w \<Rightarrow> nat \<Rightarrow> ('m evmgr \<times> 'w) option" where
  "after_rounds rs iocb tmcb s 0 = Some s"
| "after_rounds rs iocb tmcb s (Suc k) = do { s1 \<leftarrow> after_rounds rs iocb tmcb s k; one_round (rs k) iocb tmcb s1 }"

definition stopped_at :: "('m evmgr \<times> 'w) option \<Rightarrow> bool" where
  "stopped_at r \<longleftrightarrow> (\<exists>s. r = Some s \<and> ev_stop (fst s))"

lemma stopped_atI: "r = Some s \<Longrightarrow> ev_stop (fst s) \<Longrightarrow> stopped_at r"
  unfolding stopped_at_def by blast

lemma cycle_ends:
  assumes "fk_ev_cycle rs iocb tmcb k s = Some s'" and "after_rounds rs iocb tmcb s0 k = Some s"
  shows "\<exists>j. after_rounds rs iocb tmcb s0 j = Some s' \<and> ev_stop (fst s')"
proof -
  have "\<forall>s0. after_rounds rs iocb tmcb s0 k = Some s \<longrightarrow> (\<exists>j. after_rounds rs iocb tmcb s0 j = Some s' \<and> ev_stop (fst s'))"
  proof (rule fk_ev_cycle.raw_induct [OF _ assms(1)], intro allI impI)
    fix f rs iocb tmcb k s y s0
    assume IH: "\<And>rs iocb tmcb k s y. f rs iocb tmcb k s = Some y \<Longrightarrow>
        \<forall>s0. after_rounds rs iocb tmcb s0 k = Some s \<longrightarrow> (\<exists>j. after_rounds rs iocb tmcb s0 j = Some y \<and> ev_stop (fst y))"
      and body: "(if ev_stop (fst s) then Some s else do { s1 \<leftarrow> one_round (rs k) iocb tmcb s; f rs iocb tmcb (k + 1) s1 }) = Some y"
      and s: "after_rounds rs iocb tmcb s0 k = Some s"
    show "\<exists>j. after_rounds rs iocb tmcb s0 j = Some y \<and> ev_stop (fst y)"
    proof (cases "ev_stop (fst s)")
      case True
      then show ?thesis
        using body s by auto
    next
      case False
      then obtain s1 where "one_round (rs k) iocb tmcb s = Some s1" "f rs iocb tmcb (k + 1) s1 = Some y"
        using body by (auto split: bind_splits)
      moreover from this have "after_rounds rs iocb tmcb s0 (k + 1) = Some s1"
        using s by simp
      ultimately show ?thesis
        using IH by blast
    qed
  qed
  then show ?thesis
    using assms(2) by blast
qed

lemma cycle_stops:
  assumes "after_rounds rs iocb tmcb s0 j = Some s'" and "ev_stop (fst s')"
    and "\<forall>i < j. \<not> stopped_at (after_rounds rs iocb tmcb s0 i)" and "k \<le> j" and "after_rounds rs iocb tmcb s0 k = Some s"
  shows "fk_ev_cycle rs iocb tmcb k s = Some s'"
  using assms(4,5)
proof (induction "j - k" arbitrary: k s)
  case 0
  then show ?case
    using assms(1,2) by (simp add: fk_ev_cycle.simps)
next
  case (Suc n)
  then have "k < j"
    by simp
  then have "\<not> ev_stop (fst s)"
    using assms(3) stopped_atI [OF Suc.prems(2)] by blast
  moreover obtain s1 where s1: "after_rounds rs iocb tmcb s0 (Suc k) = Some s1"
  proof -
    have "after_rounds rs iocb tmcb s0 i \<noteq> None" if "i \<le> j" for i
      using that by (induction rule: inc_induct) (use assms(1) in \<open>auto split: bind_splits\<close>)
    from this [of "Suc k"] show thesis
      using \<open>k < j\<close> that by (cases "after_rounds rs iocb tmcb s0 (Suc k)") (simp_all add: Suc_le_eq)
  qed
  moreover have "fk_ev_cycle rs iocb tmcb (Suc k) s1 = Some s'"
    using Suc.hyps(2) s1 by (intro Suc.hyps(1)) auto
  ultimately show ?case
    using Suc.prems(2) by (subst fk_ev_cycle.simps) simp
qed

text \<open>Rounds over epoll: what \<^verbatim>\<open>epoll_wait\<close> reports depends on the round and on what it was asked to watch.\<close>

definition epoll_rounds ::
    "(nat \<Rightarrow> fk_epoll \<Rightarrow> int \<Rightarrow> wait_res) \<Rightarrow> (nat \<Rightarrow> timeval) \<Rightarrow> (nat \<Rightarrow> timeval) \<Rightarrow> (nat \<Rightarrow> nat \<Rightarrow> timeval) \<Rightarrow> nat \<Rightarrow> fk_epoll round" where
  "epoll_rounds epoll_wait t1 t2 ts k = (\<lambda>pto m. fk_epoll_dispatch (epoll_wait k (iompx m)) pto m, t1 k, t2 k, ts k)"

lemma rounds_inv:
  assumes inv: "ev_inv epoll_inv epoll_watched m"
    and kernel: "\<forall>k m ms es. ev_inv epoll_inv epoll_watched m \<and> epoll_wait k (iompx m) ms = Wait_ready es \<longrightarrow>
      (\<forall>(fd, ev) \<in> set es. report_ok m (fd, epoll_type ev))"
    and io: "io_cb_ok (ev_inv epoll_inv epoll_watched) (ev_calls fk_epoll_add fk_epoll_remove) iocb"
    and tm: "tm_cb_ok (ev_inv epoll_inv epoll_watched) (ev_calls fk_epoll_add fk_epoll_remove) tmcb"
  shows "\<exists>m' w'. after_rounds (epoll_rounds epoll_wait t1 t2 ts) iocb tmcb (m, w) k = Some (m', w') \<and> ev_inv epoll_inv epoll_watched m'"
proof (induction k)
  case (Suc k)
  then obtain m1 w1 where s1: "after_rounds (epoll_rounds epoll_wait t1 t2 ts) iocb tmcb (m, w) k = Some (m1, w1)"
    and i1: "ev_inv epoll_inv epoll_watched m1"
    by blast
  have "\<forall>ms es. epoll_wait k (iompx m1) ms = Wait_ready es \<longrightarrow> (\<forall>(fd, ev) \<in> set es. report_ok m1 (fd, epoll_type ev))"
    using kernel i1 by blast
  from epoll_dispatch_inv [OF i1 this]
  have "\<exists>rc m'. fk_epoll_dispatch (epoll_wait k (iompx m1)) pto m1 = Some (rc, m') \<and> ev_inv epoll_inv epoll_watched m'" for pto .
  from epoll.dispatch_round [where wait = "\<lambda>pto m. fk_epoll_dispatch (epoll_wait k (iompx m)) pto m", OF i1 this io tm]
  obtain rc m' w' where "fk_ev_dispatch (\<lambda>pto m. fk_epoll_dispatch (epoll_wait k (iompx m)) pto m) (t1 k) (t2 k) (ts k) iocb tmcb (m1, w1)
      = Some (rc, m', w')" "ev_inv epoll_inv epoll_watched m'"
    by blast
  moreover from this(1) have "one_round (epoll_rounds epoll_wait t1 t2 ts k) iocb tmcb (m1, w1) = Some (m', w')"
    by (simp add: epoll_rounds_def)
  ultimately show ?case
    using s1 by simp
qed (use inv in simp)


text \<open>A manager with one expired timer, whose callback stops the loop.\<close>

definition with_expired :: "fk_epoll evmgr" where
  "with_expired = (fk_ev_init 4 (fk_epoll_create 4))\<lparr>tmevs := [5 \<mapsto> \<lparr>tm_type = FK_TMEV_ONCE, tm_stat = TMEV_EXPIRED,
     interval = 0, tm_when = clock_at 1\<rparr>], exp_tmev := [5], tmev_cnt := 1\<rparr>"

lemma with_expired_inv: "ev_inv epoll_inv epoll_watched with_expired"
proof -
  let ?m = "fk_ev_init 4 (fk_epoll_create 4)"
  have "io_part with_expired = io_part ?m" and inv: "ev_inv epoll_inv epoll_watched ?m"
    using epoll_init_inv [of 4] by (simp_all add: with_expired_def)
  moreover have "tm_inv with_expired"
    using inv by (auto simp: ev_inv_def tm_inv_def with_expired_def fk_ev_init_def tstat_def)
  ultimately show ?thesis
    using io_inv_part [of with_expired ?m epoll_inv epoll_watched] by (simp add: ev_inv_def)
qed


end
