(* ===== verification/Fk_Select.thy ===== *)
theory Fk_Select
  imports Fk_Ev_Loop
begin

text \<open>
  The multiplexers over the two portable system calls, \<^verbatim>\<open>fk_ev_select.c\<close> and \<^verbatim>\<open>fk_ev_poll.c\<close>. The first fulfils
  the contract of the event manager; the second does not, because it loses track of the place of a
  file descriptor when one is removed.
\<close>

section \<open>select\<close>

text \<open>The sets \<^verbatim>\<open>fd_set\<close> of file descriptors below \<^verbatim>\<open>FD_SETSIZE\<close>; the macros have no meaning for other numbers.
  The two working sets are values of \<^verbatim>\<open>fk_select_dispatch\<close> below.\<close>

definition FD_SETSIZE :: nat where
  "FD_SETSIZE = 1024"

record fk_select =
  saved_rset :: "int set"
  saved_wset :: "int set"
  max_fd :: int
  fd_map :: "8 word list"

definition fk_select_create :: "nat \<Rightarrow> fk_select option" where
  "fk_select_create n =
     (if n > FD_SETSIZE then None
      else Some \<lparr>saved_rset = {}, saved_wset = {}, max_fd = -1, fd_map = replicate n 0\<rparr>)"

definition in_fd_set :: "int \<Rightarrow> bool" where
  "in_fd_set fd \<longleftrightarrow> 0 \<le> fd \<and> fd < int FD_SETSIZE"

definition fk_select_add :: "fk_select mpx_op" where
  "fk_select_add x fd t =
     (let r = t AND FK_IOEV_READ \<noteq> 0; w = t AND FK_IOEV_WRITE \<noteq> 0
      in if (r \<or> w) \<and> \<not> in_fd_set fd then None
         else if r \<and> fd \<in> saved_rset x then Some (EV_ERR, x)
         else
           (let x1 = (if r then x\<lparr>saved_rset := insert fd (saved_rset x)\<rparr> else x)
            in if w \<and> fd \<in> saved_wset x1 then Some (EV_ERR, x1)
               else
                 (let x2 = (if w then x1\<lparr>saved_wset := insert fd (saved_wset x1)\<rparr> else x1)
                  in if r \<or> w
                     then do { fm \<leftarrow> tab_set (fd_map x2) fd 1;
                               Some (EV_OK, x2\<lparr>max_fd := (if fd > max_fd x2 then fd else max_fd x2), fd_map := fm\<rparr>) }
                     else Some (EV_OK, x2))))"

text \<open>The search for the greatest marked descriptor, downwards from \<open>i\<close>.\<close>

fun top_fd :: "8 word list \<Rightarrow> nat \<Rightarrow> int" where
  "top_fd fm 0 = (if fm ! 0 = 1 then 0 else -1)"
| "top_fd fm (Suc i) = (if fm ! Suc i = 1 then int (Suc i) else top_fd fm i)"

definition fk_select_remove :: "fk_select mpx_op" where
  "fk_select_remove x fd t =
     (let r = t AND FK_IOEV_READ \<noteq> 0; w = t AND FK_IOEV_WRITE \<noteq> 0
      in if (r \<or> w) \<and> \<not> in_fd_set fd then None
         else if r \<and> fd \<notin> saved_rset x then Some (EV_ERR, x)
         else
           (let x1 = (if r then x\<lparr>saved_rset := saved_rset x - {fd}\<rparr> else x)
            in if w \<and> fd \<notin> saved_wset x1 then Some (EV_ERR, x1)
               else
                 (let x2 = (if w then x1\<lparr>saved_wset := saved_wset x1 - {fd}\<rparr> else x1)
                  in do { fm \<leftarrow> (if r \<and> w then tab_set (fd_map x2) fd 0 else Some (fd_map x2));
                          if fd = max_fd x2
                          then do { b \<leftarrow> tab_get fm fd;
                                    Some (EV_OK, x2\<lparr>fd_map := fm, max_fd := (if b = 0 then top_fd fm (nat fd) else max_fd x2)\<rparr>) }
                          else Some (EV_OK, x2\<lparr>fd_map := fm\<rparr>) })))"

text \<open>What \<^verbatim>\<open>select\<close> returns: the number of bits that are set in the two sets it leaves, and these sets.\<close>

datatype select_res = Sel_intr | Sel_fail | Sel_ready nat "int set" "int set"

definition select_type :: "int set \<Rightarrow> int set \<Rightarrow> int \<Rightarrow> ev_type" where
  "select_type rs ws fd = (if fd \<in> rs then FK_IOEV_READ else 0) OR (if fd \<in> ws then FK_IOEV_WRITE else 0)"

definition select_bits :: "int set \<Rightarrow> int set \<Rightarrow> int \<Rightarrow> nat" where
  "select_bits rs ws fd = (if fd \<in> rs then 1 else 0) + (if fd \<in> ws then 1 else 0)"

text \<open>The loop over the descriptors, which ends early when all the ready ones have been seen.\<close>

fun select_loop :: "int set \<Rightarrow> int set \<Rightarrow> nat \<Rightarrow> nat \<Rightarrow> int list \<Rightarrow> 'm evmgr \<Rightarrow> 'm evmgr option" where
  "select_loop rs ws ready_total cnt [] m = Some m"
| "select_loop rs ws ready_total cnt (fd # fds) m =
     (let cnt1 = cnt + select_bits rs ws fd
      in do { m1 \<leftarrow> fk_ev_activate_ioev fd (select_type rs ws fd) m;
              if cnt1 = ready_total then Some m1 else select_loop rs ws ready_total cnt1 fds m1 })"

text \<open>The time to wait is read through the pointer \<^verbatim>\<open>timeout\<close>, which is NULL when there is no timer.\<close>

definition fk_select_dispatch ::
  "(int \<Rightarrow> int set \<Rightarrow> int set \<Rightarrow> timeval \<Rightarrow> select_res) \<Rightarrow> timeval option \<Rightarrow> fk_select evmgr \<Rightarrow> (ev_rc \<times> fk_select evmgr) option" where
  "fk_select_dispatch select pto m =
     (let x = iompx m
      in do { to \<leftarrow> pto;
              case select (max_fd x + 1) (saved_rset x) (saved_wset x) to of
                Sel_fail \<Rightarrow> Some (EV_ERR, m)
              | Sel_intr \<Rightarrow> Some (EV_OK, m)
              | Sel_ready ready_total rs ws \<Rightarrow>
                  if ready_total = 0 then Some (EV_OK, m)
                  else do { m1 \<leftarrow> select_loop rs ws ready_total 0 (map int [0..<nat (max_fd x + 1)]) m; Some (EV_OK, m1) } })"

subsection \<open>The contract\<close>

definition select_watched :: "fk_select \<Rightarrow> (int \<times> ev_type) set" where
  "select_watched x = (\<lambda>fd. (fd, FK_IOEV_READ)) ` saved_rset x \<union> (\<lambda>fd. (fd, FK_IOEV_WRITE)) ` saved_wset x"

text \<open>Every watched descriptor is marked and every marked one is at most \<^verbatim>\<open>max_fd\<close>, so \<^verbatim>\<open>select\<close> looks at them all.\<close>

definition select_inv :: "nat \<Rightarrow> fk_select \<Rightarrow> bool" where
  "select_inv n x \<longleftrightarrow> n \<le> FD_SETSIZE \<and> length (fd_map x) = n \<and> -1 \<le> max_fd x \<and> max_fd x < int n
     \<and> (\<forall>fd \<in> saved_rset x \<union> saved_wset x. 0 \<le> fd \<and> fd < int n \<and> fd_map x ! nat fd = 1)
     \<and> (\<forall>i < n. fd_map x ! i = 1 \<longrightarrow> int i \<le> max_fd x)"

lemma select_watched_iff:
  "(fd, t) \<in> select_watched x \<longleftrightarrow> (t = FK_IOEV_READ \<and> fd \<in> saved_rset x) \<or> (t = FK_IOEV_WRITE \<and> fd \<in> saved_wset x)"
  by (auto simp: select_watched_def)

lemma select_watched_range:
  assumes "select_inv n x" and "(fd, t) \<in> select_watched x"
  shows "0 \<le> fd" "fd < int n" "fd \<le> max_fd x" "in_fd_set fd"
proof -
  have "fd \<in> saved_rset x \<union> saved_wset x"
    using assms(2) by (auto simp: select_watched_iff)
  then show fd: "0 \<le> fd" "fd < int n"
    using assms(1) unfolding select_inv_def by blast+
  have "fd_map x ! nat fd = 1" "nat fd < n"
    using \<open>fd \<in> saved_rset x \<union> saved_wset x\<close> assms(1) fd unfolding select_inv_def by (blast, linarith)
  then have "int (nat fd) \<le> max_fd x"
    using assms(1) unfolding select_inv_def by blast
  then show "fd \<le> max_fd x"
    using fd(1) by simp
  show "in_fd_set fd"
    using assms(1) fd by (auto simp: select_inv_def in_fd_set_def)
qed

interpretation select: multiplexer fk_select_add fk_select_remove select_inv select_watched
proof unfold_locales
  fix n x fd t
  assume inv: "select_inv n x" and fd: "0 \<le> fd" "fd < int n" and t: "single t" and new: "(fd, t) \<notin> select_watched x"
  have ok: "in_fd_set fd" "nat fd < length (fd_map x)"
    using inv fd by (auto simp: select_inv_def in_fd_set_def)
  define x' where "x' = x\<lparr>saved_rset := (if t = FK_IOEV_READ then insert fd (saved_rset x) else saved_rset x),
    saved_wset := (if t = FK_IOEV_READ then saved_wset x else insert fd (saved_wset x)),
    max_fd := max fd (max_fd x), fd_map := (fd_map x)[nat fd := 1]\<rparr>"
  have "fk_select_add x fd t = Some (EV_OK, x')"
    using t new ok fd(1) unfolding single_def
    by (elim disjE) (simp_all add: fk_select_add_def x'_def select_watched_iff tab_set_def max_def)
  moreover have "select_inv n x'"
    using inv fd unfolding select_inv_def x'_def by (auto simp: nth_list_update max_def le_nat_iff)
  moreover have "select_watched x' = insert (fd, t) (select_watched x)"
    using t unfolding single_def by (elim disjE) (auto simp: x'_def select_watched_def)
  ultimately show "\<exists>rc x'. fk_select_add x fd t = Some (rc, x') \<and> select_inv n x'
      \<and> select_watched x' = (if rc = EV_OK then insert (fd, t) (select_watched x) else select_watched x)"
    by (intro exI [of _ EV_OK] exI [of _ x']) simp
next
  fix n x t fd
  assume inv: "select_inv n x" and t: "single t" and old: "(fd, t) \<in> select_watched x"
  show "fk_select_add x fd t = Some (EV_ERR, x)"
    using old select_watched_range(4) [OF inv old] t unfolding single_def
    by (elim disjE) (simp_all add: fk_select_add_def select_watched_iff)
next
  fix n x t fd
  assume inv: "select_inv n x" and t: "single t" and old: "(fd, t) \<in> select_watched x"
  note fd = select_watched_range [OF inv old]
  define x' where "x' = x\<lparr>saved_rset := (if t = FK_IOEV_READ then saved_rset x - {fd} else saved_rset x),
    saved_wset := (if t = FK_IOEV_READ then saved_wset x else saved_wset x - {fd})\<rparr>"
  have "fd_map x ! nat fd = 1" "nat fd < length (fd_map x)"
    using inv old fd by (auto simp: select_inv_def select_watched_iff)
  then have "fk_select_remove x fd t = Some (EV_OK, x')"
    using t old fd unfolding single_def
    by (elim disjE; cases "fd = max_fd x") (simp_all add: fk_select_remove_def x'_def select_watched_iff tab_get_def nth_opt_def Let_def)
  moreover have "select_inv n x'"
    using inv unfolding select_inv_def x'_def by auto
  moreover have "select_watched x' = select_watched x - {(fd, t)}"
    using t unfolding single_def by (elim disjE) (auto simp: x'_def select_watched_def)
  ultimately show "\<exists>rc x'. fk_select_remove x fd t = Some (rc, x') \<and> select_inv n x'
      \<and> select_watched x' = (if rc = EV_OK then select_watched x - {(fd, t)} else select_watched x)"
    by (intro exI [of _ EV_OK] exI [of _ x']) simp
qed

subsection \<open>Dispatch\<close>

lemma activate_none [simp]: "fk_ev_activate_ioev fd 0 m = Some m"
  by (simp add: fk_ev_activate_ioev_def)

lemma select_bits_0: "select_bits rs ws fd = 0 \<Longrightarrow> select_type rs ws fd = 0"
  by (auto simp: select_bits_def select_type_def split: if_splits)

lemma activate_rest:
  "(\<Sum>fd\<leftarrow>fds. select_bits rs ws fd) = 0 \<Longrightarrow> activate_all (map (\<lambda>fd. (fd, select_type rs ws fd)) fds) m = Some m"
  by (induction fds) (simp_all add: select_bits_0)

text \<open>Nothing is lost by leaving the loop early.\<close>

lemma select_loop_all:
  "cnt + (\<Sum>fd\<leftarrow>fds. select_bits rs ws fd) = ready_total \<Longrightarrow>
     select_loop rs ws ready_total cnt fds m = activate_all (map (\<lambda>fd. (fd, select_type rs ws fd)) fds) m"
proof (induction fds arbitrary: cnt m)
  case (Cons fd fds)
  show ?case
  proof (cases "cnt + select_bits rs ws fd = ready_total")
    case True
    moreover have "cnt + select_bits rs ws fd + (\<Sum>fd\<leftarrow>fds. select_bits rs ws fd) = ready_total"
      using Cons.prems by (simp add: add.assoc)
    ultimately have "(\<Sum>fd\<leftarrow>fds. select_bits rs ws fd) = 0"
      by linarith
    then have "activate_all (map (\<lambda>fd. (fd, select_type rs ws fd)) fds) m1 = Some m1" for m1 :: "'a evmgr"
      by (rule activate_rest)
    then show ?thesis
      using True by (simp split: bind_splits)
  next
    case False
    then show ?thesis
      using Cons.IH [of "cnt + select_bits rs ws fd"] Cons.prems by (simp add: add.assoc)
  qed
qed simp

lemma sum_bits:
  assumes "rs \<subseteq> set fds" and "ws \<subseteq> set fds" and "distinct fds"
  shows "(\<Sum>fd\<leftarrow>fds. select_bits rs ws fd) = card rs + card ws"
proof -
  have "(\<Sum>fd\<leftarrow>fds. select_bits rs ws fd) = (\<Sum>fd\<in>set fds. (if fd \<in> rs then 1 else 0)) + (\<Sum>fd\<in>set fds. (if fd \<in> ws then 1 else 0))"
    using assms(3) by (simp add: sum_list_distinct_conv_sum_set select_bits_def sum.distrib)
  moreover have "(\<Sum>fd\<in>set fds. (if fd \<in> A then 1 else 0)) = card A" if "A \<subseteq> set fds" for A :: "int set"
    using that by (simp add: sum.If_cases Int_absorb1)
  ultimately show ?thesis
    using assms by simp
qed

lemma watched_report_ok:
  assumes io: "io_inv minv watched m" and sub: "\<And>u. single u \<Longrightarrow> t AND u \<noteq> 0 \<Longrightarrow> (fd, u) \<in> watched (iompx m)"
    and fd: "0 \<le> fd" "fd < int (max_files m)"
  shows "report_ok m (fd, t)"
proof -
  have "ev_tab u m ! nat fd \<noteq> None" if "single u" "t AND u \<noteq> 0" for u
    using sub [OF that] io unfolding io_inv_def by fastforce
  from this [of FK_IOEV_READ] this [of FK_IOEV_WRITE] show ?thesis
    using fd by (simp add: report_ok_def ev_tab_def)
qed

text \<open>The descriptors that the loop after \<^verbatim>\<open>select\<close> looks at, and what it reports of them.\<close>

definition select_fds :: "fk_select \<Rightarrow> int list" where
  "select_fds x = map int [0..<nat (max_fd x + 1)]"

definition select_report :: "fk_select \<Rightarrow> int set \<Rightarrow> int set \<Rightarrow> (int \<times> ev_type) list" where
  "select_report x rs ws = map (\<lambda>fd. (fd, select_type rs ws fd)) (select_fds x)"

lemma watched_in_fds: "select_inv n x \<Longrightarrow> (fd, t) \<in> select_watched x \<Longrightarrow> fd \<in> set (select_fds x)"
  using select_watched_range [of n x fd t] by (auto simp: select_fds_def image_iff intro!: bexI [of _ "nat fd"])

lemma select_report_ok:
  assumes io: "io_inv select_inv select_watched m" and sub: "rs \<subseteq> saved_rset (iompx m)" "ws \<subseteq> saved_wset (iompx m)"
  shows "\<forall>r \<in> set (select_report (iompx m) rs ws). report_ok m r"
proof
  fix r assume "r \<in> set (select_report (iompx m) rs ws)"
  moreover have "select_inv (max_files m) (iompx m)"
    using io by (simp add: io_inv_def)
  ultimately obtain fd where fd: "r = (fd, select_type rs ws fd)" "0 \<le> fd" "fd < int (max_files m)"
    by (auto simp: select_inv_def select_report_def select_fds_def)
  have "(fd, u) \<in> select_watched (iompx m)" if "single u" "select_type rs ws fd AND u \<noteq> 0" for u
    using that sub unfolding single_def select_type_def by (auto simp: ev_consts select_watched_iff split: if_splits)
  then show "report_ok m r"
    unfolding fd(1) using watched_report_ok [OF io] fd(2,3) by blast
qed

lemma select_reported:
  assumes io: "io_inv select_inv select_watched m"
  shows "reported m (select_report (iompx m) rs ws) = {p \<in> registered m. \<exists>e. ioevs m p = Some e
      \<and> (io_type e = FK_IOEV_READ \<and> io_fd e \<in> rs \<or> io_type e = FK_IOEV_WRITE \<and> io_fd e \<in> ws)}" (is "?l = ?r")
proof (rule set_eqI)
  fix p
  show "p \<in> ?l \<longleftrightarrow> p \<in> ?r"
  proof (cases "p \<in> registered m")
    case True
    then obtain e where e: "ioevs m p = Some e" "single (io_type e)" "(io_fd e, io_type e) \<in> select_watched (iompx m)"
      using io unfolding io_inv_def by blast
    then have "io_fd e \<in> set (select_fds (iompx m))"
      using io watched_in_fds unfolding io_inv_def by blast
    then have "p \<in> ?l \<longleftrightarrow> io_type e AND select_type rs ws (io_fd e) \<noteq> 0"
      using True e(1) by (auto simp: reported_def select_report_def image_iff)
    also have "\<dots> \<longleftrightarrow> p \<in> ?r"
      using True e(1,2) unfolding single_def select_type_def by (auto simp: ev_consts)
    finally show ?thesis .
  qed (simp add: reported_def)
qed

lemma select_loop_report:
  assumes x: "select_inv n x" and sub: "rs \<subseteq> saved_rset x" "ws \<subseteq> saved_wset x"
  shows "select_loop rs ws (card rs + card ws) 0 (select_fds x) m = activate_all (select_report x rs ws) m"
    and "rs \<union> ws \<noteq> {} \<Longrightarrow> card rs + card ws \<noteq> 0"
proof -
  have rs: "rs \<subseteq> set (select_fds x)" and ws: "ws \<subseteq> set (select_fds x)"
    using sub watched_in_fds [OF x] select_watched_iff by blast+
  have cnt: "(\<Sum>fd\<leftarrow>select_fds x. select_bits rs ws fd) = card rs + card ws"
    by (rule sum_bits [OF rs ws]) (simp add: select_fds_def distinct_map)
  show "select_loop rs ws (card rs + card ws) 0 (select_fds x) m = activate_all (select_report x rs ws) m"
    using select_loop_all [of 0 rs ws "select_fds x" "card rs + card ws" m] cnt by (simp add: select_report_def)
  show "card rs + card ws \<noteq> 0" if "rs \<union> ws \<noteq> {}"
    using that rs ws finite_subset [of rs "set (select_fds x)"] finite_subset [of ws "set (select_fds x)"] by (auto simp: card_eq_0_iff)
qed

text \<open>
  C38. Activation by select: when \<^verbatim>\<open>select\<close> reports descriptors that it was asked about and their number, exactly the
  registered events of these descriptors and directions are activated, although the loop over the
  descriptors stops at \<^verbatim>\<open>max_fd\<close>, and before it as soon as it has seen that number.\<close>

theorem select_dispatch_exact:
  assumes inv: "ev_inv select_inv select_watched m"
    and sel: "select (max_fd (iompx m) + 1) (saved_rset (iompx m)) (saved_wset (iompx m)) to = Sel_ready (card rs + card ws) rs ws"
    and sub: "rs \<subseteq> saved_rset (iompx m)" "ws \<subseteq> saved_wset (iompx m)" and some: "rs \<union> ws \<noteq> {}"
  shows "\<exists>m'. fk_select_dispatch select (Some to) m = Some (EV_OK, m') \<and> ev_inv select_inv select_watched m' \<and> distinct (act_ioev m')
    \<and> set (act_ioev m') = set (act_ioev m)
        \<union> {p \<in> registered m. \<exists>e. ioevs m p = Some e \<and> (io_type e = FK_IOEV_READ \<and> io_fd e \<in> rs \<or> io_type e = FK_IOEV_WRITE \<and> io_fd e \<in> ws)}"
proof -
  have io: "io_inv select_inv select_watched m" and x: "select_inv (max_files m) (iompx m)"
    using inv by (simp_all add: ev_inv_def io_inv_def)
  from activate_all_spec [OF io select_report_ok [OF io sub]] obtain m' where m': "activate_all (select_report (iompx m) rs ws) m = Some m'"
    "io_inv select_inv select_watched m'" "same_regs m m'" "set (act_ioev m') = set (act_ioev m) \<union> reported m (select_report (iompx m) rs ws)"
    by blast
  have "ev_inv select_inv select_watched m'"
    using ev_inv_parts(1) [OF inv m'(2)] m'(3) by (simp add: same_regs_def)
  moreover have "fk_select_dispatch select (Some to) m = Some (EV_OK, m')"
    using sel select_loop_report(1) [OF x sub, of m, unfolded select_fds_def] select_loop_report(2) [OF x sub some] m'(1)
    by (auto simp: fk_select_dispatch_def Let_def)
  ultimately show ?thesis
    using m'(4) io_invD(6) [OF m'(2)] by (simp add: select_reported [OF io])
qed

definition select_ready :: "int \<Rightarrow> int set \<Rightarrow> int set \<Rightarrow> timeval \<Rightarrow> select_res" where
  "select_ready n rs ws to = Sel_ready (card rs + card ws) rs ws"

theorem select_dispatch_exact_witness:
  "\<exists>x m m'. fk_select_create 4 = Some x
     \<and> fk_ev_add_ioev fk_select_add 7 (fk_ioev_create 7 3 FK_IOEV_READ (fk_ev_init 4 x)) = Some (EV_OK, m)
     \<and> fk_select_dispatch select_ready (Some (clock_at 1)) m = Some (EV_OK, m') \<and> 7 \<in> set (act_ioev m')"
proof -
  obtain x where x: "fk_select_create 4 = Some x" "x = \<lparr>saved_rset = {}, saved_wset = {}, max_fd = -1, fd_map = replicate 4 0\<rparr>"
    by (simp add: fk_select_create_def FD_SETSIZE_def)
  let ?m0 = "fk_ioev_create 7 3 FK_IOEV_READ (fk_ev_init 4 x)"
  let ?e = "\<lparr>io_fd = 3, io_type = FK_IOEV_READ, io_stat = IOEV_INIT\<rparr>"
  have init: "ev_inv select_inv select_watched (fk_ev_init 4 x)"
    by (rule ev_init_inv) (simp_all add: select_inv_def select_watched_def x(2) FD_SETSIZE_def nth_Cons' numeral_eq_Suc)
  obtain m where m: "fk_ev_add_ioev fk_select_add 7 ?m0 = Some (EV_OK, m)" "saved_rset (iompx m) = {3}" "saved_wset (iompx m) = {}"
    "ioevs m 7 = Some (?e\<lparr>io_stat := IOEV_PENDING\<rparr>)"
    by (simp add: fk_ioev_create_def fk_ev_init_def fk_ev_add_ioev_def fk_select_add_def x(2) in_fd_set_def FD_SETSIZE_def
        tab_get_def tab_set_def nth_opt_def upd_ioev_def ev_consts Let_def numeral_eq_Suc)
  have "ev_call fk_select_add fk_select_remove (fk_ev_init 4 x) ?m0"
    by (rule ev_call.io_create) (simp add: fk_ev_init_def)
  moreover have "ev_call fk_select_add fk_select_remove ?m0 m"
    by (rule ev_call.io_add [where p = 7 and e = ?e and rc = EV_OK]) (use m(1) in \<open>simp_all add: fk_ioev_create_def fk_ev_init_def\<close>)
  ultimately have "ev_calls fk_select_add fk_select_remove (fk_ev_init 4 x) m"
    by (meson converse_rtranclp_into_rtranclp rtranclp.rtrancl_refl)
  from select.ev_calls_inv [OF this init] have inv: "ev_inv select_inv select_watched m"
    by blast
  have "7 \<in> registered m"
    using m(4) by (simp add: registered_def istat_def)
  with select_dispatch_exact [OF inv, of select_ready "clock_at 1" "{3}" "{}"] m(2-4) x(1) m(1) show ?thesis
    by (auto simp: select_ready_def)
qed

text \<open>\<^verbatim>\<open>fk_select_dispatch\<close> reads the time to wait through its argument without a test, but the event loop passes
  NULL when no timer is pending: over select, a round of an event loop without a timer dereferences NULL,
  whatever the clock, the system call and the callbacks do.\<close>

theorem select_needs_timer:
  "\<exists>x. fk_select_create 4 = Some x
     \<and> fk_ev_dispatch (fk_select_dispatch select) now1 now2 nows iocb tmcb (fk_ev_init 4 x, w) = None"
proof -
  obtain x where x: "fk_select_create 4 = Some x"
    by (simp add: fk_select_create_def FD_SETSIZE_def)
  have "wait_time now1 (fk_ev_init 4 x) = Some None"
    by (simp add: wait_time_def fk_ev_init_def fk_heap_create_def fk_heap_init_def fk_heap_root_def)
  then show ?thesis
    using x by (intro exI [of _ x]) (simp add: fk_ev_dispatch_def fk_select_dispatch_def Let_def)
qed

section \<open>poll\<close>

type_synonym short = "16 word"

definition POLLIN :: short where
  "POLLIN = 0x001"

definition POLLOUT :: short where
  "POLLOUT = 0x004"

definition POLLERR :: short where
  "POLLERR = 0x008"

definition POLLHUP :: short where
  "POLLHUP = 0x010"

lemmas poll_consts = POLLIN_def POLLOUT_def POLLERR_def POLLHUP_def

record pollfd =
  pfd_fd :: int
  events :: short
  revents :: short

text \<open>\<open>plast\<close> is the field \<^verbatim>\<open>last\<close>, the number of entries in use.\<close>

record fk_poll =
  evlist :: "pollfd list"
  plast :: int
  fd2idx :: "int list"

definition fk_poll_create :: "nat \<Rightarrow> fk_poll" where
  "fk_poll_create n = \<lparr>evlist = replicate n \<lparr>pfd_fd = -1, events = 0, revents = 0\<rparr>, plast = 0, fd2idx = replicate n (-1)\<rparr>"

definition poll_evs :: "ev_type \<Rightarrow> short" where
  "poll_evs t = (if t AND FK_IOEV_READ \<noteq> 0 then POLLIN else 0) OR (if t AND FK_IOEV_WRITE \<noteq> 0 then POLLOUT else 0)"

definition fk_poll_add :: "fk_poll mpx_op" where
  "fk_poll_add x fd t =
     do { idx0 \<leftarrow> tab_get (fd2idx x) fd;
          let idx = (if idx0 = -1 then plast x else idx0);
          pfd \<leftarrow> tab_get (evlist x) idx;
          let oev = events pfd;
          let nev = poll_evs t;
          if oev AND nev \<noteq> 0 then Some (EV_ERR, x)
          else do { el \<leftarrow> tab_set (evlist x) idx (pfd\<lparr>events := oev OR nev, pfd_fd := fd\<rparr>);
                    f2i \<leftarrow> tab_set (fd2idx x) fd idx;
                    Some (EV_OK, x\<lparr>evlist := el, fd2idx := f2i, plast := (if idx = plast x then plast x + 1 else plast x)\<rparr>) } }"

definition fk_poll_remove :: "fk_poll mpx_op" where
  "fk_poll_remove x fd t =
     do { idx \<leftarrow> tab_get (fd2idx x) fd;
          pfd \<leftarrow> tab_get (evlist x) idx;
          let oev = events pfd;
          let nev = poll_evs t;
          if nev AND NOT oev \<noteq> 0 then Some (EV_ERR, x)
          else do { el \<leftarrow> tab_set (evlist x) idx (pfd\<lparr>events := oev AND NOT nev\<rparr>);
                    if oev AND NOT nev = 0
                    then do { tl \<leftarrow> tab_get el (plast x - 1);
                              el1 \<leftarrow> tab_set el idx tl;
                              el2 \<leftarrow> tab_set el1 (plast x - 1) \<lparr>pfd_fd = -1, events = 0, revents = 0\<rparr>;
                              Some (EV_OK, x\<lparr>evlist := el2, plast := plast x - 1\<rparr>) }
                    else Some (EV_OK, x\<lparr>evlist := el\<rparr>) } }"

text \<open>\<^verbatim>\<open>poll\<close> fails or returns the number of entries with a report and the reports of the entries.\<close>

datatype poll_res = Poll_fail | Poll_ready nat "short list"

definition poll_type :: "short \<Rightarrow> ev_type" where
  "poll_type ev = (if ev AND (POLLIN OR POLLHUP OR POLLERR) \<noteq> 0 then FK_IOEV_READ else 0)
     OR (if ev AND (POLLOUT OR POLLHUP OR POLLERR) \<noteq> 0 then FK_IOEV_WRITE else 0)"

definition reports :: "short list \<Rightarrow> fk_poll \<Rightarrow> fk_poll" where
  "reports revs x = x\<lparr>evlist := map (\<lambda>(p, r). p\<lparr>revents := r\<rparr>) (zip (evlist x) revs) @ drop (length revs) (evlist x)\<rparr>"

definition reset_revents :: "nat \<Rightarrow> fk_poll \<Rightarrow> fk_poll" where
  "reset_revents i x = x\<lparr>evlist := (evlist x)[i := (evlist x ! i)\<lparr>revents := 0\<rparr>]\<rparr>"

fun poll_loop :: "nat \<Rightarrow> nat \<Rightarrow> nat list \<Rightarrow> fk_poll evmgr \<Rightarrow> fk_poll evmgr option" where
  "poll_loop nfds cnt [] m = Some m"
| "poll_loop nfds cnt (i # idxs) m =
     do { pfd \<leftarrow> nth_opt (evlist (iompx m)) i;
          let type = poll_type (revents pfd);
          if type = 0 then poll_loop nfds cnt idxs m
          else do { m1 \<leftarrow> fk_ev_activate_ioev (pfd_fd pfd) type m;
                    let m2 = m1\<lparr>iompx := reset_revents i (iompx m1)\<rparr>;
                    if cnt + 1 = nfds then Some m2 else poll_loop nfds (cnt + 1) idxs m2 } }"

definition fk_poll_dispatch ::
  "(pollfd list \<Rightarrow> int \<Rightarrow> int \<Rightarrow> poll_res) \<Rightarrow> timeval option \<Rightarrow> fk_poll evmgr \<Rightarrow> (ev_rc \<times> fk_poll evmgr) option" where
  "fk_poll_dispatch poll pto m =
     (let x = iompx m
      in case poll (evlist x) (plast x) (ms_timeout pto) of
           Poll_fail \<Rightarrow> Some (EV_ERR, m)
         | Poll_ready nfds revs \<Rightarrow>
             (let m0 = m\<lparr>iompx := reports revs x\<rparr>
              in if nfds = 0 then Some (EV_OK, m0)
                 else do { m1 \<leftarrow> poll_loop nfds 0 [0..<nat (plast x)] m0; Some (EV_OK, m1) }))"

text \<open>
  \<^verbatim>\<open>fk_poll_remove\<close> fills the place of a removed descriptor with the last entry but corrects the place in
  \<^verbatim>\<open>fd2idx\<close> of neither: after descriptors 3 and 4 have been added and 3 removed, 4 can no longer be removed, and 3
  cannot be added again, because its old place now belongs to 4.\<close>

theorem poll_stale_index:
  "(case fk_poll_add (fk_poll_create 8) 3 FK_IOEV_READ of Some (EV_OK, x1) \<Rightarrow>
      (case fk_poll_add x1 4 FK_IOEV_READ of Some (EV_OK, x2) \<Rightarrow>
         (case fk_poll_remove x2 3 FK_IOEV_READ of Some (EV_OK, x3) \<Rightarrow>
            map pfd_fd (take (nat (plast x3)) (evlist x3)) = [4]
            \<and> fk_poll_remove x3 4 FK_IOEV_READ = Some (EV_ERR, x3)
            \<and> fk_poll_add x3 3 FK_IOEV_READ = Some (EV_ERR, x3)
          | _ \<Rightarrow> False) | _ \<Rightarrow> False) | _ \<Rightarrow> False)"
  by (simp add: fk_poll_add_def fk_poll_remove_def fk_poll_create_def poll_evs_def poll_consts ev_consts tab_get_def tab_set_def
      nth_opt_def Let_def numeral_eq_Suc)

end
