(* ===== verification/Fk_Conf.thy ===== *)
theory Fk_Conf
  imports Fk_State
begin

text \<open>
  \<^verbatim>\<open>fk_conf.c\<close>: the configuration file. The text of the file is a string and \<^verbatim>\<open>getline\<close> a function on
  the part that has not been read. An error of the file is a value of \<open>conf_err\<close> (the source prints it and
  ends the process); a read behind the end of the line buffer is \<open>None\<close>.
\<close>

section \<open>Settings and lines\<close>

text \<open>\<^verbatim>\<open>setting\<close> with all its fields; the ones the server uses later are those of \<^typ>\<open>fk_conf\<close>.\<close>

record fk_setting = fk_conf +
  port :: int
  addr :: string
  daemon :: int
  log_level :: int
  log_path :: string
  pid_path :: string
  dir :: string
  conf_dbcnt :: int
  blog_file :: string

definition FK_LOG_ERROR :: int where
  "FK_LOG_ERROR = 0"

definition FK_LOG_WARN :: int where
  "FK_LOG_WARN = 1"

definition FK_LOG_INFO :: int where
  "FK_LOG_INFO = 2"

definition FK_LOG_DEBUG :: int where
  "FK_LOG_DEBUG = 3"

lemmas log_consts = FK_LOG_ERROR_def FK_LOG_WARN_def FK_LOG_INFO_def FK_LOG_DEBUG_def

definition FK_CONF_MAX_FIELDS :: nat where
  "FK_CONF_MAX_FIELDS = 5"

record fk_cfline =
  line_no :: nat
  cnt :: nat
  cbuf :: string
  flds :: "string option list"

datatype conf_err = Read_failed | Too_many_fields | No_such_cmd | Wrong_field_cnt | Bad_number | No_such_level

type_synonym conf_handler = "fk_cfline \<Rightarrow> fk_setting \<Rightarrow> (conf_err + fk_setting) option"

definition fk_cfline_create :: fk_cfline where
  "fk_cfline_create = \<lparr>line_no = 0, cnt = 0, cbuf = [], flds = replicate FK_CONF_MAX_FIELDS None\<rparr>"

definition fk_conf_reset_line :: "fk_cfline \<Rightarrow> fk_cfline" where
  "fk_conf_reset_line line = line\<lparr>line_no := 0, cnt := 0, cbuf := [], flds := map (\<lambda>_. None) (flds line)\<rparr>"

text \<open>\<^verbatim>\<open>strcasecmp\<close> of two C strings, which is only tested for 0.\<close>

definition strcase_eq :: "string \<Rightarrow> string \<Rightarrow> bool" where
  "strcase_eq s t \<longleftrightarrow> map char_lower (cstr s) = map char_lower (cstr t)"

section \<open>Directives\<close>

definition field :: "fk_cfline \<Rightarrow> nat \<Rightarrow> string option" where
  "field line i = do { f \<leftarrow> nth_opt (flds line) i; f }"

definition fk_conf_parse_port :: conf_handler where
  "fk_conf_parse_port line st =
     do { v \<leftarrow> field line 1;
          if \<not> fk_str_is_positive v then Some (Inl Bad_number)
          else (let p = atoi (cstr v)
                in if p \<le> 0 \<or> p > 65535 then Some (Inl Bad_number) else Some (Inr (st\<lparr>port := p\<rparr>))) }"

definition fk_conf_parse_daemon :: conf_handler where
  "fk_conf_parse_daemon line st = Some (Inr (st\<lparr>daemon := 1\<rparr>))"

definition fk_conf_parse_dump :: conf_handler where
  "fk_conf_parse_dump line st = Some (Inr (st\<lparr>dump := 1\<rparr>))"

definition fk_conf_parse_pidpath :: conf_handler where
  "fk_conf_parse_pidpath line st = do { v \<leftarrow> field line 1; Some (Inr (st\<lparr>pid_path := v\<rparr>)) }"

definition fk_conf_parse_logpath :: conf_handler where
  "fk_conf_parse_logpath line st = do { v \<leftarrow> field line 1; Some (Inr (st\<lparr>log_path := v\<rparr>)) }"

definition fk_conf_parse_dbfile :: conf_handler where
  "fk_conf_parse_dbfile line st = do { v \<leftarrow> field line 1; Some (Inr (st\<lparr>db_file := v\<rparr>)) }"

definition fk_conf_parse_maxconn :: conf_handler where
  "fk_conf_parse_maxconn line st =
     do { v \<leftarrow> field line 1;
          if \<not> fk_str_is_positive v then Some (Inl Bad_number)
          else Some (Inr (st\<lparr>max_conns := atoi (cstr v)\<rparr>)) }"

definition fk_conf_parse_dbcnt :: conf_handler where
  "fk_conf_parse_dbcnt line st =
     do { v \<leftarrow> field line 1;
          if \<not> fk_str_is_positive v then Some (Inl Bad_number)
          else Some (Inr (st\<lparr>conf_dbcnt := atoi (cstr v) mod 2 ^ 32\<rparr>)) }"

definition fk_conf_parse_addr :: conf_handler where
  "fk_conf_parse_addr line st = do { v \<leftarrow> field line 1; Some (Inr (st\<lparr>addr := v\<rparr>)) }"

definition fk_conf_parse_loglevel :: conf_handler where
  "fk_conf_parse_loglevel line st =
     do { level \<leftarrow> field line 1;
          if strcase_eq level ''debug'' then Some (Inr (st\<lparr>log_level := FK_LOG_DEBUG\<rparr>))
          else if strcase_eq level ''info'' then Some (Inr (st\<lparr>log_level := FK_LOG_INFO\<rparr>))
          else if strcase_eq level ''warnning'' then Some (Inr (st\<lparr>log_level := FK_LOG_WARN\<rparr>))
          else if strcase_eq level ''error'' then Some (Inr (st\<lparr>log_level := FK_LOG_ERROR\<rparr>))
          else Some (Inl No_such_level) }"

definition fk_conf_parse_timeout :: conf_handler where
  "fk_conf_parse_timeout line st =
     do { v \<leftarrow> field line 1;
          if \<not> fk_str_is_positive v then Some (Inl Bad_number)
          else Some (Inr (st\<lparr>timeout := atoi (cstr v)\<rparr>)) }"

definition fk_conf_parse_dir :: conf_handler where
  "fk_conf_parse_dir line st = do { v \<leftarrow> field line 1; Some (Inr (st\<lparr>dir := v\<rparr>)) }"

definition fk_conf_parse_maxwbuf :: conf_handler where
  "fk_conf_parse_maxwbuf line st =
     do { v \<leftarrow> field line 1;
          if \<not> fk_str_is_positive v then Some (Inl Bad_number)
          else Some (Inr (st\<lparr>max_wbuf := size_of_int (atoi (cstr v))\<rparr>)) }"

definition fk_conf_parse_blogfile :: conf_handler where
  "fk_conf_parse_blogfile line st = do { v \<leftarrow> field line 1; Some (Inr (st\<lparr>blog_file := v\<rparr>)) }"

definition fk_conf_parse_blogon :: conf_handler where
  "fk_conf_parse_blogon line st = Some (Inr (st\<lparr>blog_on := 1\<rparr>))"

definition dtv_map :: "(string \<times> nat \<times> conf_handler) list" where
  "dtv_map =
    [(''port'', 2, fk_conf_parse_port), (''daemon'', 1, fk_conf_parse_daemon), (''pidpath'', 2, fk_conf_parse_pidpath),
     (''logpath'', 2, fk_conf_parse_logpath), (''dump'', 1, fk_conf_parse_dump), (''dbfile'', 2, fk_conf_parse_dbfile),
     (''dir'', 2, fk_conf_parse_dir), (''loglevel'', 2, fk_conf_parse_loglevel), (''maxconn'', 2, fk_conf_parse_maxconn),
     (''dbcnt'', 2, fk_conf_parse_dbcnt), (''timeout'', 2, fk_conf_parse_timeout), (''addr'', 2, fk_conf_parse_addr),
     (''maxwbuf'', 2, fk_conf_parse_maxwbuf), (''blogfile'', 2, fk_conf_parse_blogfile), (''blogon'', 1, fk_conf_parse_blogon)]"

definition fk_conf_search :: "string \<Rightarrow> (string \<times> nat \<times> conf_handler) option" where
  "fk_conf_search name = find (\<lambda>(n, _). strcase_eq name n) dtv_map"

definition fk_conf_proc_line :: conf_handler where
  "fk_conf_proc_line line st =
     (if cnt line = 0 then Some (Inr st)
      else do { cmd \<leftarrow> field line 0;
                case fk_conf_search cmd of
                  None \<Rightarrow> Some (Inl No_such_cmd)
                | Some (_, field_cnt, handler) \<Rightarrow>
                    if field_cnt \<noteq> cnt line then Some (Inl Wrong_field_cnt) else handler line st })"

section \<open>Lines and files\<close>

abbreviation (input) newline :: char where
  "newline \<equiv> CHR 0x0A"

definition is_blank :: "char \<Rightarrow> bool" where
  "is_blank c \<longleftrightarrow> c = CHR '' '' \<or> c = CHR 0x09"

partial_function (option) skip_blank :: "string \<Rightarrow> nat \<Rightarrow> nat option" where
  "skip_blank buf i = do { c \<leftarrow> nth_opt buf i; if is_blank c then skip_blank buf (i + 1) else Some i }"

partial_function (option) token_end :: "string \<Rightarrow> nat \<Rightarrow> nat option" where
  "token_end buf i =
     do { c \<leftarrow> nth_opt buf i; if \<not> is_blank c \<and> c \<noteq> newline \<and> c \<noteq> CHR ''#'' then token_end buf (i + 1) else Some i }"

partial_function (option) parse_fields :: "nat \<Rightarrow> fk_cfline \<Rightarrow> (conf_err + fk_cfline) option" where
  "parse_fields i line =
     do { c \<leftarrow> nth_opt (cbuf line) i;
          if c = newline then Some (Inr line)
          else if cnt line = FK_CONF_MAX_FIELDS then Some (Inl Too_many_fields)
          else
            do { start \<leftarrow> skip_blank (cbuf line) i;
                 c1 \<leftarrow> nth_opt (cbuf line) start;
                 if c1 = CHR ''#'' \<or> c1 = newline then Some (Inr line)
                 else
                   do { fin \<leftarrow> token_end (cbuf line) start;
                        tok \<leftarrow> mem_slice (cbuf line) start (fin - start);
                        fs \<leftarrow> upd_opt (flds line) (cnt line) (Some tok);
                        parse_fields fin (line\<lparr>flds := fs, cnt := cnt line + 1\<rparr>) } } }"

declare skip_blank.simps [code] token_end.simps [code] parse_fields.simps [code]

definition fk_conf_parse_line :: "fk_cfline \<Rightarrow> (conf_err + fk_cfline) option" where
  "fk_conf_parse_line line = parse_fields 0 line"

text \<open>\<^verbatim>\<open>getline\<close> on the rest of a file: the line with its newline, if it has one, and what follows.\<close>

definition getline :: "string \<Rightarrow> string \<times> string" where
  "getline rest =
     (case dropWhile (\<lambda>c. c \<noteq> newline) rest of
        [] \<Rightarrow> (rest, [])
      | c # rest' \<Rightarrow> (takeWhile (\<lambda>c. c \<noteq> newline) rest @ [c], rest'))"

text \<open>The buffer holds the line and a NUL; \<open>ok n\<close> says whether the read of line \<open>n\<close> succeeds.\<close>

definition fk_conf_read_line :: "(nat \<Rightarrow> bool) \<Rightarrow> fk_cfline \<Rightarrow> string \<Rightarrow> conf_err + fk_cfline \<times> string" where
  "fk_conf_read_line ok line rest =
     (if ok (line_no line) then (let (l, rest') = getline rest in Inr (line\<lparr>cbuf := l @ [CHR 0x00]\<rparr>, rest')) else Inl Read_failed)"

lemma getline_shorter: "rest \<noteq> [] \<Longrightarrow> length (snd (getline rest)) < length rest"
  using length_dropWhile_le [of "\<lambda>c. c \<noteq> newline" rest] by (auto simp: getline_def split: list.splits)

lemma read_line_shorter:
  "fk_conf_read_line ok line rest = Inr (line1, rest') \<Longrightarrow> rest \<noteq> [] \<Longrightarrow> length rest' < length rest"
  using getline_shorter [of rest] by (auto simp: fk_conf_read_line_def split: if_splits prod.splits)

function parse_lines :: "(nat \<Rightarrow> bool) \<Rightarrow> nat \<Rightarrow> fk_cfline \<Rightarrow> string \<Rightarrow> fk_setting \<Rightarrow> (conf_err + fk_setting) option" where
  "parse_lines ok line_num line rest st =
     (if rest = [] then Some (Inr st)
      else
        (case fk_conf_read_line ok ((fk_conf_reset_line line)\<lparr>line_no := line_num + 1\<rparr>) rest of
           Inl e \<Rightarrow> Some (Inl e)
         | Inr (line1, rest') \<Rightarrow>
             (case fk_conf_parse_line line1 of
                None \<Rightarrow> None
              | Some (Inl e) \<Rightarrow> Some (Inl e)
              | Some (Inr line2) \<Rightarrow>
                  (case fk_conf_proc_line line2 st of
                     None \<Rightarrow> None
                   | Some (Inl e) \<Rightarrow> Some (Inl e)
                   | Some (Inr st') \<Rightarrow> parse_lines ok (line_num + 1) line2 rest' st'))))"
  by pat_completeness auto
termination
  by (relation "measure (\<lambda>(ok, n, line, rest, st). length rest)") (auto simp: read_line_shorter)

declare parse_lines.simps [simp del]

definition fk_conf_parse_file :: "(nat \<Rightarrow> bool) \<Rightarrow> string option \<Rightarrow> fk_setting \<Rightarrow> (conf_err + fk_setting) option" where
  "fk_conf_parse_file ok text st =
     (case text of
        None \<Rightarrow> Some (Inl Read_failed)
      | Some txt \<Rightarrow> parse_lines ok 0 fk_cfline_create txt st)"

text \<open>\<^verbatim>\<open>sizeof\<close> of a literal counts its NUL; the default log file gets the length of the one of the snapshot.\<close>

definition fk_conf_default :: "fk_setting option" where
  "fk_conf_default =
     do { log \<leftarrow> fk_str_create ''/tmp/freekick.log'' (length ''/tmp/freekick.log'');
          pid \<leftarrow> fk_str_create ''/tmp/freekick.pid'' (length ''/tmp/freekick.pid'');
          dbf \<leftarrow> fk_str_create ''/tmp/freekick.db'' (length ''/tmp/freekick.db'');
          ad \<leftarrow> fk_str_create ''0.0.0.0'' (length ''0.0.0.0'');
          d \<leftarrow> fk_str_create ''/tmp/'' (length ''/tmp/'');
          blg \<leftarrow> fk_str_create ''/tmp/freekick.blog'' (length ''/tmp/freekick.db'');
          Some \<lparr>max_conns = 10240, timeout = 300, dump = 0, db_file = dbf, max_wbuf = 4096, blog_on = 0,
                port = 6379, addr = ad, daemon = 0, log_level = FK_LOG_DEBUG, log_path = log, pid_path = pid, dir = d,
                conf_dbcnt = 1, blog_file = blg\<rparr> }"

text \<open>\<open>text\<close> is \<open>None\<close> without a configuration file, and \<open>Some None\<close> when the file cannot be opened. An error ends
  the process.\<close>

definition fk_conf_init :: "(nat \<Rightarrow> bool) \<Rightarrow> string option option \<Rightarrow> (conf_err + fk_setting) option" where
  "fk_conf_init ok path =
     do { st \<leftarrow> fk_conf_default;
          case path of None \<Rightarrow> Some (Inr st) | Some text \<Rightarrow> fk_conf_parse_file ok text st }"

section \<open>Words\<close>

text \<open>The words of a line: what stands between blanks, up to a comment.\<close>

definition is_word_char :: "char \<Rightarrow> bool" where
  "is_word_char c \<longleftrightarrow> \<not> is_blank c \<and> c \<noteq> CHR ''#''"

function conf_words :: "string \<Rightarrow> string list" where
  "conf_words s =
     (let t = dropWhile is_blank s
      in if t = [] \<or> hd t = CHR ''#'' then []
         else takeWhile is_word_char t # conf_words (dropWhile is_word_char t))"
  by pat_completeness auto
termination
proof (relation "measure length")
  fix s t
  assume t: "t = dropWhile is_blank s" "\<not> (t = [] \<or> hd t = CHR ''#'')"
  then have "is_word_char (hd t)"
    using hd_dropWhile [of is_blank s] by (auto simp: is_word_char_def)
  then have "length (dropWhile is_word_char t) < length t"
    using t(2) length_dropWhile_le [of is_word_char "tl t"] by (cases t) auto
  also have "\<dots> \<le> length s"
    using t(1) length_dropWhile_le by blast
  finally show "(dropWhile is_word_char t, s) \<in> measure length"
    by simp
qed simp

declare conf_words.simps [simp del]

lemma skip_blank_spec:
  "\<forall>c \<in> set bl. is_blank c \<Longrightarrow> \<not> is_blank c \<Longrightarrow> skip_blank (pre @ bl @ c # post) (length pre) = Some (length pre + length bl)"
proof (induction bl arbitrary: pre)
  case Nil
  then show ?case
    by (subst skip_blank.simps) (simp add: nth_opt_def)
next
  case (Cons b bl)
  then show ?case
    using Cons.IH [of "pre @ [b]"] by (subst skip_blank.simps) (simp add: nth_opt_def)
qed

lemma token_end_spec:
  "\<forall>c \<in> set w. is_word_char c \<and> c \<noteq> newline \<Longrightarrow> \<not> is_word_char c \<or> c = newline \<Longrightarrow>
     token_end (pre @ w @ c # post) (length pre) = Some (length pre + length w)"
proof (induction w arbitrary: pre)
  case Nil
  then show ?case
    by (subst token_end.simps) (auto simp: nth_opt_def is_word_char_def)
next
  case (Cons b w)
  then show ?case
    using Cons.IH [of "pre @ [b]"] by (subst token_end.simps) (simp add: nth_opt_def is_word_char_def)
qed

lemma token_end_none: "\<forall>c \<in> set w. is_word_char c \<and> c \<noteq> newline \<Longrightarrow> token_end (pre @ w) (length pre) = None"
proof (induction w arbitrary: pre)
  case Nil
  then show ?case
    by (subst token_end.simps) (auto simp: nth_opt_def)
next
  case (Cons b w)
  then show ?case
    using Cons.IH [of "pre @ [b]"] by (subst token_end.simps) (simp add: nth_opt_def is_word_char_def)
qed

text \<open>The fields of a line that holds the words \<open>ws\<close>.\<close>

definition holds :: "fk_cfline \<Rightarrow> string list \<Rightarrow> bool" where
  "holds line ws \<longleftrightarrow> cnt line = length ws \<and> length ws \<le> FK_CONF_MAX_FIELDS
     \<and> flds line = map Some ws @ replicate (FK_CONF_MAX_FIELDS - length ws) None"

lemma holds_add:
  assumes "holds line ws" and "length ws < FK_CONF_MAX_FIELDS"
  shows "\<exists>fs. upd_opt (flds line) (cnt line) (Some w) = Some fs \<and> holds (line\<lparr>flds := fs, cnt := cnt line + 1\<rparr>) (ws @ [w])"
proof -
  obtain k where "FK_CONF_MAX_FIELDS - length ws = Suc k" "FK_CONF_MAX_FIELDS - Suc (length ws) = k"
    using assms(2) by (metis Suc_diff_Suc)
  then show ?thesis
    using assms by (auto simp: holds_def upd_opt_def list_update_append)
qed

lemma conf_words_cons:
  assumes "s = bl @ w @ u" and "\<forall>c \<in> set bl. is_blank c" and "w \<noteq> []" and "\<forall>c \<in> set w. is_word_char c"
    and "u = [] \<or> \<not> is_word_char (hd u)"
  shows "conf_words s = w # conf_words u"
proof -
  have w: "\<not> is_blank (hd w)" "hd w \<noteq> CHR ''#''"
    using assms(3,4) by (auto simp: is_word_char_def dest: hd_in_set)
  then have "dropWhile is_blank s = w @ u"
    using assms(1-3) by (cases w) auto
  moreover have "takeWhile is_word_char (w @ u) = w" "dropWhile is_word_char (w @ u) = u"
    using assms(4,5) by (cases u; simp)+
  ultimately show ?thesis
    using w assms(3) by (subst conf_words.simps) simp
qed

lemma line_cases [case_names blank comment word]:
  assumes "newline \<notin> set s"
  obtains "\<forall>c \<in> set s. is_blank c" "conf_words s = []"
  | bl u where "s = bl @ CHR ''#'' # u" "\<forall>c \<in> set bl. is_blank c" "conf_words s = []"
  | bl w u where "s = bl @ w @ u" "\<forall>c \<in> set bl. is_blank c" "w \<noteq> []" "\<forall>c \<in> set w. is_word_char c \<and> c \<noteq> newline"
      "u = [] \<or> \<not> is_word_char (hd u)" "conf_words s = w # conf_words u" "length u < length s"
proof -
  let ?bl = "takeWhile is_blank s" and ?t = "dropWhile is_blank s"
  have s: "s = ?bl @ ?t" and bl: "\<forall>c \<in> set ?bl. is_blank c"
    by (auto dest: set_takeWhileD)
  show ?thesis
  proof (cases ?t)
    case Nil
    then have "\<forall>c \<in> set s. is_blank c"
      by simp
    moreover have "conf_words s = []"
      using Nil by (subst conf_words.simps) simp
    ultimately show ?thesis
      using that(1) by blast
  next
    case (Cons c t')
    show ?thesis
    proof (cases "c = CHR ''#''")
      case True
      then have "conf_words s = []"
        using Cons by (subst conf_words.simps) simp
      then show ?thesis
        using that(2) [of ?bl t'] s bl Cons True by metis
    next
      case False
      let ?w = "takeWhile is_word_char ?t" and ?u = "dropWhile is_word_char ?t"
      have "\<not> is_blank c"
        using hd_dropWhile [of is_blank s] Cons by simp
      then have w: "?w \<noteq> []"
        using False Cons by (simp add: is_word_char_def)
      have split: "s = ?bl @ ?w @ ?u"
        using s by simp
      have chars: "\<forall>c \<in> set ?w. is_word_char c \<and> c \<noteq> newline"
        using assms split by (metis UnCI set_append set_takeWhileD)
      have u: "?u = [] \<or> \<not> is_word_char (hd ?u)"
        using hd_dropWhile by blast
      have "length ?u < length s"
      proof -
        have "length s = length ?bl + length ?w + length ?u"
          using split by (metis add.assoc length_append)
        then show ?thesis
          using length_greater_0_conv [THEN iffD2, OF w] by linarith
      qed
      then show ?thesis
        using that(3) [OF split bl w chars u conf_words_cons [OF split bl w _ u]] chars by blast
    qed
  qed
qed

lemma parse_fields_step:
  assumes "nth_opt (cbuf line) i = Some c" and "c \<noteq> newline" and "cnt line \<noteq> FK_CONF_MAX_FIELDS"
  shows "parse_fields i line =
    do { start \<leftarrow> skip_blank (cbuf line) i;
         c1 \<leftarrow> nth_opt (cbuf line) start;
         if c1 = CHR ''#'' \<or> c1 = newline then Some (Inr line)
         else
           do { fin \<leftarrow> token_end (cbuf line) start;
                tok \<leftarrow> mem_slice (cbuf line) start (fin - start);
                fs \<leftarrow> upd_opt (flds line) (cnt line) (Some tok);
                parse_fields fin (line\<lparr>flds := fs, cnt := cnt line + 1\<rparr>) } }"
  using assms by (subst parse_fields.simps) simp

lemma parse_fields_word:
  assumes buf: "cbuf line = pre @ bl @ w @ d # r" and d: "\<not> is_word_char d \<or> d = newline"
    and bl: "\<forall>c \<in> set bl. is_blank c" and w: "w \<noteq> []" "\<forall>c \<in> set w. is_word_char c \<and> c \<noteq> newline"
    and ws: "holds line ws" "length ws < FK_CONF_MAX_FIELDS"
  shows "\<exists>line'. parse_fields (length pre) line = parse_fields (length (pre @ bl @ w)) line'
    \<and> holds line' (ws @ [w]) \<and> cbuf line' = cbuf line"
proof -
  obtain b w' where b: "w = b # w'" "\<not> is_blank b" "b \<noteq> CHR ''#''" "b \<noteq> newline"
    using w by (cases w) (auto simp: is_word_char_def)
  have hd: "nth_opt (cbuf line) (length pre) = Some (hd (bl @ w))"
    using b(1) unfolding buf by (cases bl) (simp_all add: nth_opt_def)
  have nl: "hd (bl @ w) \<noteq> newline"
    using bl b(1,4) by (cases bl) (auto simp: is_blank_def)
  note step = parse_fields_step [OF hd nl]
  have "skip_blank (cbuf line) (length pre) = Some (length pre + length bl)"
    using skip_blank_spec [of bl b pre "w' @ d # r"] bl b buf by simp
  moreover have "nth_opt (cbuf line) (length pre + length bl) = Some b"
    unfolding buf using b(1) by (simp add: nth_opt_def nth_append)
  moreover have "token_end (cbuf line) (length pre + length bl) = Some (length pre + length bl + length w)"
    using token_end_spec [of w d "pre @ bl" r] w(2) d buf by simp
  moreover have "mem_slice (cbuf line) (length pre + length bl) (length w) = Some w"
    unfolding buf by (simp add: mem_slice_def)
  moreover obtain fs where fs: "upd_opt (flds line) (cnt line) (Some w) = Some fs"
      "holds (line\<lparr>flds := fs, cnt := cnt line + 1\<rparr>) (ws @ [w])"
    using holds_add [OF ws] by blast
  ultimately have "parse_fields (length pre) line = parse_fields (length (pre @ bl @ w)) (line\<lparr>flds := fs, cnt := cnt line + 1\<rparr>)"
    using step b ws by (simp add: add.assoc holds_def)
  then show ?thesis
    using fs(2) by (intro exI [of _ "line\<lparr>flds := fs, cnt := cnt line + 1\<rparr>"]) simp
qed

text \<open>The outcome of a line with the words \<open>ws\<close>: they are the fields, or there are too many of them.\<close>

fun fields_res :: "conf_err + fk_cfline \<Rightarrow> string list \<Rightarrow> bool" where
  "fields_res (Inl e) ws \<longleftrightarrow> e = Too_many_fields \<and> FK_CONF_MAX_FIELDS \<le> length ws"
| "fields_res (Inr line) ws \<longleftrightarrow> holds line ws"

lemma parse_fields_words:
  assumes "newline \<notin> set s" and "cbuf line = pre @ s @ newline # post" and "holds line ws"
  shows "\<exists>r. parse_fields (length pre) line = Some r \<and> fields_res r (ws @ conf_words s)"
  using assms
proof (induction "length s" arbitrary: s pre line ws rule: less_induct)
  case less
  note buf = less.prems(2) and ws = less.prems(3)
  have c: "nth_opt (cbuf line) (length pre) = Some (hd (s @ newline # post))"
    unfolding buf by (cases s) (simp_all add: nth_opt_def)
  consider "s = []" | "s \<noteq> []" "length ws = FK_CONF_MAX_FIELDS" | "s \<noteq> []" "length ws < FK_CONF_MAX_FIELDS"
    using ws by (metis holds_def le_neq_implies_less)
  then show ?case
  proof cases
    case 1
    then show ?thesis
      using c ws by (subst parse_fields.simps) (simp add: conf_words.simps)
  next
    case 2
    then have "hd s \<noteq> newline"
      using less.prems(1) hd_in_set by metis
    then show ?thesis
      using 2 c ws by (subst parse_fields.simps) (simp add: holds_def)
  next
    case 3
    then have hd: "hd s \<noteq> newline" and n: "cnt line \<noteq> FK_CONF_MAX_FIELDS"
      using less.prems(1) ws by (auto simp: holds_def dest: hd_in_set)
    have "nth_opt (cbuf line) (length pre) = Some (hd s)"
      using c 3(1) by simp
    note step = parse_fields_step [OF this hd n]
    from less.prems(1) show ?thesis
    proof (cases s rule: line_cases)
      case blank
      then show ?thesis
        using ws skip_blank_spec [of s newline pre post] unfolding step buf by (simp add: nth_opt_def is_blank_def)
    next
      case (comment bl u)
      then show ?thesis
        using ws skip_blank_spec [of bl "CHR ''#''" pre "u @ newline # post"] unfolding step buf by (simp add: nth_opt_def is_blank_def)
    next
      case (word bl w u)
      obtain d r where d: "u @ newline # post = d # r" "\<not> is_word_char d \<or> d = newline"
        using word(5) by (cases u) auto
      have buf': "cbuf line = pre @ bl @ w @ d # r" "cbuf line = (pre @ bl @ w) @ u @ newline # post"
        using buf word(1) d(1) by simp_all
      obtain line' where l: "parse_fields (length pre) line = parse_fields (length (pre @ bl @ w)) line'"
          "holds line' (ws @ [w])" "cbuf line' = cbuf line"
        using parse_fields_word [OF buf'(1) d(2) word(2-4) ws 3(2)] by blast
      have "newline \<notin> set u"
        using less.prems(1) word(1) by simp
      then show ?thesis
        using less.hyps [OF word(7) _ _ l(2), of "pre @ bl @ w"] l(1,3) buf'(2) word(6) by simp
    qed
  qed
qed

section \<open>The meaning of a file\<close>

text \<open>A line sets a field of the settings. A number starts with a digit other than 0; its value is the one
  \<^verbatim>\<open>atoi\<close> gives it, also beyond the range of \<^verbatim>\<open>int\<close>.\<close>

definition positive :: "string \<Rightarrow> bool" where
  "positive v \<longleftrightarrow> v \<noteq> [] \<and> hd v \<noteq> CHR ''0'' \<and> (\<forall>c \<in> set v. is_digit c)"

definition int_val :: "string \<Rightarrow> int" where
  "int_val v = s32 (clamp64 (digits_val 0 v))"

definition lower :: "string \<Rightarrow> string" where
  "lower w = map char_lower w"

definition a_level :: "string \<Rightarrow> int option" where
  "a_level v = map_of [(''debug'', 3), (''info'', 2), (''warnning'', 1), (''error'', 0)] (lower v)"

definition a_flag :: "string \<Rightarrow> (fk_setting \<Rightarrow> fk_setting) option" where
  "a_flag n = map_of [(''daemon'', daemon_update (\<lambda>_. 1)), (''dump'', dump_update (\<lambda>_. 1)), (''blogon'', blog_on_update (\<lambda>_. 1))] n"

definition a_path :: "string \<Rightarrow> (string \<Rightarrow> fk_setting \<Rightarrow> fk_setting) option" where
  "a_path n = map_of
     [(''pidpath'', \<lambda>v. pid_path_update (\<lambda>_. v)), (''logpath'', \<lambda>v. log_path_update (\<lambda>_. v)), (''dbfile'', \<lambda>v. db_file_update (\<lambda>_. v)),
      (''dir'', \<lambda>v. dir_update (\<lambda>_. v)), (''addr'', \<lambda>v. addr_update (\<lambda>_. v)), (''blogfile'', \<lambda>v. blog_file_update (\<lambda>_. v))] n"

definition a_number :: "string \<Rightarrow> (int \<Rightarrow> fk_setting \<Rightarrow> fk_setting) option" where
  "a_number n = map_of
     [(''maxconn'', \<lambda>k. max_conns_update (\<lambda>_. k)), (''dbcnt'', \<lambda>k. conf_dbcnt_update (\<lambda>_. k mod 2 ^ 32)),
      (''timeout'', \<lambda>k. timeout_update (\<lambda>_. k)), (''maxwbuf'', \<lambda>k. max_wbuf_update (\<lambda>_. size_of_int k))] n"

fun a_conf_line :: "string list \<Rightarrow> fk_setting \<Rightarrow> fk_setting option" where
  "a_conf_line [] st = Some st"
| "a_conf_line [w] st = map_option (\<lambda>f. f st) (a_flag (lower w))"
| "a_conf_line [w, v] st =
     (if lower w = ''port'' then if positive v \<and> 0 < int_val v \<and> int_val v \<le> 65535 then Some (st\<lparr>port := int_val v\<rparr>) else None
      else if lower w = ''loglevel'' then map_option (\<lambda>l. st\<lparr>log_level := l\<rparr>) (a_level v)
      else case a_path (lower w) of
             Some f \<Rightarrow> Some (f v st)
           | None \<Rightarrow> (case a_number (lower w) of
               Some f \<Rightarrow> if positive v then Some (f (int_val v) st) else None
             | None \<Rightarrow> None))"
| "a_conf_line (_ # _ # _ # _) st = None"

fun a_conf :: "string list \<Rightarrow> fk_setting \<Rightarrow> fk_setting option" where
  "a_conf [] st = Some st"
| "a_conf (l # ls) st = do { st' \<leftarrow> a_conf_line (conf_words l) st; a_conf ls st' }"

text \<open>The result of the program agrees with the meaning.\<close>

definition agrees :: "(conf_err + 'a) option \<Rightarrow> 'a option \<Rightarrow> bool" where
  "agrees r a \<longleftrightarrow> (case r of None \<Rightarrow> False | Some (Inl _) \<Rightarrow> a = None | Some (Inr x) \<Rightarrow> a = Some x)"

lemma agrees_simps [simp]: "agrees (Some (Inl e)) a \<longleftrightarrow> a = None" "agrees (Some (Inr x)) a \<longleftrightarrow> a = Some x" "\<not> agrees None a"
  by (simp_all add: agrees_def)

lemma str_positive: "fk_str_is_positive v \<longleftrightarrow> positive v"
  by (auto simp: fk_str_is_positive_def positive_def positive_seq_iff Suc_le_eq)

lemma cstr_no_nul: "CHR 0x00 \<notin> set s \<Longrightarrow> cstr s = s"
  by (auto simp: cstr_def)

lemma positive_atoi:
  assumes "positive v"
  shows "atoi (cstr v) = int_val v"
proof -
  have digits: "\<forall>c \<in> set v. is_digit c" "v \<noteq> []"
    using assms by (auto simp: positive_def)
  have "schar (CHR 0x00) = 0"
    by (simp add: schar_def)
  then have "CHR 0x00 \<notin> set v"
    using digits(1) unfolding is_digit_def by force
  moreover have "is_digit (hd v)"
    using digits by simp
  ultimately show ?thesis
    using digits(2) by (simp add: atoi_def int_val_def cstr_no_nul strtol_digits)
qed

lemma directive_names: "map (\<lambda>(n, _). lower (cstr n)) dtv_map = map fst dtv_map"
  unfolding dtv_map_def list.map prod.case fst_conv by code_simp

lemma search_lower:
  assumes "CHR 0x00 \<notin> set w"
  shows "fk_conf_search w = find (\<lambda>(n, _). lower w = n) dtv_map"
proof -
  have "lower (cstr (fst d)) = fst d" if "d \<in> set dtv_map" for d
    using that directive_names by (auto simp: split_beta)
  then have "find (\<lambda>(n, _). strcase_eq w n) dtv_map = find (\<lambda>(n, _). lower w = n) dtv_map"
    using assms by (intro find_cong) (auto simp: strcase_eq_def lower_def cstr_no_nul)
  then show ?thesis
    by (simp add: fk_conf_search_def)
qed

lemmas conf_handler_defs =
  fk_conf_parse_port_def fk_conf_parse_daemon_def fk_conf_parse_pidpath_def fk_conf_parse_logpath_def fk_conf_parse_dump_def
  fk_conf_parse_dbfile_def fk_conf_parse_dir_def fk_conf_parse_maxconn_def fk_conf_parse_dbcnt_def
  fk_conf_parse_timeout_def fk_conf_parse_addr_def fk_conf_parse_maxwbuf_def fk_conf_parse_blogfile_def fk_conf_parse_blogon_def

lemmas a_conf_defs = a_flag_def a_path_def a_number_def

lemma holds_field: "holds line ws \<Longrightarrow> i < length ws \<Longrightarrow> field line i = Some (ws ! i)"
  by (simp add: holds_def field_def nth_opt_def nth_append)

lemma level_agrees:
  assumes "field line 1 = Some v" and "CHR 0x00 \<notin> set v"
  shows "agrees (fk_conf_parse_loglevel line st) (map_option (\<lambda>l. st\<lparr>log_level := l\<rparr>) (a_level v))"
proof -
  have "map char_lower (cstr ''debug'') = ''debug''" "map char_lower (cstr ''info'') = ''info''"
    "map char_lower (cstr ''warnning'') = ''warnning''" "map char_lower (cstr ''error'') = ''error''"
    by code_simp+
  then have "strcase_eq v ''debug'' \<longleftrightarrow> lower v = ''debug''" "strcase_eq v ''info'' \<longleftrightarrow> lower v = ''info''"
    "strcase_eq v ''warnning'' \<longleftrightarrow> lower v = ''warnning''" "strcase_eq v ''error'' \<longleftrightarrow> lower v = ''error''"
    using assms(2) by (simp_all add: strcase_eq_def lower_def cstr_no_nul)
  then show ?thesis
    using assms(1) by (simp add: fk_conf_parse_loglevel_def a_level_def log_consts)
qed

lemma flag_agrees:
  assumes "holds line [w]" and "CHR 0x00 \<notin> set w"
  shows "agrees (fk_conf_proc_line line st) (a_conf_line [w] st)"
proof -
  have "cnt line = 1" "field line 0 = Some w"
    using assms(1) holds_field [OF assms(1), of 0] by (simp_all add: holds_def)
  then show ?thesis
    using search_lower [OF assms(2)] by (simp add: fk_conf_proc_line_def dtv_map_def a_conf_defs conf_handler_defs)
qed

lemma value_agrees:
  assumes "holds line [w, v]" and "CHR 0x00 \<notin> set w" and "CHR 0x00 \<notin> set v"
  shows "agrees (fk_conf_proc_line line st) (a_conf_line [w, v] st)"
proof -
  have l: "cnt line = 2" "field line 0 = Some w" "field line (Suc 0) = Some v"
    using assms(1) holds_field [OF assms(1), of 0] holds_field [OF assms(1), of 1] by (simp_all add: holds_def)
  show ?thesis
  proof (cases "lower w = ''loglevel''")
    case True
    then have "fk_conf_proc_line line st = fk_conf_parse_loglevel line st"
      using l search_lower [OF assms(2)] by (simp add: fk_conf_proc_line_def dtv_map_def)
    then show ?thesis
      using True level_agrees [of line v st] l(3) assms(3) by simp
  next
    case False
    then show ?thesis
      using l search_lower [OF assms(2)] positive_atoi [of v]
      by (simp add: fk_conf_proc_line_def dtv_map_def a_conf_defs conf_handler_defs str_positive Let_def)
  qed
qed

lemma proc_line_agrees:
  assumes "holds line ws" and "\<forall>w \<in> set ws. CHR 0x00 \<notin> set w"
  shows "agrees (fk_conf_proc_line line st) (a_conf_line ws st)"
proof (cases "(ws, st)" rule: a_conf_line.cases)
  case (1 st)
  then show ?thesis
    using assms(1) by (simp add: fk_conf_proc_line_def holds_def)
next
  case (4 w v x ws' st)
  then have "2 < cnt line" "field line 0 = Some w" "CHR 0x00 \<notin> set w"
    using assms holds_field [OF assms(1), of 0] by (simp_all add: holds_def)
  then show ?thesis
    using 4 search_lower [of w] by (simp add: fk_conf_proc_line_def dtv_map_def)
qed (use assms flag_agrees value_agrees in auto)

lemma conf_words_chars: "w \<in> set (conf_words s) \<Longrightarrow> set w \<subseteq> set s"
proof (induction s rule: conf_words.induct)
  case (1 s)
  then show ?case
    by (subst (asm) conf_words.simps) (auto simp: Let_def split: if_splits dest!: set_takeWhileD set_dropWhileD)
qed

text \<open>A text in lines.\<close>

definition conf_text :: "string list \<Rightarrow> string" where
  "conf_text ls = concat (map (\<lambda>l. l @ [newline]) ls)"

definition line_ok :: "string \<Rightarrow> bool" where
  "line_ok l \<longleftrightarrow> newline \<notin> set l \<and> CHR 0x00 \<notin> set l"

lemma getline_line: "newline \<notin> set l \<Longrightarrow> getline (l @ newline # rest) = (l @ [newline], rest)"
proof -
  assume "newline \<notin> set l"
  then have "dropWhile (\<lambda>c. c \<noteq> newline) (l @ newline # rest) = newline # rest"
    and "takeWhile (\<lambda>c. c \<noteq> newline) (l @ newline # rest) = l"
    by (induction l) auto
  then show ?thesis
    by (simp add: getline_def)
qed

lemma reset_holds: "length (flds line) = FK_CONF_MAX_FIELDS \<Longrightarrow> holds ((fk_conf_reset_line line)\<lparr>line_no := n, cbuf := b\<rparr>) []"
  by (simp add: holds_def fk_conf_reset_line_def map_replicate_const)

lemma holds_length: "holds line ws \<Longrightarrow> length (flds line) = FK_CONF_MAX_FIELDS"
  by (simp add: holds_def)

lemma many_words: "FK_CONF_MAX_FIELDS \<le> length ws \<Longrightarrow> a_conf_line ws st = None"
  by (cases "(ws, st)" rule: a_conf_line.cases) (auto simp: FK_CONF_MAX_FIELDS_def)

text \<open>One line: an error ends the reading, otherwise it goes on behind the line.\<close>

lemma parse_lines_step:
  assumes l: "newline \<notin> set l" "CHR 0x00 \<notin> set l" and ok: "\<forall>n. ok n" and len: "length (flds line) = FK_CONF_MAX_FIELDS"
  shows "a_conf_line (conf_words l) st = None \<Longrightarrow> \<exists>e. parse_lines ok n line (l @ newline # rest) st = Some (Inl e)"
    and "a_conf_line (conf_words l) st = Some st' \<Longrightarrow> \<exists>line'. length (flds line') = FK_CONF_MAX_FIELDS
      \<and> parse_lines ok n line (l @ newline # rest) st = parse_lines ok (n + 1) line' rest st'"
proof -
  let ?line = "(fk_conf_reset_line line)\<lparr>line_no := n + 1, cbuf := l @ [newline, CHR 0x00]\<rparr>"
  have read: "fk_conf_read_line ok ((fk_conf_reset_line line)\<lparr>line_no := n + 1\<rparr>) (l @ newline # rest) = Inr (?line, rest)"
    using ok by (simp add: fk_conf_read_line_def getline_line [OF l(1)])
  obtain r where r: "fk_conf_parse_line ?line = Some r" "fields_res r (conf_words l)"
    using parse_fields_words [OF l(1), of ?line "[]" "[CHR 0x00]" "[]"] reset_holds [OF len]
    by (auto simp: fk_conf_parse_line_def)
  have words: "\<forall>w \<in> set (conf_words l). CHR 0x00 \<notin> set w"
    using conf_words_chars l(2) by blast
  have p: "agrees (fk_conf_proc_line line' st) (a_conf_line (conf_words l) st)" "length (flds line') = FK_CONF_MAX_FIELDS"
    if "r = Inr line'" for line'
    using that r(2) proc_line_agrees [OF _ words] by (auto dest: holds_length)
  show "\<exists>e. parse_lines ok n line (l @ newline # rest) st = Some (Inl e)" if "a_conf_line (conf_words l) st = None"
    using that r(1) read p
    by (subst parse_lines.simps) (auto simp: agrees_def split: sum.splits option.splits)
  show "\<exists>line'. length (flds line') = FK_CONF_MAX_FIELDS
      \<and> parse_lines ok n line (l @ newline # rest) st = parse_lines ok (n + 1) line' rest st'"
    if st': "a_conf_line (conf_words l) st = Some st'"
  proof (cases r)
    case (Inl e)
    then show ?thesis
      using r(2) st' many_words [of "conf_words l" st] by simp
  next
    case (Inr line')
    then have "fk_conf_proc_line line' st = Some (Inr st')"
      using p(1) st' by (auto simp: agrees_def split: sum.splits option.splits)
    then show ?thesis
      using Inr r(1) read p(2) by (intro exI [of _ line'], subst parse_lines.simps) simp
  qed
qed

lemma parse_lines_agrees:
  assumes "\<forall>l \<in> set ls. line_ok l" and "\<forall>n. ok n" and "length (flds line) = FK_CONF_MAX_FIELDS"
  shows "agrees (parse_lines ok n line (conf_text ls) st) (a_conf ls st)"
  using assms
proof (induction ls arbitrary: n line st)
  case Nil
  then show ?case
    by (simp add: parse_lines.simps conf_text_def)
next
  case (Cons l ls)
  then have l: "newline \<notin> set l" "CHR 0x00 \<notin> set l" and tx: "conf_text (l # ls) = l @ newline # conf_text ls"
    by (simp_all add: line_ok_def conf_text_def)
  show ?case
  proof (cases "a_conf_line (conf_words l) st")
    case None
    then show ?thesis
      using parse_lines_step(1) [OF l Cons.prems(2,3) None, of n "conf_text ls"] by (auto simp: tx)
  next
    case (Some st')
    then show ?thesis
      using parse_lines_step(2) [OF l Cons.prems(2,3) Some, of n "conf_text ls"] Cons by (auto simp: tx)
  qed
qed

lemma parse_lines_prefix:
  assumes "\<forall>l \<in> set ls. line_ok l" and "\<forall>n. ok n" and "length (flds line) = FK_CONF_MAX_FIELDS" and "a_conf ls st = Some st'"
  shows "\<exists>n' line'. length (flds line') = FK_CONF_MAX_FIELDS
    \<and> parse_lines ok n line (conf_text ls @ rest) st = parse_lines ok n' line' rest st'"
  using assms
proof (induction ls arbitrary: n line st)
  case Nil
  then show ?case
    by (auto simp: conf_text_def)
next
  case (Cons l ls)
  then have l: "newline \<notin> set l" "CHR 0x00 \<notin> set l" and tx: "conf_text (l # ls) @ rest = l @ newline # (conf_text ls @ rest)"
    by (simp_all add: line_ok_def conf_text_def)
  obtain st1 where st1: "a_conf_line (conf_words l) st = Some st1" "a_conf ls st1 = Some st'"
    using Cons.prems(4) by (auto split: bind_splits)
  obtain line1 where line1: "length (flds line1) = FK_CONF_MAX_FIELDS"
      "parse_lines ok n line (conf_text (l # ls) @ rest) st = parse_lines ok (n + 1) line1 (conf_text ls @ rest) st1"
    using parse_lines_step(2) [OF l Cons.prems(2,3) st1(1), of n "conf_text ls @ rest"] unfolding tx by blast
  have "\<forall>l \<in> set ls. line_ok l"
    using Cons.prems(1) by simp
  from Cons.IH [OF this Cons.prems(2) line1(1) st1(2)] show ?case
    unfolding line1(2) by blast
qed

section \<open>Properties\<close>



subsection \<open>Printing settings\<close>

definition level_name :: "int \<Rightarrow> string" where
  "level_name l = (if l = 3 then ''debug'' else if l = 2 then ''info'' else if l = 1 then ''warnning'' else ''error'')"

definition flag_line :: "string \<Rightarrow> int \<Rightarrow> string list" where
  "flag_line n f = (if f = 1 then [n] else [])"

definition value_line :: "string \<Rightarrow> string \<Rightarrow> string" where
  "value_line k v = k @ CHR '' '' # v"

definition conf_lines :: "fk_setting \<Rightarrow> string list" where
  "conf_lines st =
     [value_line ''port'' (print_int (port st)), value_line ''addr'' (addr st), value_line ''loglevel'' (level_name (log_level st)),
      value_line ''logpath'' (log_path st), value_line ''pidpath'' (pid_path st), value_line ''dir'' (dir st),
      value_line ''dbfile'' (db_file st), value_line ''blogfile'' (blog_file st), value_line ''maxconn'' (print_int (max_conns st)),
      value_line ''timeout'' (print_int (timeout st)), value_line ''dbcnt'' (print_int (conf_dbcnt st)),
      value_line ''maxwbuf'' (print_int (int (max_wbuf st)))]
     @ flag_line ''daemon'' (daemon st) @ flag_line ''dump'' (dump st) @ flag_line ''blogon'' (blog_on st)"

definition is_word :: "string \<Rightarrow> bool" where
  "is_word w \<longleftrightarrow> w \<noteq> [] \<and> (\<forall>c \<in> set w. is_word_char c \<and> c \<noteq> newline \<and> c \<noteq> CHR 0x00)"

definition pos_int :: "int \<Rightarrow> bool" where
  "pos_int n \<longleftrightarrow> 0 < n \<and> n < 2147483648"

definition setting_ok :: "fk_setting \<Rightarrow> bool" where
  "setting_ok st \<longleftrightarrow> 0 < port st \<and> port st \<le> 65535 \<and> log_level st \<in> {0, 1, 2, 3}
     \<and> is_word (addr st) \<and> is_word (log_path st) \<and> is_word (pid_path st) \<and> is_word (dir st) \<and> is_word (db_file st) \<and> is_word (blog_file st)
     \<and> pos_int (max_conns st) \<and> pos_int (timeout st) \<and> pos_int (conf_dbcnt st) \<and> pos_int (int (max_wbuf st))
     \<and> daemon st \<in> {0, 1} \<and> dump st \<in> {0, 1} \<and> blog_on st \<in> {0, 1}"

lemma words_two:
  assumes "is_word w" and "is_word v"
  shows "conf_words (w @ CHR '' '' # v) = [w, v]"
proof -
  have "conf_words (CHR '' '' # v) = v # conf_words []"
    using assms(2) by (intro conf_words_cons [of _ "[CHR '' '']"]) (auto simp: is_word_def is_blank_def)
  moreover have "conf_words (w @ CHR '' '' # v) = w # conf_words (CHR '' '' # v)"
    using assms(1) by (intro conf_words_cons [of _ "[]"]) (auto simp: is_word_def is_word_char_def is_blank_def)
  ultimately show ?thesis
    by (simp add: conf_words.simps)
qed

lemma words_one: "is_word w \<Longrightarrow> conf_words w = [w]"
  using conf_words_cons [of w "[]" w "[]"] by (simp add: is_word_def conf_words.simps)

lemma pos_int_word:
  assumes "pos_int n"
  shows "is_word (print_int n)" "positive (print_int n)" "int_val (print_int n) = n"
proof -
  have p: "print_int n = print_nat (nat n)" "0 < nat n" "int (nat n) = n" "n < 2147483648"
    using assms by (auto simp: pos_int_def print_int_def)
  show "positive (print_int n)"
    using p by (auto simp: positive_def hd_print_nat_zero print_nat_digits)
  have "schar (CHR 0x00) = 0" "schar newline = 10" "schar (CHR '' '') = 32" "schar (CHR 0x09) = 9" "schar (CHR ''#'') = 35"
    by (simp_all add: schar_def)
  then have "is_word_char c \<and> c \<noteq> newline \<and> c \<noteq> CHR 0x00" if "is_digit c" for c
    using that unfolding is_digit_def is_word_char_def is_blank_def by force
  then show "is_word (print_int n)"
    using p(1) print_nat_digits [of _ "nat n"] by (auto simp: is_word_def)
  show "int_val (print_int n) = n"
    using p by (simp add: int_val_def clamp64_def s32_id)
qed

text \<open>The names of the directives are words in lower case.\<close>

definition conf_names :: "string list" where
  "conf_names = [''port'', ''addr'', ''loglevel'', ''logpath'', ''pidpath'', ''dir'', ''dbfile'', ''blogfile'', ''maxconn'', ''timeout'',
     ''dbcnt'', ''maxwbuf'', ''daemon'', ''dump'', ''blogon'']"

lemma conf_names_ok: "k \<in> set conf_names \<Longrightarrow> is_word k \<and> lower k = k"
proof -
  have "list_all (\<lambda>k. is_word k \<and> lower k = k) conf_names"
    by code_simp
  then show "k \<in> set conf_names \<Longrightarrow> is_word k \<and> lower k = k"
    by (simp add: list_all_iff)
qed

lemma level_name_ok:
  "l \<in> {0, 1, 2, 3} \<Longrightarrow> is_word (level_name l) \<and> a_level (level_name l) = Some l"
proof -
  have "list_all (\<lambda>l. is_word (level_name l) \<and> a_level (level_name l) = Some l) [0, 1, 2, 3]"
    by code_simp
  then show "l \<in> {0, 1, 2, 3} \<Longrightarrow> is_word (level_name l) \<and> a_level (level_name l) = Some l"
    by auto
qed

lemma a_conf_value:
  assumes "k \<in> set conf_names" and "is_word v"
  shows "a_conf (value_line k v # ls) st = do { st' \<leftarrow> a_conf_line [k, v] st; a_conf ls st' }"
  using assms conf_names_ok [OF assms(1)] words_two [of k v] by (simp add: value_line_def)

lemma a_conf_flag:
  assumes "n \<in> set conf_names" and "a_flag n = Some f" and "i \<in> {0, 1}"
  shows "a_conf (flag_line n i @ ls) st = a_conf ls (if i = 1 then f st else st)"
  using assms conf_names_ok [OF assms(1)] words_one [of n] by (auto simp: flag_line_def)

lemma value_line_ok: "k \<in> set conf_names \<Longrightarrow> is_word v \<Longrightarrow> line_ok (value_line k v)"
  using conf_names_ok [of k] by (auto simp: value_line_def line_ok_def is_word_def)

lemma flag_line_ok: "n \<in> set conf_names \<Longrightarrow> \<forall>l \<in> set (flag_line n i). line_ok l"
  using conf_names_ok [of n] by (auto simp: flag_line_def line_ok_def is_word_def)

lemma setting_words:
  assumes "setting_ok st"
  shows "is_word (print_int (port st))" "is_word (addr st)" "is_word (level_name (log_level st))" "is_word (log_path st)" "is_word (pid_path st)"
    "is_word (dir st)" "is_word (db_file st)" "is_word (blog_file st)" "is_word (print_int (max_conns st))" "is_word (print_int (timeout st))"
    "is_word (print_int (conf_dbcnt st))" "is_word (print_int (int (max_wbuf st)))"
  using assms pos_int_word(1) level_name_ok unfolding setting_ok_def by (simp_all add: pos_int_def)

lemma conf_name_mem:
  "''port'' \<in> set conf_names" "''addr'' \<in> set conf_names" "''loglevel'' \<in> set conf_names" "''logpath'' \<in> set conf_names"
  "''pidpath'' \<in> set conf_names" "''dir'' \<in> set conf_names" "''dbfile'' \<in> set conf_names" "''blogfile'' \<in> set conf_names"
  "''maxconn'' \<in> set conf_names" "''timeout'' \<in> set conf_names" "''dbcnt'' \<in> set conf_names" "''maxwbuf'' \<in> set conf_names"
  "''daemon'' \<in> set conf_names" "''dump'' \<in> set conf_names" "''blogon'' \<in> set conf_names"
  by (simp_all add: conf_names_def)

lemma conf_lines_ok:
  assumes "setting_ok st"
  shows "\<forall>l \<in> set (conf_lines st). line_ok l"
  unfolding conf_lines_def set_append ball_Un
  using flag_line_ok [of "''daemon''"] flag_line_ok [of "''dump''"] flag_line_ok [of "''blogon''"]
  by (simp add: setting_words [OF assms] conf_name_mem value_line_ok)

lemmas lower_names = conf_name_mem [THEN conf_names_ok, THEN conjunct2]

lemma a_conf_lines:
  assumes ok: "setting_ok st" and flags: "daemon st0 = 0" "dump st0 = 0" "blog_on st0 = 0"
  shows "a_conf (conf_lines st) st0 = Some st"
proof -
  have num: "positive (print_int n)" "int_val (print_int n) = n" if "n \<in> {port st, max_conns st, timeout st, conf_dbcnt st, int (max_wbuf st)}" for n
    using that ok pos_int_word(2,3) [of n] by (auto simp: setting_ok_def pos_int_def)
  have "a_level (level_name (log_level st)) = Some (log_level st)" "0 < port st" "port st \<le> 65535"
    "conf_dbcnt st mod 4294967296 = conf_dbcnt st" "size_of_int (int (max_wbuf st)) = max_wbuf st"
    "daemon st \<in> {0, 1}" "dump st \<in> {0, 1}" "blog_on st \<in> {0, 1}"
    using ok level_name_ok [of "log_level st"] by (simp_all add: setting_ok_def pos_int_def size_of_int_id)
  note vals = this num
  have fl: "a_flag ''daemon'' = Some (daemon_update (\<lambda>_. 1))" "a_flag ''dump'' = Some (dump_update (\<lambda>_. 1))"
    "a_flag ''blogon'' = Some (blog_on_update (\<lambda>_. 1))"
    by (simp_all add: a_flag_def)
  have last: "a_conf (flag_line ''blogon'' (blog_on st)) st' = Some (if blog_on st = 1 then st'\<lparr>blog_on := 1\<rparr> else st')" for st'
    using a_conf_flag [OF conf_name_mem(15) fl(3) vals(8), of "[]"] by simp
  show ?thesis
    unfolding conf_lines_def append_Cons append_Nil
    by (simp add: a_conf_value conf_name_mem setting_words [OF ok] lower_names vals(1-5) num a_path_def a_number_def
        a_conf_flag [OF conf_name_mem(13) fl(1) vals(6)] a_conf_flag [OF conf_name_mem(14) fl(2) vals(7)] last del: a_conf.simps(2))
      (use vals(6-8) flags in \<open>cases st, cases st0, auto\<close>)
qed

text \<open>
  C17. Settings survive a file: when settings with legal values are written as a configuration file, one directive
  to a line, reading the file (over settings with the three switches off, as they are by default)
  gives these settings back.\<close>

theorem conf_roundtrip:
  assumes "setting_ok st" and "\<forall>n. ok n" and "daemon st0 = 0" and "dump st0 = 0" and "blog_on st0 = 0"
  shows "fk_conf_parse_file ok (Some (conf_text (conf_lines st))) st0 = Some (Inr st)"
  using parse_lines_agrees [OF conf_lines_ok [OF assms(1)] assms(2), of fk_cfline_create 0 st0] a_conf_lines [OF assms(1,3-5)]
  by (auto simp: fk_conf_parse_file_def fk_cfline_create_def agrees_def split: option.splits sum.splits)

lemma default_ok: "\<exists>st. fk_conf_default = Some st \<and> setting_ok st \<and> daemon st = 0 \<and> dump st = 0 \<and> blog_on st = 0"
proof -
  have "list_all is_word [''/tmp/freekick.log'', ''/tmp/freekick.pid'', ''/tmp/freekick.db'', ''0.0.0.0'', ''/tmp/'', ''/tmp/freekick.bl'']"
    by code_simp
  then show ?thesis
    by (simp add: fk_conf_default_def fk_str_create_def mem_slice_def setting_ok_def pos_int_def log_consts)
qed

theorem conf_roundtrip_witness:
  "\<exists>st. fk_conf_default = Some st
     \<and> fk_conf_parse_file (\<lambda>_. True) (Some (conf_text (conf_lines (st\<lparr>port := 8210, dump := 1\<rparr>)))) st = Some (Inr (st\<lparr>port := 8210, dump := 1\<rparr>))"
proof -
  obtain st where st: "fk_conf_default = Some st" "setting_ok st" "daemon st = 0" "dump st = 0" "blog_on st = 0"
    using default_ok by blast
  then have "setting_ok (st\<lparr>port := 8210, dump := 1\<rparr>)"
    by (simp add: setting_ok_def)
  then show ?thesis
    using st conf_roundtrip [of "st\<lparr>port := 8210, dump := 1\<rparr>" "\<lambda>_. True" st] by blast
qed

subsection \<open>A last line without an end\<close>

lemma parse_fields_open:
  assumes "newline \<notin> set s" and "CHR ''#'' \<notin> set s" and "cbuf line = pre @ s @ [CHR 0x00]" and "holds line ws"
    and "length ws + length (conf_words s) < FK_CONF_MAX_FIELDS"
  shows "parse_fields (length pre) line = None"
  using assms
proof (induction "length s" arbitrary: s pre line ws rule: less_induct)
  case less
  note buf = less.prems(3) and ws = less.prems(4)
  have nul: "is_word_char (CHR 0x00)" "\<not> is_blank (CHR 0x00)" "CHR 0x00 \<noteq> CHR ''#''"
    by (simp_all add: is_word_char_def is_blank_def)
  have n: "cnt line \<noteq> FK_CONF_MAX_FIELDS" "length ws < FK_CONF_MAX_FIELDS"
    using ws less.prems(5) by (simp_all add: holds_def)
  have hd: "nth_opt (cbuf line) (length pre) = Some (hd (s @ [CHR 0x00]))"
    unfolding buf by (cases s) (simp_all add: nth_opt_def)
  have nl: "hd (s @ [CHR 0x00]) \<noteq> newline"
    using less.prems(1) by (cases s) auto
  note step = parse_fields_step [OF hd nl n(1)]
  from less.prems(1) show ?case
  proof (cases s rule: line_cases)
    case blank
    then show ?thesis
      using skip_blank_spec [of s "CHR 0x00" pre "[]"] token_end_none [of "[CHR 0x00]" "pre @ s"] nul
      unfolding step buf by (simp add: nth_opt_def)
  next
    case (comment bl u)
    then show ?thesis
      using less.prems(2) by simp
  next
    case (word bl w u)
    show ?thesis
    proof (cases u)
      case Nil
      obtain b w' where b: "w = b # w'" "\<not> is_blank b" "b \<noteq> CHR ''#''" "b \<noteq> newline"
        using word(3,4) by (cases w) (auto simp: is_word_char_def)
      have "skip_blank (cbuf line) (length pre) = Some (length pre + length bl)" "nth_opt (cbuf line) (length pre + length bl) = Some b"
        using skip_blank_spec [of bl b pre "w' @ [CHR 0x00]"] word(1,2) b buf Nil by (simp_all add: nth_opt_def nth_append)
      moreover have "token_end (cbuf line) (length pre + length bl) = None"
        using token_end_none [of "w @ [CHR 0x00]" "pre @ bl"] word(1,4) nul buf Nil by simp
      ultimately show ?thesis
        using b unfolding step by simp
    next
      case (Cons d r)
      have d: "\<not> is_word_char d \<or> d = newline"
        using word(5) Cons by simp
      have buf': "cbuf line = pre @ bl @ w @ d # (r @ [CHR 0x00])" "cbuf line = (pre @ bl @ w) @ u @ [CHR 0x00]"
        using buf word(1) Cons by simp_all
      obtain line' where l: "parse_fields (length pre) line = parse_fields (length (pre @ bl @ w)) line'"
          "holds line' (ws @ [w])" "cbuf line' = cbuf line"
        using parse_fields_word [OF buf'(1) _ word(2-4) ws n(2)] d by blast
      have "newline \<notin> set u" "CHR ''#'' \<notin> set u" "length (ws @ [w]) + length (conf_words u) < FK_CONF_MAX_FIELDS"
        using less.prems(1,2,5) word(1,6) by simp_all
      then show ?thesis
        using less.hyps [OF word(7) _ _ _ l(2), of "pre @ bl @ w"] l(1,3) buf'(2) by simp
    qed
  qed
qed

lemma getline_open: "newline \<notin> set s \<Longrightarrow> getline s = (s, [])"
proof -
  assume "newline \<notin> set s"
  then have d: "dropWhile (\<lambda>c. c \<noteq> newline) s = []"
    by auto
  show ?thesis
    unfolding getline_def d by simp
qed

text \<open>
  C26. A configuration file has to end with a newline: when the last line (of at most four words and without a comment)
  has none, the parser takes the NUL behind it for a character of a word and reads on behind the end of
  the line buffer.\<close>

theorem conf_unterminated_line:
  assumes "\<forall>l \<in> set ls. line_ok l" and "a_conf ls st = Some st'" and "\<forall>n. ok n"
    and "s \<noteq> []" and "newline \<notin> set s" and "CHR ''#'' \<notin> set s" and "length (conf_words s) \<le> 4"
  shows "fk_conf_parse_file ok (Some (conf_text ls @ s)) st = None"
proof -
  obtain n line where l: "length (flds line) = FK_CONF_MAX_FIELDS"
      "parse_lines ok 0 fk_cfline_create (conf_text ls @ s) st = parse_lines ok n line s st'"
    using parse_lines_prefix [OF assms(1,3) _ assms(2), of fk_cfline_create 0 s] by (auto simp: fk_cfline_create_def)
  let ?line = "(fk_conf_reset_line line)\<lparr>line_no := n + 1, cbuf := s @ [CHR 0x00]\<rparr>"
  have "fk_conf_read_line ok ((fk_conf_reset_line line)\<lparr>line_no := n + 1\<rparr>) s = Inr (?line, [])"
    using assms(3) by (simp add: fk_conf_read_line_def getline_open [OF assms(5)])
  moreover have "fk_conf_parse_line ?line = None"
    using parse_fields_open [OF assms(5,6), of ?line "[]" "[]"] reset_holds [OF l(1)] assms(7)
    by (simp add: fk_conf_parse_line_def FK_CONF_MAX_FIELDS_def)
  ultimately show ?thesis
    using assms(4) l(2) by (simp add: fk_conf_parse_file_def parse_lines.simps [of ok n line s])
qed

theorem conf_unterminated_line_witness:
  "\<exists>st. fk_conf_default = Some st \<and> fk_conf_parse_file (\<lambda>_. True) (Some (conf_text [''# settings''] @ ''dump'')) st = None"
proof -
  obtain st where "fk_conf_default = Some st"
    using default_ok by blast
  moreover have "conf_words ''# settings'' = []"
    by (simp add: conf_words.simps is_blank_def)
  then have "a_conf [''# settings''] st = Some st"
    by simp
  moreover have "\<forall>l \<in> set [''# settings'']. line_ok l"
    by (simp add: line_ok_def)
  moreover have "length (conf_words ''dump'') \<le> 4"
    using words_one [of "''dump''"] conf_names_ok [OF conf_name_mem(14)] by simp
  ultimately show ?thesis
    using conf_unterminated_line [of "[''# settings'']" st st "\<lambda>_. True" "''dump''"] by auto
qed

text \<open>The default name of the log is cut off.\<close>

lemma default_blog_file: "map_option blog_file fk_conf_default = Some ''/tmp/freekick.bl''"
  by (simp add: fk_conf_default_def fk_str_create_def mem_slice_def)

end
