(* ===== verification/Fk_Item_Ref.thy ===== *)
theory Fk_Item_Ref
  imports Fk_Item
begin

text \<open>
  \<^verbatim>\<open>fk_item.c\<close>: the items as objects with a reference count, the list of used items and the cache of free ones,
  and the functions of \<^verbatim>\<open>fk_svr.c\<close> through which the dictionaries and lists hold references to items.
  The values of \<^typ>\<open>fk_item\<close> that the other theories compute with are the items behind the pointers; here it
  is shown that sharing them by counting references is safe: an item is released exactly when the last
  reference to it goes.

  A pointer is a number; \<open>items\<close> is the memory that is allocated for items. The two lists of items are the sequences of
  their nodes (theory \<^verbatim>\<open>Fk_List\<close> shows that the pointer structure behaves like that); removing a node that is
  not in the list, or an access to an item that is not allocated, is \<open>None\<close>.
\<close>

section \<open>Items\<close>

text \<open>What \<^verbatim>\<open>entity\<close> points to; a list holds pointers to items and a dictionary pairs of them.\<close>

datatype entity = E_str string | E_list "nat list" | E_dict "(nat \<times> nat) list" | E_sklist | E_num int

record item_obj =
  itype :: item_type
  iref :: nat
  ientity :: "entity option"

record item_pool =
  items :: "nat \<Rightarrow> item_obj option"
  items_used :: "nat list"
  items_free :: "nat list"

definition FK_FREE_ITEM_MAX :: nat where
  "FK_FREE_ITEM_MAX = 1024"

definition fk_item_init :: "item_pool" where
  "fk_item_init = \<lparr>items = Map.empty, items_used = [], items_free = []\<rparr>"

definition put_item :: "nat \<Rightarrow> item_obj \<Rightarrow> item_pool \<Rightarrow> item_pool" where
  "put_item p ob s = s\<lparr>items := (items s)(p \<mapsto> ob)\<rparr>"

text \<open>\<open>p\<close> is the pointer the allocator returns when the cache is empty.\<close>

definition fk_item_create :: "nat \<Rightarrow> item_type \<Rightarrow> entity \<Rightarrow> item_pool \<Rightarrow> (nat \<times> item_pool) option" where
  "fk_item_create p t e s =
     (let (itm, s1) = (case items_free s of q # qs \<Rightarrow> (q, s\<lparr>items_free := qs\<rparr>) | [] \<Rightarrow> (p, s));
          s2 = put_item itm \<lparr>itype = t, iref = 0, ientity = Some e\<rparr> s1
      in Some (itm, s2\<lparr>items_used := itm # items_used s2\<rparr>))"

definition fk_item_inc_ref :: "nat \<Rightarrow> item_pool \<Rightarrow> item_pool option" where
  "fk_item_inc_ref p s = do { ob \<leftarrow> items s p; Some (put_item p (ob\<lparr>iref := (iref ob + 1) mod 2 ^ 32\<rparr>) s) }"

text \<open>The items to which the destruction of an entity drops a reference, in order; the entity is read as the type of the
  item says.\<close>

fun drops :: "item_type \<Rightarrow> entity option \<Rightarrow> nat list option" where
  "drops FK_ITEM_STR (Some (E_str s)) = Some []"
| "drops FK_ITEM_LIST (Some (E_list ps)) = Some ps"
| "drops FK_ITEM_DICT (Some (E_dict kvs)) = Some (concat (map (\<lambda>(k, v). [k, v]) kvs))"
| "drops FK_ITEM_NUM (Some (E_num n)) = Some []"
| "drops FK_ITEM_SKLIST e = Some []"
| "drops FK_ITEM_NIL e = Some []"
| "drops _ _ = None"

definition retire :: "nat \<Rightarrow> item_pool \<Rightarrow> item_pool option" where
  "retire p s =
     do { ob \<leftarrow> items s p;
          u \<leftarrow> rawlist_remove p (items_used s);
          let s1 = put_item p \<lparr>itype = FK_ITEM_NIL, iref = 0, ientity = None\<rparr> (s\<lparr>items_used := u\<rparr>);
          Some (if length (items_free s1) = FK_FREE_ITEM_MAX then s1\<lparr>items := (items s1)(p := None)\<rparr>
                else s1\<lparr>items_free := items_free s1 @ [p]\<rparr>) }"

text \<open>\<^verbatim>\<open>fk_item_dec_ref\<close> on one item after another: the destruction of a list or a dictionary calls it again for what
  they hold, before the item itself is retired.\<close>

partial_function (option) dec_items :: "nat list \<Rightarrow> item_pool \<Rightarrow> item_pool option" where
  "dec_items ps s =
     (case ps of
        [] \<Rightarrow> Some s
      | p # ps' \<Rightarrow>
          do { ob \<leftarrow> items s p;
               let r = (if iref ob > 0 then iref ob - 1 else iref ob);
               let s1 = put_item p (ob\<lparr>iref := r\<rparr>) s;
               s2 \<leftarrow> (if r > 0 then Some s1
                     else do { ks \<leftarrow> drops (itype ob) (ientity ob); s' \<leftarrow> dec_items ks s1; retire p s' });
               dec_items ps' s2 })"

declare dec_items.simps [code]

definition fk_item_dec_ref :: "nat \<Rightarrow> item_pool \<Rightarrow> item_pool option" where
  "fk_item_dec_ref p s = dec_items [p] s"

section \<open>Holding references\<close>

text \<open>The containers copy a reference in (\<^verbatim>\<open>data_copy\<close> and \<^verbatim>\<open>key_copy\<close>, \<^verbatim>\<open>val_copy\<close> count it) and drop one
  when an element is removed.\<close>

definition set_entity :: "nat \<Rightarrow> entity \<Rightarrow> item_pool \<Rightarrow> item_pool option" where
  "set_entity q e s = do { ob \<leftarrow> items s q; Some (put_item q (ob\<lparr>ientity := Some e\<rparr>) s) }"

definition list_insert :: "bool \<Rightarrow> nat \<Rightarrow> nat \<Rightarrow> item_pool \<Rightarrow> item_pool option" where
  "list_insert at_head q p s =
     do { s1 \<leftarrow> fk_item_inc_ref p s;
          ob \<leftarrow> items s1 q;
          case ientity ob of
            Some (E_list ps) \<Rightarrow> set_entity q (E_list (if at_head then p # ps else ps @ [p])) s1
          | _ \<Rightarrow> None }"

definition list_remove :: "nat \<Rightarrow> nat \<Rightarrow> item_pool \<Rightarrow> item_pool option" where
  "list_remove q i s =
     do { ob \<leftarrow> items s q;
          case ientity ob of
            Some (E_list ps) \<Rightarrow>
              do { p \<leftarrow> nth_opt ps i; s1 \<leftarrow> set_entity q (E_list (take i ps @ drop (Suc i) ps)) s; fk_item_dec_ref p s1 }
          | _ \<Rightarrow> None }"

definition dict_insert :: "nat \<Rightarrow> nat \<Rightarrow> nat \<Rightarrow> item_pool \<Rightarrow> item_pool option" where
  "dict_insert q k v s =
     do { s1 \<leftarrow> fk_item_inc_ref k s;
          s2 \<leftarrow> fk_item_inc_ref v s1;
          ob \<leftarrow> items s2 q;
          case ientity ob of Some (E_dict kvs) \<Rightarrow> set_entity q (E_dict ((k, v) # kvs)) s2 | _ \<Rightarrow> None }"

section \<open>Counting\<close>

abbreviation obj :: "item_pool \<Rightarrow> nat \<Rightarrow> item_obj" where
  "obj s p \<equiv> the (items s p)"

definition kids :: "item_obj \<Rightarrow> nat list" where
  "kids ob = (case drops (itype ob) (ientity ob) of Some ks \<Rightarrow> ks | None \<Rightarrow> [])"

text \<open>The references to \<open>p\<close> that the used items outside of \<open>K\<close> hold.\<close>

definition refs_to :: "item_pool \<Rightarrow> nat set \<Rightarrow> nat \<Rightarrow> nat" where
  "refs_to s K p = (\<Sum>q \<in> set (items_used s) - K. count_list (kids (obj s q)) p)"

definition nil_obj :: item_obj where
  "nil_obj = \<lparr>itype = FK_ITEM_NIL, iref = 0, ientity = None\<rparr>"

text \<open>\<open>ext\<close> are the references held from outside (the databases, the arguments of connections), \<open>K\<close> the items that are
  being destroyed: nothing refers to them, and they hold nothing any more. The count of every other used item is the
  number of references to it, and there is no reference to anything else.\<close>

definition rc_inv :: "nat multiset \<Rightarrow> nat set \<Rightarrow> item_pool \<Rightarrow> bool" where
  "rc_inv ext K s \<longleftrightarrow> distinct (items_used s) \<and> distinct (items_free s) \<and> set (items_used s) \<inter> set (items_free s) = {}
     \<and> dom (items s) = set (items_used s) \<union> set (items_free s) \<and> length (items_free s) \<le> FK_FREE_ITEM_MAX \<and> K \<subseteq> set (items_used s)
     \<and> (\<forall>p \<in> set (items_free s). items s p = Some nil_obj)
     \<and> (\<forall>p \<in> set (items_used s). drops (itype (obj s p)) (ientity (obj s p)) \<noteq> None)
     \<and> (\<forall>p \<in> set (items_used s) - K. iref (obj s p) = count ext p + refs_to s K p)
     \<and> (\<forall>p. p \<notin> set (items_used s) - K \<longrightarrow> count ext p + refs_to s K p = 0)"

lemma rc_invD:
  assumes "rc_inv ext K s"
  shows "distinct (items_used s)" "distinct (items_free s)" "set (items_used s) \<inter> set (items_free s) = {}"
    "dom (items s) = set (items_used s) \<union> set (items_free s)" "length (items_free s) \<le> FK_FREE_ITEM_MAX" "K \<subseteq> set (items_used s)"
    "p \<in> set (items_free s) \<Longrightarrow> items s p = Some nil_obj"
    "p \<in> set (items_used s) \<Longrightarrow> drops (itype (obj s p)) (ientity (obj s p)) = Some (kids (obj s p))"
    "p \<in> set (items_used s) \<Longrightarrow> p \<notin> K \<Longrightarrow> iref (obj s p) = count ext p + refs_to s K p"
    "p \<notin> set (items_used s) - K \<Longrightarrow> count ext p + refs_to s K p = 0"
    "p \<in> set (items_used s) \<Longrightarrow> items s p = Some (obj s p)"
proof -
  have "p \<in> set (items_used s) \<Longrightarrow> p \<in> dom (items s)"
    using assms by (simp add: rc_inv_def)
  then show "p \<in> set (items_used s) \<Longrightarrow> items s p = Some (obj s p)"
    by (auto simp: dom_def)
  show "p \<in> set (items_used s) \<Longrightarrow> drops (itype (obj s p)) (ientity (obj s p)) = Some (kids (obj s p))"
    using assms by (auto simp: rc_inv_def kids_def split: option.splits)
qed (use assms in \<open>auto simp: rc_inv_def\<close>)

lemma rc_held: "rc_inv (add_mset p ext) K s \<Longrightarrow> p \<in> set (items_used s) \<and> p \<notin> K"
  using rc_invD(10) [of "add_mset p ext" K s p] by auto

lemma rc_invI:
  assumes "rc_inv ext K s" and "items_used s' = items_used s" and "items_free s' = items_free s" and "dom (items s') = dom (items s)"
    and "\<And>p. p \<in> set (items_free s) \<Longrightarrow> items s' p = items s p"
    and "\<And>p. p \<in> set (items_used s) \<Longrightarrow> drops (itype (obj s' p)) (ientity (obj s' p)) \<noteq> None"
    and "K' \<subseteq> set (items_used s)"
    and "\<And>p. p \<in> set (items_used s) \<Longrightarrow> p \<notin> K' \<Longrightarrow> iref (obj s' p) = count ext' p + refs_to s' K' p"
    and "\<And>p. p \<notin> set (items_used s) - K' \<Longrightarrow> count ext' p + refs_to s' K' p = 0"
  shows "rc_inv ext' K' s'"
  unfolding rc_inv_def assms(2-4)
  using rc_invD(1-6) [OF assms(1)] rc_invD(7) [OF assms(1)] assms(5-9) by simp

text \<open>Only the items that hold something count.\<close>

lemma refs_to_cong:
  assumes "set (items_used s') - K' = set (items_used s) - K" and "\<And>q. q \<in> set (items_used s) - K \<Longrightarrow> kids (obj s' q) = kids (obj s q)"
  shows "refs_to s' K' p = refs_to s K p"
  using assms by (simp add: refs_to_def)

lemma refs_to_kill:
  assumes "q \<in> set (items_used s)" and "q \<notin> K"
  shows "refs_to s K p = refs_to s (insert q K) p + count_list (kids (obj s q)) p"
proof -
  have "set (items_used s) - K - {q} = set (items_used s) - insert q K"
    by auto
  then show ?thesis
    using sum.remove [of "set (items_used s) - K" q "\<lambda>q. count_list (kids (obj s q)) p"] assms by (simp add: refs_to_def)
qed

lemma kids_ref [simp]: "kids (ob\<lparr>iref := r\<rparr>) = kids ob"
  by (simp add: kids_def)

section \<open>Dropping a reference\<close>

lemma rc_drop:
  assumes inv: "rc_inv (add_mset p ext) K s" and more: "iref (obj s p) > 1"
  shows "rc_inv ext K (put_item p ((obj s p)\<lparr>iref := iref (obj s p) - 1\<rparr>) s)" (is "rc_inv ext K ?s")
proof -
  have p: "p \<in> set (items_used s)" "p \<notin> K"
    using rc_held [OF inv] by blast+
  have refs: "refs_to ?s K q = refs_to s K q" for q
    by (rule refs_to_cong) (auto simp: put_item_def)
  show ?thesis
  proof (rule rc_invI [OF inv])
    fix q
    show "count ext q + refs_to ?s K q = 0" if "q \<notin> set (items_used s) - K"
      using rc_invD(10) [OF inv that] unfolding refs by (simp split: if_splits)
    show "iref (obj ?s q) = count ext q + refs_to ?s K q" if "q \<in> set (items_used s)" "q \<notin> K"
      using rc_invD(9) [OF inv that] more unfolding refs by (auto simp: put_item_def)
    show "drops (itype (obj ?s q)) (ientity (obj ?s q)) \<noteq> None" if "q \<in> set (items_used s)"
      using rc_invD(8) [OF inv that] by (auto simp: put_item_def)
    show "items ?s q = items s q" if "q \<in> set (items_free s)"
      using that p(1) rc_invD(3) [OF inv] by (auto simp: put_item_def)
  qed (use p rc_invD(4,6) [OF inv] in \<open>auto simp: put_item_def\<close>)
qed

lemma rc_die:
  assumes inv: "rc_inv (add_mset p ext) K s" and last: "iref (obj s p) \<le> 1"
  shows "rc_inv (ext + mset (kids (obj s p))) (insert p K) (put_item p ((obj s p)\<lparr>iref := 0\<rparr>) s)" (is "rc_inv ?ext ?K ?s")
proof -
  have p: "p \<in> set (items_used s)" "p \<notin> K"
    using rc_held [OF inv] by blast+
  have refs: "refs_to ?s ?K q = refs_to s ?K q" for q
    by (rule refs_to_cong) (auto simp: put_item_def)
  note kill = refs_to_kill [OF p]
  have cnt: "count (add_mset p ext) q + refs_to s K q = count ?ext q + refs_to s ?K q + (if q = p then 1 else 0)" for q
    using kill [of q] by (simp add: count_mset)
  have none: "count ?ext p + refs_to s ?K p = 0"
    using rc_invD(9) [OF inv p] last cnt [of p] by simp
  show ?thesis
  proof (rule rc_invI [OF inv])
    fix q
    show "count ?ext q + refs_to ?s ?K q = 0" if "q \<notin> set (items_used s) - ?K"
    proof (cases "q = p")
      case False
      then have "q \<notin> set (items_used s) - K"
        using that by blast
      then show ?thesis
        using rc_invD(10) [OF inv, of q] cnt [of q] False unfolding refs by simp
    qed (use none refs in simp)
    show "iref (obj ?s q) = count ?ext q + refs_to ?s ?K q" if "q \<in> set (items_used s)" "q \<notin> ?K"
      using rc_invD(9) [OF inv, of q] that cnt [of q] unfolding refs by (auto simp: put_item_def)
    show "drops (itype (obj ?s q)) (ientity (obj ?s q)) \<noteq> None" if "q \<in> set (items_used s)"
      using rc_invD(8) [OF inv that] by (auto simp: put_item_def)
    show "items ?s q = items s q" if "q \<in> set (items_free s)"
      using that p(1) rc_invD(3) [OF inv] by (auto simp: put_item_def)
  qed (use p rc_invD(4,6) [OF inv] in \<open>auto simp: put_item_def\<close>)
qed

lemma rc_retire:
  assumes inv: "rc_inv ext (insert p K) s" and p: "p \<notin> K"
  shows "\<exists>s'. retire p s = Some s' \<and> rc_inv ext K s' \<and> items_used s' = remove1 p (items_used s)
    \<and> (\<forall>q. q \<noteq> p \<longrightarrow> items s' q = items s q)"
proof -
  note D = rc_invD [OF inv]
  have used: "p \<in> set (items_used s)" "p \<notin> set (items_free s)"
    using D(3,6) by auto
  define s' where "s' = (if length (items_free s) = FK_FREE_ITEM_MAX
      then s\<lparr>items_used := remove1 p (items_used s), items := (items s)(p := None)\<rparr>
      else s\<lparr>items_used := remove1 p (items_used s), items := (items s)(p \<mapsto> nil_obj), items_free := items_free s @ [p]\<rparr>)"
  obtain ob where ob: "items s p = Some ob"
    using D(11) [OF used(1)] by blast
  then have "retire p s = Some s'"
    using used by (simp add: retire_def rawlist_remove_def put_item_def s'_def nil_obj_def)
  moreover have u: "items_used s' = remove1 p (items_used s)" "set (items_used s') = set (items_used s) - {p}"
    using D(1) by (auto simp: s'_def)
  have others: "items s' q = items s q" if "q \<noteq> p" for q
    using that by (simp add: s'_def)
  have "set (items_used s') - K = set (items_used s) - insert p K"
    using u(2) by auto
  then have refs: "refs_to s' K q = refs_to s (insert p K) q" for q
    by (rule refs_to_cong) (use others in auto)
  have "rc_inv ext K s'"
    unfolding rc_inv_def
  proof (intro conjI ballI allI impI)
    show "dom (items s') = set (items_used s') \<union> set (items_free s')"
      using D(4) used u(2) by (auto simp: s'_def)
    fix q
    show "count ext q + refs_to s' K q = 0" if "q \<notin> set (items_used s') - K"
      unfolding refs by (rule D(10)) (use that u(2) in auto)
    show "iref (obj s' q) = count ext q + refs_to s' K q" if "q \<in> set (items_used s') - K"
      unfolding refs using D(9) [of q] that others [of q] u(2) by auto
    show "drops (itype (obj s' q)) (ientity (obj s' q)) \<noteq> None" if "q \<in> set (items_used s')"
      using D(8) [of q] that others [of q] u(2) by auto
    show "items s' q = Some nil_obj" if "q \<in> set (items_free s')"
      using D(7) [of q] that used(2) by (auto simp: s'_def split: if_splits)
  qed (use D(1-3,5,6) used p u in \<open>auto simp: s'_def\<close>)
  ultimately show ?thesis
    using u(1) others by blast
qed

text \<open>What a release leaves: fewer used items, the others with what they hold, and no new item without a reference.\<close>

definition released :: "nat set \<Rightarrow> item_pool \<Rightarrow> item_pool \<Rightarrow> bool" where
  "released K s s' \<longleftrightarrow> set (items_used s') \<subseteq> set (items_used s)
     \<and> (\<forall>q \<in> set (items_used s'). itype (obj s' q) = itype (obj s q) \<and> ientity (obj s' q) = ientity (obj s q))
     \<and> (\<forall>q \<in> set (items_used s') - K. iref (obj s' q) = 0 \<longrightarrow> iref (obj s q) = 0)
     \<and> (\<forall>q \<in> K. items s' q = items s q)"

lemma released_refl: "released K s s"
  by (simp add: released_def)

lemma released_trans: "released K s s1 \<Longrightarrow> released K s1 s2 \<Longrightarrow> released K s s2"
  unfolding released_def by (intro conjI ballI impI) (auto 4 3)

lemma released_put:
  assumes "p \<notin> K" and "items s p = Some ob" and "r > 0"
  shows "released K s (put_item p (ob\<lparr>iref := r\<rparr>) s)"
  using assms by (auto simp: released_def put_item_def)

lemma released_retire:
  assumes r: "released (insert p K) (put_item p ob s) s1" and u: "set (items_used s2) \<subseteq> set (items_used s1) - {p}"
    and others: "\<And>q. q \<noteq> p \<Longrightarrow> items s2 q = items s1 q" and p: "p \<notin> K"
  shows "released K s s2"
  unfolding released_def
proof (intro conjI ballI impI)
  have put: "items (put_item p ob s) q = items s q" if "q \<noteq> p" for q
    using that by (simp add: put_item_def)
  show "set (items_used s2) \<subseteq> set (items_used s)"
    using r u by (auto simp: released_def put_item_def)
  have old: "q \<in> set (items_used s1)" "q \<noteq> p" if "q \<in> set (items_used s2)" for q
    using that u by blast+
  show "itype (obj s2 q) = itype (obj s q)" "ientity (obj s2 q) = ientity (obj s q)" if "q \<in> set (items_used s2)" for q
    using r old [OF that] others [of q] put [of q] by (simp_all add: released_def)
  show "iref (obj s q) = 0" if q: "q \<in> set (items_used s2) - K" and zero: "iref (obj s2 q) = 0" for q
  proof -
    have q1: "q \<in> set (items_used s1) - insert p K" "q \<noteq> p"
      using old [of q] q by blast+
    then have "iref (obj s1 q) = 0 \<longrightarrow> iref (obj (put_item p ob s) q) = 0"
      using r unfolding released_def by blast
    then show ?thesis
      using zero others [OF q1(2)] put [OF q1(2)] by simp
  qed
  show "items s2 q = items s q" if "q \<in> K" for q
  proof -
    have "q \<noteq> p"
      using that p by blast
    then show ?thesis
      using r that others [of q] put [of q] by (simp add: released_def)
  qed
qed

lemma dec_step:
  assumes "items s p = Some ob"
  shows "dec_items (p # ps) s =
    do { s2 \<leftarrow> (if iref ob - 1 > 0 then Some (put_item p (ob\<lparr>iref := iref ob - 1\<rparr>) s)
               else do { ks \<leftarrow> drops (itype ob) (ientity ob); s' \<leftarrow> dec_items ks (put_item p (ob\<lparr>iref := 0\<rparr>) s); retire p s' });
         dec_items ps s2 }"
  using assms by (subst dec_items.simps) (cases "iref ob"; cases "iref ob - 1"; simp)

lemma dec_items_spec:
  assumes "rc_inv (ext + mset ps) K s"
  shows "\<exists>s'. dec_items ps s = Some s' \<and> rc_inv ext K s' \<and> released K s s'"
  using assms
proof (induction "card (set (items_used s) - K)" arbitrary: ext ps K s rule: less_induct)
  case outer: less
  show ?case
    using outer.prems outer.hyps
  proof (induction ps arbitrary: s)
    case Nil
    then show ?case
      by (subst dec_items.simps) (simp add: released_refl)
  next
    case (Cons p ps)
    have inv: "rc_inv (add_mset p (ext + mset ps)) K s"
      using Cons.prems(1) by simp
    have p: "p \<in> set (items_used s)" "p \<notin> K"
      using rc_held [OF inv] by blast+
    obtain ob where ob: "items s p = Some ob"
      using rc_invD(11) [OF inv p(1)] by blast
    show ?case
    proof (cases "iref ob - 1 > 0")
      case True
      let ?s = "put_item p (ob\<lparr>iref := iref ob - 1\<rparr>) s"
      have "rc_inv (ext + mset ps) K ?s"
        using rc_drop [OF inv] True ob by simp
      moreover have "items_used ?s = items_used s"
        by (simp add: put_item_def)
      ultimately obtain s' where "dec_items ps ?s = Some s'" "rc_inv ext K s'" "released K ?s s'"
        using Cons.IH [of ?s] Cons.prems(2) by auto
      then show ?thesis
        using True released_trans [OF released_put [OF p(2) ob True]] by (simp add: dec_step [OF ob])
    next
      case False
      let ?s = "put_item p (ob\<lparr>iref := 0\<rparr>) s"
      have die: "rc_inv ((ext + mset ps) + mset (kids ob)) (insert p K) ?s"
        using rc_die [OF inv] False ob by simp
      have "card (set (items_used ?s) - insert p K) < card (set (items_used s) - K)"
        using p by (intro psubset_card_mono) (auto simp: put_item_def)
      from Cons.prems(2) [OF this die] obtain s1 where s1: "dec_items (kids ob) ?s = Some s1"
          "rc_inv (ext + mset ps) (insert p K) s1" "released (insert p K) ?s s1"
        by blast
      obtain s2 where s2: "retire p s1 = Some s2" "rc_inv (ext + mset ps) K s2" "items_used s2 = remove1 p (items_used s1)"
          "\<And>q. q \<noteq> p \<Longrightarrow> items s2 q = items s1 q"
        using rc_retire [OF s1(2) p(2)] by blast
      have used: "set (items_used s2) \<subseteq> set (items_used s) - {p}"
        using s1(3) s2(3) rc_invD(1) [OF s1(2)] by (auto simp: released_def put_item_def)
      have rel: "released K s s2"
        using released_retire [OF s1(3) _ s2(4) p(2)] s2(3) rc_invD(1) [OF s1(2)] by simp
      have "card (set (items_used s2) - K) < card (set (items_used s) - K)"
        using p used by (intro psubset_card_mono) auto
      from Cons.prems(2) [OF this s2(2)] obtain s3 where "dec_items ps s2 = Some s3" "rc_inv ext K s3" "released K s2 s3"
        by blast
      moreover have "drops (itype ob) (ientity ob) = Some (kids ob)"
        using rc_invD(8) [OF inv p(1)] ob by simp
      ultimately show ?thesis
        using False s1(1) s2(1) released_trans [OF rel] by (simp add: dec_step [OF ob])
    qed
  qed
qed

section \<open>The other operations\<close>

lemma rc_hold:
  assumes inv: "rc_inv ext {} s" and p: "p \<in> set (items_used s)" and few: "iref (obj s p) + 1 < 2 ^ 32"
  shows "\<exists>s'. fk_item_inc_ref p s = Some s' \<and> rc_inv (add_mset p ext) {} s' \<and> items_used s' = items_used s
    \<and> (\<forall>q \<in> set (items_used s). itype (obj s' q) = itype (obj s q) \<and> ientity (obj s' q) = ientity (obj s q))
    \<and> (\<forall>q. q \<noteq> p \<longrightarrow> items s' q = items s q)"
proof -
  obtain ob where ob: "items s p = Some ob"
    using rc_invD(11) [OF inv p] by blast
  let ?s = "put_item p (ob\<lparr>iref := iref ob + 1\<rparr>) s"
  have "fk_item_inc_ref p s = Some ?s"
    using few ob by (simp add: fk_item_inc_ref_def)
  moreover have refs: "refs_to ?s {} q = refs_to s {} q" for q
    by (rule refs_to_cong) (use ob in \<open>auto simp: put_item_def\<close>)
  have "rc_inv (add_mset p ext) {} ?s"
  proof (rule rc_invI [OF inv])
    fix q
    show "count (add_mset p ext) q + refs_to ?s {} q = 0" if "q \<notin> set (items_used s) - {}"
      using rc_invD(10) [OF inv that] that p unfolding refs by auto
    show "iref (obj ?s q) = count (add_mset p ext) q + refs_to ?s {} q" if "q \<in> set (items_used s)"
      using rc_invD(9) [OF inv that] ob unfolding refs by (auto simp: put_item_def)
    show "drops (itype (obj ?s q)) (ientity (obj ?s q)) \<noteq> None" if "q \<in> set (items_used s)"
      using rc_invD(8) [OF inv that] ob by (auto simp: put_item_def)
    show "items ?s q = items s q" if "q \<in> set (items_free s)"
      using that p rc_invD(3) [OF inv] by (auto simp: put_item_def)
  qed (use p rc_invD(4) [OF inv] in \<open>auto simp: put_item_def\<close>)
  ultimately show ?thesis
    using ob by (intro exI [of _ ?s]) (auto simp: put_item_def)
qed

text \<open>When an item changes what it holds, references move between it and the outside.\<close>

lemma rc_move:
  assumes inv: "rc_inv A K s" and q: "q \<in> set (items_used s)" "q \<notin> K" and e: "drops (itype (obj s q)) (Some e) = Some ks"
    and eq: "A + mset (kids (obj s q)) = B + mset ks"
  shows "rc_inv B K (put_item q ((obj s q)\<lparr>ientity := Some e\<rparr>) s)" (is "rc_inv B K ?s")
proof -
  have kids: "kids (obj ?s q) = ks" "\<And>r. r \<noteq> q \<Longrightarrow> obj ?s r = obj s r"
    using e by (auto simp: put_item_def kids_def)
  have "refs_to ?s (insert q K) p = refs_to s (insert q K) p" for p
    by (rule refs_to_cong) (auto simp: put_item_def)
  moreover have "refs_to ?s K p = refs_to ?s (insert q K) p + count_list ks p" for p
    using refs_to_kill [of q ?s K p] q kids(1) by (simp add: put_item_def)
  moreover have "count A p + count_list (kids (obj s q)) p = count B p + count_list ks p" for p
    using arg_cong [OF eq, of "\<lambda>m. count m p"] by (simp add: count_mset)
  ultimately have refs: "count A p + refs_to s K p = count B p + refs_to ?s K p" for p
    using refs_to_kill [OF q, of p] by (metis add.assoc add.commute)
  show ?thesis
  proof (rule rc_invI [OF inv])
    fix p
    show "count B p + refs_to ?s K p = 0" if "p \<notin> set (items_used s) - K"
      using rc_invD(10) [OF inv that] refs [of p] by simp
    show "iref (obj ?s p) = count B p + refs_to ?s K p" if "p \<in> set (items_used s)" "p \<notin> K"
      using rc_invD(9) [OF inv that] refs [of p] by (auto simp: put_item_def)
    show "drops (itype (obj ?s p)) (ientity (obj ?s p)) \<noteq> None" if "p \<in> set (items_used s)"
      using rc_invD(8) [OF inv that] e by (auto simp: put_item_def)
    show "items ?s p = items s p" if "p \<in> set (items_free s)"
      using that q(1) rc_invD(3) [OF inv] by (auto simp: put_item_def)
  qed (use q rc_invD(4,6) [OF inv] in \<open>auto simp: put_item_def\<close>)
qed

lemma rc_create:
  assumes inv: "rc_inv ext {} s" and p: "items s p = None" and e: "drops t (Some e) = Some []"
  shows "\<exists>q s'. fk_item_create p t e s = Some (q, s') \<and> rc_inv ext {} s' \<and> q \<notin> set (items_used s)
    \<and> items s' q = Some \<lparr>itype = t, iref = 0, ientity = Some e\<rparr> \<and> (\<forall>r. r \<noteq> q \<longrightarrow> items s' r = items s r)"
proof -
  define q where "q = (case items_free s of q # qs \<Rightarrow> q | [] \<Rightarrow> p)"
  let ?ob = "\<lparr>itype = t, iref = 0, ientity = Some e\<rparr>"
  define s' where "s' = s\<lparr>items := (items s)(q \<mapsto> ?ob), items_used := q # items_used s, items_free := tl (items_free s)\<rparr>"
  note D = rc_invD [OF inv]
  have create: "fk_item_create p t e s = Some (q, s')"
    by (simp add: fk_item_create_def q_def s'_def put_item_def split: list.splits)
  have "p \<notin> set (items_used s)" "p \<notin> set (items_free s)"
    using p D(4) by blast+
  then have new: "q \<notin> set (items_used s)" "q \<notin> set (tl (items_free s))" "insert q (set (items_free s)) = insert q (set (tl (items_free s)))"
    "length (tl (items_free s)) \<le> length (items_free s)" "set (tl (items_free s)) \<subseteq> set (items_free s)"
    using D(2,3) by (cases "items_free s"; auto simp: q_def)+
  have kids: "kids (obj s' q) = []"
    using e by (simp add: s'_def kids_def)
  have refs: "refs_to s' {} r = refs_to s {} r" for r
  proof -
    have "refs_to s' {} r = refs_to s' {q} r"
      using refs_to_kill [of q s' "{}" r] kids by (simp add: s'_def)
    also have "\<dots> = refs_to s {} r"
      by (rule refs_to_cong) (use new(1) in \<open>auto simp: s'_def\<close>)
    finally show ?thesis .
  qed
  have "rc_inv ext {} s'"
    unfolding rc_inv_def
  proof (intro conjI ballI allI impI)
    show "dom (items s') = set (items_used s') \<union> set (items_free s')"
      using D(4) new by (auto simp: s'_def)
    fix r
    show "count ext r + refs_to s' {} r = 0" if "r \<notin> set (items_used s') - {}"
      unfolding refs by (rule D(10)) (use that in \<open>simp add: s'_def\<close>)
    show "iref (obj s' r) = count ext r + refs_to s' {} r" if "r \<in> set (items_used s') - {}"
      unfolding refs using D(9) [of r] D(10) [of q] that new(1) by (auto simp: s'_def)
    show "drops (itype (obj s' r)) (ientity (obj s' r)) \<noteq> None" if "r \<in> set (items_used s')"
      using D(8) [of r] that e by (auto simp: s'_def)
    show "items s' r = Some nil_obj" if "r \<in> set (items_free s')"
    proof -
      have "r \<in> set (items_free s)" "r \<noteq> q"
        using that new(2,5) by (auto simp: s'_def)
      then show ?thesis
        using D(7) [of r] by (simp add: s'_def)
    qed
    show "distinct (items_used s')" "distinct (items_free s')"
      using D(1,2) new(1) by (simp_all add: s'_def distinct_tl)
    show "set (items_used s') \<inter> set (items_free s') = {}"
      using D(3) new(2,5) by (auto simp: s'_def)
    show "length (items_free s') \<le> FK_FREE_ITEM_MAX" "{} \<subseteq> set (items_used s')"
      using D(5) new(4) by (simp_all add: s'_def)
  qed
  then show ?thesis
    using create new(1) by (auto simp: s'_def)
qed

lemma list_kids: "itype ob = FK_ITEM_LIST \<Longrightarrow> drops (itype ob) (ientity ob) = Some ks \<longleftrightarrow> ientity ob = Some (E_list ks)"
  by (cases "(itype ob, ientity ob)" rule: drops.cases) auto

lemma dict_kids: "itype ob = FK_ITEM_DICT \<Longrightarrow> drops (itype ob) (ientity ob) \<noteq> None \<longleftrightarrow> (\<exists>kvs. ientity ob = Some (E_dict kvs))"
  by (cases "(itype ob, ientity ob)" rule: drops.cases) auto

lemma rc_insert:
  assumes inv: "rc_inv ext {} s" and c: "c \<in> set (items_used s)" "itype (obj s c) = FK_ITEM_LIST"
    and p: "p \<in> set (items_used s)" "iref (obj s p) + 1 < 2 ^ 32"
  shows "\<exists>s'. list_insert h c p s = Some s' \<and> rc_inv ext {} s'"
proof -
  obtain s1 where s1: "fk_item_inc_ref p s = Some s1" "rc_inv (add_mset p ext) {} s1" "items_used s1 = items_used s"
    "itype (obj s1 c) = FK_ITEM_LIST"
    using rc_hold [OF inv p] c by auto
  have c1: "c \<in> set (items_used s1)"
    using s1(3) c(1) by simp
  obtain ob where ob: "items s1 c = Some ob"
    using rc_invD(11) [OF s1(2) c1] by blast
  have ent: "ientity ob = Some (E_list (kids ob))" "itype ob = FK_ITEM_LIST"
    using rc_invD(8) [OF s1(2) c1] s1(4) list_kids [of ob "kids ob"] ob by simp_all
  let ?ps = "if h then p # kids ob else kids ob @ [p]"
  have "rc_inv ext {} (put_item c (ob\<lparr>ientity := Some (E_list ?ps)\<rparr>) s1)"
    using rc_move [OF s1(2) c1, of "E_list ?ps" ?ps ext] ob ent(2) by simp
  then show ?thesis
    using s1(1) ob ent(1) by (simp add: list_insert_def set_entity_def)
qed

lemma rc_release:
  assumes "rc_inv (add_mset p ext) {} s"
  shows "\<exists>s'. fk_item_dec_ref p s = Some s' \<and> rc_inv ext {} s' \<and> released {} s s'"
  using dec_items_spec [of ext "[p]" "{}" s] assms by (simp add: fk_item_dec_ref_def)

lemma rc_remove:
  assumes inv: "rc_inv ext {} s" and c: "c \<in> set (items_used s)" "ientity (obj s c) = Some (E_list ps)" "itype (obj s c) = FK_ITEM_LIST"
    and i: "i < length ps"
  shows "\<exists>s'. list_remove c i s = Some s' \<and> rc_inv ext {} s'"
proof -
  obtain ob where ob: "items s c = Some ob"
    using rc_invD(11) [OF inv c(1)] by blast
  have kids: "kids ob = ps"
    using c(2,3) ob by (simp add: kids_def)
  let ?ps = "take i ps @ drop (Suc i) ps"
  have "mset ps = add_mset (ps ! i) (mset ?ps)"
    using arg_cong [OF id_take_nth_drop [OF i], of mset] by simp
  then have "rc_inv (add_mset (ps ! i) ext) {} (put_item c (ob\<lparr>ientity := Some (E_list ?ps)\<rparr>) s)"
    using rc_move [OF inv c(1), of "E_list ?ps" ?ps "add_mset (ps ! i) ext"] ob kids c(3) by simp
  from rc_release [OF this] show ?thesis
    using ob c(2) i by (auto simp: list_remove_def set_entity_def nth_opt_def)
qed

lemma rc_dict_insert:
  assumes inv: "rc_inv ext {} s" and c: "c \<in> set (items_used s)" "itype (obj s c) = FK_ITEM_DICT"
    and k: "k \<in> set (items_used s)" "iref (obj s k) + 2 < 2 ^ 32" and v: "v \<in> set (items_used s)" "iref (obj s v) + 2 < 2 ^ 32"
  shows "\<exists>s'. dict_insert c k v s = Some s' \<and> rc_inv ext {} s'"
proof -
  obtain s1 where s1: "fk_item_inc_ref k s = Some s1" "rc_inv (add_mset k ext) {} s1" "items_used s1 = items_used s"
    "itype (obj s1 c) = FK_ITEM_DICT" "\<And>q. q \<noteq> k \<Longrightarrow> items s1 q = items s q"
    using rc_hold [OF inv k(1)] k(2) c by auto
  have "iref (obj s1 v) + 1 < 2 ^ 32"
  proof (cases "v = k")
    case True
    then have "iref (obj s1 v) = iref (obj s v) + 1"
      using s1(1) k(2) rc_invD(11) [OF inv k(1)] by (auto simp: fk_item_inc_ref_def put_item_def split: bind_splits)
    then show ?thesis
      using v(2) by simp
  qed (use s1(5) v(2) in simp)
  then obtain s2 where s2: "fk_item_inc_ref v s1 = Some s2" "rc_inv (add_mset v (add_mset k ext)) {} s2" "items_used s2 = items_used s"
    "itype (obj s2 c) = FK_ITEM_DICT"
    using rc_hold [OF s1(2), of v] v(1) s1(3,4) c by auto
  have c2: "c \<in> set (items_used s2)"
    using s2(3) c(1) by simp
  obtain ob where ob: "items s2 c = Some ob"
    using rc_invD(11) [OF s2(2) c2] by blast
  obtain kvs where ent: "ientity ob = Some (E_dict kvs)" "itype ob = FK_ITEM_DICT"
    using rc_invD(8) [OF s2(2) c2] s2(4) dict_kids [of ob] ob by auto
  have "rc_inv ext {} (put_item c (ob\<lparr>ientity := Some (E_dict ((k, v) # kvs))\<rparr>) s2)"
    using rc_move [OF s2(2) c2, of "E_dict ((k, v) # kvs)" "[k, v] @ kids ob" ext] ob ent by (simp add: kids_def)
  then show ?thesis
    using s1(1) s2(1) ob ent(1) by (simp add: dict_insert_def set_entity_def)
qed

section \<open>Clients\<close>

text \<open>The calls a client may make: it creates empty values, counts and drops references that it holds (as the databases and
  the connections do), and lets lists and dictionaries hold items.\<close>

inductive item_call :: "nat multiset \<times> item_pool \<Rightarrow> nat multiset \<times> item_pool \<Rightarrow> bool" where
  create: "items s p = None \<Longrightarrow> drops t (Some e) = Some [] \<Longrightarrow> fk_item_create p t e s = Some (q, s') \<Longrightarrow> item_call (ext, s) (ext, s')"
| hold: "q \<in> set (items_used s) \<Longrightarrow> iref (obj s q) + 1 < 2 ^ 32 \<Longrightarrow> fk_item_inc_ref q s = Some s' \<Longrightarrow> item_call (ext, s) (add_mset q ext, s')"
| release: "fk_item_dec_ref q s = Some s' \<Longrightarrow> item_call (add_mset q ext, s) (ext, s')"
| push: "c \<in> set (items_used s) \<Longrightarrow> itype (obj s c) = FK_ITEM_LIST \<Longrightarrow> p \<in> set (items_used s) \<Longrightarrow> iref (obj s p) + 1 < 2 ^ 32 \<Longrightarrow>
    list_insert h c p s = Some s' \<Longrightarrow> item_call (ext, s) (ext, s')"
| pop: "c \<in> set (items_used s) \<Longrightarrow> itype (obj s c) = FK_ITEM_LIST \<Longrightarrow> list_remove c i s = Some s' \<Longrightarrow> item_call (ext, s) (ext, s')"
| hset: "c \<in> set (items_used s) \<Longrightarrow> itype (obj s c) = FK_ITEM_DICT \<Longrightarrow> k \<in> set (items_used s) \<Longrightarrow> v \<in> set (items_used s) \<Longrightarrow>
    iref (obj s k) + 2 < 2 ^ 32 \<Longrightarrow> iref (obj s v) + 2 < 2 ^ 32 \<Longrightarrow> dict_insert c k v s = Some s' \<Longrightarrow> item_call (ext, s) (ext, s')"

abbreviation item_calls :: "nat multiset \<times> item_pool \<Rightarrow> nat multiset \<times> item_pool \<Rightarrow> bool" where
  "item_calls \<equiv> item_call\<^sup>*\<^sup>*"

lemma item_call_inv: "item_call x y \<Longrightarrow> rc_inv (fst x) {} (snd x) \<Longrightarrow> rc_inv (fst y) {} (snd y)"
proof (induction rule: item_call.induct)
  case (create s p t e q s' ext)
  then show ?case
    using rc_create [of ext s p t e] by auto
next
  case (hold q s s' ext)
  then show ?case
    using rc_hold [of ext s q] by auto
next
  case (release q s s' ext)
  then show ?case
    using rc_release [of q ext s] by auto
next
  case (push c s p h s' ext)
  then show ?case
    using rc_insert [of ext s c p h] by auto
next
  case (pop c s i s' ext)
  then have inv: "rc_inv ext {} s"
    by simp
  have D: "drops (itype (obj s c)) (ientity (obj s c)) = Some (kids (obj s c))" "items s c = Some (obj s c)"
    using rc_invD(8,11) [OF inv pop(1)] .
  then have ent: "ientity (obj s c) = Some (E_list (kids (obj s c)))"
    using list_kids [OF pop(2)] by blast
  obtain ob where "items s c = Some ob"
    using D(2) by blast
  then have "i < length (kids (obj s c))"
    using pop(3) ent by (auto simp: list_remove_def nth_opt_def split: bind_splits if_splits)
  then show ?case
    using rc_remove [OF inv pop(1) ent pop(2), of i] pop(3) by auto
next
  case (hset c s k v s' ext)
  then show ?case
    using rc_dict_insert [of ext s c k v] by auto
qed

lemma item_calls_inv: "item_calls x y \<Longrightarrow> rc_inv (fst x) {} (snd x) \<Longrightarrow> rc_inv (fst y) {} (snd y)"
  by (rule star_invariant [where P = "\<lambda>x. rc_inv (fst x) {} (snd x)"]) (blast intro: item_call_inv)+

lemma rc_inv_init: "rc_inv {#} {} fk_item_init"
  by (simp add: rc_inv_def fk_item_init_def refs_to_def)

section \<open>Properties\<close>

text \<open>
  C14. Reference counts are exact: whatever calls the clients make of the items, in any order, the count of every used
  item is the number of references to it, from outside and from the lists and dictionaries that hold it; everything
  that is referred to is in use, and the cache of free items stays within its bound and apart
  from the items in use.\<close>

theorem item_refs_exact:
  assumes "item_calls ({#}, fk_item_init) (ext, s)"
  shows "(\<forall>p \<in> set (items_used s). iref (obj s p) = count ext p + refs_to s {} p)
    \<and> set_mset ext \<subseteq> set (items_used s) \<and> (\<forall>q \<in> set (items_used s). set (kids (obj s q)) \<subseteq> set (items_used s))
    \<and> set (items_used s) \<inter> set (items_free s) = {} \<and> length (items_free s) \<le> FK_FREE_ITEM_MAX"
proof -
  have inv: "rc_inv ext {} s"
    using item_calls_inv [OF assms] rc_inv_init by simp
  have "p \<in> set (items_used s)" if "q \<in> set (items_used s)" "p \<in> set (kids (obj s q))" for p q
  proof (rule ccontr)
    assume "p \<notin> set (items_used s)"
    then have "refs_to s {} p = 0"
      using rc_invD(10) [OF inv, of p] by simp
    then show False
      using that by (auto simp: refs_to_def count_list_0_iff)
  qed
  moreover have "p \<in> set (items_used s)" if "p \<in># ext" for p
    using that rc_invD(10) [OF inv, of p] by (auto simp: count_eq_zero_iff)
  ultimately show ?thesis
    using rc_invD(3,5,9) [OF inv] by auto
qed

text \<open>
  C15. Releasing an item: a client that holds a reference can always drop it. The call returns, without touching memory that is
  not allocated, whatever lists and dictionaries hang below the item; items that are still referred to from outside stay in
  use, every item that stays has what it had, and no item is left over without a reference that had
  one before.\<close>

theorem item_release:
  assumes "item_calls ({#}, fk_item_init) (add_mset p ext, s)"
  shows "\<exists>s'. fk_item_dec_ref p s = Some s' \<and> set_mset ext \<subseteq> set (items_used s') \<and> set (items_used s') \<subseteq> set (items_used s)
    \<and> (\<forall>q \<in> set (items_used s'). itype (obj s' q) = itype (obj s q) \<and> ientity (obj s' q) = ientity (obj s q)
         \<and> (iref (obj s' q) = 0 \<longrightarrow> iref (obj s q) = 0))"
proof -
  have "rc_inv (add_mset p ext) {} s"
    using item_calls_inv [OF assms] rc_inv_init by simp
  then obtain s' where s': "fk_item_dec_ref p s = Some s'" "rc_inv ext {} s'" "released {} s s'"
    using rc_release by blast
  have "q \<in> set (items_used s')" if "q \<in># ext" for q
    using that rc_invD(10) [OF s'(2), of q] by (auto simp: count_eq_zero_iff)
  then show ?thesis
    using s'(1,3) by (auto simp: released_def)
qed

text \<open>A list that holds one string; the list is held from outside.\<close>

definition pool_example :: "item_pool option" where
  "pool_example =
     do { (c, s1) \<leftarrow> fk_item_create 0 FK_ITEM_LIST (E_list []) fk_item_init;
          (v, s2) \<leftarrow> fk_item_create 1 FK_ITEM_STR (E_str ''v'') s1;
          s3 \<leftarrow> fk_item_inc_ref c s2;
          list_insert True c v s3 }"

lemma pool_example_calls:
  obtains s where "pool_example = Some s" "item_calls ({#}, fk_item_init) ({#0#}, s)" "items_used s = [1, 0]"
    "refs_to s {} 1 = 1" "map_option items_used (fk_item_dec_ref 0 s) = Some []"
proof -
  let ?c = "\<lparr>itype = FK_ITEM_LIST, iref = 0, ientity = Some (E_list [])\<rparr>" and ?v = "\<lparr>itype = FK_ITEM_STR, iref = 0, ientity = Some (E_str ''v'')\<rparr>"
  define s1 where "s1 = \<lparr>items = [0 \<mapsto> ?c], items_used = [0], items_free = []\<rparr>"
  define s2 where "s2 = \<lparr>items = [0 \<mapsto> ?c, 1 \<mapsto> ?v], items_used = [1, 0], items_free = []\<rparr>"
  define s3 where "s3 = \<lparr>items = [0 \<mapsto> ?c\<lparr>iref := 1\<rparr>, 1 \<mapsto> ?v], items_used = [1, 0], items_free = []\<rparr>"
  define s4 where "s4 = \<lparr>items = [0 \<mapsto> ?c\<lparr>iref := 1, ientity := Some (E_list [1])\<rparr>, 1 \<mapsto> ?v\<lparr>iref := 1\<rparr>], items_used = [1, 0], items_free = []\<rparr>"
  have c1: "fk_item_create 0 FK_ITEM_LIST (E_list []) fk_item_init = Some (0, s1)" "items fk_item_init 0 = None"
    by (simp_all add: s1_def fk_item_create_def fk_item_init_def put_item_def)
  have c2: "fk_item_create 1 FK_ITEM_STR (E_str ''v'') s1 = Some (1, s2)" "items s1 1 = None"
    by (simp_all add: s1_def s2_def fk_item_create_def put_item_def)
  have c3: "fk_item_inc_ref 0 s2 = Some s3" "0 \<in> set (items_used s2)" "iref (obj s2 0) + 1 < 2 ^ 32"
    by (simp_all add: s2_def s3_def fk_item_inc_ref_def put_item_def fun_eq_iff)
  have c4: "list_insert True 0 1 s3 = Some s4" "0 \<in> set (items_used s3)" "1 \<in> set (items_used s3)" "itype (obj s3 0) = FK_ITEM_LIST"
    "iref (obj s3 1) + 1 < 2 ^ 32"
    by (simp_all add: s3_def s4_def list_insert_def set_entity_def fk_item_inc_ref_def put_item_def fun_eq_iff)
  have "item_call ({#}, fk_item_init) ({#}, s1)" "item_call ({#}, s1) ({#}, s2)" "item_call ({#}, s2) ({#0#}, s3)" "item_call ({#0#}, s3) ({#0#}, s4)"
    using item_call.create [OF c1(2) _ c1(1)] item_call.create [OF c2(2) _ c2(1)] item_call.hold [OF c3(2,3,1)]
      item_call.push [OF c4(2,4,3,5,1)] by simp_all
  then have "item_calls ({#}, fk_item_init) ({#0#}, s4)"
    by (meson converse_rtranclp_into_rtranclp rtranclp.rtrancl_refl)
  moreover have "pool_example = Some s4"
    using c1(1) c2(1) c3(1) c4(1) by (simp add: pool_example_def)
  moreover have "items_used s4 = [1, 0]" "refs_to s4 {} 1 = 1"
    by (simp_all add: s4_def refs_to_def kids_def)
  moreover have "map_option items_used (fk_item_dec_ref 0 s4) = Some []"
  proof -
    let ?c4 = "\<lparr>itype = FK_ITEM_LIST, iref = 1, ientity = Some (E_list [1])\<rparr>"
    have v: "items (put_item 0 (?c4\<lparr>iref := 0\<rparr>) s4) 1 = Some (?v\<lparr>iref := 1\<rparr>)" and c: "items s4 0 = Some ?c4"
      by (simp_all add: s4_def put_item_def)
    have nil: "dec_items [] s = Some s" for s
      by (simp add: dec_items.simps)
    show ?thesis
      using dec_step [OF c, of "[]"] dec_step [OF v, of "[]"]
      by (simp add: fk_item_dec_ref_def nil retire_def rawlist_remove_def put_item_def s4_def FK_FREE_ITEM_MAX_def)
  qed
  ultimately show ?thesis
    using that by simp
qed

theorem item_refs_exact_witness:
  "\<exists>s. pool_example = Some s \<and> iref (obj s 1) = 1 \<and> iref (obj s 0) = count {#0#} (0 :: nat) + refs_to s {} 0"
proof -
  obtain s where s: "pool_example = Some s" "item_calls ({#}, fk_item_init) ({#0#}, s)" "items_used s = [1, 0]" "refs_to s {} 1 = 1"
    using pool_example_calls by blast
  then show ?thesis
    using item_refs_exact [OF s(2)] by auto
qed

theorem item_release_witness:
  "\<exists>s s'. pool_example = Some s \<and> items_used s = [1, 0] \<and> fk_item_dec_ref 0 s = Some s' \<and> items_used s' = []"
proof -
  obtain s where s: "pool_example = Some s" "item_calls ({#}, fk_item_init) ({#0#}, s)" "items_used s = [1, 0]"
    "map_option items_used (fk_item_dec_ref 0 s) = Some []"
    using pool_example_calls by blast
  then show ?thesis
    using item_release [of 0 "{#}" s] by auto
qed

end
