(* ===== verification/Fk_Lua.thy ===== *)
theory Fk_Lua
  imports Fk_Svr
begin

text \<open>
  \<^verbatim>\<open>fk_svr_lua.c\<close>: the command \<^verbatim>\<open>EVAL\<close>, which runs a Lua script, and the function \<^verbatim>\<open>redis.pcall\<close> by which the script runs
  commands. The interpreter is third-party code and a parameter: given the text of a script and its state it either
  refuses the text or yields a run, which returns values, raises an error or calls \<^verbatim>\<open>redis.pcall\<close> and goes on with
  what the call returns. The commands of a script run on the connection \<^verbatim>\<open>server.lua_conn\<close>, whose write buffer is read back.

  Shown are what a script does to the databases and what the client receives, as an abstract run over maps, and where
  the code goes wrong: replies that are never consumed, scripts inside scripts, the number of keys.
\<close>

section \<open>The interpreter\<close>

text \<open>A number is given by what \<^verbatim>\<open>lua_tointeger\<close> and \<^verbatim>\<open>lua_tolstring\<close> make of it, a table by its elements \<open>1\<close> to
  \<^verbatim>\<open>lua_objlen\<close> and its fields; \<open>LOther\<close> are functions, threads and user data.\<close>

datatype lua_val = LNil | LBool bool | LNum int string | LStr string | LTab "lua_val list" "(string \<times> lua_val) list" | LOther

datatype lua_run =
  Lua_return "lua_val list" lua_state
| Lua_raise lua_val lua_state
| Lua_pcall "lua_val list" lua_state "lua_val \<times> lua_state \<Rightarrow> lua_run"

type_synonym lua_interp = "string \<Rightarrow> lua_state \<Rightarrow> (lua_val \<times> lua_state) + lua_run"

fun lua_tostring :: "lua_val \<Rightarrow> string option" where
  "lua_tostring (LStr s) = Some s"
| "lua_tostring (LNum n t) = Some t"
| "lua_tostring _ = None"

text \<open>\<^verbatim>\<open>lua_rawseti\<close> on a table given by its elements.\<close>

definition rawseti :: "lua_val list \<Rightarrow> nat \<Rightarrow> lua_val \<Rightarrow> lua_val list" where
  "rawseti t i v = (if i \<le> length t then t[i - 1 := v] else t @ replicate (i - 1 - length t) LNil @ [v])"

section \<open>Reading a reply\<close>

text \<open>Positions are offsets in the memory of the write buffer. \<^verbatim>\<open>memchr\<close> looks at as many bytes as the payload has, from
  wherever it starts; \<^verbatim>\<open>atoi\<close> reads until a byte that is not part of a number, which has to be in the memory.\<close>

definition buf_memchr :: "fk_buf \<Rightarrow> nat \<Rightarrow> nat option" where
  "buf_memchr b i = map_option (\<lambda>j. i + j) (memchr (CHR 0x0A) (take (fk_buf_payload_len b) (drop i (buffer b))))"

definition buf_atoi :: "fk_buf \<Rightarrow> nat \<Rightarrow> int option" where
  "buf_atoi b i =
     (let r = dropWhile is_space (drop i (buffer b));
          ds = (case r of c # cs \<Rightarrow> if c = CHR ''+'' \<or> c = CHR ''-'' then cs else r | [] \<Rightarrow> [])
      in if list_all is_digit ds then None else Some (atoi (drop i (buffer b))))"

definition lua_pushlstring :: "fk_buf \<Rightarrow> nat \<Rightarrow> int \<Rightarrow> lua_val option" where
  "lua_pushlstring b i n = (if n < 0 then None else map_option LStr (mem_slice (buffer b) i (nat n)))"

definition fk_lua_parse_status :: "fk_buf \<Rightarrow> (lua_val \<times> fk_buf) option" where
  "fk_lua_parse_status b =
     do { v \<leftarrow> lua_pushlstring b (low b + 1) (int (fk_buf_payload_len b) - 1 - 2);
          Some (LTab [] [(''ok'', v)], fk_buf_low_inc b (fk_buf_payload_len b)) }"

definition fk_lua_parse_error :: "fk_buf \<Rightarrow> (lua_val \<times> fk_buf) option" where
  "fk_lua_parse_error b =
     do { v \<leftarrow> lua_pushlstring b (low b + 1) (int (fk_buf_payload_len b) - 1 - 2);
          Some (LTab [] [(''err'', v)], fk_buf_low_inc b (fk_buf_payload_len b)) }"

definition fk_lua_parse_integer :: "fk_buf \<Rightarrow> (lua_val \<times> fk_buf) option" where
  "fk_lua_parse_integer b = do { n \<leftarrow> buf_atoi b (low b + 1); Some (LNum n (print_int n), b) }"

definition fk_lua_parse_bulk :: "fk_buf \<Rightarrow> (lua_val \<times> fk_buf) option" where
  "fk_lua_parse_bulk b =
     (let e = buf_memchr b (low b)
      in do { bl \<leftarrow> buf_atoi b (low b + 1);
              if bl = -1 then Some (LBool False, b)
              else do { e' \<leftarrow> e; v \<leftarrow> lua_pushlstring b (e' + 1) bl; Some (v, b) } })"

text \<open>\<open>k\<close> iterations of the loop remain; \<open>i\<close> counts them, \<open>e\<close> is the end of the last line or content and \<open>t\<close> the
  table on the stack.\<close>

fun mbulk_loop :: "nat \<Rightarrow> nat \<Rightarrow> fk_buf \<Rightarrow> nat \<Rightarrow> lua_val list \<Rightarrow> lua_val list option" where
  "mbulk_loop 0 i b e t = Some t"
| "mbulk_loop (Suc k) i b e t =
     do { ch \<leftarrow> nth_opt (buffer b) (e + 1);
          if ch = CHR ''$'' then
            do { e1 \<leftarrow> buf_memchr b (e + 2);
                 bl \<leftarrow> buf_atoi b (e + 2);
                 v \<leftarrow> (if bl = -1 then Some (LBool False) else lua_pushlstring b (e1 + 1) bl);
                 mbulk_loop k (i + 1) b (nat (int e1 + (bl + 2))) (rawseti t (i + 1) v) }
          else if ch = CHR '':'' then
            do { e1 \<leftarrow> buf_memchr b (e + 2);
                 n \<leftarrow> buf_atoi b (e + 2);
                 mbulk_loop k (i + 1) b e1 (rawseti t (i + 1) (LNum n (print_int n))) }
          else mbulk_loop k (i + 1) b e t }"

definition fk_lua_parse_mbulk :: "fk_buf \<Rightarrow> (lua_val \<times> fk_buf) option" where
  "fk_lua_parse_mbulk b =
     do { e \<leftarrow> buf_memchr b (low b);
          mbulk \<leftarrow> buf_atoi b (low b + 1);
          t \<leftarrow> mbulk_loop (nat mbulk) 0 b e [];
          Some (LTab t [], b) }"

text \<open>The last step of \<^verbatim>\<open>fk_lua_pcall\<close>; when the first byte is none of the five, the result is not initialised.\<close>

definition lua_reply :: "fk_buf \<Rightarrow> (lua_val \<times> fk_buf) option" where
  "lua_reply b =
     do { ch \<leftarrow> nth_opt (buffer b) (low b);
          if ch = CHR ''+'' then fk_lua_parse_status b
          else if ch = CHR ''-'' then fk_lua_parse_error b
          else if ch = CHR '':'' then fk_lua_parse_integer b
          else if ch = CHR ''*'' then fk_lua_parse_mbulk b
          else if ch = CHR ''$'' then fk_lua_parse_bulk b
          else None }"

section \<open>Running a command\<close>

definition fk_lua_conn_proc_cmd :: "pmap \<Rightarrow> fk_svr \<Rightarrow> fk_conn \<Rightarrow> (fk_svr \<times> fk_conn) option" where
  "fk_lua_conn_proc_cmd pm s c =
     do { cmd \<leftarrow> arg_key c 0;
          c1 \<leftarrow> fk_conn_set_arg c 0 (Some (Str (fk_str_2upper cmd)));
          pto \<leftarrow> fk_proto_search pm (fk_str_2upper cmd);
          case pto of
            None \<Rightarrow> map_option snd (bad_req ''Invalid Protocol'' s c1)
          | Some p \<Rightarrow>
              if pargs p < 0 \<and> arg_cnt c1 < - pargs p then map_option snd (bad_req ''Wrong Argument Number'' s c1)
              else if pargs p > 0 \<and> pargs p \<noteq> arg_cnt c1 then map_option snd (bad_req ''Wrong Argument Number'' s c1)
              else
                do { (rt, s2, c2) \<leftarrow> phandler p s c1;
                     if rt = SVR_ERR then map_option snd (bad_req ''cmd handler failed'' s2 c2)
                     else do { c3 \<leftarrow> fk_conn_free_args c2; Some (s2, c3) } } }"

text \<open>The loop over the arguments; it stops at an argument that is neither a string nor a number.\<close>

fun pcall_args :: "lua_val list \<Rightarrow> fk_conn \<Rightarrow> (bool \<times> fk_conn) option" where
  "pcall_args [] c = Some (True, c)"
| "pcall_args (v # vs) c =
     (case lua_tostring v of
        None \<Rightarrow> Some (False, c)
      | Some arg \<Rightarrow>
          do { c1 \<leftarrow> fk_conn_set_arg c (arg_cnt c) (Some (Str arg));
               pcall_args vs (c1\<lparr>arg_cnt := arg_cnt c1 + 1\<rparr>) })"

definition fk_lua_pcall :: "pmap \<Rightarrow> lua_val list \<Rightarrow> fk_svr \<Rightarrow> fk_conn \<Rightarrow> (lua_val \<times> fk_svr \<times> fk_conn) option" where
  "fk_lua_pcall pm args s lc =
     (let lc1 = lc\<lparr>arg_parsed := int (length args), arg_vtr := fk_vtr_stretch (arg_vtr lc) (length args)\<rparr>
      in do { (ok, lc2) \<leftarrow> pcall_args args lc1;
              if \<not> ok then Some (LStr ''the argument of pcall should be string'', s, lc2)
              else
                do { (s', lc3) \<leftarrow> fk_lua_conn_proc_cmd pm s (lc2\<lparr>parse_done := 1\<rparr>);
                     (v, b) \<leftarrow> lua_reply (wbuf lc3);
                     Some (v, s', lc3\<lparr>wbuf := b\<rparr>) } })"

text \<open>\<^verbatim>\<open>lua_pcall\<close> of the interpreter: the run of a script with its calls of \<^verbatim>\<open>redis.pcall\<close>; \<open>Inl\<close> is an error it raised.\<close>

primrec lua_exec :: "pmap \<Rightarrow> lua_run \<Rightarrow> fk_svr \<Rightarrow> fk_conn \<Rightarrow> ((lua_val + lua_val list) \<times> fk_svr \<times> fk_conn) option" where
  "lua_exec pm (Lua_return vs g) = (\<lambda>s lc. Some (Inr vs, s\<lparr>gL := g\<rparr>, lc))"
| "lua_exec pm (Lua_raise v g) = (\<lambda>s lc. Some (Inl v, s\<lparr>gL := g\<rparr>, lc))"
| "lua_exec pm (Lua_pcall args g k) =
     (\<lambda>s lc. do { (v, s', lc') \<leftarrow> fk_lua_pcall pm args (s\<lparr>gL := g\<rparr>) lc; lua_exec pm (k (v, gL s')) s' lc' })"

section \<open>The reply to the client\<close>

text \<open>The results of the reply functions are not looked at.\<close>

definition say :: "(fk_conn \<Rightarrow> (svr_rc \<times> fk_conn) option) \<Rightarrow> fk_conn \<Rightarrow> fk_conn option" where
  "say add c = map_option snd (add c)"

definition say_str :: "string \<Rightarrow> fk_conn \<Rightarrow> fk_conn option" where
  "say_str p c =
     do { c1 \<leftarrow> say (fk_conn_add_bulk_rsp (s32 (int (length p)))) c; say (fk_conn_add_content_rsp p (length p)) c1 }"

fun script_elts :: "lua_val list \<Rightarrow> fk_conn \<Rightarrow> fk_conn option" where
  "script_elts [] c = Some c"
| "script_elts (v # vs) c =
     do { c1 \<leftarrow> (case v of LStr sp \<Rightarrow> say_str sp c
                  | LNum n _ \<Rightarrow> say (fk_conn_add_int_rsp (s32 n)) c
                  | _ \<Rightarrow> Some c);
          script_elts vs c1 }"

fun script_val :: "lua_val \<Rightarrow> fk_conn \<Rightarrow> fk_conn option" where
  "script_val (LNum n _) c = say (fk_conn_add_int_rsp (s32 n)) c"
| "script_val (LStr p) c = say_str p c"
| "script_val LNil c = say (fk_conn_add_bulk_rsp FK_RSP_NIL) c"
| "script_val (LBool _) c = Some c"
| "script_val (LTab t _) c =
     do { c1 \<leftarrow> say (fk_conn_add_mbulk_rsp (s32 (int (length t)))) c; script_elts t c1 }"
| "script_val LOther c = Some c"

text \<open>An error that is not a string is NULL for \<^verbatim>\<open>snprintf\<close>.\<close>

definition script_err :: "lua_val \<Rightarrow> fk_conn \<Rightarrow> fk_conn option" where
  "script_err v c = do { err \<leftarrow> lua_tostring v; say_str err c }"

fun script_rsp :: "lua_val + lua_val list \<Rightarrow> fk_conn \<Rightarrow> fk_conn option" where
  "script_rsp (Inl v) c = script_err v c"
| "script_rsp (Inr []) c = say (fk_conn_add_bulk_rsp FK_RSP_NIL) c"
| "script_rsp (Inr (v # _)) c = script_val v c"

section \<open>The command \<^verbatim>\<open>EVAL\<close>\<close>

datatype lua_para = FK_LUA_PARA_KEYS | FK_LUA_PARA_ARGV

definition fk_lua_push_paras :: "string list \<Rightarrow> lua_para \<Rightarrow> lua_state \<Rightarrow> lua_state" where
  "fk_lua_push_paras paras type g =
     (case type of
        FK_LUA_PARA_KEYS \<Rightarrow> g\<lparr>lua_keys := map cstr paras\<rparr>
      | FK_LUA_PARA_ARGV \<Rightarrow> g\<lparr>lua_argv := map cstr paras\<rparr>)"

text \<open>\<open>own\<close>: the connection is \<^verbatim>\<open>server.lua_conn\<close> itself, that is, the command was called by a script. While a script
  runs its connection is passed along and put back into the server at the end.\<close>

definition fk_lua_run_script :: "lua_interp \<Rightarrow> pmap \<Rightarrow> bool \<Rightarrow> fk_svr \<Rightarrow> fk_conn \<Rightarrow> string \<Rightarrow> (fk_svr \<times> fk_conn) option" where
  "fk_lua_run_script lua pm own s c code =
     (case lua (cstr code) (gL s) of
        Inl (err, g) \<Rightarrow> do { c' \<leftarrow> script_err err c; Some (s\<lparr>gL := g\<rparr>, c') }
      | Inr run \<Rightarrow>
          if own then
            do { (r, s', c') \<leftarrow> lua_exec pm run s c; c'' \<leftarrow> script_rsp r c'; Some (s', c'') }
          else
            do { lc \<leftarrow> lua_conn s;
                 (r, s', lc') \<leftarrow> lua_exec pm run s (lc\<lparr>db_idx := db_idx c\<rparr>);
                 c' \<leftarrow> script_rsp r c;
                 Some (s'\<lparr>lua_conn := Some lc'\<rparr>, c') })"

fun arg_strs :: "int list \<Rightarrow> fk_conn \<Rightarrow> string list option" where
  "arg_strs [] c = Some []"
| "arg_strs (i # is) c = do { a \<leftarrow> arg_key c i; as \<leftarrow> arg_strs is c; Some (a # as) }"

text \<open>The sum \<open>3 + nkey\<close> is of type \<^verbatim>\<open>int\<close>. For a negative \<open>nkey\<close> (the number wraps in \<^verbatim>\<open>atoi\<close>) \<^verbatim>\<open>calloc\<close> is asked for
  more than the address space and \<^verbatim>\<open>fk_mem_calloc\<close> ends the process.\<close>

definition eval_body :: "lua_interp \<Rightarrow> pmap \<Rightarrow> bool \<Rightarrow> handler" where
  "eval_body lua pm own s c =
     do { str_nkey \<leftarrow> arg_key c 2;
          if \<not> fk_str_is_nonminus str_nkey then error_rsp FK_RSP_TYPE_ERR s c
          else
            (let nkey = atoi (cstr str_nkey)
             in if 3 + nkey > 2147483647 then None
                else if 3 + nkey > arg_cnt c then error_rsp FK_RSP_ARGC_ERR s c
                else if nkey < 0 then None
                else
                  do { keys \<leftarrow> arg_strs [3..2 + nkey] c;
                       argv \<leftarrow> arg_strs [3 + nkey..arg_cnt c - 1] c;
                       code \<leftarrow> arg_key c 1;
                       (s', c') \<leftarrow> fk_lua_run_script lua pm own
                         (s\<lparr>gL := fk_lua_push_paras argv FK_LUA_PARA_ARGV (fk_lua_push_paras keys FK_LUA_PARA_KEYS (gL s))\<rparr>)
                         c code;
                       Some (SVR_OK, s', c') }) }"

text \<open>The handler calls itself when a script runs \<^verbatim>\<open>EVAL\<close>: \<open>d\<close> is the depth to which scripts inside scripts are
  followed (the interpreter has a limit of 200 C calls).\<close>

primrec nested_eval :: "lua_interp \<Rightarrow> nat \<Rightarrow> handler" where
  "nested_eval lua 0 = (\<lambda>s c. None)"
| "nested_eval lua (Suc d) = (\<lambda>s c. do { pm \<leftarrow> fk_proto_init (nested_eval lua d); eval_body lua pm True s c })"

definition fk_cmd_eval :: "lua_interp \<Rightarrow> nat \<Rightarrow> handler" where
  "fk_cmd_eval lua d s c = do { pm \<leftarrow> fk_proto_init (nested_eval lua d); eval_body lua pm False s c }"

section \<open>What a script reads back\<close>

text \<open>A reply as a value, its bytes, and the Lua value that a script is given for it. The elements behind the first nil
  of a list are lost, since the loop of \<^verbatim>\<open>fk_lua_parse_mbulk\<close> steps one byte too far there.\<close>

datatype elt = E_int int | E_bulk string | E_nil

datatype rsp = R_status string | R_error string | R_elt elt | R_multi "elt list"

fun enc_elt :: "elt \<Rightarrow> string" where
  "enc_elt (E_int n) = rsp_int n"
| "enc_elt (E_bulk t) = rsp_bulk t"
| "enc_elt E_nil = rsp_nil"

fun enc_rsp :: "rsp \<Rightarrow> string" where
  "enc_rsp (R_status t) = rsp_status t"
| "enc_rsp (R_error t) = rsp_error t"
| "enc_rsp (R_elt e) = enc_elt e"
| "enc_rsp (R_multi es) = rsp_mbulk (int (length es)) @ concat (map enc_elt es)"

fun elt_ok :: "elt \<Rightarrow> bool" where
  "elt_ok (E_int n) = (- 2147483648 \<le> n \<and> n < 2147483648)"
| "elt_ok (E_bulk t) = (int (length t) < 2147483648)"
| "elt_ok E_nil = True"

fun rsp_ok :: "rsp \<Rightarrow> bool" where
  "rsp_ok (R_elt e) = elt_ok e"
| "rsp_ok (R_multi es) = (list_all elt_ok es \<and> int (length es) < 2147483648)"
| "rsp_ok _ = True"

fun lua_elt :: "elt \<Rightarrow> lua_val" where
  "lua_elt (E_int n) = LNum n (print_int n)"
| "lua_elt (E_bulk t) = LStr t"
| "lua_elt E_nil = LBool False"

fun upto_nil :: "elt list \<Rightarrow> elt list" where
  "upto_nil [] = []"
| "upto_nil (e # es) = (if e = E_nil then [e] else e # upto_nil es)"

fun lua_of :: "rsp \<Rightarrow> lua_val" where
  "lua_of (R_status t) = LTab [] [(''ok'', LStr t)]"
| "lua_of (R_error t) = LTab [] [(''err'', LStr t)]"
| "lua_of (R_elt e) = lua_elt e"
| "lua_of (R_multi es) = LTab (map lua_elt (upto_nil es)) []"

fun consumed :: "rsp \<Rightarrow> bool" where
  "consumed (R_status _) = True"
| "consumed (R_error _) = True"
| "consumed _ = False"

subsection \<open>Bytes at a position of the buffer\<close>

definition starts :: "fk_buf \<Rightarrow> nat \<Rightarrow> string \<Rightarrow> bool" where
  "starts b i xs \<longleftrightarrow> (\<exists>t. drop i (buffer b) = xs @ t)"

lemma starts_payload: "buf_inv b \<Longrightarrow> starts b (low b) (payload b)"
  unfolding starts_def payload_def by (metis append_take_drop_id)

lemma starts_app: "starts b i (xs @ ys) \<Longrightarrow> starts b (i + length xs) ys"
  by (auto simp: starts_def add.commute [of i] simp flip: drop_drop)

lemma starts_Cons: "starts b i (c # xs) \<Longrightarrow> starts b (Suc i) xs"
  using starts_app [of b i "[c]" xs] by simp

lemma starts_prefix: "starts b i (xs @ ys) \<Longrightarrow> starts b i xs"
  by (auto simp: starts_def)

lemma starts_nth: "starts b i (c # xs) \<Longrightarrow> nth_opt (buffer b) i = Some c"
  by (auto simp: starts_def nth_opt_def) (metis hd_drop_conv_nth list.sel(1), metis drop_all not_less list.distinct(1))

lemma starts_memchr:
  assumes "starts b i (xs @ CHR 0x0A # ys)" and "CHR 0x0A \<notin> set xs" and "length xs < fk_buf_payload_len b"
  shows "buf_memchr b i = Some (i + length xs)"
proof -
  obtain k where "fk_buf_payload_len b - length xs = Suc k"
    using assms(3) by (cases "fk_buf_payload_len b - length xs") auto
  then show ?thesis
    using assms by (auto simp: starts_def buf_memchr_def memchr_append_notin)
qed

lemma starts_slice:
  assumes "starts b i (xs @ ys)" and "xs @ ys \<noteq> []"
  shows "lua_pushlstring b i (int (length xs)) = Some (LStr xs)"
proof -
  obtain t where t: "drop i (buffer b) = xs @ ys @ t"
    using assms by (auto simp: starts_def)
  then have "length (buffer b) - i = length (xs @ ys) + length t"
    by (metis append_assoc length_append length_drop)
  moreover have "0 < length (xs @ ys)"
    using assms(2) by blast
  ultimately have "i + length xs \<le> length (buffer b)"
    unfolding length_append by linarith
  then show ?thesis
    using t by (simp add: lua_pushlstring_def mem_slice_def)
qed

lemma print_int_chars: "c \<in> set (print_int n) \<Longrightarrow> is_digit c \<or> c = CHR ''-''"
  by (auto simp: print_int_def print_nat_digits split: if_splits)

lemma print_int_newline: "CHR 0x0A \<notin> set (print_int n)"
  using print_int_chars [of "CHR 0x0A" n] by (auto simp: is_digit_def schar_def)

lemma atoi_print_int:
  assumes "- 2147483648 \<le> n" and "n < 2147483648" and "rest = [] \<or> \<not> is_digit (hd rest)"
  shows "atoi (print_int n @ rest) = n"
proof (cases "n < 0")
  case True
  have "strtol (CHR ''-'' # print_nat (nat (- n)) @ rest) = n"
    using assms True by (simp add: strtol_def is_space_def schar_def digits_val_print_nat_rest clamp64_def)
  then show ?thesis
    using True assms by (simp add: print_int_def atoi_def s32_id)
next
  case False
  then show ?thesis
    using assms atoi_print_nat [of "nat n" rest] by (simp add: print_int_def)
qed

lemma starts_atoi:
  assumes "starts b i (print_int n @ CHR 0x0D # ys)" and "- 2147483648 \<le> n" and "n < 2147483648"
  shows "buf_atoi b i = Some n"
proof -
  obtain t where t: "drop i (buffer b) = print_int n @ CHR 0x0D # t"
    using assms(1) by (auto simp: starts_def)
  have cr: "\<not> is_digit (CHR 0x0D)" and minus: "\<not> is_space (CHR ''-'')"
    by (simp_all add: is_digit_def is_space_def schar_def)
  obtain c cs where p: "print_nat (nat \<bar>n\<bar>) = c # cs"
    by (cases "print_nat (nat \<bar>n\<bar>)") auto
  have c: "\<not> is_space c" "c \<noteq> CHR ''+''" "c \<noteq> CHR ''-''"
    using print_nat_digits [of c "nat \<bar>n\<bar>"] p is_digit_not_special [of c] by auto
  show ?thesis
  proof (cases "n < 0")
    case True
    then have "drop i (buffer b) = CHR ''-'' # c # cs @ CHR 0x0D # t"
      using t p by (simp add: print_int_def)
    then show ?thesis
      using atoi_print_int [of n "CHR 0x0D # t"] assms cr minus t by (simp add: buf_atoi_def)
  next
    case False
    then have "drop i (buffer b) = c # cs @ CHR 0x0D # t"
      using t p by (simp add: print_int_def)
    then show ?thesis
      using atoi_print_int [of n "CHR 0x0D # t"] assms cr c t by (simp add: buf_atoi_def)
  qed
qed

subsection \<open>Elements\<close>

lemmas rsp_defs = rsp_int_def rsp_bulk_def rsp_nil_def rsp_status_def rsp_error_def rsp_mbulk_def crlf_def FK_RSP_NIL_def

lemma starts_line:
  assumes "starts b i (m # print_int n @ crlf @ ys)" and "- 2147483648 \<le> n" and "n < 2147483648"
    and "length (print_int n) + 1 < fk_buf_payload_len b"
  shows "nth_opt (buffer b) i = Some m" and "buf_atoi b (Suc i) = Some n"
    and "buf_memchr b (Suc i) = Some (Suc i + length (print_int n) + 1)" and "starts b (Suc i + length (print_int n) + 2) ys"
proof -
  have s: "starts b (Suc i) (print_int n @ CHR 0x0D # CHR 0x0A # ys)"
    using starts_Cons [OF assms(1)] by (simp add: crlf_def)
  show "nth_opt (buffer b) i = Some m"
    using starts_nth [OF assms(1)] .
  show "buf_atoi b (Suc i) = Some n"
    using starts_atoi [OF s assms(2,3)] .
  show "buf_memchr b (Suc i) = Some (Suc i + length (print_int n) + 1)"
    using starts_memchr [of b "Suc i" "print_int n @ [CHR 0x0D]" ys] s assms(4) print_int_newline [of n] by simp
  show "starts b (Suc i + length (print_int n) + 2) ys"
    using starts_app [of b "Suc i" "print_int n @ crlf" ys] s by (simp add: crlf_def)
qed

lemma rawseti_next [simp]: "i = length t \<Longrightarrow> rawseti t (Suc i) v = t @ [v]"
  by (simp add: rawseti_def)

text \<open>At a byte that starts no element the loop stays where it is.\<close>

lemma mbulk_stuck:
  assumes "nth_opt (buffer b) (Suc e) = Some ch" and "ch \<noteq> CHR ''$''" and "ch \<noteq> CHR '':''"
  shows "mbulk_loop k i b e t = Some t"
  using assms by (induction k arbitrary: i) auto

lemma enc_elt_second:
  obtains m c xs where "enc_elt x = m # c # xs" and "c \<noteq> CHR ''$''" and "c \<noteq> CHR '':''"
proof -
  obtain m n ys where x: "enc_elt x = m # print_int n @ ys"
    by (cases x) (auto simp: rsp_defs)
  obtain c cs where c: "print_int n = c # cs"
    by (cases "print_int n") (auto simp: print_int_def split: if_splits)
  then have "is_digit c \<or> c = CHR ''-''"
    using print_int_chars [of c n] by simp
  then have "c \<noteq> CHR ''$''" "c \<noteq> CHR '':''"
    by (auto simp: is_digit_def schar_def)
  then show thesis
    using that x c by simp
qed

lemma mbulk_elts:
  assumes "starts b (Suc e) (concat (map enc_elt es))" and "list_all elt_ok es" and "i = length t"
    and "length (concat (map enc_elt es)) \<le> fk_buf_payload_len b"
  shows "mbulk_loop (length es) i b e t = Some (t @ map lua_elt (upto_nil es))"
  using assms
proof (induction es arbitrary: e i t)
  case (Cons x es)
  let ?ys = "concat (map enc_elt es)"
  show ?case
  proof (cases x)
    case (E_int n)
    note l = starts_line [of b "Suc e" "CHR '':''" n ?ys]
    have "mbulk_loop (length es) (Suc i) b (Suc (Suc (Suc (e + length (print_int n))))) (t @ [LNum n (print_int n)])
        = Some ((t @ [LNum n (print_int n)]) @ map lua_elt (upto_nil es))"
      using l Cons.prems E_int by (intro Cons.IH) (auto simp: rsp_defs)
    then show ?thesis
      using l Cons.prems E_int by (simp add: rsp_defs)
  next
    case (E_bulk c)
    note l = starts_line [of b "Suc e" "CHR ''$''" "int (length c)" "c @ crlf @ ?ys"]
    let ?p = "Suc (Suc e) + length (print_int (int (length c))) + 2"
    have s: "starts b ?p (c @ crlf @ ?ys)"
      using l Cons.prems E_bulk by (simp add: rsp_defs)
    have "starts b (?p + length c + 2) ?ys"
      using starts_app [of b ?p "c @ crlf" ?ys] s by (simp add: crlf_def add_ac)
    then have "mbulk_loop (length es) (Suc i) b (?p + length c + 1) (t @ [LStr c]) = Some ((t @ [LStr c]) @ map lua_elt (upto_nil es))"
      using Cons.prems E_bulk by (intro Cons.IH) (auto simp: rsp_defs)
    then show ?thesis
      using l Cons.prems E_bulk starts_slice [OF s] by (simp add: rsp_defs nat_add_distrib)
  next
    case E_nil
    note l = starts_line [of b "Suc e" "CHR ''$''" "-1" ?ys]
    let ?p = "Suc (Suc e) + length (print_int (-1)) + 2"
    have s: "starts b ?p ?ys"
      using l Cons.prems E_nil by (simp add: rsp_defs)
    have stuck: "mbulk_loop (length es) j b ?p u = Some u" for j u
    proof (cases es)
      case (Cons y zs)
      obtain m ch xs where y: "enc_elt y = m # ch # xs" "ch \<noteq> CHR ''$''" "ch \<noteq> CHR '':''"
        by (rule enc_elt_second)
      then have "starts b ?p (m # ch # xs @ concat (map enc_elt zs))"
        using s Cons by simp
      then have "nth_opt (buffer b) (Suc ?p) = Some ch"
        using starts_Cons starts_nth by blast
      then show ?thesis
        using y mbulk_stuck by blast
    qed simp
    have "nat (int (Suc (Suc e) + length (print_int (- 1)) + 1) + (- 1 + 2)) = ?p"
      by simp
    then show ?thesis
      using l Cons.prems E_nil stuck by (simp add: rsp_defs nat_add_distrib)
  qed
qed simp

lemma lua_reply_elt:
  assumes s: "starts b (low b) (enc_elt x @ rest)" and n: "length (enc_elt x) \<le> fk_buf_payload_len b" and ok: "elt_ok x"
  shows "lua_reply b = Some (lua_elt x, b)"
proof (cases x)
  case (E_int n)
  then show ?thesis
    using starts_line [of b "low b" "CHR '':''" n rest] assms
    by (simp add: lua_reply_def fk_lua_parse_integer_def rsp_defs)
next
  case (E_bulk c)
  let ?k = "int (length c)"
  note l = starts_line [of b "low b" "CHR ''$''" ?k "c @ crlf @ rest"]
  have r: "starts b (low b) ((CHR ''$'' # print_int ?k @ [CHR 0x0D]) @ CHR 0x0A # c @ crlf @ rest)"
    using s E_bulk by (simp add: rsp_defs)
  have e: "buf_memchr b (low b) = Some (Suc (Suc (low b + length (print_int ?k))))"
    using starts_memchr [OF r] n E_bulk print_int_newline [of ?k] by (simp add: rsp_defs)
  have "lua_pushlstring b (Suc (Suc (Suc (low b + length (print_int ?k))))) ?k = Some (LStr c)"
    using l(4) s n ok E_bulk by (intro starts_slice [of b _ c "crlf @ rest"]) (simp_all add: rsp_defs)
  then show ?thesis
    using l(1,2) e s n ok E_bulk by (simp add: lua_reply_def fk_lua_parse_bulk_def rsp_defs)
next
  case E_nil
  then show ?thesis
    using starts_line [of b "low b" "CHR ''$''" "-1" rest] assms
    by (simp add: lua_reply_def fk_lua_parse_bulk_def rsp_defs Let_def)
qed

text \<open>A reply at the start of the payload is read back; a list up to its first nil.\<close>

lemma lua_reply_spec:
  assumes "buf_inv b" and "payload b = enc_rsp r @ rest" and "rsp_ok r" and "consumed r \<longrightarrow> rest = []"
  shows "lua_reply b = Some (lua_of r, if consumed r then fk_buf_low_inc b (fk_buf_payload_len b) else b)"
proof -
  have s: "starts b (low b) (enc_rsp r @ rest)" and n: "fk_buf_payload_len b = length (enc_rsp r) + length rest"
    using starts_payload [OF assms(1)] length_payload [OF assms(1)] assms(2) by simp_all
  show ?thesis
  proof (cases r)
    case (R_status t)
    then have r: "starts b (low b) (CHR ''+'' # t @ crlf)" "fk_buf_payload_len b = length t + 3"
      using s n assms(4) by (auto simp: rsp_defs)
    then show ?thesis
      using R_status starts_nth [OF r(1)] starts_slice [OF starts_Cons [OF r(1)]]
      by (simp add: lua_reply_def fk_lua_parse_status_def crlf_def)
  next
    case (R_error t)
    then have r: "starts b (low b) (CHR ''-'' # t @ crlf)" "fk_buf_payload_len b = length t + 3"
      using s n assms(4) by (auto simp: rsp_defs)
    then show ?thesis
      using R_error starts_nth [OF r(1)] starts_slice [OF starts_Cons [OF r(1)]]
      by (simp add: lua_reply_def fk_lua_parse_error_def crlf_def)
  next
    case (R_elt x)
    then show ?thesis
      using s n assms(3) lua_reply_elt [of b x rest] by simp
  next
    case (R_multi es)
    let ?k = "int (length es)"
    have r: "starts b (low b) (CHR ''*'' # print_int ?k @ crlf @ concat (map enc_elt es) @ rest)"
      and k: "?k < 2147483648" "length (print_int ?k) + 1 < fk_buf_payload_len b"
      using s n assms(3) R_multi by (simp_all add: rsp_defs)
    note l = starts_line [OF r _ k]
    have "buf_memchr b (low b) = Some (low b + length (print_int ?k) + 2)"
      using starts_memchr [of b "low b" "CHR ''*'' # print_int ?k @ [CHR 0x0D]"] r n R_multi print_int_newline [of ?k]
      by (simp add: rsp_defs)
    moreover have "mbulk_loop (length es) 0 b (low b + length (print_int ?k) + 2) [] = Some ([] @ map lua_elt (upto_nil es))"
      using l(4) n assms(3) R_multi by (intro mbulk_elts) (auto intro: starts_prefix)
    ultimately show ?thesis
      using l(1,2) R_multi by (simp add: lua_reply_def fk_lua_parse_mbulk_def)
  qed
qed

section \<open>Every reply is one value of the protocol\<close>

definition is_rsp :: "string \<Rightarrow> bool" where
  "is_rsp bs \<longleftrightarrow> (\<exists>r. bs = enc_rsp r \<and> (length bs < 2147483648 \<longrightarrow> rsp_ok r))"

lemma is_rsp_line:
  "is_rsp (rsp_status t)" "is_rsp (rsp_error t)" "is_rsp rsp_nil" "is_rsp (rsp_bulk t)"
  "- 2147483648 \<le> n \<Longrightarrow> n < 2147483648 \<Longrightarrow> is_rsp (rsp_int n)"
  unfolding is_rsp_def
  by (rule exI [of _ "R_status t"] exI [of _ "R_error t"] exI [of _ "R_elt E_nil"] exI [of _ "R_elt (E_bulk t)"] exI [of _ "R_elt (E_int n)"];
      simp add: rsp_bulk_def)+

lemma is_rsp_get: "is_rsp (rsp_get v)"
  by (cases v rule: rsp_get.cases) (auto simp: is_rsp_line)

lemma rsp_val_elt:
  obtains e where "rsp_val v = enc_elt e" and "length (enc_elt e) < 2147483648 \<longrightarrow> elt_ok e"
proof (cases v rule: rsp_val.cases)
  case (1 t)
  then show thesis
    by (intro that [of "E_bulk t"]) (auto simp: rsp_bulk_def)
qed (rule that [of E_nil]; simp)+

lemma a_mget_elts:
  "\<exists>es. snd (a_mget clk i ks a) = concat (map enc_elt es) \<and> length es = length ks
    \<and> (length (concat (map enc_elt es)) < 2147483648 \<longrightarrow> list_all elt_ok es)"
proof (induction ks arbitrary: a)
  case (Cons k ks)
  let ?a1 = "a_expire clk i k a"
  obtain es where "snd (a_mget clk i ks ?a1) = concat (map enc_elt es)" "length es = length ks"
    "length (concat (map enc_elt es)) < 2147483648 \<longrightarrow> list_all elt_ok es"
    using Cons.IH by blast
  moreover obtain e where "rsp_val (a_get i k ?a1) = enc_elt e" "length (enc_elt e) < 2147483648 \<longrightarrow> elt_ok e"
    by (rule rsp_val_elt)
  ultimately show ?case
    by (intro exI [of _ "e # es"]) (auto simp: Let_def split: prod.splits)
qed simp

lemma is_rsp_mget:
  assumes "a_mget clk i ks a = (a', bs)" and "int (length ks) < 2147483648"
  shows "is_rsp (rsp_mbulk (int (length ks)) @ bs)"
proof -
  obtain es where "bs = concat (map enc_elt es)" "length es = length ks"
    "length (concat (map enc_elt es)) < 2147483648 \<longrightarrow> list_all elt_ok es"
    using a_mget_elts [of clk i ks a] assms(1) by auto
  then show ?thesis
    using assms(2) unfolding is_rsp_def by (intro exI [of _ "R_multi es"]) auto
qed

lemma is_rsp_coll:
  "is_rsp (a_hget k v)" "a_hset i h k t a = (a', bs) \<Longrightarrow> is_rsp bs" "short_list v \<Longrightarrow> is_rsp (a_llen v)"
  "a_pop left i k a = (a', bs) \<Longrightarrow> is_rsp bs" "a_push left i k vs a = (a', bs) \<Longrightarrow> int (length vs) < 2147483648 \<Longrightarrow> is_rsp bs"
proof -
  show "is_rsp (a_hget k v)"
    by (induction k v rule: a_hget.induct) (auto simp: is_rsp_line split: option.splits)
  show "a_hset i h k t a = (a', bs) \<Longrightarrow> is_rsp bs"
    by (auto simp: is_rsp_line split: option.splits aval.splits)
  show "short_list v \<Longrightarrow> is_rsp (a_llen v)"
    by (cases v rule: a_llen.cases) (auto simp: is_rsp_line short_list_def)
  show "a_pop left i k a = (a', bs) \<Longrightarrow> is_rsp bs"
    by (auto simp: is_rsp_line a_pop_def split: option.splits aval.splits if_splits)
  show "a_push left i k vs a = (a', bs) \<Longrightarrow> int (length vs) < 2147483648 \<Longrightarrow> is_rsp bs"
    by (auto simp: is_rsp_line a_push_def split: option.splits aval.splits)
qed

lemma a_cmd_rsp:
  assumes "a_cmd clk n u as a i = Some (a', i', bs)" and "int (length as) < 2147483648" and "as \<noteq> []"
  shows "is_rsp bs"
proof -
  have "card (present i (tl as) a) \<le> length as"
    using card_mono [of "set (tl as)" "present i (tl as) a"] card_length [of "tl as"] by (auto simp: present_def)
  then have del: "is_rsp (rsp_int (int (card (present i (tl as) a))))"
    using assms(2) by (simp add: is_rsp_line)
  have mget: "a_mget clk i (tl as) a = (a2, bs2) \<Longrightarrow> is_rsp (rsp_mbulk (int (length as) - 1) @ bs2)" for a2 bs2
    using is_rsp_mget [of clk i "tl as" a] assms(2,3) by (cases as) auto
  have push: "int (length (drop 2 as)) < 2147483648"
    using assms(2) by simp
  show ?thesis
    using assms(1) del mget push unfolding a_cmd_def Let_def
    by (auto simp: is_rsp_line is_rsp_get is_rsp_coll(1,3) dest: is_rsp_coll(2,4,5) simp del: a_hset.simps
        split: if_splits prod.splits bind_splits)
qed

lemma a_exec_rsp:
  assumes "a_exec clk n as a i = Some (a', i', bs)" and "int (length as) < 2147483648" and "as \<noteq> []"
  shows "is_rsp bs"
  using assms a_cmd_rsp [OF _ assms(2,3)] unfolding a_exec_def
  by (auto simp: is_rsp_line split: option.splits if_splits)

section \<open>Commands of a script and commands of a client\<close>

lemma set_arg_ctype: "fk_conn_set_arg c i x = Some c' \<Longrightarrow> ctype c' = ctype c"
  by (auto simp: fk_conn_set_arg_def split: if_splits)

lemma free_args_ctype:
  assumes "fk_conn_free_args c = Some c'"
  shows "ctype c' = ctype c"
proof -
  have "ctype c2 = ctype c1" if "free_args_loop is c1 = Some c2" for "is" c1 c2
    using that
    by (induction "is" c1 rule: free_args_loop.induct) (auto split: bind_splits if_splits dest: set_arg_ctype)
  then show ?thesis
    using assms by (auto simp: fk_conn_free_args_def split: bind_splits)
qed

lemma proto_pargs:
  assumes "fk_proto_init ev = Some pm" and "fk_proto_search pm name = Some (Some p)" and "str_ok name"
  shows "pargs p \<noteq> 0"
proof -
  obtain d where "fk_proto_init ev = Some d" "dict_inv str_eop str_ok d" "dict_map d = table_of ev"
    by (rule proto_init_spec)
  then have "table_of ev name = Some p"
    using assms by (simp add: fk_proto_search_def strd.get_spec)
  then have "p \<in> set (protos ev)"
    unfolding table_of_def by (auto dest: map_of_SomeD)
  then show ?thesis
    by (auto simp: protos_def)
qed

lemma lua_proc_cmd_same:
  assumes pm: "fk_proto_init ev = Some pm" and pd: "parse_done c \<noteq> 0" and cmd: "arg_key c 0 = Some cmd" "str_ok cmd"
    and run: "fk_conn_proc_cmd pm s c = Some (rc, s', c')" and fake: "ctype c' \<noteq> CONN_REAL"
  shows "fk_lua_conn_proc_cmd pm s c = Some (s', c')
    \<or> rc = SVR_ERR \<and> fk_lua_conn_proc_cmd pm s c = map_option snd (error_rsp ''cmd handler failed'' s' c')"
proof -
  have "str_ok (fk_str_2upper cmd)"
    using cmd(2) by (simp add: str_ok_def fk_str_2upper_def)
  note nz = proto_pargs [OF pm _ this]
  obtain c1 pto where c1: "fk_conn_set_arg c 0 (Some (Str (fk_str_2upper cmd))) = Some c1"
    and pto: "fk_proto_search pm (fk_str_2upper cmd) = Some pto"
    using run pd cmd(1) by (auto simp: fk_conn_proc_cmd_def split: bind_splits)
  note unf = fk_conn_proc_cmd_def fk_lua_conn_proc_cmd_def
  show ?thesis
  proof (cases pto)
    case None
    then show ?thesis
      using run pd cmd(1) c1 pto by (simp add: unf)
  next
    case (Some p)
    then have p: "pargs p \<noteq> 0"
      using nz pto by simp
    consider "pargs p < 0 \<and> arg_cnt c1 < - pargs p \<or> \<not> pargs p < 0 \<and> pargs p \<noteq> arg_cnt c1"
      | "\<not> (pargs p < 0 \<and> arg_cnt c1 < - pargs p)" "\<not> (pargs p \<ge> 0 \<and> pargs p \<noteq> arg_cnt c1)"
      by linarith
    then show ?thesis
    proof cases
      case 1
      then show ?thesis
        using run pd cmd(1) c1 pto Some p by (auto simp: unf)
    next
      case 2
      then obtain rt s2 c2 c3 where h: "phandler p s c1 = Some (rt, s2, c2)" "fk_conn_free_args c2 = Some c3" "c' = c3"
        using run pd cmd(1) c1 pto Some by (auto simp: unf split: bind_splits if_splits)
      have "ctype c2 \<noteq> CONN_REAL"
        using free_args_ctype [OF h(2)] fake h(3) by simp
      then show ?thesis
        using run pd cmd(1) c1 pto Some 2 p h by (auto simp: unf bad_req_def split: if_splits)
    qed
  qed
qed

text \<open>
  C12. A script's command is the client's: for every request, whatever its handler does, \<^verbatim>\<open>fk_lua_conn_proc_cmd\<close> on the
  connection of the scripts leaves the server and the connection as \<^verbatim>\<open>fk_conn_proc_cmd\<close> does, except that a
  handler that fails is reported by a further error reply.\<close>

theorem lua_proc_cmd_equiv:
  assumes "fk_proto_init ev = Some pm" and "parse_done c \<noteq> 0" and "arg_key c 0 = Some cmd" "str_ok cmd"
    and "fk_conn_proc_cmd pm s c = Some (rc, s', c')" and "ctype c' \<noteq> CONN_REAL"
  shows "fk_lua_conn_proc_cmd pm s c = Some (s', c')
    \<or> rc = SVR_ERR \<and> fk_lua_conn_proc_cmd pm s c = map_option snd (error_rsp ''cmd handler failed'' s' c')"
  using lua_proc_cmd_same [OF assms] .

section \<open>A call of a script\<close>

text \<open>The connection of the scripts between two calls.\<close>

definition lua_idle :: "fk_conn \<Rightarrow> bool" where
  "lua_idle lc \<longleftrightarrow> conn_inv lc \<and> parse_done lc = 0 \<and> arg_parsed lc = 0 \<and> ctype lc = CONN_FAKE"

lemma pcall_args_spec:
  assumes "map lua_tostring vs = map Some as" and "arg_cnt c = int (length done)"
    and "varray (arg_vtr c) = map (Some \<circ> Str) done @ replicate (length as + k) None"
  shows "pcall_args vs c = Some (True, c\<lparr>arg_vtr := (arg_vtr c)\<lparr>varray := map (Some \<circ> Str) (done @ as) @ replicate k None\<rparr>,
    arg_cnt := int (length (done @ as))\<rparr>)"
  using assms
proof (induction vs arbitrary: as c "done")
  case (Cons v vs)
  obtain a bs where as: "as = a # bs" "lua_tostring v = Some a" "map lua_tostring vs = map Some bs"
    using Cons.prems(1) by (cases as) auto
  let ?w = "map (Some \<circ> Str) (done @ [a]) @ replicate (length bs + k) None"
  have "fk_conn_set_arg c (arg_cnt c) (Some (Str a)) = Some (c\<lparr>arg_vtr := (arg_vtr c)\<lparr>varray := ?w\<rparr>\<rparr>)"
    using Cons.prems(2,3) as(1) by (simp add: fk_conn_set_arg_def fk_vtr_set_def upd_opt_def list_update_append)
  then show ?case
    using Cons.IH [of bs "c\<lparr>arg_vtr := (arg_vtr c)\<lparr>varray := ?w\<rparr>, arg_cnt := arg_cnt c + 1\<rparr>" "done @ [a]"] as Cons.prems(2)
    by (simp add: add.commute)
qed simp

lemma pcall_args_ready:
  assumes idle: "lua_idle lc" and as: "req_ok as" and vs: "map lua_tostring vs = map Some as"
  obtains v where "pcall_args vs (lc\<lparr>arg_parsed := int (length vs), arg_vtr := fk_vtr_stretch (arg_vtr lc) (length vs)\<rparr>)
      = Some (True, lc\<lparr>arg_parsed := int (length as), arg_vtr := v, arg_cnt := int (length as)\<rparr>)"
    and "args_inv (lc\<lparr>arg_parsed := int (length as), arg_vtr := v, arg_cnt := int (length as), parse_done := 1\<rparr>) as"
proof -
  have n: "length vs = length as"
    using vs by (metis length_map)
  have a: "args_inv lc []" "cur_arglen lc = -1"
    using idle by (auto simp: lua_idle_def conn_inv_def args_inv_def)
  then have v: "vinit_len (arg_vtr lc) = 4" "vlen (arg_vtr lc) = 4" "varray (arg_vtr lc) = replicate 4 None"
    using idle by (auto simp: lua_idle_def args_inv_def vtr_inv_def fk_consts)
  let ?v = "fk_vtr_stretch (arg_vtr lc) (length as)"
  let ?w = "?v\<lparr>varray := map (Some \<circ> Str) as @ replicate (4 - length as) None\<rparr>"
  have w: "varray ?v = replicate (length as + (4 - length as)) None" "vlen ?v = max 4 (length as)" "vinit_len ?v = 4"
    using v by (auto simp: fk_vtr_stretch_def simp flip: replicate_add)
  show thesis
  proof (rule that [of ?w])
    show "pcall_args vs (lc\<lparr>arg_parsed := int (length vs), arg_vtr := fk_vtr_stretch (arg_vtr lc) (length vs)\<rparr>)
      = Some (True, lc\<lparr>arg_parsed := int (length as), arg_vtr := ?w, arg_cnt := int (length as)\<rparr>)"
      using pcall_args_spec [OF vs, of "lc\<lparr>arg_parsed := int (length vs), arg_vtr := ?v\<rparr>" "[]" "4 - length as"] w n a(1)
      by (simp add: args_inv_def)
    show "args_inv (lc\<lparr>arg_parsed := int (length as), arg_vtr := ?w, arg_cnt := int (length as), parse_done := 1\<rparr>) as"
      using w as a by (auto simp: args_inv_def vtr_inv_def req_ok_def fk_consts)
  qed
qed

text \<open>A reply that was read but not consumed stays in front of all later ones: \<open>pending lc q\<close> says which one it is. The
  script sees it in place of the reply of its command.\<close>

definition pending :: "fk_conn \<Rightarrow> rsp option \<Rightarrow> bool" where
  "pending lc q \<longleftrightarrow>
     (case q of None \<Rightarrow> out lc = [] | Some r \<Rightarrow> rsp_ok r \<and> \<not> consumed r \<and> (\<exists>rest. out lc = enc_rsp r @ rest))"

definition seen :: "rsp option \<Rightarrow> rsp \<Rightarrow> rsp" where
  "seen q r = (case q of None \<Rightarrow> r | Some r0 \<Rightarrow> r0)"

definition after :: "rsp option \<Rightarrow> rsp \<Rightarrow> rsp option" where
  "after q r = (case q of None \<Rightarrow> if consumed r then None else Some r | Some r0 \<Rightarrow> Some r0)"

definition held :: "rsp option \<Rightarrow> rsp \<Rightarrow> nat \<Rightarrow> nat" where
  "held q r m = (if q = None \<and> consumed r then 0 else m + length (enc_rsp r))"

lemma reply_pending:
  assumes inv: "buf_inv (wbuf lc)" and q: "pending lc0 q" and app: "out lc = out lc0 @ enc_rsp r" and ok: "rsp_ok r"
  shows "\<exists>b. lua_reply (wbuf lc) = Some (lua_of (seen q r), b) \<and> buf_inv b \<and> highwat b = highwat (wbuf lc)
    \<and> pending (lc\<lparr>wbuf := b\<rparr>) (after q r) \<and> length (payload b) = held q r (length (out lc0))"
proof (cases q)
  case None
  let ?b = "fk_buf_low_inc (wbuf lc) (fk_buf_payload_len (wbuf lc))"
  have low: "buf_inv ?b" "payload ?b = []" "highwat ?b = highwat (wbuf lc)"
    using low_inc_spec [OF inv] length_payload [OF inv] by (simp_all add: fk_buf_low_inc_def Let_def)
  have "out lc = enc_rsp r @ []"
    using q app None by (simp add: pending_def)
  from lua_reply_spec [OF inv this ok]
  have "lua_reply (wbuf lc) = Some (lua_of r, if consumed r then ?b else wbuf lc)"
    by simp
  then show ?thesis
    using low None inv ok app q by (auto simp: seen_def after_def held_def pending_def)
next
  case (Some r0)
  then obtain rest where r0: "rsp_ok r0" "\<not> consumed r0" "out lc0 = enc_rsp r0 @ rest"
    using q by (auto simp: pending_def)
  have "lua_reply (wbuf lc) = Some (lua_of r0, wbuf lc)"
    using lua_reply_spec [OF inv _ r0(1), of "rest @ enc_rsp r"] r0 app by simp
  then show ?thesis
    using r0 Some inv app by (auto simp: seen_def after_def held_def pending_def)
qed

lemma pcall_spec:
  assumes pm: "fk_proto_init ev = Some pm" and s: "svr_inv s" and idle: "lua_idle lc"
    and idx: "0 \<le> db_idx lc" "db_idx lc < int (dbcnt s)" and vs: "map lua_tostring vs = map Some as" and as: "req_ok as"
    and ex: "a_exec (clock s) (dbcnt s) as (abs_svr s) (cur lc) = Some (a', i', enc_rsp r)" and ok: "rsp_ok r"
    and q: "pending lc q" and fit: "length (out lc) + length (enc_rsp r) \<le> highwat (wbuf lc)"
    and hw: "highwat (wbuf lc) < 536870912"
  shows "\<exists>s' lc'. fk_lua_pcall pm vs s lc = Some (lua_of (seen q r), s', lc') \<and> svr_inv s' \<and> svr_rest s s' \<and> abs_svr s' = a'
    \<and> lua_idle lc' \<and> db_idx lc' = int i' \<and> highwat (wbuf lc') = highwat (wbuf lc) \<and> pending lc' (after q r)
    \<and> length (out lc') = held q r (length (out lc))"
proof -
  obtain v where args: "pcall_args vs (lc\<lparr>arg_parsed := int (length vs), arg_vtr := fk_vtr_stretch (arg_vtr lc) (length vs)\<rparr>)
      = Some (True, lc\<lparr>arg_parsed := int (length as), arg_vtr := v, arg_cnt := int (length as)\<rparr>)"
    "args_inv (lc\<lparr>arg_parsed := int (length as), arg_vtr := v, arg_cnt := int (length as), parse_done := 1\<rparr>) as"
    by (rule pcall_args_ready [OF idle as vs])
  let ?c = "lc\<lparr>arg_parsed := int (length as), arg_vtr := v, arg_cnt := int (length as), parse_done := 1\<rparr>"
  have pre: "cmd_pre s ?c as"
    using s idle idx args(2) fit hw by (auto simp: cmd_pre_def lua_idle_def conn_inv_def)
  have "unlogged s ?c" "parse_done ?c = 1" "cur ?c = cur lc"
    using idle by (simp_all add: unlogged_def lua_idle_def)
  then obtain rc s' c' where run: "fk_conn_proc_cmd pm s ?c = Some (rc, s', c')" "served s ?c rc s' c' a' i' (enc_rsp r)"
    using proc_cmd_served [OF pre _ pm] ex by auto
  have sv: "rc = SVR_OK" "abs_svr s' = a'" "db_idx c' = int i'" "out c' = out lc @ enc_rsp r" "svr_inv s'" "svr_rest s s'"
      "conn_inv c'" "parse_done c' = 0" "arg_parsed c' = 0" "ctype c' = CONN_FAKE" "highwat (wbuf c') = highwat (wbuf lc)"
    using run(2) fit idle by (auto simp: served_def lua_idle_def)
  have hd: "arg_key ?c 0 = Some (hd as)" "str_ok (hd as)"
    using arg_facts [OF args(2), of 0] as by (cases as; auto simp: req_ok_def arg_ok_str_ok)+
  have proc: "fk_lua_conn_proc_cmd pm s ?c = Some (s', c')"
    using lua_proc_cmd_same [OF pm _ hd run(1)] sv by simp
  have "buf_inv (wbuf c')"
    using sv(7) by (simp add: conn_inv_def)
  from reply_pending [OF this q sv(4) ok]
  obtain b where b: "lua_reply (wbuf c') = Some (lua_of (seen q r), b)" "buf_inv b" "highwat b = highwat (wbuf c')"
    "pending (c'\<lparr>wbuf := b\<rparr>) (after q r)" "length (payload b) = held q r (length (out lc))"
    by auto
  have "fk_lua_pcall pm vs s lc = Some (lua_of (seen q r), s', c'\<lparr>wbuf := b\<rparr>)"
    using args(1) proc b(1) by (simp add: fk_lua_pcall_def)
  moreover have "lua_idle (c'\<lparr>wbuf := b\<rparr>)"
    using sv b(2) by (auto simp: lua_idle_def conn_inv_def args_inv_def)
  ultimately show ?thesis
    using sv b by auto
qed

section \<open>The run of a script\<close>

text \<open>What a script does to the databases \<open>a\<close> with the selected database \<open>i\<close>: every call of \<^verbatim>\<open>redis.pcall\<close> has the meaning
  \<open>a_exec\<close> of its command. \<open>q\<close> is the pending reply, \<open>m\<close> the number of bytes in the write buffer of the scripts, \<open>w\<close> their
  limit, \<open>n\<close> the number of databases.\<close>

inductive script_runs ::
    "(nat \<Rightarrow> timeval) \<Rightarrow> nat \<Rightarrow> nat \<Rightarrow> lua_run \<Rightarrow> astate \<times> nat \<times> rsp option \<times> nat
      \<Rightarrow> lua_val + lua_val list \<Rightarrow> lua_state \<Rightarrow> astate \<times> nat \<times> rsp option \<times> nat \<Rightarrow> bool"
  for clk :: "nat \<Rightarrow> timeval" and n w :: nat where
  run_return: "script_runs clk n w (Lua_return vs g) x (Inr vs) g x"
| run_raise: "script_runs clk n w (Lua_raise v g) x (Inl v) g x"
| run_pcall: "script_runs clk n w (Lua_pcall vs g k) (a, i, q, m) res g' x"
  if "map lua_tostring vs = map Some as" and "req_ok as" and "a_exec clk n as a i = Some (a1, i1, enc_rsp r)" and "rsp_ok r"
    and "m + length (enc_rsp r) \<le> w"
    and "script_runs clk n w (k (lua_of (seen q r), g)) (a1, i1, after q r, held q r m) res g' x"

inductive_simps script_runs_simps:
  "script_runs clk n w (Lua_return vs g) x res g' y"
  "script_runs clk n w (Lua_raise v g) x res g' y"

text \<open>The server and the connection of the scripts in the state that the abstract run is in.\<close>

definition lua_at :: "(nat \<Rightarrow> timeval) \<Rightarrow> nat \<Rightarrow> nat \<Rightarrow> fk_svr \<Rightarrow> fk_conn \<Rightarrow> astate \<times> nat \<times> rsp option \<times> nat \<Rightarrow> bool" where
  "lua_at clk n w s lc x \<longleftrightarrow>
     (case x of (a, i, q, m) \<Rightarrow>
        svr_inv s \<and> clock s = clk \<and> dbcnt s = n \<and> abs_svr s = a \<and> lua_idle lc \<and> db_idx lc = int i \<and> i < n
        \<and> pending lc q \<and> length (out lc) = m \<and> highwat (wbuf lc) = w)"

lemma svr_rest_gL: "svr_rest s s' \<Longrightarrow> gL s' = gL s \<and> lua_conn s' = lua_conn s"
  by (auto simp: svr_rest_def)

lemma abs_svr_gL [simp]: "abs_svr (s\<lparr>gL := g\<rparr>) = abs_svr s" "abs_svr (s\<lparr>lua_conn := x\<rparr>) = abs_svr s"
  by (simp_all add: abs_svr_def)

lemma svr_inv_gL [simp]: "svr_inv (s\<lparr>gL := g\<rparr>) = svr_inv s" "svr_inv (s\<lparr>lua_conn := x\<rparr>) = svr_inv s"
  by (simp_all add: svr_inv_def)

lemma exec_runs:
  assumes "script_runs clk n w run x res g' y" and "fk_proto_init ev = Some pm" and "w < 536870912" and "lua_at clk n w s lc x"
  shows "\<exists>s' lc'. lua_exec pm run s lc = Some (res, s', lc') \<and> lua_at clk n w s' lc' y \<and> gL s' = g'
    \<and> svr_rest (s\<lparr>gL := g'\<rparr>) s'"
  using assms
proof (induction arbitrary: s lc rule: script_runs.induct)
  case (run_pcall vs as a i a1 i1 r m k q g res g' x)
  let ?s = "s\<lparr>gL := g\<rparr>"
  have at: "svr_inv ?s" "lua_idle lc" "pending lc q" "dbcnt s = n" "clock s = clk" "abs_svr s = a" "db_idx lc = int i" "i < n"
      "length (out lc) = m" "highwat (wbuf lc) = w"
    using run_pcall.prems(3) by (auto simp: lua_at_def)
  obtain s1 lc1 where c: "fk_lua_pcall pm vs ?s lc = Some (lua_of (seen q r), s1, lc1)" "svr_inv s1" "svr_rest ?s s1"
      "abs_svr s1 = a1" "lua_idle lc1" "db_idx lc1 = int i1" "highwat (wbuf lc1) = w" "pending lc1 (after q r)"
      "length (out lc1) = held q r m"
    using pcall_spec [OF run_pcall.prems(1) at(1,2), of vs as a1 i1 r q] at run_pcall.hyps run_pcall.prems(2) by auto
  have "lua_at clk n w s1 lc1 (a1, i1, after q r, held q r m)"
    using c at a_exec_idx [OF run_pcall.hyps(3)] svr_rest_fields [OF c(3)] by (auto simp: lua_at_def)
  then obtain s' lc' where s': "lua_exec pm (k (lua_of (seen q r), g)) s1 lc1 = Some (res, s', lc')" "lua_at clk n w s' lc' x"
      "gL s' = g'" "svr_rest (s1\<lparr>gL := g'\<rparr>) s'"
    using run_pcall.IH run_pcall.prems by blast
  obtain d e t where "s1 = ?s\<lparr>db := d, expdb := e, ticks := t\<rparr>"
    using c(3) by (auto simp: svr_rest_def)
  then have "svr_rest (s\<lparr>gL := g'\<rparr>) (s1\<lparr>gL := g'\<rparr>)"
    unfolding svr_rest_def by (intro exI [of _ d] exI [of _ e] exI [of _ t]) simp
  then have "svr_rest (s\<lparr>gL := g'\<rparr>) s'"
    using s'(4) svr_rest_trans by blast
  then show ?case
    using s' c(1) svr_rest_gL [OF c(3)] by auto
qed (auto simp: lua_at_def)

section \<open>The reply of \<^verbatim>\<open>EVAL\<close>\<close>

fun elt_bytes :: "lua_val \<Rightarrow> string" where
  "elt_bytes (LStr t) = rsp_bulk t"
| "elt_bytes (LNum n _) = rsp_int (s32 n)"
| "elt_bytes _ = []"

fun val_bytes :: "lua_val \<Rightarrow> string" where
  "val_bytes (LNum n _) = rsp_int (s32 n)"
| "val_bytes (LStr t) = rsp_bulk t"
| "val_bytes LNil = rsp_nil"
| "val_bytes (LTab t _) = rsp_mbulk (s32 (int (length t))) @ concat (map elt_bytes t)"
| "val_bytes _ = []"

fun res_bytes :: "lua_val + lua_val list \<Rightarrow> string option" where
  "res_bytes (Inl v) = map_option rsp_bulk (lua_tostring v)"
| "res_bytes (Inr []) = Some rsp_nil"
| "res_bytes (Inr (v # _)) = Some (val_bytes v)"

definition said :: "fk_conn \<Rightarrow> fk_conn option \<Rightarrow> string \<Rightarrow> bool" where
  "said c r bs \<longleftrightarrow> (\<exists>c'. r = Some c' \<and> replied c SVR_OK c' bs)"

text \<open>Room for a reply: it fits into the write buffer.\<close>

definition fits :: "fk_conn \<Rightarrow> string \<Rightarrow> bool" where
  "fits c bs \<longleftrightarrow> conn_inv c \<and> length (out c) + length bs \<le> highwat (wbuf c) \<and> highwat (wbuf c) < 536870912"

lemma fits_step: "fits c (bs1 @ bs2) \<Longrightarrow> replied c SVR_OK c1 bs1 \<Longrightarrow> fits c1 bs2"
  using replied_inv [of c SVR_OK c1 bs1] replied_fields [of c SVR_OK c1 bs1] replied_fits [of c SVR_OK c1 bs1]
  by (simp add: fits_def)

lemma fits_first: "fits c (bs1 @ bs2) \<Longrightarrow> fits c bs1"
  by (auto simp: fits_def)

lemma said_bind:
  assumes "said c r bs1" and "\<And>c1. replied c SVR_OK c1 bs1 \<Longrightarrow> said c1 (f c1) bs2"
  shows "said c (do { c1 \<leftarrow> r; f c1 }) (bs1 @ bs2)"
proof -
  obtain c1 where c1: "r = Some c1" "replied c SVR_OK c1 bs1"
    using assms(1) by (auto simp: said_def)
  then obtain c2 where "f c1 = Some c2" "replied c1 SVR_OK c2 bs2"
    using assms(2) by (auto simp: said_def)
  then show ?thesis
    using c1 replied_trans by (auto simp: said_def)
qed

lemma said_line:
  assumes "fits c bs" and "\<exists>rc c'. add c = Some (rc, c') \<and> replied c rc c' bs"
  shows "said c (say add c) bs"
proof -
  obtain rc c' where c': "add c = Some (rc, c')" "replied c rc c' bs"
    using assms(2) by blast
  then have "rc = SVR_OK"
    using replied_fits assms(1) by (auto simp: fits_def)
  then show ?thesis
    using c' by (simp add: said_def say_def)
qed

lemma said_lines:
  "fits c (rsp_int n) \<Longrightarrow> said c (say (fk_conn_add_int_rsp n) c) (rsp_int n)"
  "fits c rsp_nil \<Longrightarrow> said c (say (fk_conn_add_bulk_rsp FK_RSP_NIL) c) rsp_nil"
  "fits c (rsp_mbulk n) \<Longrightarrow> said c (say (fk_conn_add_mbulk_rsp n) c) (rsp_mbulk n)"
proof -
  have l: "length (out c) + length bs < 1073741824" "conn_inv c" if "fits c bs" for bs
    using that by (auto simp: fits_def)
  show "fits c (rsp_int n) \<Longrightarrow> said c (say (fk_conn_add_int_rsp n) c) (rsp_int n)"
    using l [of "rsp_int n"] by (intro said_line) (auto simp: rsp_int_def crlf_def intro!: int_rsp_spec [unfolded crlf_def])
  show "fits c rsp_nil \<Longrightarrow> said c (say (fk_conn_add_bulk_rsp FK_RSP_NIL) c) rsp_nil"
    using l [of rsp_nil] by (intro said_line) (auto simp: rsp_nil_def crlf_def intro!: bulk_rsp_spec [unfolded crlf_def])
  show "fits c (rsp_mbulk n) \<Longrightarrow> said c (say (fk_conn_add_mbulk_rsp n) c) (rsp_mbulk n)"
    using l [of "rsp_mbulk n"] by (intro said_line) (auto simp: rsp_mbulk_def crlf_def intro!: mbulk_rsp_spec [unfolded crlf_def])
qed

lemma said_str:
  assumes "fits c (rsp_bulk t)" and "CHR 0x00 \<notin> set t"
  shows "said c (say_str t c) (rsp_bulk t)"
proof -
  let ?h = "CHR ''$'' # print_int (int (length t)) @ crlf"
  have b: "rsp_bulk t = ?h @ (t @ crlf)"
    by (simp add: rsp_bulk_def)
  have n: "s32 (int (length t)) = int (length t)"
    using assms(1) by (intro s32_id) (auto simp: fits_def rsp_bulk_def)
  have "said c (say (fk_conn_add_bulk_rsp (int (length t))) c) ?h"
    using assms(1) unfolding b
    by (intro said_line fits_first [of c ?h "t @ crlf"]) (auto simp: fits_def crlf_def intro!: bulk_rsp_spec [unfolded crlf_def])
  moreover have "said c1 (say (fk_conn_add_content_rsp t (length t)) c1) (t @ crlf)" if "replied c SVR_OK c1 ?h" for c1
    using fits_step [OF assms(1) [unfolded b] that] assms(2)
    by (intro said_line) (auto simp: fits_def crlf_def intro!: content_rsp_spec [unfolded crlf_def])
  ultimately show ?thesis
    unfolding say_str_def n b by (rule said_bind)
qed

text \<open>Strings without NUL bytes, which \<^verbatim>\<open>snprintf\<close> copies in full.\<close>

fun plain :: "lua_val \<Rightarrow> bool" where
  "plain (LStr t) = (CHR 0x00 \<notin> set t)"
| "plain (LTab t _) = list_all (\<lambda>v. case v of LStr t \<Rightarrow> CHR 0x00 \<notin> set t | _ \<Rightarrow> True) t"
| "plain _ = True"

fun plain_res :: "lua_val + lua_val list \<Rightarrow> bool" where
  "plain_res (Inl v) = (\<forall>t. lua_tostring v = Some t \<longrightarrow> CHR 0x00 \<notin> set t)"
| "plain_res (Inr vs) = (vs \<noteq> [] \<longrightarrow> plain (hd vs))"

lemma said_none: "conn_inv c \<Longrightarrow> said c (Some c) []"
  by (simp add: said_def replied_refl)

lemma said_elts:
  assumes "fits c (concat (map elt_bytes vs))" and "list_all (\<lambda>v. case v of LStr t \<Rightarrow> CHR 0x00 \<notin> set t | _ \<Rightarrow> True) vs"
  shows "said c (script_elts vs c) (concat (map elt_bytes vs))"
  using assms
proof (induction vs arbitrary: c)
  case (Cons v vs)
  have "said c (case v of LStr sp \<Rightarrow> say_str sp c | LNum n _ \<Rightarrow> say (fk_conn_add_int_rsp (s32 n)) c | _ \<Rightarrow> Some c) (elt_bytes v)"
    using Cons.prems fits_first [of c "elt_bytes v"]
    by (cases v) (auto simp: said_lines said_str said_none fits_def)
  moreover have "said c1 (script_elts vs c1) (concat (map elt_bytes vs))" if "replied c SVR_OK c1 (elt_bytes v)" for c1
    using Cons.IH fits_step that Cons.prems by (auto split: lua_val.splits)
  ultimately show ?case
    unfolding script_elts.simps list.map concat.simps by (rule said_bind)
qed (auto simp: said_none fits_def)

lemma said_val:
  assumes "fits c (val_bytes v)" and "plain v"
  shows "said c (script_val v c) (val_bytes v)"
proof (cases v)
  case (LTab t f)
  let ?h = "rsp_mbulk (s32 (int (length t)))"
  have fit: "fits c (?h @ concat (map elt_bytes t))"
    using assms(1) LTab by simp
  have "said c (say (fk_conn_add_mbulk_rsp (s32 (int (length t)))) c) ?h"
    using fits_first [OF fit] by (rule said_lines)
  moreover have "said c1 (script_elts t c1) (concat (map elt_bytes t))" if "replied c SVR_OK c1 ?h" for c1
    using fits_step [OF fit that] assms(2) LTab by (auto intro: said_elts)
  ultimately show ?thesis
    unfolding LTab script_val.simps val_bytes.simps by (rule said_bind)
qed (use assms in \<open>auto simp: said_lines said_str said_none fits_def\<close>)

lemma said_res:
  assumes "res_bytes res = Some bs" and "fits c bs" and "plain_res res"
  shows "said c (script_rsp res c) bs"
  using assms by (induction res c rule: script_rsp.induct) (auto simp: script_err_def said_str said_lines said_val)

section \<open>\<^verbatim>\<open>EVAL\<close>\<close>

lemma arg_strs_spec:
  assumes inv: "args_inv c as" and j: "j \<le> length as"
  shows "arg_strs [int i..int j - 1] c = Some (take (j - i) (drop i as))"
proof (induction "j - i" arbitrary: i)
  case 0
  then show ?case by simp
next
  case (Suc k)
  then have ij: "i < j"
    by simp
  then have "[int i..int j - 1] = int i # [int (Suc i)..int j - 1]"
    by (simp add: upto_rec1 add.commute)
  moreover have "arg_key c (int i) = Some (as ! i)"
    using arg_facts [OF inv, of i] ij j by simp
  moreover have "arg_strs [int (Suc i)..int j - 1] c = Some (take (j - Suc i) (drop (Suc i) as))"
    using Suc by (intro Suc.hyps(1)) simp
  moreover have "take (j - i) (drop i as) = as ! i # take (j - Suc i) (drop (Suc i) as)"
    using ij j by (simp add: Cons_nth_drop_Suc [symmetric] Suc_diff_Suc [symmetric])
  ultimately show ?case
    by simp
qed

lemma print_nat_cstr: "cstr (print_nat n) = print_nat n"
  using print_nat_digits [of "CHR 0x00" n] by (intro cstr_id) (auto simp: is_digit_def schar_def)

lemma print_nat_nonminus: "fk_str_is_nonminus (print_nat n)"
proof -
  have "length (print_nat n) = 1" if "hd (print_nat n) = CHR ''0''"
    using that hd_print_nat_zero [of n] by (simp add: print_nat_0)
  then show ?thesis
    using print_nat_digits [of _ n] length_greater_0_conv [of "print_nat n"]
    by (auto simp: fk_str_is_nonminus_def nonminus_seq_iff)
qed

text \<open>The interpreter as \<^verbatim>\<open>EVAL\<close> prepares it.\<close>

definition with_paras :: "string list \<Rightarrow> string list \<Rightarrow> lua_state \<Rightarrow> lua_state" where
  "with_paras keys argv g = g\<lparr>lua_keys := map cstr keys, lua_argv := map cstr argv\<rparr>"

lemma eval_body_script:
  assumes inv: "args_inv c ([ev, code, print_nat (length keys)] @ keys @ argv)"
  shows "eval_body lua pm own s c =
    map_option (Pair SVR_OK) (fk_lua_run_script lua pm own (s\<lparr>gL := with_paras keys argv (gL s)\<rparr>) c code)"
proof -
  let ?as = "[ev, code, print_nat (length keys)] @ keys @ argv" and ?k = "length keys"
  have cnt: "arg_cnt c = int (3 + ?k + length argv)" "3 + ?k + length argv \<le> 128"
    using inv by (auto simp: args_inv_def fk_consts)
  have a: "arg_key c 2 = Some (print_nat ?k)" "arg_key c 1 = Some code"
    using arg_facts_num [OF inv] by auto
  have n: "atoi (cstr (print_nat ?k)) = int ?k"
    using atoi_print_nat [of ?k "[]"] cnt(2) by (simp add: print_nat_cstr)
  have "arg_strs [3..2 + int ?k] c = Some keys"
    using arg_strs_spec [OF inv, of "3 + ?k" 3] by simp
  moreover have "arg_strs [3 + int ?k..arg_cnt c - 1] c = Some argv"
    using arg_strs_spec [OF inv, of "3 + ?k + length argv" "3 + ?k"] cnt(1) by (simp add: numeral_3_eq_3)
  ultimately show ?thesis
    using a n cnt print_nat_nonminus [of ?k]
    by (auto simp: eval_body_def fk_lua_push_paras_def with_paras_def split: bind_splits)
qed


text \<open>
  C24. A reply that a script reads is not consumed unless it is a status or an error: after a command of a script was
  answered by a number, a string, nil or a list, the next command of a script, whatever it is, takes effect on the
  databases, but the script is given the reply of the first command again.\<close>

theorem stale_reply:
  assumes pm: "fk_proto_init ev = Some pm" and at: "lua_at clk n w s lc (a, i, None, m)" and w: "w < 536870912"
    and as1: "req_ok as1" and ex1: "a_exec clk n as1 a i = Some (a1, i1, enc_rsp r1)" and r1: "rsp_ok r1" "\<not> consumed r1"
    and as2: "req_ok as2" and ex2: "a_exec clk n as2 a1 i1 = Some (a2, i2, enc_rsp r2)" and r2: "rsp_ok r2"
    and fit: "length (enc_rsp r1) + length (enc_rsp r2) \<le> w"
  shows "\<exists>s1 lc1 s2 lc2. fk_lua_pcall pm (map LStr as1) s lc = Some (lua_of r1, s1, lc1) \<and> abs_svr s1 = a1
    \<and> fk_lua_pcall pm (map LStr as2) s1 lc1 = Some (lua_of r1, s2, lc2) \<and> abs_svr s2 = a2
    \<and> lua_at clk n w s2 lc2 (a2, i2, Some r1, length (enc_rsp r1) + length (enc_rsp r2))"
proof -
  have str: "map lua_tostring (map LStr as) = map Some as" for as
    by simp
  note at' = at [unfolded lua_at_def, simplified]
  have m: "m = 0" "cur lc = i"
    using at' by (auto simp: pending_def)
  obtain s1 lc1 where c1: "fk_lua_pcall pm (map LStr as1) s lc = Some (lua_of r1, s1, lc1)" "svr_inv s1" "svr_rest s s1"
      "abs_svr s1 = a1" "lua_idle lc1" "db_idx lc1 = int i1" "highwat (wbuf lc1) = w" "pending lc1 (Some r1)"
      "length (out lc1) = length (enc_rsp r1)"
    using pcall_spec [OF pm _ _ _ _ str as1 _ r1(1), of s lc a1 i1 None] at' m ex1 r1(2) fit w
    by (auto simp: seen_def after_def held_def)
  have s1: "clock s1 = clk" "dbcnt s1 = n" "i1 < n"
    using svr_rest_fields [OF c1(3)] at' a_exec_idx [OF ex1] by auto
  obtain s2 lc2 where c2: "fk_lua_pcall pm (map LStr as2) s1 lc1 = Some (lua_of r1, s2, lc2)" "svr_inv s2" "svr_rest s1 s2"
      "abs_svr s2 = a2" "lua_idle lc2" "db_idx lc2 = int i2" "highwat (wbuf lc2) = w" "pending lc2 (Some r1)"
      "length (out lc2) = length (enc_rsp r1) + length (enc_rsp r2)"
    using pcall_spec [OF pm c1(2,5) _ _ str as2 _ r2 c1(8), of a2 i2] c1 s1 ex2 fit w
    by (auto simp: seen_def after_def held_def)
  show ?thesis
    using c1 c2 svr_rest_fields [OF c2(3)] s1 a_exec_idx [OF ex2] by (auto simp: lua_at_def)
qed

text \<open>
  The number of keys of \<^verbatim>\<open>EVAL\<close> is not checked against the range of \<^verbatim>\<open>int\<close>: for every number from \<open>2^31 - 3\<close> to
  \<open>2^32 - 1\<close>, which pass the test for digits, the sum of the number check overflows, or the number wraps to a negative
  one and the allocation of the array of keys fails. One request of any client stops the server.\<close>

theorem eval_key_count:
  assumes inv: "args_inv c as" and n: "3 \<le> length as" and k: "as ! 2 = print_nat k" "2147483645 \<le> k" "k < 4294967296"
  shows "fk_cmd_eval lua d s c = None"
proof -
  have a: "arg_key c 2 = Some (print_nat k)"
    using arg_facts_num(2) [OF inv] n k(1) by simp
  have "strtol (print_nat k) = int k"
    using strtol_digits [of "print_nat k"] print_nat_digits [of "hd (print_nat k)" k] k(3)
    by (simp add: clamp64_def)
  then have "atoi (cstr (print_nat k)) = s32 (int k)"
    by (simp add: print_nat_cstr atoi_def)
  moreover have "s32 (int k) = int k \<or> s32 (int k) < 0"
  proof (cases "k < 2147483648")
    case True
    then show ?thesis by (simp add: s32_id)
  next
    case False
    have "(int k + 2147483648) mod 4294967296 = (int k - 2147483648) mod 4294967296"
      using mod_add_self2 [of "int k - 2147483648" 4294967296] by (simp add: add.commute)
    also have "\<dots> = int k - 2147483648"
      using False k(3) by (intro mod_pos_pos_trivial) auto
    finally show ?thesis
      using k(3) by (simp add: s32_def)
  qed
  moreover have "arg_cnt c = int (length as)"
    using inv by (simp add: args_inv_def)
  ultimately show ?thesis
    using a k n print_nat_nonminus [of k] by (auto simp: fk_cmd_eval_def eval_body_def Let_def split: bind_splits)
qed

subsection \<open>Scripts inside scripts\<close>

lemma pcall_args_overflow:
  assumes "map lua_tostring vs = map Some as" and "0 \<le> arg_cnt c" and "length (varray (arg_vtr c)) < nat (arg_cnt c) + length vs"
    and "nat (arg_cnt c) \<le> length (varray (arg_vtr c))"
  shows "pcall_args vs c = None"
  using assms
proof (induction vs arbitrary: c as)
  case (Cons v vs)
  obtain a bs where v: "lua_tostring v = Some a" "map lua_tostring vs = map Some bs"
    using Cons.prems(1) by (cases as) auto
  show ?case
  proof (cases "nat (arg_cnt c) < length (varray (arg_vtr c))")
    case True
    let ?w = "(varray (arg_vtr c))[nat (arg_cnt c) := Some (Str a)]"
    have "fk_conn_set_arg c (arg_cnt c) (Some (Str a)) = Some (c\<lparr>arg_vtr := (arg_vtr c)\<lparr>varray := ?w\<rparr>\<rparr>)"
      using True Cons.prems(2) by (simp add: fk_conn_set_arg_def fk_vtr_set_def upd_opt_def)
    then show ?thesis
      using Cons.IH [of bs "c\<lparr>arg_vtr := (arg_vtr c)\<lparr>varray := ?w\<rparr>, arg_cnt := arg_cnt c + 1\<rparr>"] Cons.prems v True
      by (simp add: nat_add_distrib)
  next
    case False
    then show ?thesis
      using v Cons.prems(2) by (simp add: fk_conn_set_arg_def fk_vtr_set_def upd_opt_def)
  qed
qed simp

lemma pcall_busy:
  assumes inv: "args_inv c as0" and n: "3 \<le> length as0" "parse_done c = 1"
    and vs: "map lua_tostring vs = map Some as" "2 \<le> length vs"
  shows "fk_lua_pcall pm vs s c = None"
proof -
  have v: "vlen (arg_vtr c) \<le> max 4 (length as0)" "length (varray (arg_vtr c)) = vlen (arg_vtr c)" "arg_cnt c = int (length as0)"
    "length as0 \<le> vlen (arg_vtr c)"
    using inv n(2) by (auto simp: args_inv_def vtr_inv_def fk_consts)
  let ?v = "fk_vtr_stretch (arg_vtr c) (length vs)"
  have "length (varray ?v) < length as0 + length vs" "length as0 \<le> length (varray ?v)"
    using v n vs(2) by (auto simp: fk_vtr_stretch_def)
  then have "pcall_args vs (c\<lparr>arg_parsed := int (length vs), arg_vtr := ?v\<rparr>) = None"
    using v(3) by (intro pcall_args_overflow [OF vs(1)]) auto
  then show ?thesis
    by (simp add: fk_lua_pcall_def)
qed

lemma proto_eval:
  assumes "fk_proto_init ev = Some pm"
  shows "fk_proto_search pm ''EVAL'' = Some (Some \<lparr>pname = ''EVAL'', ptype = PROTO_SCRIPT, pargs = -3, phandler = ev\<rparr>)"
proof -
  obtain d where "fk_proto_init ev = Some d" "dict_inv str_eop str_ok d" "dict_map d = table_of ev"
    by (rule proto_init_spec)
  then show ?thesis
    using assms by (simp add: fk_proto_search_def strd.get_spec str_ok_def table_of_def protos_def)
qed



subsection \<open>Witnesses\<close>

definition lua_conn0 :: fk_conn where
  "lua_conn0 = (conn_with [])\<lparr>ctype := CONN_FAKE\<rparr>"

definition svr_lua :: fk_svr where
  "svr_lua = (svr_fresh 1 0)\<lparr>lua_conn := Some lua_conn0\<rparr>"

lemma lua_conn0_idle: "lua_idle lua_conn0" "db_idx lua_conn0 = 0" "lua_conn0\<lparr>db_idx := 0\<rparr> = lua_conn0"
  using conn_with_facts(1) [of "[]"]
  by (auto simp: lua_idle_def lua_conn0_def conn_with_def conn_inv_def args_inv_def)

lemma svr_lua_at: "lua_at (clock svr_lua) (dbcnt svr_lua) FK_BUF_HIGHWAT svr_lua lua_conn0 (abs_svr svr_lua, 0, None, 0)"
  "dbcnt svr_lua = 1" "lua_conn svr_lua = Some lua_conn0" "svr_inv svr_lua"
  using lua_conn0_idle svr_inv_fresh [of 1 0]
  by (auto simp: lua_at_def svr_lua_def pending_def lua_conn0_def conn_with_def payload_def) (simp_all add: svr_fresh_def)

lemma svr_lua_get: "a_get 0 k (abs_svr svr_lua) = None" "a_expire (clock svr_lua) 0 k (abs_svr svr_lua) = abs_svr svr_lua"
  by (simp_all add: svr_lua_def svr_fresh_def abs_svr_def a_get_def a_expire_def)

lemma upper_words: "fk_str_2upper ''EVAL'' = ''EVAL''" "fk_str_2upper ''GET'' = ''GET''" "fk_str_2upper ''SET'' = ''SET''"
  by code_simp+

lemma exec_get: "a_exec (clock svr_lua) 1 [''GET'', ''k''] (abs_svr svr_lua) 0 = Some (abs_svr svr_lua, 0, enc_rsp (R_elt E_nil))"
  by (simp add: a_exec_def a_cmd_def upper_words svr_lua_get no_nul_def Let_def)

lemma exec_set: "a_exec (clock svr_lua) 1 [''SET'', ''k'', ''v''] (abs_svr svr_lua) 0
    = Some (a_put 0 ''k'' (AStr ''v'') (abs_svr svr_lua), 0, enc_rsp (R_status FK_RSP_OK))"
  by (simp add: a_exec_def a_cmd_def upper_words)

lemma small_reqs: "req_ok [''GET'', ''k'']" "req_ok [''SET'', ''k'', ''v'']" "req_ok [''EVAL'', ''x'', ''0'']"
    "req_ok [''EVAL'', ''x'', ''4294967295'']"
  by (simp_all add: req_ok_def arg_ok_def fk_consts)


theorem stale_reply_witness:
  "\<exists>pm s1 lc1 s2 lc2. fk_proto_init (\<lambda>s c. None) = Some pm
     \<and> fk_lua_pcall pm [LStr ''GET'', LStr ''k''] svr_lua lua_conn0 = Some (LBool False, s1, lc1)
     \<and> fk_lua_pcall pm [LStr ''SET'', LStr ''k'', LStr ''v''] s1 lc1 = Some (LBool False, s2, lc2)
     \<and> a_get 0 ''k'' (abs_svr s2) = Some (AStr ''v'')"
proof -
  obtain pm where pm: "fk_proto_init (\<lambda>s c. None) = Some pm"
    using proto_init_spec by blast
  have "length (enc_rsp (R_elt E_nil)) + length (enc_rsp (R_status FK_RSP_OK)) \<le> FK_BUF_HIGHWAT" "FK_BUF_HIGHWAT < 536870912"
    by (simp_all add: rsp_defs FK_RSP_OK_def print_int_def print_nat.simps fk_consts)
  from stale_reply [OF pm svr_lua_at(1) [unfolded svr_lua_at(2)] this(2) small_reqs(1) exec_get _ _ small_reqs(2) exec_set _ this(1)]
  obtain s1 lc1 s2 lc2 where "fk_lua_pcall pm [LStr ''GET'', LStr ''k''] svr_lua lua_conn0 = Some (LBool False, s1, lc1)"
      "fk_lua_pcall pm [LStr ''SET'', LStr ''k'', LStr ''v''] s1 lc1 = Some (LBool False, s2, lc2)"
      "abs_svr s2 = a_put 0 ''k'' (AStr ''v'') (abs_svr svr_lua)"
    by auto
  moreover have "a_get 0 ''k'' (a_put 0 ''k'' (AStr ''v'') (abs_svr svr_lua)) = Some (AStr ''v'')"
    by (simp add: a_get_def a_put_def svr_lua_def svr_fresh_def abs_svr_def)
  ultimately show ?thesis
    using pm by auto
qed

theorem eval_key_count_witness:
  "fk_cmd_eval (\<lambda>code g. Inr (Lua_return [] g)) 1 svr_lua (conn_req [''EVAL'', ''x'', ''4294967295'']) = None"
proof -
  have "print_nat 4294967295 = ''4294967295''"
    by (simp add: print_nat.simps digit_char_def) code_simp
  then show ?thesis
    using eval_key_count [OF conn_req_pre(2) [OF small_reqs(4) svr_lua_at(4)], of 4294967295] svr_lua_at(2) by simp
qed

theorem lua_proc_cmd_equiv_witness:
  "\<exists>pm c s' c'. fk_proto_init (\<lambda>s c. None) = Some pm \<and> fk_conn_proc_cmd pm svr_lua c = Some (SVR_OK, s', c')
     \<and> fk_lua_conn_proc_cmd pm svr_lua c = Some (s', c') \<and> a_get 0 ''k'' (abs_svr s') = Some (AStr ''v'')"
proof -
  obtain pm where pm: "fk_proto_init (\<lambda>s c. None) = Some pm"
    using proto_init_spec by blast
  let ?as = "[''SET'', ''k'', ''v'']"
  let ?c = "(conn_req ?as)\<lparr>ctype := CONN_FAKE\<rparr>"
  note c = conn_req_pre [OF small_reqs(2) svr_lua_at(4)]
  have pre: "cmd_pre svr_lua ?c ?as" and i: "cur ?c = 0"
    using c svr_lua_at(2) by (auto simp: cmd_pre_def conn_inv_def args_inv_def)
  have "unlogged svr_lua ?c"
    by (simp add: unlogged_def)
  then obtain rc s' c' where r: "fk_conn_proc_cmd pm svr_lua ?c = Some (rc, s', c')"
      "served svr_lua ?c rc s' c' (a_put 0 ''k'' (AStr ''v'') (abs_svr svr_lua)) 0 (enc_rsp (R_status FK_RSP_OK))"
    using proc_cmd_served [OF pre _ pm, of "a_put 0 ''k'' (AStr ''v'') (abs_svr svr_lua)" 0] exec_set svr_lua_at(2) i c by auto
  have ok: "rc = SVR_OK" "abs_svr s' = a_put 0 ''k'' (AStr ''v'') (abs_svr svr_lua)" "ctype c' = CONN_FAKE"
    using r(2) c svr_lua_at(2) by (auto simp: served_def rsp_defs FK_RSP_OK_def fk_consts)
  have "arg_key ?c 0 = Some ''SET''" "str_ok ''SET''"
    using arg_facts(2) [of ?c ?as 0] pre by (simp_all add: cmd_pre_def str_ok_def)
  then have "fk_lua_conn_proc_cmd pm svr_lua ?c = Some (s', c')"
    using lua_proc_cmd_equiv [OF pm _ _ _ r(1)] c(3) svr_lua_at(2) ok by simp
  moreover have "a_get 0 ''k'' (abs_svr s') = Some (AStr ''v'')"
    unfolding ok(2) by (simp add: a_get_def a_put_def svr_lua_def svr_fresh_def abs_svr_def)
  ultimately show ?thesis
    using pm r(1) ok(1) by auto
qed

text \<open>An interpreter that knows two scripts: \<^verbatim>\<open>x\<close> sets a key, anything else runs \<^verbatim>\<open>x\<close> by \<^verbatim>\<open>EVAL\<close>.\<close>

definition lua_two :: lua_interp where
  "lua_two code g =
     Inr (if code = ''x'' then Lua_pcall [LStr ''SET'', LStr ''k'', LStr ''v''] g (\<lambda>(v, g'). Lua_return [LNum 7 ''7''] g')
          else Lua_pcall [LStr ''EVAL'', LStr ''x'', LStr ''0''] g (\<lambda>(v, g'). Lua_return [v] g'))"



end
