(* ===== verification/Fk_Kqueue.thy ===== *)
theory Fk_Kqueue
  imports Fk_Ev_Loop
begin

text \<open>
  The multiplexer over kqueue, \<^verbatim>\<open>fk_ev_kqueue.c\<close>. It keeps no record of its own of what it watches and relies on the
  kernel, which refuses to delete a filter that it does not have, but not to add one again. So it fulfils
  the base of the contract only, and a second event for the same descriptor and direction takes the place of the first.
\<close>

section \<open>Operations\<close>

datatype filter = EVFILT_READ | EVFILT_WRITE

text \<open>\<open>knotes\<close> are the filters of the queue in the kernel and \<open>kev_ok\<close> says whether the kernel has the resources for a
  change. \<^verbatim>\<open>kevent\<close> is as documented: adding a filter again only modifies it.\<close>

record fk_kqueue =
  max_evs :: int
  knotes :: "(int \<times> filter) set"
  kev_ok :: bool

definition fk_kqueue_create :: "nat \<Rightarrow> fk_kqueue" where
  "fk_kqueue_create n = \<lparr>max_evs = 2 * int n, knotes = {}, kev_ok = True\<rparr>"

definition kev_add :: "int \<Rightarrow> filter \<Rightarrow> fk_kqueue \<Rightarrow> fk_kqueue option" where
  "kev_add fd f x = (if kev_ok x then Some (x\<lparr>knotes := insert (fd, f) (knotes x)\<rparr>) else None)"

definition kev_delete :: "int \<Rightarrow> filter \<Rightarrow> fk_kqueue \<Rightarrow> fk_kqueue option" where
  "kev_delete fd f x = (if kev_ok x \<and> (fd, f) \<in> knotes x then Some (x\<lparr>knotes := knotes x - {(fd, f)}\<rparr>) else None)"

text \<open>Both functions work through the two directions; a failure at the second one leaves the first one done.\<close>

definition fk_kqueue_add :: "fk_kqueue mpx_op" where
  "fk_kqueue_add x fd t =
     Some (case (if t AND FK_IOEV_READ \<noteq> 0 then kev_add fd EVFILT_READ x else Some x) of
             None \<Rightarrow> (EV_ERR, x)
           | Some x1 \<Rightarrow>
               (case (if t AND FK_IOEV_WRITE \<noteq> 0 then kev_add fd EVFILT_WRITE x1 else Some x1) of
                  None \<Rightarrow> (EV_ERR, x1)
                | Some x2 \<Rightarrow> (EV_OK, x2)))"

definition fk_kqueue_remove :: "fk_kqueue mpx_op" where
  "fk_kqueue_remove x fd t =
     Some (case (if t AND FK_IOEV_READ \<noteq> 0 then kev_delete fd EVFILT_READ x else Some x) of
             None \<Rightarrow> (EV_ERR, x)
           | Some x1 \<Rightarrow>
               (case (if t AND FK_IOEV_WRITE \<noteq> 0 then kev_delete fd EVFILT_WRITE x1 else Some x1) of
                  None \<Rightarrow> (EV_ERR, x1)
                | Some x2 \<Rightarrow> (EV_OK, x2)))"

text \<open>What \<^verbatim>\<open>kevent\<close> returns, given the time to wait.\<close>

datatype kev_res = Kev_intr | Kev_fail | Kev_ready "(int \<times> filter) list"

fun filter_type :: "filter \<Rightarrow> ev_type" where
  "filter_type EVFILT_READ = FK_IOEV_READ"
| "filter_type EVFILT_WRITE = FK_IOEV_WRITE"

definition fk_kqueue_dispatch :: "(timeval option \<Rightarrow> kev_res) \<Rightarrow> timeval option \<Rightarrow> 'm evmgr \<Rightarrow> (ev_rc \<times> 'm evmgr) option" where
  "fk_kqueue_dispatch kevent pto m =
     (case kevent pto of
        Kev_fail \<Rightarrow> Some (EV_ERR, m)
      | Kev_intr \<Rightarrow> Some (EV_OK, m)
      | Kev_ready es \<Rightarrow> do { m1 \<leftarrow> activate_all (map (\<lambda>(fd, f). (fd, filter_type f)) es) m; Some (EV_OK, m1) })"

section \<open>The contract\<close>

definition kq_watched :: "fk_kqueue \<Rightarrow> (int \<times> ev_type) set" where
  "kq_watched x = (\<lambda>(fd, f). (fd, filter_type f)) ` knotes x"

definition kq_inv :: "nat \<Rightarrow> fk_kqueue \<Rightarrow> bool" where
  "kq_inv n x \<longleftrightarrow> max_evs x = 2 * int n"

lemma filter_type_inj: "filter_type f = filter_type g \<longleftrightarrow> f = g"
  by (cases f; cases g) simp_all

lemma single_filter: "single t \<Longrightarrow> \<exists>f. t = filter_type f"
  using filter_type.simps unfolding single_def by metis

lemma filter_and: "single t \<Longrightarrow> t AND filter_type f \<noteq> 0 \<longleftrightarrow> t = filter_type f"
  by (cases f) (auto simp: single_def)

lemma watched_filter: "(fd, filter_type f) \<in> kq_watched x \<longleftrightarrow> (fd, f) \<in> knotes x"
  by (auto simp: kq_watched_def filter_type_inj)

lemma kqueue_ops:
  "fk_kqueue_add x fd (filter_type f) = Some (case kev_add fd f x of None \<Rightarrow> (EV_ERR, x) | Some y \<Rightarrow> (EV_OK, y))"
  "fk_kqueue_remove x fd (filter_type f) = Some (case kev_delete fd f x of None \<Rightarrow> (EV_ERR, x) | Some y \<Rightarrow> (EV_OK, y))"
  by (cases f; auto simp: fk_kqueue_add_def fk_kqueue_remove_def split: option.splits)+

interpretation kqueue: mpx_base fk_kqueue_add fk_kqueue_remove kq_inv kq_watched
proof (unfold_locales, goal_cases)
  case (1 n x fd t)
  then obtain f where "t = filter_type f"
    using single_filter by blast
  then show ?case
    using 1 by (auto simp: kqueue_ops kev_add_def kq_inv_def kq_watched_def)
next
  case (2 n x t fd)
  then obtain f where "t = filter_type f"
    using single_filter by blast
  then show ?case
    using 2 by (auto simp: kqueue_ops kev_delete_def kq_inv_def kq_watched_def filter_type_inj)
qed

text \<open>
  Activation over kqueue: when the kernel reports filters of its queue, exactly the registered events of the reported
  descriptors and directions are activated, each once, and no entry is looked up that was not written (a hang-up is
  reported as the filter that was asked for).\<close>

theorem kqueue_dispatch_exact:
  assumes inv: "ev_inv kq_inv kq_watched m" and wait: "kevent pto = Kev_ready es" and kernel: "set es \<subseteq> knotes (iompx m)"
  shows "\<exists>m'. fk_kqueue_dispatch kevent pto m = Some (EV_OK, m') \<and> ev_inv kq_inv kq_watched m' \<and> distinct (act_ioev m')
    \<and> set (act_ioev m') = set (act_ioev m)
        \<union> {p \<in> registered m. \<exists>e f. ioevs m p = Some e \<and> (io_fd e, f) \<in> set es \<and> io_type e = filter_type f}"
proof -
  let ?es = "map (\<lambda>(fd, f). (fd, filter_type f)) es"
  have io: "io_inv kq_inv kq_watched m"
    using inv by (simp add: ev_inv_def)
  have "report_ok m (fd, filter_type f)" if "(fd, f) \<in> set es" for fd f
  proof -
    have "(fd, filter_type f) \<in> kq_watched (iompx m)"
      using that kernel watched_filter by blast
    then obtain p e where p: "p \<in> registered m" "ioevs m p = Some e" "io_fd e = fd" "io_type e = filter_type f"
      using io_inv_watched [OF io] by blast
    then show ?thesis
      using io_inv_reg [OF io p(1)] by (cases f) (auto simp: report_ok_def ev_tab_def)
  qed
  then have "\<forall>r \<in> set ?es. report_ok m r"
    by auto
  from activate_all_spec [OF io this] obtain m' where m': "activate_all ?es m = Some m'" "io_inv kq_inv kq_watched m'" "same_regs m m'"
    "set (act_ioev m') = set (act_ioev m) \<union> reported m ?es"
    by blast
  have "ev_inv kq_inv kq_watched m'"
    using ev_inv_parts(1) [OF inv m'(2)] m'(3) by (simp add: same_regs_def)
  moreover have "reported m ?es = {p \<in> registered m. \<exists>e f. ioevs m p = Some e \<and> (io_fd e, f) \<in> set es \<and> io_type e = filter_type f}"
  proof -
    have mem: "(fd, t) \<in> set ?es \<longleftrightarrow> (\<exists>f. (fd, f) \<in> set es \<and> t = filter_type f)" for fd t
      by auto
    have "single (io_type e)" if "p \<in> registered m" "ioevs m p = Some e" for p e
      by (rule io_inv_reg [OF io that(1)]) (simp add: that(2))
    then show ?thesis
      unfolding reported_def mem using filter_and by blast
  qed
  ultimately show ?thesis
    using m' wait io_invD(6) [OF m'(2)] by (simp add: fk_kqueue_dispatch_def)
qed

text \<open>
  A second event for a watched descriptor and direction is accepted over kqueue, against the comment at the head of the
  file: the kernel's queue does not change, but the entry of the table now leads to the second event, so the first one, which is
  still registered, is never activated again and the book-keeping is broken.\<close>

theorem kqueue_double_add:
  assumes inv: "ev_inv kq_inv kq_watched m" and p: "p \<in> registered m" "ioevs m p = Some e"
    and q: "ioevs m q = Some e'" "io_stat e' = IOEV_INIT" "io_fd e' = io_fd e" "io_type e' = io_type e" and ok: "kev_ok (iompx m)"
  shows "\<exists>m'. fk_ev_add_ioev fk_kqueue_add q m = Some (EV_OK, m') \<and> kq_watched (iompx m') = kq_watched (iompx m) \<and> p \<in> registered m'
    \<and> ev_tab (io_type e) m' ! nat (io_fd e) = Some (Some q) \<and> \<not> ev_inv kq_inv kq_watched m'"
proof -
  have io: "io_inv kq_inv kq_watched m"
    using inv by (simp add: ev_inv_def)
  note D = io_invD [OF io]
  have e: "single (io_type e)" "0 \<le> io_fd e" "io_fd e < int (max_files m)" "(io_fd e, io_type e) \<in> kq_watched (iompx m)"
    by (rule io_inv_reg [OF io p(1)]; simp add: p(2))+
  obtain f where f: "io_type e = filter_type f"
    using single_filter [OF e(1)] by blast
  have "p \<noteq> q"
    using p q istat_cases(1) [OF p(2)] by auto
  let ?m = "(set_tab (io_type e) (nat (io_fd e)) (Some (Some q)) m)\<lparr>ioevs := (ioevs m)(q \<mapsto> e'\<lparr>io_stat := IOEV_PENDING\<rparr>),
    ioev_cnt := ioev_cnt m + 1\<rparr>"
  have x: "fk_kqueue_add (iompx m) (io_fd e) (filter_type f) = Some (EV_OK, iompx m)"
    using ok e(4) f watched_filter [of "io_fd e" f "iompx m"] by (simp add: kqueue_ops kev_add_def insert_absorb)
  have ts: "tab_set (read_ev m) (io_fd e) v = Some ((read_ev m)[nat (io_fd e) := v])"
    "tab_set (write_ev m) (io_fd e) v = Some ((write_ev m)[nat (io_fd e) := v])" for v
    using e D(2,3) by (simp_all add: tab_set_def nat_less_iff)
  have add: "fk_ev_add_ioev fk_kqueue_add q m = Some (EV_OK, ?m)"
    using q f x ts by (cases f) (simp_all add: fk_ev_add_ioev_def upd_ioev_def set_tab_def Let_def)
  have tab: "ev_tab (io_type e) ?m ! nat (io_fd e) = Some (Some q)"
    using e f D(2,3) by (cases f) (simp_all add: ev_tab_def set_tab_def nat_less_iff)
  have reg: "p \<in> registered ?m" "ioevs ?m p = Some e"
    using p \<open>p \<noteq> q\<close> by (simp_all add: registered_def istat_def)
  have "\<not> io_inv kq_inv kq_watched ?m"
  proof
    assume "io_inv kq_inv kq_watched ?m"
    from io_inv_reg [OF this reg(1)] show False
      using reg(2) tab \<open>p \<noteq> q\<close> by (metis option.inject)
  qed
  then show ?thesis
    using add tab reg(1) by (intro exI [of _ ?m]) (simp add: ev_inv_def)
qed

section \<open>Witnesses\<close>

text \<open>A manager with two events for the same descriptor, of which the first is then registered.\<close>

definition kq_two :: "fk_kqueue evmgr" where
  "kq_two = fk_ioev_create 8 3 FK_IOEV_READ (fk_ioev_create 7 3 FK_IOEV_READ (fk_ev_init 4 (fk_kqueue_create 4)))"

lemma kq_two_inv: "ev_inv kq_inv kq_watched kq_two"
proof -
  have "ev_inv kq_inv kq_watched (fk_ev_init 4 (fk_kqueue_create 4))"
    by (rule ev_init_inv) (simp_all add: kq_inv_def fk_kqueue_create_def kq_watched_def)
  then show ?thesis
    unfolding kq_two_def by (intro ev_inv_create) (simp_all add: fk_ioev_create_def fk_ev_init_def)
qed

lemma kq_two_added:
  obtains m e e' where "fk_ev_add_ioev fk_kqueue_add 7 kq_two = Some (EV_OK, m)" "ev_inv kq_inv kq_watched m" "7 \<in> registered m"
    "ioevs m 7 = Some e" "ioevs m 8 = Some e'" "io_stat e' = IOEV_INIT" "io_fd e' = 3" "io_type e' = FK_IOEV_READ"
    "io_fd e = 3" "io_type e = FK_IOEV_READ" "knotes (iompx m) = {(3, EVFILT_READ)}" "kev_ok (iompx m)"
proof -
  let ?e = "\<lparr>io_fd = 3, io_type = FK_IOEV_READ, io_stat = IOEV_INIT\<rparr>"
  have e: "ioevs kq_two 7 = Some ?e" "ioevs kq_two 8 = Some ?e" "max_files kq_two = 4" "iompx kq_two = fk_kqueue_create 4"
    by (simp_all add: kq_two_def fk_ioev_create_def fk_ev_init_def)
  obtain m where m: "fk_ev_add_ioev fk_kqueue_add 7 kq_two = Some (EV_OK, m)" "ioevs m = (ioevs kq_two)(7 \<mapsto> ?e\<lparr>io_stat := IOEV_PENDING\<rparr>)"
    "iompx m = (fk_kqueue_create 4)\<lparr>knotes := {(3, EVFILT_READ)}\<rparr>"
    by (simp add: kq_two_def fk_ev_add_ioev_def fk_kqueue_add_def kev_add_def fk_ioev_create_def fk_ev_init_def fk_kqueue_create_def
        tab_set_def upd_ioev_def Let_def)
  have "io_inv kq_inv kq_watched kq_two" "(3, FK_IOEV_READ) \<notin> kq_watched (iompx kq_two)"
    using kq_two_inv by (simp_all add: ev_inv_def e kq_watched_def fk_kqueue_create_def)
  from kqueue.add_ioev_new [OF this(1) e(1)] this(2) m(1)
  have "io_inv kq_inv kq_watched m" "tm_part m = tm_part kq_two"
    by (simp_all add: e)
  then have "ev_inv kq_inv kq_watched m"
    by (rule ev_inv_parts(1) [OF kq_two_inv])
  then show thesis
    using m e by (intro that [of m "?e\<lparr>io_stat := IOEV_PENDING\<rparr>" ?e]) (simp_all add: registered_def istat_def fk_kqueue_create_def)
qed

theorem kqueue_dispatch_exact_witness:
  "\<exists>m m'. fk_ev_add_ioev fk_kqueue_add 7 kq_two = Some (EV_OK, m)
     \<and> fk_kqueue_dispatch (\<lambda>_. Kev_ready [(3, EVFILT_READ)]) None m = Some (EV_OK, m') \<and> 7 \<in> set (act_ioev m')"
proof -
  obtain m e where m: "fk_ev_add_ioev fk_kqueue_add 7 kq_two = Some (EV_OK, m)" "ev_inv kq_inv kq_watched m" "7 \<in> registered m"
    "ioevs m 7 = Some e" "io_fd e = 3" "io_type e = FK_IOEV_READ" "knotes (iompx m) = {(3, EVFILT_READ)}"
    by (rule kq_two_added)
  have "io_type e = filter_type EVFILT_READ"
    using m by simp
  then show ?thesis
    using kqueue_dispatch_exact [OF m(2), of "\<lambda>_. Kev_ready [(3, EVFILT_READ)]" None "[(3, EVFILT_READ)]"] m by auto
qed

theorem kqueue_double_add_witness:
  "\<exists>m m'. fk_ev_add_ioev fk_kqueue_add 7 kq_two = Some (EV_OK, m) \<and> fk_ev_add_ioev fk_kqueue_add 8 m = Some (EV_OK, m')
     \<and> 7 \<in> registered m' \<and> \<not> ev_inv kq_inv kq_watched m'"
proof -
  obtain m e e' where m: "fk_ev_add_ioev fk_kqueue_add 7 kq_two = Some (EV_OK, m)" "ev_inv kq_inv kq_watched m" "7 \<in> registered m"
    "ioevs m 7 = Some e" "ioevs m 8 = Some e'" "io_stat e' = IOEV_INIT" "io_fd e' = 3" "io_type e' = FK_IOEV_READ"
    "io_fd e = 3" "io_type e = FK_IOEV_READ" "kev_ok (iompx m)"
    by (rule kq_two_added)
  show ?thesis
    using kqueue_double_add [OF m(2,3,4,5,6)] m by auto
qed

end
