(* ===== verification/Fk_Pool.thy ===== *)
theory Fk_Pool
  imports Fk_Prelude
begin

text \<open>
  \<^verbatim>\<open>fk_pool.c\<close>: a pool of memory units of one size in blocks, whose free units are chained through their first two
  bytes. Shown is that it is an allocator: whatever its clients do with the units they hold, a unit that is handed out
  overlaps none that is in use, and every unit in use can be given back.

  A block is given by the address of its data; \<open>cells\<close> are the first two bytes of its units, which belong to the client
  while the unit is in use. The list of blocks is the sequence of the \<^verbatim>\<open>next\<close> pointers from \<^verbatim>\<open>head\<close>.
\<close>

section \<open>State and operations\<close>

record fk_block =
  bdata :: nat
  bfirst :: nat
  free_cnt :: nat
  unit_cnt :: nat
  bunit :: nat
  cells :: "nat list"

record fk_pool =
  blocks :: "fk_block list"
  unit_size :: nat
  init_cnt :: nat
  empty_blks :: nat

definition FK_POOL_MAX_EMPTY_BLOCKS :: nat where
  "FK_POOL_MAX_EMPTY_BLOCKS = 1"

text \<open>The size of a unit is rounded up to a multiple of two and stored in 16 bits.\<close>

definition fk_pool_align_cal :: "nat \<Rightarrow> nat" where
  "fk_pool_align_cal n = 2 * ((n + 1) div 2)"

definition fk_pool_create :: "nat \<Rightarrow> nat \<Rightarrow> fk_pool" where
  "fk_pool_create us n =
     \<lparr>blocks = [], unit_size = (if us > 4 then fk_pool_align_cal us mod 2 ^ 16 else if us \<le> 2 then 2 else 4), init_cnt = n, empty_blks = 0\<rparr>"

text \<open>
  \<open>addr\<close> is where the allocator puts the data. The size is a product of \<^verbatim>\<open>int\<close>s, whose overflow is undefined; in a block
  without units, or with units shorter than a link, the last link is written behind the end.
\<close>

definition fk_block_create :: "nat \<Rightarrow> nat \<Rightarrow> nat \<Rightarrow> fk_block option" where
  "fk_block_create addr us n =
     (if n = 0 \<or> us < 2 \<or> us * n \<ge> 2 ^ 31 then None
      else Some \<lparr>bdata = addr, bfirst = 0, free_cnt = n, unit_cnt = n, bunit = us, cells = map Suc [0..<n - 1] @ [65535]\<rparr>)"

definition fk_pool_block_isfull :: "fk_block \<Rightarrow> bool" where
  "fk_pool_block_isfull b \<longleftrightarrow> free_cnt b = 0"

definition fk_pool_block_isempty :: "fk_block \<Rightarrow> bool" where
  "fk_pool_block_isempty b \<longleftrightarrow> free_cnt b = unit_cnt b"

definition fk_pool_block_nocontain :: "fk_block \<Rightarrow> nat \<Rightarrow> bool" where
  "fk_pool_block_nocontain b ptr \<longleftrightarrow> ptr < bdata b \<or> ptr > bdata b + bunit b * unit_cnt b"

definition fk_pool_block_alloc :: "fk_block \<Rightarrow> (nat \<times> fk_block) option" where
  "fk_pool_block_alloc b =
     do { nx \<leftarrow> nth_opt (cells b) (bfirst b);
          Some (bdata b + bunit b * bfirst b, b\<lparr>free_cnt := free_cnt b - 1, bfirst := nx\<rparr>) }"

text \<open>The link is written where the pointer points to, which has to be the start of a unit.\<close>

definition fk_pool_block_free :: "fk_block \<Rightarrow> nat \<Rightarrow> fk_block option" where
  "fk_pool_block_free b ptr =
     (if bunit b = 0 \<or> (ptr - bdata b) mod bunit b \<noteq> 0 then None
      else
        (let i = (ptr - bdata b) div bunit b
         in do { cs \<leftarrow> upd_opt (cells b) i (bfirst b);
                 Some (b\<lparr>free_cnt := (free_cnt b + 1) mod 2 ^ 16, cells := cs, bfirst := i\<rparr>) }))"

definition fk_pool_malloc :: "nat \<Rightarrow> fk_pool \<Rightarrow> (nat \<times> fk_pool) option" where
  "fk_pool_malloc addr pool =
     (case dropWhile fk_pool_block_isfull (blocks pool) of
        blk # bs \<Rightarrow>
          do { (ptr, blk') \<leftarrow> fk_pool_block_alloc blk;
               Some (ptr, pool\<lparr>blocks := takeWhile fk_pool_block_isfull (blocks pool) @ blk' # bs\<rparr>) }
      | [] \<Rightarrow>
          do { blk \<leftarrow> fk_block_create addr (unit_size pool) (init_cnt pool);
               (ptr, blk') \<leftarrow> fk_pool_block_alloc blk;
               Some (ptr, pool\<lparr>blocks := blk' # blocks pool\<rparr>) })"

definition fk_pool_free :: "fk_pool \<Rightarrow> nat \<Rightarrow> fk_pool option" where
  "fk_pool_free pool ptr =
     (let pre = takeWhile (\<lambda>b. fk_pool_block_nocontain b ptr) (blocks pool)
      in case dropWhile (\<lambda>b. fk_pool_block_nocontain b ptr) (blocks pool) of
           [] \<Rightarrow> Some pool
         | cur # bs \<Rightarrow>
             do { cur' \<leftarrow> fk_pool_block_free cur ptr;
                  Some (if fk_pool_block_isempty cur' then
                          if empty_blks pool = FK_POOL_MAX_EMPTY_BLOCKS then pool\<lparr>blocks := pre @ bs\<rparr>
                          else pool\<lparr>empty_blks := empty_blks pool + 1, blocks := cur' # pre @ bs\<rparr>
                        else pool\<lparr>blocks := cur' # pre @ bs\<rparr>) })"

text \<open>A client writes to the start of its unit \<open>i\<close> of the block \<open>j\<close> of the list.\<close>

definition client_write :: "fk_pool \<Rightarrow> nat \<Rightarrow> nat \<Rightarrow> nat \<Rightarrow> fk_pool" where
  "client_write pool j i v = pool\<lparr>blocks := (blocks pool)[j := (blocks pool ! j)\<lparr>cells := (cells (blocks pool ! j))[i := v]\<rparr>]\<rparr>"

section \<open>The invariant\<close>

text \<open>The free units of a block, in the order of their chain.\<close>

fun free_units :: "nat list \<Rightarrow> nat \<Rightarrow> nat \<Rightarrow> nat list" where
  "free_units cs i 0 = []"
| "free_units cs i (Suc k) = i # free_units cs (cs ! i) k"

abbreviation frees :: "fk_block \<Rightarrow> nat list" where
  "frees b \<equiv> free_units (cells b) (bfirst b) (free_cnt b)"

definition blk_inv :: "fk_block \<Rightarrow> bool" where
  "blk_inv b \<longleftrightarrow> length (cells b) = unit_cnt b \<and> 0 < unit_cnt b \<and> unit_cnt b < 2 ^ 16 \<and> 2 \<le> bunit b \<and> distinct (frees b) \<and> set (frees b) \<subseteq> {..<unit_cnt b}"

definition unit_addr :: "fk_block \<Rightarrow> nat \<Rightarrow> nat" where
  "unit_addr b i = bdata b + bunit b * i"

definition live_units :: "fk_block \<Rightarrow> nat set" where
  "live_units b = unit_addr b ` ({..<unit_cnt b} - set (frees b))"

text \<open>Blocks do not overlap, with room for the header of a block between them.\<close>

definition sep :: "fk_block \<Rightarrow> fk_block \<Rightarrow> bool" where
  "sep b c \<longleftrightarrow> bdata b + bunit b * unit_cnt b < bdata c \<or> bdata c + bunit c * unit_cnt c < bdata b"

definition pool_dims :: "nat \<Rightarrow> nat \<Rightarrow> bool" where
  "pool_dims us n \<longleftrightarrow> 2 \<le> us \<and> 0 < n \<and> n < 2 ^ 16 \<and> us * n < 2 ^ 31"

definition pool_inv :: "fk_pool \<Rightarrow> bool" where
  "pool_inv p \<longleftrightarrow> pool_dims (unit_size p) (init_cnt p) \<and> (\<forall>b \<in> set (blocks p). blk_inv b \<and> bunit b = unit_size p) \<and> sorted_wrt sep (blocks p)"

definition live :: "fk_pool \<Rightarrow> nat set" where
  "live p = (\<Union>b \<in> set (blocks p). live_units b)"

subsection \<open>Chains\<close>

lemma free_units_upd: "i \<notin> set (free_units cs j k) \<Longrightarrow> free_units (cs[i := v]) j k = free_units cs j k"
  by (induction cs j k rule: free_units.induct) (auto simp: nth_list_update)

lemma length_free_units [simp]: "length (free_units cs i k) = k"
  by (induction cs i k rule: free_units.induct) auto

lemma fresh_chain:
  assumes "j + k \<le> n"
  shows "free_units (map Suc [0..<n - 1] @ [x]) j k = [j..<j + k]"
  using assms
proof (induction k arbitrary: j)
  case (Suc k)
  show ?case
  proof (cases k)
    case (Suc l)
    then have "j < n - 1"
      using Suc.prems by simp
    then have "(map Suc [0..<n - 1] @ [x]) ! j = Suc j"
      by (simp add: nth_append)
    then show ?thesis
      using Suc.IH [of "Suc j"] Suc.prems by (simp add: upt_rec [of j])
  qed simp
qed simp

lemma block_create_inv:
  assumes "pool_dims us n"
  obtains b where "fk_block_create addr us n = Some b" "blk_inv b" "bdata b = addr" "bunit b = us" "unit_cnt b = n" "live_units b = {}"
    "free_cnt b = n"
proof -
  have "free_units (map Suc [0..<n - 1] @ [65535]) 0 n = [0..<n]"
    using fresh_chain [of 0 n n] by simp
  then show thesis
    using assms
    by (intro that [of "\<lparr>bdata = addr, bfirst = 0, free_cnt = n, unit_cnt = n, bunit = us, cells = map Suc [0..<n - 1] @ [65535]\<rparr>"])
      (auto simp: fk_block_create_def blk_inv_def live_units_def pool_dims_def)
qed

subsection \<open>Operations on a block\<close>

lemma unit_addr_inj: "2 \<le> bunit b \<Longrightarrow> unit_addr b i = unit_addr b j \<longleftrightarrow> i = j"
  by (simp add: unit_addr_def)

lemma unit_addr_index:
  assumes "2 \<le> bunit b"
  shows "(unit_addr b i - bdata b) mod bunit b = 0" "(unit_addr b i - bdata b) div bunit b = i"
  using assms by (simp_all add: unit_addr_def)

lemma block_alloc_spec:
  assumes inv: "blk_inv b" and room: "0 < free_cnt b"
  obtains b' where "fk_pool_block_alloc b = Some (unit_addr b (bfirst b), b')" "blk_inv b'" "bdata b' = bdata b" "bunit b' = bunit b"
    "unit_cnt b' = unit_cnt b" "live_units b' = insert (unit_addr b (bfirst b)) (live_units b)" "unit_addr b (bfirst b) \<notin> live_units b"
    "bfirst b < unit_cnt b"
proof -
  obtain k where k: "free_cnt b = Suc k"
    using room by (cases "free_cnt b") auto
  let ?b = "b\<lparr>free_cnt := k, bfirst := cells b ! bfirst b\<rparr>"
  have fr: "frees b = bfirst b # frees ?b"
    by (simp add: k)
  have i: "bfirst b < unit_cnt b" "bfirst b \<notin> set (frees ?b)"
    using inv fr by (auto simp: blk_inv_def)
  show thesis
  proof (rule that [of ?b])
    show "fk_pool_block_alloc b = Some (unit_addr b (bfirst b), ?b)"
      using inv i(1) by (simp add: fk_pool_block_alloc_def blk_inv_def nth_opt_def unit_addr_def k)
    show "blk_inv ?b"
      using inv by (auto simp: blk_inv_def k)
    have "{..<unit_cnt b} - set (frees ?b) = insert (bfirst b) ({..<unit_cnt b} - set (frees b))"
      using i fr by auto
    then show "live_units ?b = insert (unit_addr b (bfirst b)) (live_units b)"
      unfolding live_units_def by (simp add: unit_addr_def [abs_def])
    show "unit_addr b (bfirst b) \<notin> live_units b"
      using inv unfolding live_units_def fr by (auto simp: blk_inv_def unit_addr_inj)
  qed (use i in simp_all)
qed

lemma block_free_spec:
  assumes inv: "blk_inv b" and p: "ptr \<in> live_units b"
  obtains b' where "fk_pool_block_free b ptr = Some b'" "blk_inv b'" "bdata b' = bdata b" "bunit b' = bunit b" "unit_cnt b' = unit_cnt b"
    "live_units b' = live_units b - {ptr}" "fk_pool_block_isempty b' \<Longrightarrow> live_units b' = {}"
proof -
  obtain i where i: "ptr = unit_addr b i" "i < unit_cnt b" "i \<notin> set (frees b)"
    using p by (auto simp: live_units_def)
  have u: "2 \<le> bunit b"
    using inv by (simp add: blk_inv_def)
  let ?b = "b\<lparr>free_cnt := free_cnt b + 1, cells := (cells b)[i := bfirst b], bfirst := i\<rparr>"
  have fr: "frees ?b = i # frees b"
    using inv i by (simp add: blk_inv_def free_units_upd)
  have inv': "blk_inv ?b"
    using inv i by (auto simp: blk_inv_def free_units_upd)
  have "card (set (frees ?b)) \<le> card {..<unit_cnt ?b}"
    using inv' by (intro card_mono) (simp_all only: blk_inv_def finite_lessThan)
  moreover have "card (set (frees ?b)) = free_cnt b + 1"
    using inv' by (simp only: distinct_card blk_inv_def length_free_units) simp
  ultimately have cnt: "(free_cnt b + 1) mod 2 ^ 16 = free_cnt b + 1"
    using inv by (simp add: blk_inv_def)
  have lv: "live_units ?b = live_units b - {ptr}"
    unfolding live_units_def fr using i u by (auto simp: unit_addr_def)
  show thesis
  proof (rule that [of ?b])
    show "fk_pool_block_free b ptr = Some ?b"
      using inv i unit_addr_index [OF u, of i] u unfolding fk_pool_block_free_def cnt by (simp add: upd_opt_def blk_inv_def Let_def)
    show "live_units ?b = {}" if "fk_pool_block_isempty ?b"
    proof -
      have "card (set (frees ?b)) = unit_cnt ?b" "set (frees ?b) \<subseteq> {..<unit_cnt ?b}"
        using that inv' by (simp_all only: distinct_card blk_inv_def length_free_units fk_pool_block_isempty_def)
      then have "set (frees ?b) = {..<unit_cnt ?b}"
        by (intro card_subset_eq) simp_all
      then show ?thesis
        unfolding live_units_def by simp
    qed
  qed (use inv' lv in simp_all)
qed

lemma block_write_spec:
  assumes inv: "blk_inv b" and p: "unit_addr b i \<in> live_units b"
  shows "blk_inv (b\<lparr>cells := (cells b)[i := v]\<rparr>)" "live_units (b\<lparr>cells := (cells b)[i := v]\<rparr>) = live_units b"
proof -
  have "i \<notin> set (frees b)"
    using p inv by (auto simp: live_units_def blk_inv_def unit_addr_inj)
  then show "blk_inv (b\<lparr>cells := (cells b)[i := v]\<rparr>)" "live_units (b\<lparr>cells := (cells b)[i := v]\<rparr>) = live_units b"
    using inv by (simp_all add: blk_inv_def live_units_def free_units_upd unit_addr_def [abs_def])
qed

subsection \<open>Operations on the pool\<close>

text \<open>Blocks at the same place and of the same size.\<close>

definition same_place :: "fk_block \<Rightarrow> fk_block \<Rightarrow> bool" where
  "same_place b c \<longleftrightarrow> bdata c = bdata b \<and> bunit c = bunit b \<and> unit_cnt c = unit_cnt b"

lemma sep_sym: "sep b c \<longleftrightarrow> sep c b"
  by (auto simp: sep_def)

lemma sep_place: "same_place b b' \<Longrightarrow> sep b' c \<longleftrightarrow> sep b c" "same_place b b' \<Longrightarrow> sep c b' \<longleftrightarrow> sep c b"
  by (simp_all add: same_place_def sep_def)

text \<open>A pool in which the block \<open>b\<close> is looked at; the order of the blocks does not matter.\<close>

definition focus :: "fk_pool \<Rightarrow> fk_block \<Rightarrow> fk_block list \<Rightarrow> bool" where
  "focus p b bs \<longleftrightarrow> pool_dims (unit_size p) (init_cnt p) \<and> blk_inv b \<and> bunit b = unit_size p
     \<and> (\<forall>c \<in> set bs. blk_inv c \<and> bunit c = unit_size p \<and> sep b c) \<and> sorted_wrt sep bs"

lemma focus_iff: "pool_inv (p\<lparr>blocks := pre @ b # bs\<rparr>) \<longleftrightarrow> focus p b (pre @ bs)"
proof -
  have "(\<forall>c \<in> set pre. sep c b) \<longleftrightarrow> (\<forall>c \<in> set pre. sep b c)"
    by (intro ball_cong refl sep_sym)
  then have "sorted_wrt sep (pre @ b # bs) \<longleftrightarrow> (\<forall>c \<in> set (pre @ bs). sep b c) \<and> sorted_wrt sep (pre @ bs)"
    by (auto simp: sorted_wrt_append)
  then show ?thesis
    unfolding pool_inv_def focus_def by auto
qed

lemma focus_upd: "focus p b bs \<Longrightarrow> blk_inv b' \<Longrightarrow> same_place b b' \<Longrightarrow> focus p b' bs"
  using sep_place(1) [of b b'] unfolding focus_def by (simp add: same_place_def)

lemma live_focus: "live (p\<lparr>blocks := pre @ b # bs\<rparr>) = live_units b \<union> (\<Union>c \<in> set (pre @ bs). live_units c)"
  by (auto simp: live_def)

text \<open>A unit lies inside its block, so units of different blocks do not overlap.\<close>

definition apart :: "nat \<Rightarrow> nat \<Rightarrow> nat \<Rightarrow> bool" where
  "apart n p q \<longleftrightarrow> p + n \<le> q \<or> q + n \<le> p"

lemma live_bounds:
  assumes "ptr \<in> live_units b"
  shows "bdata b \<le> ptr" "ptr + bunit b \<le> bdata b + bunit b * unit_cnt b"
proof -
  obtain i where i: "ptr = bdata b + bunit b * i" "i < unit_cnt b"
    using assms by (auto simp: live_units_def unit_addr_def)
  then have "bunit b * Suc i \<le> bunit b * unit_cnt b"
    by (intro mult_le_mono2) simp
  then show "bdata b \<le> ptr" "ptr + bunit b \<le> bdata b + bunit b * unit_cnt b"
    using i by simp_all
qed

lemma nocontain_iff:
  assumes "ptr \<in> live_units b" and "2 \<le> bunit b"
  shows "\<not> fk_pool_block_nocontain b ptr" and "sep b c \<Longrightarrow> bunit c = bunit b \<Longrightarrow> fk_pool_block_nocontain c ptr"
  using live_bounds [OF assms(1)] assms(2) by (auto simp: fk_pool_block_nocontain_def sep_def)

lemma units_apart:
  assumes inv: "blk_inv b" and i: "i < unit_cnt b" "unit_addr b i \<notin> live_units b"
    and q: "q \<in> live_units b \<or> (\<exists>c. sep b c \<and> bunit c = bunit b \<and> q \<in> live_units c)"
  shows "apart (bunit b) (unit_addr b i) q"
  using q
proof
  assume q: "q \<in> live_units b"
  then obtain j where j: "q = unit_addr b j" "i \<noteq> j"
    using i by (auto simp: live_units_def)
  then have "bunit b * Suc i \<le> bunit b * j \<or> bunit b * Suc j \<le> bunit b * i"
    by (cases "i < j") (auto intro!: mult_le_mono2 simp del: mult_Suc_right)
  then show ?thesis
    using j by (auto simp: apart_def unit_addr_def)
next
  assume "\<exists>c. sep b c \<and> bunit c = bunit b \<and> q \<in> live_units c"
  then obtain c where c: "sep b c" "bunit c = bunit b" "q \<in> live_units c"
    by blast
  have "bunit b * Suc i \<le> bunit b * unit_cnt b"
    using i(1) by (intro mult_le_mono2) simp
  then show ?thesis
    using c live_bounds [OF c(3)] by (auto simp: apart_def sep_def unit_addr_def)
qed

text \<open>Where the allocator may put a new block.\<close>

definition fresh_addr :: "fk_pool \<Rightarrow> nat \<Rightarrow> bool" where
  "fresh_addr p addr \<longleftrightarrow> (\<forall>c \<in> set (blocks p). addr + unit_size p * init_cnt p < bdata c \<or> bdata c + bunit c * unit_cnt c < addr)"

lemma malloc_focus:
  assumes foc: "focus p b bs" and room: "0 < free_cnt b"
  obtains ptr b' where "fk_pool_block_alloc b = Some (ptr, b')" "focus p b' bs" "live_units b' = insert ptr (live_units b)"
    "ptr \<notin> live_units b" "\<forall>q \<in> live_units b \<union> (\<Union>c \<in> set bs. live_units c). apart (unit_size p) ptr q"
proof -
  have inv: "blk_inv b" "bunit b = unit_size p"
    using foc by (simp_all add: focus_def)
  obtain b' where b': "fk_pool_block_alloc b = Some (unit_addr b (bfirst b), b')" "blk_inv b'" "same_place b b'"
    "live_units b' = insert (unit_addr b (bfirst b)) (live_units b)" "unit_addr b (bfirst b) \<notin> live_units b" "bfirst b < unit_cnt b"
    using block_alloc_spec [OF inv(1) room] unfolding same_place_def by metis
  have "apart (unit_size p) (unit_addr b (bfirst b)) q" if "q \<in> live_units b \<union> (\<Union>c \<in> set bs. live_units c)" for q
    using units_apart [OF inv(1) b'(6,5), of q] that foc inv(2) unfolding focus_def by auto
  then show thesis
    using that b' focus_upd [OF foc b'(2,3)] by blast
qed

lemma malloc_spec:
  assumes inv: "pool_inv p" and fr: "fresh_addr p addr"
  obtains ptr p' where "fk_pool_malloc addr p = Some (ptr, p')" "pool_inv p'" "live p' = insert ptr (live p)" "ptr \<notin> live p"
    "\<forall>q \<in> live p. apart (unit_size p) ptr q" "unit_size p' = unit_size p" "init_cnt p' = init_cnt p"
proof (cases "dropWhile fk_pool_block_isfull (blocks p)")
  case (Cons b bs)
  let ?pre = "takeWhile fk_pool_block_isfull (blocks p)"
  have split: "p\<lparr>blocks := ?pre @ b # bs\<rparr> = p"
    using takeWhile_dropWhile_id [of fk_pool_block_isfull "blocks p"] Cons by simp
  then have foc: "focus p b (?pre @ bs)" and lv: "live p = live_units b \<union> (\<Union>c \<in> set (?pre @ bs). live_units c)"
    using focus_iff [where p = p and pre = ?pre and b = b and bs = bs] live_focus [where p = p and pre = ?pre and b = b and bs = bs] inv by simp_all
  have "0 < free_cnt b"
    using Cons hd_dropWhile [of fk_pool_block_isfull "blocks p"] by (simp add: fk_pool_block_isfull_def)
  then obtain ptr b' where a: "fk_pool_block_alloc b = Some (ptr, b')" "focus p b' (?pre @ bs)" "live_units b' = insert ptr (live_units b)"
    "ptr \<notin> live_units b" "\<forall>q \<in> live p. apart (unit_size p) ptr q"
    using malloc_focus [OF foc] lv by metis
  have "ptr \<notin> live p"
    using a(5) inv by (force simp: apart_def pool_inv_def pool_dims_def)
  then show thesis
    using a Cons lv focus_iff live_focus by (intro that [of ptr "p\<lparr>blocks := ?pre @ b' # bs\<rparr>"]) (auto simp: fk_pool_malloc_def)
next
  case Nil
  have dims: "pool_dims (unit_size p) (init_cnt p)" and us: "2 \<le> unit_size p" "0 < init_cnt p"
    using inv by (simp_all add: pool_inv_def pool_dims_def)
  obtain b where b: "fk_block_create addr (unit_size p) (init_cnt p) = Some b" "blk_inv b" "bdata b = addr" "bunit b = unit_size p"
    "unit_cnt b = init_cnt p" "live_units b = {}" "free_cnt b = init_cnt p"
    using block_create_inv [OF dims] by metis
  have foc: "focus p b (blocks p)"
    using inv b fr by (auto simp: focus_def pool_inv_def fresh_addr_def sep_def)
  obtain ptr b' where a: "fk_pool_block_alloc b = Some (ptr, b')" "focus p b' (blocks p)" "live_units b' = {ptr}"
    "\<forall>q \<in> live p. apart (unit_size p) ptr q"
    using malloc_focus [OF foc] b us(2) unfolding live_def by (metis Un_empty_left)
  have "ptr \<notin> live p"
    using a(4) us by (force simp: apart_def)
  moreover have "fk_pool_malloc addr p = Some (ptr, p\<lparr>blocks := b' # blocks p\<rparr>)"
    unfolding fk_pool_malloc_def Nil using a(1) b(1) by simp
  ultimately show thesis
    using a focus_iff [where p = p and pre = "[]"] by (intro that [of ptr "p\<lparr>blocks := b' # blocks p\<rparr>"]) (auto simp: live_def)
qed

lemma free_spec:
  assumes inv: "pool_inv p" and ptr: "ptr \<in> live p"
  obtains p' where "fk_pool_free p ptr = Some p'" "pool_inv p'" "live p' = live p - {ptr}" "unit_size p' = unit_size p" "init_cnt p' = init_cnt p"
proof -
  let ?no = "\<lambda>b. fk_pool_block_nocontain b ptr"
  obtain c where c: "c \<in> set (blocks p)" "ptr \<in> live_units c" "2 \<le> bunit c" "bunit c = unit_size p"
    using ptr inv by (auto simp: live_def pool_inv_def blk_inv_def)
  have "\<not> ?no c"
    using nocontain_iff(1) [OF c(2,3)] .
  then obtain b bs where drop: "dropWhile ?no (blocks p) = b # bs"
    using c(1) by (metis (full_types) dropWhile_eq_Nil_conv list.exhaust)
  let ?pre = "takeWhile ?no (blocks p)"
  have split: "blocks p = ?pre @ b # bs"
    using takeWhile_dropWhile_id [of ?no "blocks p"] drop by simp
  then have p: "p\<lparr>blocks := ?pre @ b # bs\<rparr> = p"
    by simp
  have foc: "focus p b (?pre @ bs)" and lv: "live p = live_units b \<union> (\<Union>c \<in> set (?pre @ bs). live_units c)"
    using focus_iff [where p = p and pre = ?pre and b = b and bs = bs] live_focus [where p = p and pre = ?pre and b = b and bs = bs] inv
    unfolding p by simp_all
  have "\<not> ?no b"
    using drop hd_dropWhile [of ?no "blocks p"] by simp
  have others: "ptr \<notin> live_units d" if "d \<in> set (?pre @ bs)" for d
  proof
    assume "ptr \<in> live_units d"
    moreover have "sep d b" "bunit b = bunit d" "2 \<le> bunit d"
      using that foc sep_sym [of b d] by (auto simp: focus_def pool_dims_def)
    ultimately show False
      using nocontain_iff(2) \<open>\<not> ?no b\<close> by blast
  qed
  then have "ptr \<in> live_units b"
    using ptr lv by auto
  moreover have "blk_inv b"
    using foc by (simp add: focus_def)
  ultimately obtain b' where b': "fk_pool_block_free b ptr = Some b'" "blk_inv b'" "same_place b b'"
    "live_units b' = live_units b - {ptr}" "fk_pool_block_isempty b' \<Longrightarrow> live_units b' = {}"
    using block_free_spec unfolding same_place_def by metis
  have foc': "focus p b' (?pre @ bs)"
    using focus_upd [OF foc b'(2,3)] .
  have lv': "live p - {ptr} = live_units b' \<union> (\<Union>c \<in> set (?pre @ bs). live_units c)"
    using lv b'(4) others by auto
  let ?p1 = "p\<lparr>blocks := ?pre @ bs\<rparr>" and ?p2 = "p\<lparr>empty_blks := empty_blks p + 1, blocks := b' # ?pre @ bs\<rparr>"
    and ?p3 = "p\<lparr>blocks := b' # ?pre @ bs\<rparr>"
  have r: "fk_pool_free p ptr = Some (if fk_pool_block_isempty b' then if empty_blks p = FK_POOL_MAX_EMPTY_BLOCKS then ?p1 else ?p2 else ?p3)"
    unfolding fk_pool_free_def drop Let_def using b'(1) by simp
  have "pool_inv ?p1" "pool_inv ?p2" "pool_inv ?p3" "live ?p2 = live p - {ptr}" "live ?p3 = live p - {ptr}"
    using foc' lv' by (auto simp: pool_inv_def focus_def live_def)
  moreover have "live ?p1 = live p - {ptr}" if "fk_pool_block_isempty b'"
    using b'(5) [OF that] lv' by (simp add: live_def)
  ultimately show thesis
    using r by (intro that [OF r]) auto
qed

lemma write_spec:
  assumes inv: "pool_inv p" and j: "j < length (blocks p)" and i: "unit_addr (blocks p ! j) i \<in> live_units (blocks p ! j)"
  shows "pool_inv (client_write p j i v)" "live (client_write p j i v) = live p"
proof -
  let ?b = "blocks p ! j" and ?pre = "take j (blocks p)" and ?bs = "drop (Suc j) (blocks p)"
  let ?c = "?b\<lparr>cells := (cells ?b)[i := v]\<rparr>"
  have p: "p\<lparr>blocks := ?pre @ ?b # ?bs\<rparr> = p"
    using id_take_nth_drop [OF j] by simp
  have p': "client_write p j i v = p\<lparr>blocks := ?pre @ ?c # ?bs\<rparr>"
    by (simp add: client_write_def upd_conv_take_nth_drop [OF j])
  have foc: "focus p ?b (?pre @ ?bs)"
    using inv focus_iff [where p = p and pre = ?pre and b = ?b and bs = ?bs] unfolding p by simp
  then have b: "blk_inv ?b"
    by (simp add: focus_def)
  show "pool_inv (client_write p j i v)"
    unfolding p' focus_iff by (rule focus_upd [OF foc]) (simp_all add: block_write_spec [OF b i] same_place_def)
  show "live (client_write p j i v) = live p"
    using live_focus [where p = p and pre = ?pre and b = ?b and bs = ?bs] unfolding p' p live_focus block_write_spec(2) [OF b i] by simp
qed

section \<open>Any use of the pool\<close>

text \<open>A call of a client; \<open>L\<close> are the units that clients hold.\<close>

inductive pool_call :: "nat set \<times> fk_pool \<Rightarrow> nat set \<times> fk_pool \<Rightarrow> bool" where
  pool_get: "fresh_addr p addr \<Longrightarrow> fk_pool_malloc addr p = Some (ptr, p') \<Longrightarrow> pool_call (L, p) (insert ptr L, p')"
| pool_put: "ptr \<in> L \<Longrightarrow> fk_pool_free p ptr = Some p' \<Longrightarrow> pool_call (L, p) (L - {ptr}, p')"
| pool_write: "j < length (blocks p) \<Longrightarrow> i < unit_cnt (blocks p ! j) \<Longrightarrow> unit_addr (blocks p ! j) i \<in> L
    \<Longrightarrow> pool_call (L, p) (L, client_write p j i v)"

lemma live_unit_of_block:
  assumes inv: "pool_inv p" and j: "j < length (blocks p)" "i < unit_cnt (blocks p ! j)" and lv: "unit_addr (blocks p ! j) i \<in> live p"
  shows "unit_addr (blocks p ! j) i \<in> live_units (blocks p ! j)"
proof -
  let ?b = "blocks p ! j"
  obtain k where k: "k < length (blocks p)" "unit_addr ?b i \<in> live_units (blocks p ! k)"
    using lv by (auto simp: live_def in_set_conv_nth)
  have u: "2 \<le> bunit (blocks p ! k)" "bunit ?b = bunit (blocks p ! k)"
    using inv j(1) k(1) by (auto simp: pool_inv_def pool_dims_def)
  have "\<not> fk_pool_block_nocontain ?b (unit_addr ?b i)"
    using j(2) by (simp add: fk_pool_block_nocontain_def unit_addr_def)
  then have "\<not> sep (blocks p ! k) ?b"
    using nocontain_iff(2) [OF k(2) u(1), of ?b] u(2) by blast
  moreover have "sep (blocks p ! k) ?b" if "j \<noteq> k"
    using inv j(1) k(1) that sep_sym [of "blocks p ! k" ?b] unfolding pool_inv_def sorted_wrt_iff_nth_less by (cases j k rule: linorder_cases) auto
  ultimately show ?thesis
    using k by blast
qed

lemma pool_call_inv:
  assumes "pool_call s t" and "pool_inv (snd s)" and "live (snd s) = fst s"
  shows "pool_inv (snd t) \<and> live (snd t) = fst t"
  using assms
proof (induction rule: pool_call.induct)
  case (pool_get p addr ptr p' L)
  then show ?case
    using malloc_spec [of p addr] by (metis fst_conv option.inject snd_conv)
next
  case (pool_put ptr L p p')
  then show ?case
    using free_spec [of p ptr] by (metis fst_conv option.inject snd_conv)
next
  case (pool_write j p i L v)
  then show ?case
    using live_unit_of_block [of p j i] write_spec [of p j i v] by simp
qed

lemma pool_calls_inv:
  assumes "pool_call\<^sup>*\<^sup>* s t" and "pool_inv (snd s)" and "live (snd s) = fst s"
  shows "pool_inv (snd t) \<and> live (snd t) = fst t"
  using assms star_invariant [where P = "\<lambda>s. pool_inv (snd s) \<and> live (snd s) = fst s", of pool_call s t] pool_call_inv by blast

lemma pool_create_inv:
  assumes "us \<le> 65534" and "0 < n" and "n < 2 ^ 15"
  shows "pool_inv (fk_pool_create us n)" "live (fk_pool_create us n) = {}"
proof -
  have "fk_pool_align_cal us \<le> 65534"
    using assms(1) by (simp add: fk_pool_align_cal_def)
  then have "2 \<le> unit_size (fk_pool_create us n)" "unit_size (fk_pool_create us n) \<le> 65534"
    by (auto simp: fk_pool_create_def fk_pool_align_cal_def)
  moreover have "unit_size (fk_pool_create us n) * n \<le> 65534 * 2 ^ 15"
    using calculation(2) assms(3) by (intro mult_le_mono) simp_all
  moreover have "(65534 :: nat) * 2 ^ 15 < 2 ^ 31"
    by simp
  ultimately have "pool_dims (unit_size (fk_pool_create us n)) n"
    unfolding pool_dims_def using assms(2,3) by simp
  then show "pool_inv (fk_pool_create us n)" "live (fk_pool_create us n) = {}"
    by (simp_all add: pool_inv_def live_def fk_pool_create_def)
qed

text \<open>
  C31. The memory pool is an allocator: after any sequence of allocations, releases and writes of clients to the first bytes of the
  units they hold, the units in use are those handed out and not released since; a further allocation returns, and its unit
  overlaps none of them, wherever a new block is put apart from the others; and each of them can be released. The pool was
  created for units of at most 65534 bytes (the size 65535 is rounded up to 0) and blocks of less than 2^15 units.\<close>

theorem pool_safe:
  assumes "us \<le> 65534" and "0 < n" and "n < 2 ^ 15" and "pool_call\<^sup>*\<^sup>* ({}, fk_pool_create us n) (L, p)"
  shows "live p = L
    \<and> (fresh_addr p addr \<longrightarrow> (\<exists>ptr p'. fk_pool_malloc addr p = Some (ptr, p') \<and> (\<forall>q \<in> L. ptr \<noteq> q \<and> apart (unit_size p) ptr q)))
    \<and> (\<forall>ptr \<in> L. \<exists>p'. fk_pool_free p ptr = Some p' \<and> live p' = L - {ptr})"
proof -
  have inv: "pool_inv p" "live p = L"
    using pool_calls_inv [OF assms(4)] pool_create_inv [OF assms(1-3)] by simp_all
  have "\<exists>ptr p'. fk_pool_malloc addr p = Some (ptr, p') \<and> (\<forall>q \<in> L. ptr \<noteq> q \<and> apart (unit_size p) ptr q)" if "fresh_addr p addr"
    using malloc_spec [OF inv(1) that] inv(2) by metis
  moreover have "\<exists>p'. fk_pool_free p ptr = Some p' \<and> live p' = L - {ptr}" if "ptr \<in> L" for ptr
    using free_spec [OF inv(1), of ptr] inv(2) that by metis
  ultimately show ?thesis
    using inv(2) by blast
qed

text \<open>Two blocks of two units of five bytes, the second in use twice.\<close>

definition pool_state :: "nat set \<times> fk_pool" where
  "pool_state = ({200, 106, 100}, \<lparr>blocks =
     [\<lparr>bdata = 200, bfirst = 1, free_cnt = 1, unit_cnt = 2, bunit = 6, cells = [1, 65535]\<rparr>,
      \<lparr>bdata = 100, bfirst = 65535, free_cnt = 0, unit_cnt = 2, bunit = 6, cells = [7, 65535]\<rparr>], unit_size = 6, init_cnt = 2, empty_blks = 0\<rparr>)"

lemmas pool_exec = fk_pool_create_def fk_pool_align_cal_def fresh_addr_def fk_pool_malloc_def fk_block_create_def fk_pool_block_alloc_def
  fk_pool_block_isfull_def client_write_def unit_addr_def nth_opt_def upt_rec

lemma pool_state_reached: "pool_call\<^sup>*\<^sup>* ({}, fk_pool_create 5 2) pool_state"
proof -
  let ?p0 = "fk_pool_create 5 2"
  let ?p1 = "?p0\<lparr>blocks := [\<lparr>bdata = 100, bfirst = 1, free_cnt = 1, unit_cnt = 2, bunit = 6, cells = [1, 65535]\<rparr>]\<rparr>"
  let ?p2 = "?p0\<lparr>blocks := [\<lparr>bdata = 100, bfirst = 65535, free_cnt = 0, unit_cnt = 2, bunit = 6, cells = [1, 65535]\<rparr>]\<rparr>"
  let ?p3 = "client_write ?p2 0 0 7"
  have "pool_call ({}, ?p0) ({100}, ?p1)"
    by (rule pool_get [where addr = 100]) (simp_all add: pool_exec)
  moreover have "pool_call ({100}, ?p1) ({106, 100}, ?p2)"
    by (rule pool_get [where addr = 200]) (simp_all add: pool_exec)
  moreover have "pool_call ({106, 100}, ?p2) ({106, 100}, ?p3)"
    by (rule pool_write) (simp_all add: unit_addr_def)
  moreover have "pool_call ({106, 100}, ?p3) pool_state"
    unfolding pool_state_def by (rule pool_get [where addr = 200]) (simp_all add: pool_exec)
  ultimately show ?thesis
    by (meson converse_rtranclp_into_rtranclp rtranclp.rtrancl_refl)
qed

theorem pool_safe_witness: "live (snd pool_state) = {200, 106, 100} \<and> (\<exists>p'. fk_pool_free (snd pool_state) 106 = Some p' \<and> live p' = {200, 100})
  \<and> (\<exists>ptr p'. fk_pool_malloc 300 (snd pool_state) = Some (ptr, p') \<and> (\<forall>q \<in> {200, 106, 100}. ptr \<noteq> q \<and> apart 6 ptr q))"
proof -
  have "pool_call\<^sup>*\<^sup>* ({}, fk_pool_create 5 2) ({200, 106, 100}, snd pool_state)"
    using pool_state_reached by (simp add: pool_state_def)
  note * = pool_safe [OF _ _ _ this, where addr = 300]
  have "fresh_addr (snd pool_state) 300" "unit_size (snd pool_state) = 6" "{200, 106, 100} - {106} = {200, 100 :: nat}"
    by (auto simp: pool_state_def fresh_addr_def)
  then show ?thesis
    using * by simp
qed

end
