(* ===== verification/Fk_Cache.thy ===== *)
theory Fk_Cache
  imports Fk_List
begin

text \<open>
  \<^verbatim>\<open>fk_cache.c\<close>: the cache of list nodes that are not in use, itself a linked list. The data of a node is an option, where
  \<open>None\<close> is the NULL pointer. Shown is that a node is handed out blank and to one client at a time, whatever the clients
  write into the nodes they hold.
\<close>

section \<open>Operations\<close>

type_synonym 'p node_store = "('p, nat option) nodes"

definition fk_cache_init :: "'p rawlist" where
  "fk_cache_init = fk_rawlist_init"

text \<open>\<open>new\<close> is the address of the memory that the allocator gives when the cache is empty.\<close>

definition fk_cache_get_free_node :: "'p \<Rightarrow> 'p node_store \<times> 'p rawlist \<Rightarrow> ('p \<times> 'p node_store \<times> 'p rawlist) option" where
  "fk_cache_get_free_node new = (\<lambda>(st, free_nodes).
     if len free_nodes > 0 then
       do { nd \<leftarrow> head free_nodes;
            s \<leftarrow> fk_rawlist_remove_anyone nd (st, free_nodes);
            Some (nd, s) }
     else
       Some (new, st\<lparr>alive := (alive st)(new := True), prv := (prv st)(new := None), nxt := (nxt st)(new := None), dat := (dat st)(new := None)\<rparr>,
             free_nodes))"

definition fk_cache_put_free_node :: "'p \<Rightarrow> 'p node_store \<times> 'p rawlist \<Rightarrow> ('p node_store \<times> 'p rawlist) option" where
  "fk_cache_put_free_node nd = (\<lambda>(st, free_nodes).
     do { st1 \<leftarrow> set_prv nd None st;
          st2 \<leftarrow> set_nxt nd None st1;
          fk_rawlist_insert_head nd (st2\<lparr>dat := (dat st2)(nd := None)\<rparr>, free_nodes) })"

section \<open>Any use of the cache\<close>

text \<open>\<open>cache_ok U s\<close>: the nodes in \<open>U\<close> are held by clients, the others that are allocated are in the list, and blank.\<close>

definition cache_ok :: "'p set \<Rightarrow> 'p node_store \<times> 'p rawlist \<Rightarrow> bool" where
  "cache_ok U = (\<lambda>(st, l). \<exists>xs. dll (st, l) xs \<and> set xs \<inter> U = {} \<and> {p. alive st p} = set xs \<union> U \<and> (\<forall>p \<in> set xs. dat st p = None))"

definition blank :: "'p node_store \<Rightarrow> 'p \<Rightarrow> bool" where
  "blank st p \<longleftrightarrow> alive st p \<and> prv st p = None \<and> nxt st p = None \<and> dat st p = None"

lemma links_cleared:
  assumes "set_prv nd None st = Some st1" and "set_nxt nd None st1 = Some st2"
  shows "prv st2 nd = None" "nxt st2 nd = None"
  using assms by (auto simp: set_prv_def set_nxt_def split: if_splits)

lemma bind_SomeE:
  assumes "Option.bind m f = Some y"
  obtains x where "m = Some x" "f x = Some y"
  using assms by (auto simp: bind_eq_Some_conv)

lemma removed_links:
  assumes "fk_rawlist_remove_anyone nd s = Some (st, l)"
  shows "prv st nd = None \<and> nxt st nd = None"
proof -
  obtain st2 st3 where "set_prv nd None st2 = Some st3" "set_nxt nd None st3 = Some st"
    using assms unfolding fk_rawlist_remove_anyone_def split_def by (elim bind_SomeE) (rule that, assumption, simp)
  then show ?thesis
    using links_cleared [of nd st2 st3 st] by simp
qed

lemma cache_get:
  assumes ok: "cache_ok U (st, l)" and new: "\<not> alive st new"
  obtains nd st' l' where "fk_cache_get_free_node new (st, l) = Some (nd, st', l')" "nd \<notin> U" "blank st' nd" "cache_ok (insert nd U) (st', l')"
    "\<forall>p \<in> U. prv st' p = prv st p \<and> nxt st' p = nxt st p \<and> dat st' p = dat st p"
proof -
  obtain xs where xs: "dll (st, l) xs" "set xs \<inter> U = {}" "{p. alive st p} = set xs \<union> U" "\<forall>p \<in> set xs. dat st p = None"
    using ok by (auto simp: cache_ok_def)
  show thesis
  proof (cases xs)
    case Nil
    let ?st = "st\<lparr>alive := (alive st)(new := True), prv := (prv st)(new := None), nxt := (nxt st)(new := None), dat := (dat st)(new := None)\<rparr>"
    have U: "{p. alive st p} = U" and l: "len l = 0" "dll (?st, l) []"
      using xs(1,3) Nil by (simp_all add: dll_def)
    have "new \<notin> U" and "{p. alive ?st p} = insert new U"
      using new by (auto simp: U [symmetric])
    moreover from this(2) have "cache_ok (insert new U) (?st, l)"
      using l(2) unfolding cache_ok_def by (intro case_prodI exI [of _ "[]"]) (simp add: fun_upd_def)
    ultimately show thesis
      using l(1) by (intro that [of new ?st l]) (auto simp: fk_cache_get_free_node_def blank_def)
  next
    case (Cons nd ys)
    obtain st' l' where r: "fk_rawlist_remove_anyone nd (st, l) = Some (st', l')" "dll (st', l') ys" "frame (set xs) st st'"
      using remove_anyone_dll [of st l "[]" nd ys] xs(1) Cons by auto
    have h: "head l = Some nd" "len l > 0" "nd \<notin> set ys" "nd \<notin> U" "dat st nd = None"
      using xs(1,2,4) Cons by (auto simp: dll_def)
    have same: "alive st' = alive st" "dat st' = dat st" "\<forall>p \<in> U. prv st' p = prv st p \<and> nxt st' p = nxt st p"
      using r(3) xs(2) by (auto simp: frame_def)
    have "alive st nd"
      using xs(3) Cons by auto
    moreover have "cache_ok (insert nd U) (st', l')"
      using r(2) xs(2-4) same(1,2) h(3) Cons unfolding cache_ok_def by (intro case_prodI exI [of _ ys]) simp
    ultimately show thesis
      using r(1) h same removed_links [OF r(1)] by (intro that [of nd st' l']) (simp_all add: fk_cache_get_free_node_def blank_def)
  qed
qed

lemma cache_put:
  assumes ok: "cache_ok U (st, l)" and nd: "nd \<in> U"
  obtains st' l' where "fk_cache_put_free_node nd (st, l) = Some (st', l')" "cache_ok (U - {nd}) (st', l')"
    "\<forall>p \<in> U - {nd}. prv st' p = prv st p \<and> nxt st' p = nxt st p \<and> dat st' p = dat st p"
proof -
  obtain xs where xs: "dll (st, l) xs" "set xs \<inter> U = {}" "{p. alive st p} = set xs \<union> U" "\<forall>p \<in> set xs. dat st p = None"
    using ok by (auto simp: cache_ok_def)
  have nd': "alive st nd" "nd \<notin> set xs"
    using xs(2,3) nd by auto
  let ?st = "st\<lparr>prv := (prv st)(nd := None), nxt := (nxt st)(nd := None), dat := (dat st)(nd := None)\<rparr>"
  have "dll (?st, l) xs"
    using xs(1) nd'(2) by (subst (asm) dll_def) (auto simp: dll_def intro!: seg_agree [THEN iffD2, of xs _ st])
  then obtain st' l' where i: "fk_rawlist_insert_head nd (?st, l) = Some (st', l')" "dll (st', l') (nd # xs)" "frame (set (nd # xs)) ?st st'"
    using insert_head_dll [of ?st l xs nd] nd' by auto
  then have "fk_cache_put_free_node nd (st, l) = Some (st', l')"
    using nd'(1) by (simp add: fk_cache_put_free_node_def set_prv_def set_nxt_def)
  moreover have "alive st' = alive st" "dat st' = (dat st)(nd := None)"
    using i(3) by (simp_all add: frame_def)
  moreover have "\<forall>p \<in> U - {nd}. prv st' p = prv st p \<and> nxt st' p = nxt st p"
    using i(3) xs(2) by (auto simp: frame_def)
  ultimately show thesis
    using i(2) xs nd by (intro that [of st' l']) (auto simp: cache_ok_def intro!: exI [of _ "nd # xs"])
qed

text \<open>Clients change the nodes that they hold as they like.\<close>

definition client_change :: "'p set \<Rightarrow> 'p node_store \<Rightarrow> 'p node_store \<Rightarrow> bool" where
  "client_change U st st' \<longleftrightarrow> alive st' = alive st \<and> (\<forall>p. p \<notin> U \<longrightarrow> prv st' p = prv st p \<and> nxt st' p = nxt st p \<and> dat st' p = dat st p)"

inductive cache_call :: "'p set \<times> 'p node_store \<times> 'p rawlist \<Rightarrow> 'p set \<times> 'p node_store \<times> 'p rawlist \<Rightarrow> bool" where
  cache_get_call: "\<not> alive st new \<Longrightarrow> fk_cache_get_free_node new (st, l) = Some (nd, s') \<Longrightarrow> cache_call (U, st, l) (insert nd U, s')"
| cache_put_call: "nd \<in> U \<Longrightarrow> fk_cache_put_free_node nd (st, l) = Some s' \<Longrightarrow> cache_call (U, st, l) (U - {nd}, s')"
| cache_change: "client_change U st st' \<Longrightarrow> cache_call (U, st, l) (U, st', l)"

lemma cache_ok_change:
  assumes "cache_ok U (st, l)" and "client_change U st st'"
  shows "cache_ok U (st', l)"
proof -
  obtain xs where xs: "dll (st, l) xs" "set xs \<inter> U = {}" "{p. alive st p} = set xs \<union> U" "\<forall>p \<in> set xs. dat st p = None"
    using assms(1) by (auto simp: cache_ok_def)
  have "alive st' p = alive st p \<and> prv st' p = prv st p \<and> nxt st' p = nxt st p \<and> dat st' p = dat st p" if "p \<in> set xs" for p
    using that xs(2) assms(2) by (auto simp: client_change_def)
  then have "dll (st', l) xs" "\<forall>p \<in> set xs. dat st' p = None"
    using xs(1,4) seg_agree [of xs st' st None None] by (auto simp: dll_def)
  moreover have "alive st' = alive st"
    using assms(2) by (simp add: client_change_def)
  ultimately show ?thesis
    using xs(2,3) by (auto simp: cache_ok_def)
qed

lemma cache_call_ok: "cache_call s t \<Longrightarrow> cache_ok (fst s) (snd s) \<Longrightarrow> cache_ok (fst t) (snd t)"
proof (induction rule: cache_call.induct)
  case (cache_get_call st new l nd s' U)
  then show ?case
    using cache_get [of U st l new] by (metis fst_conv option.inject snd_conv)
next
  case (cache_put_call nd U st l s')
  then show ?case
    using cache_put [of U st l nd] by (metis fst_conv option.inject snd_conv)
qed (simp add: cache_ok_change)

lemma cache_calls_ok: "cache_call\<^sup>*\<^sup>* s t \<Longrightarrow> cache_ok (fst s) (snd s) \<Longrightarrow> cache_ok (fst t) (snd t)"
  by (rule star_invariant [where P = "\<lambda>s. cache_ok (fst s) (snd s)"]) (blast intro: cache_call_ok)+

text \<open>No node is allocated at the start.\<close>

definition no_nodes :: "nat node_store" where
  "no_nodes = \<lparr>prv = (\<lambda>_. None), nxt = (\<lambda>_. None), dat = (\<lambda>_. None), alive = (\<lambda>_. False)\<rparr>"

text \<open>
  The cache of nodes: after any sequence of requests, returns and changes of clients to the nodes they hold, a request gives a
  node that no client holds, with all its fields cleared, a return of a node in use succeeds, and neither touches the
  nodes of other clients.\<close>

theorem cache_safe:
  assumes "cache_call\<^sup>*\<^sup>* ({}, no_nodes, fk_cache_init) (U, st, l)"
  shows "(\<not> alive st new \<longrightarrow> (\<exists>nd st' l'. fk_cache_get_free_node new (st, l) = Some (nd, st', l') \<and> nd \<notin> U \<and> blank st' nd
      \<and> client_change {p. p \<notin> U} (st\<lparr>alive := alive st'\<rparr>) st'))
    \<and> (\<forall>nd \<in> U. \<exists>st' l'. fk_cache_put_free_node nd (st, l) = Some (st', l') \<and> client_change {p. p \<notin> U - {nd}} (st\<lparr>alive := alive st'\<rparr>) st')"
proof -
  have "cache_ok {} (no_nodes, fk_cache_init)"
    by (auto simp: cache_ok_def no_nodes_def fk_cache_init_def fk_rawlist_init_def dll_def)
  then have ok: "cache_ok U (st, l)"
    using cache_calls_ok [OF assms] by simp
  have "\<exists>nd st' l'. fk_cache_get_free_node new (st, l) = Some (nd, st', l') \<and> nd \<notin> U \<and> blank st' nd
      \<and> client_change {p. p \<notin> U} (st\<lparr>alive := alive st'\<rparr>) st'" if "\<not> alive st new"
  proof -
    obtain nd st' l' where "fk_cache_get_free_node new (st, l) = Some (nd, st', l')" "nd \<notin> U" "blank st' nd"
      "\<forall>p \<in> U. prv st' p = prv st p \<and> nxt st' p = nxt st p \<and> dat st' p = dat st p"
      using cache_get [OF ok \<open>\<not> alive st new\<close>] by metis
    then show ?thesis
      by (auto simp: client_change_def)
  qed
  moreover have "\<exists>st' l'. fk_cache_put_free_node nd (st, l) = Some (st', l') \<and> client_change {p. p \<notin> U - {nd}} (st\<lparr>alive := alive st'\<rparr>) st'"
    if "nd \<in> U" for nd
  proof -
    obtain st' l' where "fk_cache_put_free_node nd (st, l) = Some (st', l')"
      "\<forall>p \<in> U - {nd}. prv st' p = prv st p \<and> nxt st' p = nxt st p \<and> dat st' p = dat st p"
      using cache_put [OF ok \<open>nd \<in> U\<close>] by metis
    then show ?thesis
      by (auto simp: client_change_def)
  qed
  ultimately show ?thesis
    by blast
qed

end
