(* ===== verification/Fk_Sys.thy ===== *)
theory Fk_Sys
  imports Fk_Prelude
begin

text \<open>
  The wrappers of the C library: memory (\<^verbatim>\<open>fk_mem.c\<close>), whose count of allocated bytes is shown to be exact, and the log
  (\<^verbatim>\<open>fk_log.c\<close>).
\<close>

section \<open>How a function ends\<close>

text \<open>A function returns, or the process ends with a status or by \<^verbatim>\<open>abort\<close>; \<open>Undef\<close> is what C leaves undefined, or a loop that does
  not end.\<close>

datatype 'a outcome = Runs 'a | Exits int | Aborts | Undef

fun andthen :: "'a outcome \<Rightarrow> ('a \<Rightarrow> 'b outcome) \<Rightarrow> 'b outcome" where
  "andthen (Runs x) f = f x"
| "andthen (Exits n) f = Exits n"
| "andthen Aborts f = Aborts"
| "andthen Undef f = Undef"

section \<open>Memory\<close>

text \<open>
  The allocator is that of the C library. \<open>usable\<close> gives the usable size of the blocks that are allocated
  (\<^verbatim>\<open>malloc_usable_size\<close>); its answer to a request is a block or \<open>None\<close>. The count is a \<^verbatim>\<open>size_t\<close>, a null pointer is \<open>None\<close>.
\<close>

record memory =
  usable :: "nat \<Rightarrow> nat option"
  total_alloc :: nat

type_synonym answer = "(nat \<times> nat) option"

definition fk_mem_malloc_size :: "memory \<Rightarrow> nat option \<Rightarrow> nat option" where
  "fk_mem_malloc_size m ptr = (case ptr of None \<Rightarrow> Some 0 | Some a \<Rightarrow> usable m a)"

definition fk_mem_alloc :: "answer \<Rightarrow> memory \<Rightarrow> (nat \<times> memory) outcome" where
  "fk_mem_alloc ans m =
     (case ans of
        None \<Rightarrow> Aborts
      | Some (a, n) \<Rightarrow> Runs (a, m\<lparr>usable := (usable m)(a \<mapsto> n), total_alloc := (total_alloc m + n) mod 2 ^ 64\<rparr>))"

definition fk_mem_calloc :: "answer \<Rightarrow> memory \<Rightarrow> (nat \<times> memory) outcome" where
  "fk_mem_calloc ans m =
     (case ans of
        None \<Rightarrow> Aborts
      | Some (a, n) \<Rightarrow> Runs (a, m\<lparr>usable := (usable m)(a \<mapsto> n), total_alloc := (total_alloc m + n) mod 2 ^ 64\<rparr>))"

definition sub64 :: "nat \<Rightarrow> nat \<Rightarrow> nat" where
  "sub64 a b = nat ((int a - int b) mod 2 ^ 64)"

definition fk_mem_realloc :: "answer \<Rightarrow> nat option \<Rightarrow> memory \<Rightarrow> (nat \<times> memory) outcome" where
  "fk_mem_realloc ans ptr m =
     (case fk_mem_malloc_size m ptr of
        None \<Rightarrow> Undef
      | Some old_size \<Rightarrow>
          (case ans of
             None \<Rightarrow> Aborts
           | Some (a, n) \<Rightarrow>
               let u = (case ptr of None \<Rightarrow> usable m | Some b \<Rightarrow> (usable m)(b := None))
               in Runs (a, m\<lparr>usable := u(a \<mapsto> n), total_alloc := (sub64 (total_alloc m) old_size + n) mod 2 ^ 64\<rparr>)))"

definition fk_mem_free :: "nat option \<Rightarrow> memory \<Rightarrow> memory outcome" where
  "fk_mem_free ptr m =
     (case fk_mem_malloc_size m ptr of
        None \<Rightarrow> Undef
      | Some real_size \<Rightarrow>
          Runs (m\<lparr>usable := (case ptr of None \<Rightarrow> usable m | Some a \<Rightarrow> (usable m)(a := None)), total_alloc := sub64 (total_alloc m) real_size\<rparr>))"

definition fk_mem_get_alloc :: "memory \<Rightarrow> nat" where
  "fk_mem_get_alloc m = total_alloc m"

text \<open>A request is answered with a block that is not allocated; \<^verbatim>\<open>realloc\<close> may also keep the old one.\<close>

inductive mem_call :: "memory \<Rightarrow> memory \<Rightarrow> bool" where
  mem_get: "usable m a = None \<Longrightarrow> fk_mem_alloc (Some (a, n)) m = Runs (a, m') \<Longrightarrow> mem_call m m'"
| mem_zero: "usable m a = None \<Longrightarrow> fk_mem_calloc (Some (a, n)) m = Runs (a, m') \<Longrightarrow> mem_call m m'"
| mem_resize: "usable m a = None \<or> ptr = Some a \<Longrightarrow> fk_mem_realloc (Some (a, n)) ptr m = Runs (a, m') \<Longrightarrow> mem_call m m'"
| mem_put: "fk_mem_free ptr m = Runs m' \<Longrightarrow> mem_call m m'"

definition mem_size :: "(nat \<Rightarrow> nat option) \<Rightarrow> nat" where
  "mem_size u = (\<Sum>a \<in> dom u. the (u a))"

definition mem_inv :: "memory \<Rightarrow> bool" where
  "mem_inv m \<longleftrightarrow> finite (dom (usable m)) \<and> total_alloc m = mem_size (usable m) mod 2 ^ 64"

lemma mem_size_add: "finite (dom u) \<Longrightarrow> u a = None \<Longrightarrow> mem_size (u(a \<mapsto> n)) = mem_size u + n"
  unfolding mem_size_def by (subst sum.cong [where B = "insert a (dom u)" and h = "\<lambda>x. if x = a then n else the (u x)"])
    (auto simp: domIff intro!: sum.cong)

lemma mem_size_del: "finite (dom u) \<Longrightarrow> u a = Some n \<Longrightarrow> mem_size u = mem_size (u(a := None)) + n"
  using mem_size_add [of "u(a := None)" a n] by (simp add: fun_upd_idem)

lemma sub64_mod: "sub64 ((a + b) mod 2 ^ 64) b = a mod 2 ^ 64"
proof -
  have "(int ((a + b) mod 2 ^ 64) - int b) mod 2 ^ 64 = int a mod 2 ^ 64"
    by (simp add: zmod_int mod_diff_left_eq)
  then show ?thesis
    by (simp add: sub64_def nat_mod_distrib)
qed

lemma mem_inv_add:
  assumes "mem_inv m" and "usable m a = None"
  shows "mem_inv (m\<lparr>usable := (usable m)(a \<mapsto> n), total_alloc := (total_alloc m + n) mod 2 ^ 64\<rparr>)"
  using assms by (simp add: mem_inv_def mem_size_add mod_add_left_eq)

lemma mem_inv_del:
  assumes "mem_inv m" and "fk_mem_malloc_size m ptr = Some n"
  shows "mem_inv (m\<lparr>usable := (case ptr of None \<Rightarrow> usable m | Some a \<Rightarrow> (usable m)(a := None)), total_alloc := sub64 (total_alloc m) n\<rparr>)"
proof (cases ptr)
  case None
  then show ?thesis
    using assms sub64_mod [of "mem_size (usable m)" 0] by (simp add: mem_inv_def fk_mem_malloc_size_def)
next
  case (Some a)
  then show ?thesis
    using assms mem_size_del [of "usable m" a n] sub64_mod [of "mem_size ((usable m)(a := None))" n]
    by (simp add: mem_inv_def fk_mem_malloc_size_def)
qed

lemma mem_call_inv: "mem_call m m' \<Longrightarrow> mem_inv m \<Longrightarrow> mem_inv m'"
proof (induction rule: mem_call.induct)
  case (mem_get m a n m')
  then show ?case
    using mem_inv_add [of m a n] by (auto simp: fk_mem_alloc_def)
next
  case (mem_zero m a n m')
  then show ?case
    using mem_inv_add [of m a n] by (auto simp: fk_mem_calloc_def)
next
  case (mem_resize m a ptr n m')
  obtain k where k: "fk_mem_malloc_size m ptr = Some k"
    using mem_resize.hyps(2) by (auto simp: fk_mem_realloc_def split: option.splits)
  from mem_inv_add [OF mem_inv_del [OF mem_resize.prems this], of a n] show ?case
    using mem_resize.hyps k by (cases ptr) (auto simp: fk_mem_realloc_def Let_def)
next
  case (mem_put ptr m m')
  then show ?case
    using mem_inv_del [of m ptr] by (auto simp: fk_mem_free_def split: option.splits)
qed

text \<open>
  The count of allocated memory is exact: after any calls of the four functions, with any answers of the allocator, it is
  the sum of the usable sizes of the blocks that are allocated (modulo the width of \<^verbatim>\<open>size_t\<close>).\<close>

theorem mem_count_exact:
  assumes "mem_call\<^sup>*\<^sup>* \<lparr>usable = Map.empty, total_alloc = 0\<rparr> m"
  shows "finite (dom (usable m)) \<and> fk_mem_get_alloc m = (\<Sum>a \<in> dom (usable m). the (usable m a)) mod 2 ^ 64"
proof -
  have "mem_inv \<lparr>usable = Map.empty, total_alloc = 0\<rparr>"
    by (simp add: mem_inv_def mem_size_def)
  from star_invariant [where P = mem_inv, OF assms this mem_call_inv] have "mem_inv m" .
  then show ?thesis
    by (simp add: mem_inv_def mem_size_def fk_mem_get_alloc_def)
qed

theorem mem_count_exact_witness:
  "\<exists>m1 m2. fk_mem_alloc (Some (8, 24)) \<lparr>usable = Map.empty, total_alloc = 0\<rparr> = Runs (8, m1) \<and> fk_mem_realloc (Some (64, 40)) (Some 8) m1 = Runs (64, m2)
     \<and> fk_mem_get_alloc m2 = (\<Sum>a \<in> dom (usable m2). the (usable m2 a)) mod 2 ^ 64"
proof -
  let ?m0 = "\<lparr>usable = Map.empty, total_alloc = 0\<rparr>"
  obtain m1 m2 where m: "fk_mem_alloc (Some (8, 24)) ?m0 = Runs (8, m1)" "fk_mem_realloc (Some (64, 40)) (Some 8) m1 = Runs (64, m2)" "usable m1 64 = None"
    by (simp add: fk_mem_alloc_def fk_mem_realloc_def fk_mem_malloc_size_def)
  have "mem_call ?m0 m1" "mem_call m1 m2"
    using mem_get [of ?m0 8 24 m1] mem_resize [of m1 64 "Some 8" 40 m2] m by simp_all
  then have "mem_call\<^sup>*\<^sup>* ?m0 m2"
    by (meson converse_rtranclp_into_rtranclp rtranclp.rtrancl_refl)
  from mem_count_exact [OF this] show ?thesis
    using m(1,2) by blast
qed

section \<open>The log\<close>

definition FK_LOG_BUFF_SIZE :: nat where
  "FK_LOG_BUFF_SIZE = 1024"

text \<open>The logger writes to its file, or to the standard output while it has none; both are given by what was written to them.\<close>

record logger =
  lg_level :: int
  lg_file :: "string option"
  stdout_text :: string

definition fk_log_loggable :: "logger \<Rightarrow> int \<Rightarrow> bool" where
  "fk_log_loggable lg level \<longleftrightarrow> \<not> level > lg_level lg"

definition level_text :: "int \<Rightarrow> string option" where
  "level_text level =
     (if level = 0 then Some ''ERROR'' else if level = 1 then Some ''WARN'' else if level = 2 then Some ''INFO''
      else if level = 3 then Some ''DEBUG'' else None)"

text \<open>The format \<^verbatim>\<open>%.2d\<close> of a number that is not negative.\<close>

definition two_digits :: "nat \<Rightarrow> string" where
  "two_digits n = (if n < 10 then CHR ''0'' # print_nat n else print_nat n)"

text \<open>A broken-down time: years since 1900, months from 0, days, hours, minutes, seconds.\<close>

type_synonym tm = "nat \<times> nat \<times> nat \<times> nat \<times> nat \<times> nat"

definition fk_log_output :: "tm option \<Rightarrow> int \<Rightarrow> string \<Rightarrow> logger \<Rightarrow> logger option" where
  "fk_log_output now level text lg =
     (case now of
        None \<Rightarrow> Some lg
      | Some (y, mo, d, h, mi, s) \<Rightarrow>
          do { name \<leftarrow> level_text level;
               let line = ''['' @ print_nat (y + 1900) @ ''-'' @ two_digits (mo + 1) @ ''-'' @ two_digits d @ '' '' @ two_digits h @ '':''
                   @ two_digits mi @ '':'' @ two_digits s @ '']<'' @ name @ ''>'' @ cstr text;
               Some (case lg_file lg of
                       None \<Rightarrow> lg\<lparr>stdout_text := stdout_text lg @ line\<rparr>
                     | Some f \<Rightarrow> lg\<lparr>lg_file := Some (f @ line)\<rparr>) })"

text \<open>\<open>text\<close> is the message as \<^verbatim>\<open>vsnprintf\<close> formats it, before it is cut to the size of the buffer.\<close>

definition fk_log_exec :: "tm option \<Rightarrow> (nat \<Rightarrow> char) \<Rightarrow> int \<Rightarrow> string \<Rightarrow> logger \<Rightarrow> logger option" where
  "fk_log_exec now junk level text lg = fk_log_output now level (snprintf_block junk FK_LOG_BUFF_SIZE text) lg"

definition log_msg :: "tm option \<Rightarrow> (nat \<Rightarrow> char) \<Rightarrow> int \<Rightarrow> string \<Rightarrow> logger \<Rightarrow> logger option" where
  "log_msg now junk level text lg = (if \<not> fk_log_loggable lg level then Some lg else fk_log_exec now junk level text lg)"

definition fk_log_error :: "tm option \<Rightarrow> (nat \<Rightarrow> char) \<Rightarrow> string \<Rightarrow> logger \<Rightarrow> logger option" where
  "fk_log_error now junk = log_msg now junk 0"

definition fk_log_warn :: "tm option \<Rightarrow> (nat \<Rightarrow> char) \<Rightarrow> string \<Rightarrow> logger \<Rightarrow> logger option" where
  "fk_log_warn now junk = log_msg now junk 1"

definition fk_log_info :: "tm option \<Rightarrow> (nat \<Rightarrow> char) \<Rightarrow> string \<Rightarrow> logger \<Rightarrow> logger option" where
  "fk_log_info now junk = log_msg now junk 2"

definition fk_log_debugx :: "tm option \<Rightarrow> (nat \<Rightarrow> char) \<Rightarrow> string \<Rightarrow> logger \<Rightarrow> logger option" where
  "fk_log_debugx now junk = log_msg now junk 3"

text \<open>A message without NUL is written up to the size of the buffer, and never past what was formatted.\<close>

lemma cstr_snprintf: "CHR 0x00 \<notin> set text \<Longrightarrow> cstr (snprintf_block junk (Suc n) text) = take n text"
proof -
  assume "CHR 0x00 \<notin> set text"
  then have "\<forall>c \<in> set (take n text). c \<noteq> CHR 0x00"
    by (auto dest: in_set_takeD)
  then show ?thesis
    by (simp add: snprintf_block_def cstr_def)
qed

lemma log_msg_written:
  assumes "CHR 0x00 \<notin> set text" and "level \<in> {0..3}" and "level \<le> lg_level lg" and "lg_file lg = Some f" and "now \<noteq> None"
  shows "\<exists>pre lg'. log_msg now junk level text lg = Some lg' \<and> lg_file lg' = Some (f @ pre @ take 1023 text) \<and> stdout_text lg' = stdout_text lg"
proof -
  obtain y mo d h mi s where now: "now = Some (y, mo, d, h, mi, s)"
    using assms(5) by (cases now) auto
  have "level = 0 \<or> level = 1 \<or> level = 2 \<or> level = 3"
    using assms(2) by auto
  then obtain name where "level_text level = Some name"
    by (auto simp: level_text_def)
  then show ?thesis
    using assms(3,4) cstr_snprintf [OF assms(1), of junk 1023]
    by (auto simp: log_msg_def fk_log_loggable_def fk_log_exec_def fk_log_output_def now FK_LOG_BUFF_SIZE_def)
qed

end
