(* ===== verification/Fk_Main.thy ===== *)
theory Fk_Main
  imports Fk_Conf Fk_Blog Fk_Mpx Fk_Cache Fk_Item_Ref Fk_Sys
begin

text \<open>
  \<^verbatim>\<open>freekick.c\<close>: the program from its start to its end. The process is a record of what the system keeps of it, the results of
  the system calls are an argument. Shown is what the daemon is detached from, that the limit of open files agrees with the limit of
  connections, that the start composes the components so that their tables fit, and what the end leaves behind.
\<close>

section \<open>The process\<close>

text \<open>\<open>fds\<close> has the name of the open file at the place of each descriptor; behind its end no descriptor is open.
  \<open>groups\<close> are the ids of the existing process groups and sessions.\<close>

record process =
  fds :: "string option list"
  p_pid :: int
  p_pgid :: int
  p_sid :: int
  ctty :: bool
  groups :: "int set"
  file_mask :: nat
  cwd :: string
  euid :: nat
  rlim_cur :: nat
  rlim_max :: nat
  handlers :: "int set"
  pdisk :: fk_disk

datatype fork_res = Fork_failed | Fork_parent | Fork_child int

record sys_env =
  fork1 :: fork_res
  fork2 :: fork_res
  null_ok :: bool
  dup_ok :: "nat \<Rightarrow> bool"
  close_ok :: bool
  chdir_ok :: bool
  getrlimit_ok :: bool
  setrlimit_ok :: bool
  log_ok :: bool
  pidfile_ok :: bool
  sigaction_ok :: "int \<Rightarrow> bool"
  epoll_ok :: bool
  socket_ok :: bool
  nonblock_ok :: bool
  reuse_ok :: bool
  bind_ok :: bool
  listen_ok :: bool

subsection \<open>Descriptors\<close>

definition fd_get :: "string option list \<Rightarrow> nat \<Rightarrow> string option" where
  "fd_get t i = (if i < length t then t ! i else None)"

definition fd_set :: "string option list \<Rightarrow> nat \<Rightarrow> string option \<Rightarrow> string option list" where
  "fd_set t i v = (t @ replicate (Suc i - length t) None)[i := v]"

text \<open>The system gives the lowest descriptor that is not open.\<close>

definition lowest :: "string option list \<Rightarrow> nat" where
  "lowest t = length (takeWhile (\<lambda>x. x \<noteq> None) t)"

definition open_fd :: "string \<Rightarrow> process \<Rightarrow> nat \<times> process" where
  "open_fd f p = (lowest (fds p), p\<lparr>fds := fd_set (fds p) (lowest (fds p)) (Some f)\<rparr>)"

definition dup2 :: "nat \<Rightarrow> nat \<Rightarrow> process \<Rightarrow> process" where
  "dup2 d n p = p\<lparr>fds := fd_set (fds p) n (fd_get (fds p) d)\<rparr>"

section \<open>The functions of the main program\<close>

subsection \<open>The daemon\<close>

definition fork_on :: "fork_res \<Rightarrow> process \<Rightarrow> process outcome" where
  "fork_on r p = (case r of Fork_failed \<Rightarrow> Exits 1 | Fork_parent \<Rightarrow> Exits 0 | Fork_child n \<Rightarrow> Runs (p\<lparr>p_pid := n\<rparr>))"

text \<open>\<^verbatim>\<open>setsid\<close> fails when a process group has the id of the process.\<close>

definition setsid :: "process \<Rightarrow> process option" where
  "setsid p =
     (if p_pid p \<in> groups p then None
      else Some (p\<lparr>p_sid := p_pid p, p_pgid := p_pid p, groups := insert (p_pid p) (groups p), ctty := False\<rparr>))"

definition dup_std :: "sys_env \<Rightarrow> nat \<Rightarrow> nat \<Rightarrow> process \<Rightarrow> process outcome" where
  "dup_std env d n p = (if dup_ok env n then Runs (dup2 d n p) else Exits 1)"

definition fk_daemonize :: "sys_env \<Rightarrow> fk_setting \<Rightarrow> process \<Rightarrow> process outcome" where
  "fk_daemonize env st p =
     (if daemon st = 0 then Runs p
      else
        andthen (fork_on (fork1 env) p) (\<lambda>p1.
        case setsid p1 of
          None \<Rightarrow> Exits 1
        | Some p2 \<Rightarrow>
            andthen (fork_on (fork2 env) p2) (\<lambda>p3.
            if \<not> null_ok env then Exits 1
            else
              let (d, p4) = open_fd ''/dev/null'' (p3\<lparr>file_mask := 0\<rparr>)
              in andthen (dup_std env d 0 p4) (\<lambda>p5.
                 andthen (dup_std env d 1 p5) (\<lambda>p6.
                 andthen (dup_std env d 2 p6) (\<lambda>p7.
                 if d > 2 then if close_ok env then Runs (p7\<lparr>fds := fd_set (fds p7) d None\<rparr>) else Exits 1
                 else Runs p7))))))"

subsection \<open>Files, limits and signals\<close>

text \<open>The result of \<^verbatim>\<open>fopen\<close> is not tested before it is written to.\<close>

definition fk_create_pidfile :: "sys_env \<Rightarrow> fk_setting \<Rightarrow> process \<Rightarrow> process outcome" where
  "fk_create_pidfile env st p =
     (if daemon st = 0 then Runs p
      else if \<not> pidfile_ok env then Undef
      else
        Runs (p\<lparr>pdisk := pdisk p\<lparr>files := (files (pdisk p))(pid_path st \<mapsto> take (room (pdisk p)) (print_int (p_pid p) @ [CHR 0x0A]))\<rparr>\<rparr>))"

definition fk_remove_pidfile :: "fk_setting \<Rightarrow> fk_disk \<Rightarrow> fk_disk" where
  "fk_remove_pidfile st d = (if daemon st = 0 then d else d\<lparr>files := (files d)(pid_path st := None)\<rparr>)"

text \<open>\<^verbatim>\<open>rlim_t\<close> is unsigned with 64 bits; the number of files is computed in \<^verbatim>\<open>int\<close>.\<close>

definition fk_util_conns_to_files :: "int \<Rightarrow> int outcome" where
  "fk_util_conns_to_files n = (if n + 1 + 16 > 2147483647 then Undef else Runs (n + 1 + 16))"

definition fk_util_files_to_conns :: "nat \<Rightarrow> nat" where
  "fk_util_files_to_conns n = (n + 2 ^ 64 - 1 - 16) mod 2 ^ 64"

definition fk_setrlimit :: "sys_env \<Rightarrow> fk_setting \<Rightarrow> process \<Rightarrow> (fk_setting \<times> process) outcome" where
  "fk_setrlimit env st p =
     andthen (fk_util_conns_to_files (max_conns st)) (\<lambda>n.
     let max_files = size_of_int n
     in if \<not> getrlimit_ok env then Exits 1
        else if max_files > rlim_max p then
          if euid p = 0 then
            if setrlimit_ok env then Runs (st, p\<lparr>rlim_max := max_files, rlim_cur := max_files\<rparr>) else Exits 1
          else if setrlimit_ok env then
            Runs (st\<lparr>max_conns := s32 (int (fk_util_files_to_conns (rlim_max p)))\<rparr>, p\<lparr>rlim_cur := rlim_max p\<rparr>)
          else Exits 1
        else Runs (st, p))"

definition fk_set_pwd :: "sys_env \<Rightarrow> fk_setting \<Rightarrow> process \<Rightarrow> process outcome" where
  "fk_set_pwd env st p = (if chdir_ok env then Runs (p\<lparr>cwd := dir st\<rparr>) else Exits 1)"

definition fk_log_init :: "sys_env \<Rightarrow> fk_setting \<Rightarrow> process \<Rightarrow> process outcome" where
  "fk_log_init env st p = (if log_ok env then Runs (snd (open_fd (log_path st) p)) else Exits 1)"

definition SIGINT :: int where
  "SIGINT = 2"

definition SIGTERM :: int where
  "SIGTERM = 15"

definition fk_signal_register :: "sys_env \<Rightarrow> process \<Rightarrow> process outcome" where
  "fk_signal_register env p =
     (if \<not> sigaction_ok env SIGINT then Exits 1
      else if \<not> sigaction_ok env SIGTERM then Exits 1
      else Runs (p\<lparr>handlers := insert SIGTERM (insert SIGINT (handlers p))\<rparr>))"

subsection \<open>The signal handler\<close>

record sig_flags =
  sigint_flag :: int
  sigterm_flag :: int

definition fk_svr_signal_exit_handler :: "int \<Rightarrow> sig_flags \<Rightarrow> sig_flags" where
  "fk_svr_signal_exit_handler sig f =
     (if sig = SIGINT then f\<lparr>sigint_flag := 1\<rparr> else if sig = SIGTERM then f\<lparr>sigterm_flag := 1\<rparr> else f)"

definition fk_signal_exit_handler :: "int \<Rightarrow> sig_flags \<Rightarrow> sig_flags" where
  "fk_signal_exit_handler sig f = fk_svr_signal_exit_handler sig f"

subsection \<open>Start and end\<close>

text \<open>\<^verbatim>\<open>fk_sock.c\<close>; a socket that cannot be set up stays open.\<close>

definition fk_sock_set_nonblocking :: "sys_env \<Rightarrow> bool" where
  "fk_sock_set_nonblocking env = nonblock_ok env"

definition fk_sock_set_reuseaddr :: "sys_env \<Rightarrow> bool" where
  "fk_sock_set_reuseaddr env = reuse_ok env"

definition fk_sock_create_tcp_listen :: "sys_env \<Rightarrow> process \<Rightarrow> nat option \<times> process" where
  "fk_sock_create_tcp_listen env p =
     (if \<not> socket_ok env then (None, p)
      else
        let (d, p1) = open_fd ''socket'' p
        in if \<not> fk_sock_set_nonblocking env then (None, p1)
           else if \<not> fk_sock_set_reuseaddr env then (None, p1)
           else if \<not> bind_ok env then (None, p1)
           else if \<not> listen_ok env then (None, p1)
           else (Some d, p1))"

text \<open>
  The part of \<^verbatim>\<open>fk_svr_init\<close> that listens and starts the timer: \<open>io\<close> and \<open>tm\<close> are the addresses of the two event objects. The
  results of the registration are not tested.
\<close>

definition svr_events :: "sys_env \<Rightarrow> nat \<Rightarrow> nat \<Rightarrow> timeval \<Rightarrow> process \<Rightarrow> fk_epoll evmgr \<Rightarrow> (nat \<times> process \<times> fk_epoll evmgr) outcome" where
  "svr_events env io tm now p m =
     (case fk_sock_create_tcp_listen env p of
        (None, _) \<Rightarrow> Exits 1
      | (Some listen_fd, p1) \<Rightarrow>
          (case do { (_, m1) \<leftarrow> fk_ev_add_ioev fk_epoll_add io (fk_ioev_create io (int listen_fd) FK_IOEV_READ m);
                     (_, m2) \<leftarrow> fk_ev_add_tmev tm (fk_tmev_create tm now 3000 FK_TMEV_CYCLE m1);
                     Some m2 } of
             None \<Rightarrow> Undef
           | Some m2 \<Rightarrow> Runs (listen_fd, p1, m2)))"

text \<open>What the program consists of when it runs.\<close>

record prog =
  pset :: fk_setting
  proc :: process
  free_nodes :: "nat rawlist"
  pitems :: item_pool
  pev :: "fk_epoll evmgr"
  listen_fd :: nat
  psvr :: fk_svr

text \<open>
  The inputs of the start besides the results of system calls: whether lines of the file can be read, the clock, the addresses of the
  two events, the contents of the log file, what the table of commands and the Lua state are, and the zeroed server of static memory.
\<close>

record boot =
  read_ok :: "nat \<Rightarrow> bool"
  start_tv :: timeval
  start_time :: int
  io_obj :: nat
  tm_obj :: nat
  blog_text :: string
  commands :: pmap
  lua0 :: lua_state
  junk :: "nat \<Rightarrow> char"
  svr0 :: fk_svr

definition conf_outcome :: "(conf_err + fk_setting) option \<Rightarrow> fk_setting outcome" where
  "conf_outcome r = (case r of None \<Rightarrow> Undef | Some (Inl e) \<Rightarrow> Exits 1 | Some (Inr st) \<Rightarrow> Runs st)"

definition ev_start :: "sys_env \<Rightarrow> fk_setting \<Rightarrow> process \<Rightarrow> (process \<times> fk_epoll evmgr) outcome" where
  "ev_start env st p =
     andthen (fk_util_conns_to_files (max_conns st)) (\<lambda>n.
     if epoll_ok env then Runs (snd (open_fd ''epoll'' p), fk_ev_init (nat n) (fk_epoll_create (nat n))) else Exits 1)"

definition svr_start :: "boot \<Rightarrow> fk_setting \<Rightarrow> process \<Rightarrow> fk_svr outcome" where
  "svr_start b st p =
     (case fk_svr_init (commands b) (lua0 b) (junk b) (start_time b) (blog_text b) (fk_conf.truncate st) (nat (conf_dbcnt st)) ((svr0 b)\<lparr>disk := pdisk p\<rparr>) of
        KOk s \<Rightarrow> Runs s | KErr \<Rightarrow> Exits 1 | KUb \<Rightarrow> Undef)"

definition fk_main_init :: "sys_env \<Rightarrow> boot \<Rightarrow> string option option \<Rightarrow> process \<Rightarrow> prog outcome" where
  "fk_main_init env b conf_path p0 =
     andthen (conf_outcome (fk_conf_init (read_ok b) conf_path)) (\<lambda>st0.
     andthen (fk_daemonize env st0 p0) (\<lambda>p1.
     andthen (fk_set_pwd env st0 p1) (\<lambda>p2.
     andthen (fk_setrlimit env st0 p2) (\<lambda>(st, p3).
     andthen (fk_log_init env st p3) (\<lambda>p4.
     andthen (fk_create_pidfile env st p4) (\<lambda>p5.
     andthen (fk_signal_register env p5) (\<lambda>p6.
     andthen (ev_start env st p6) (\<lambda>(p7, m).
     andthen (svr_events env (io_obj b) (tm_obj b) (start_tv b) p7 m) (\<lambda>(lfd, p8, m').
     andthen (svr_start b st p8) (\<lambda>s.
     Runs \<lparr>pset = st, proc = p8, free_nodes = fk_cache_init, pitems = fk_item_init, pev = m', listen_fd = lfd, psvr = s\<rparr>))))))))))"

definition fk_main_exit :: "fk_setting \<Rightarrow> fk_svr \<Rightarrow> fk_svr outcome" where
  "fk_main_exit st s =
     (case fk_svr_exit s of
        None \<Rightarrow> Undef
      | Some (Some n, _) \<Rightarrow> Exits n
      | Some (None, s') \<Rightarrow> Runs (s'\<lparr>disk := fk_remove_pidfile st (disk s')\<rparr>))"

definition fk_main_cycle ::
    "(nat \<Rightarrow> fk_epoll round) \<Rightarrow> (nat \<Rightarrow> fk_epoll evmgr \<times> fk_svr \<Rightarrow> (fk_epoll evmgr \<times> fk_svr) option)
      \<Rightarrow> (nat \<Rightarrow> fk_epoll evmgr \<times> fk_svr \<Rightarrow> (int \<times> fk_epoll evmgr \<times> fk_svr) option) \<Rightarrow> prog \<Rightarrow> prog outcome" where
  "fk_main_cycle rs iocb tmcb q =
     (case fk_ev_cycle rs iocb tmcb 0 (pev q, psvr q) of None \<Rightarrow> Undef | Some (m, s) \<Rightarrow> Runs (q\<lparr>pev := m, psvr := s\<rparr>))"

text \<open>\<open>file_text\<close> gives the contents of the configuration file, if it can be opened. The result is the status and the files.\<close>

definition main ::
    "string list \<Rightarrow> (string \<Rightarrow> string option) \<Rightarrow> sys_env \<Rightarrow> boot \<Rightarrow> (nat \<Rightarrow> fk_epoll round)
      \<Rightarrow> (nat \<Rightarrow> fk_epoll evmgr \<times> fk_svr \<Rightarrow> (fk_epoll evmgr \<times> fk_svr) option)
      \<Rightarrow> (nat \<Rightarrow> fk_epoll evmgr \<times> fk_svr \<Rightarrow> (int \<times> fk_epoll evmgr \<times> fk_svr) option) \<Rightarrow> process \<Rightarrow> (int \<times> fk_disk) outcome" where
  "main argv file_text env b rs iocb tmcb p =
     (if length argv > 2 then Exits 1
      else
        andthen (fk_main_init env b (if length argv = 2 then Some (file_text (argv ! 1)) else None) p) (\<lambda>q.
        andthen (fk_main_cycle rs iocb tmcb q) (\<lambda>q'.
        andthen (fk_main_exit (pset q') (psvr q')) (\<lambda>s.
        Runs (0, disk s)))))"

section \<open>Descriptors of the process\<close>

lemma fd_get_set [simp]: "fd_get (fd_set t i v) j = (if j = i then v else fd_get t j)"
  by (auto simp: fd_get_def fd_set_def nth_append nth_list_update)

lemma length_fd_set [simp]: "length (fd_set t i v) = max (length t) (Suc i)"
  by (simp add: fd_set_def)

lemma lowest_le: "lowest t \<le> length t"
  by (simp add: lowest_def length_takeWhile_le)

lemma lowest_free: "fd_get t (lowest t) = None"
  unfolding fd_get_def lowest_def using nth_length_takeWhile [of "\<lambda>x. x \<noteq> None" t] by auto

lemma open_fd_length: "length (fds (snd (open_fd f p))) \<le> Suc (length (fds p))"
  using lowest_le [of "fds p"] by (simp add: open_fd_def)

section \<open>The daemon\<close>

text \<open>The kernel gives a child an id that no process group has.\<close>

definition forks_ok :: "sys_env \<Rightarrow> process \<Rightarrow> bool" where
  "forks_ok env p \<longleftrightarrow> (\<exists>n1 n2. fork1 env = Fork_child n1 \<and> fork2 env = Fork_child n2 \<and> n1 \<notin> groups p \<and> n2 \<notin> insert n1 (groups p))"

definition detached :: "process \<Rightarrow> process \<Rightarrow> bool" where
  "detached p p' \<longleftrightarrow> p_sid p' \<noteq> p_pid p' \<and> p_sid p' \<notin> groups p \<and> \<not> ctty p' \<and> file_mask p' = 0
     \<and> (\<forall>i. fd_get (fds p') i = (if i < 3 then Some ''/dev/null'' else fd_get (fds p) i))"

lemma daemonize_runs:
  assumes "daemon st \<noteq> 0" and "forks_ok env p" and "null_ok env" and "dup_ok env 0" "dup_ok env 1" "dup_ok env 2" and "close_ok env"
  obtains p' where "fk_daemonize env st p = Runs p'" "detached p p'" "length (fds p') \<le> max 3 (Suc (length (fds p)))"
    "p' = p\<lparr>p_pid := p_pid p', p_pgid := p_pgid p', p_sid := p_sid p', ctty := ctty p', groups := groups p', file_mask := 0, fds := fds p'\<rparr>"
proof -
  obtain n1 n2 where n: "fork1 env = Fork_child n1" "fork2 env = Fork_child n2" "n1 \<notin> groups p" "n2 \<notin> insert n1 (groups p)"
    using assms(2) by (auto simp: forks_ok_def)
  define d where "d = lowest (fds p)"
  define t where "t = fd_set (fd_set (fd_set (fd_set (fds p) d (Some ''/dev/null'')) 0 (Some ''/dev/null'')) 1 (Some ''/dev/null'')) 2 (Some ''/dev/null'')"
  define p' where "p' = p\<lparr>p_pid := n2, p_pgid := n1, p_sid := n1, ctty := False, groups := insert n1 (groups p), file_mask := 0,
      fds := (if d > 2 then fd_set t d None else t)\<rparr>"
  have "fk_daemonize env st p = Runs p'"
    using assms(1,3-7) n unfolding p'_def t_def d_def
    by (simp add: fk_daemonize_def fork_on_def setsid_def open_fd_def dup_std_def dup2_def)
  moreover have "fd_get (fds p') i = (if i < 3 then Some ''/dev/null'' else fd_get (fds p) i)" for i
    using lowest_free [of "fds p"] by (auto simp: p'_def t_def d_def)
  then have "detached p p'"
    using n by (auto simp: detached_def p'_def)
  moreover have "length (fds p') \<le> max 3 (Suc (length (fds p)))"
    using lowest_le [of "fds p"] by (auto simp: p'_def t_def d_def max_def)
  moreover have "p' = p\<lparr>p_pid := p_pid p', p_pgid := p_pgid p', p_sid := p_sid p', ctty := ctty p', groups := groups p', file_mask := 0, fds := fds p'\<rparr>"
    by (simp add: p'_def)
  ultimately show thesis
    by (rule that)
qed

text \<open>
  C35. The daemon: where no system call fails, the second child goes on, detached from where it was started. It is in a new session that it
  does not lead, so it has no controlling terminal and cannot get one; its standard descriptors are the null device, and all
  others are as before, also when some of the standard ones were closed.\<close>

theorem daemonize_detached:
  assumes "daemon st \<noteq> 0" and "forks_ok env p" and "null_ok env" and "dup_ok env 0 \<and> dup_ok env 1 \<and> dup_ok env 2" and "close_ok env"
  shows "\<exists>p'. fk_daemonize env st p = Runs p' \<and> p_sid p' \<noteq> p_pid p' \<and> p_sid p' \<notin> groups p \<and> \<not> ctty p'
    \<and> (\<forall>i. fd_get (fds p') i = (if i < 3 then Some ''/dev/null'' else fd_get (fds p) i))"
  using daemonize_runs [OF assms(1-3) _ _ _ assms(5)] assms(4) unfolding detached_def by metis

definition env_ok :: sys_env where
  "env_ok = \<lparr>fork1 = Fork_child 101, fork2 = Fork_child 102, null_ok = True, dup_ok = (\<lambda>_. True), close_ok = True, chdir_ok = True,
     getrlimit_ok = True, setrlimit_ok = True, log_ok = True, pidfile_ok = True, sigaction_ok = (\<lambda>_. True), epoll_ok = True, socket_ok = True, nonblock_ok = True,
     reuse_ok = True, bind_ok = True, listen_ok = True\<rparr>"

definition shell :: process where
  "shell = \<lparr>fds = [None, Some ''tty'', Some ''tty'', Some ''pipe''], p_pid = 100, p_pgid = 100, p_sid = 50, ctty = True, groups = {50, 100},
     file_mask = 18, cwd = ''/'', euid = 1000, rlim_cur = 1024, rlim_max = 4096, handlers = {},
     pdisk = \<lparr>files = Map.empty, fopen_ok = True, room = 1000, rename_ok = True\<rparr>\<rparr>"

text \<open>The settings of the example: a daemon for 10000 connections.\<close>

definition example_setting :: fk_setting where
  "example_setting = \<lparr>max_conns = 10000, timeout = 300, dump = 0, db_file = ''db'', max_wbuf = 4096, blog_on = 0, port = 6379, addr = ''0.0.0.0'',
     daemon = 1, log_level = 3, log_path = ''log'', pid_path = ''pid'', dir = ''/tmp'', conf_dbcnt = 1, blog_file = ''blog''\<rparr>"

theorem daemonize_detached_witness:
  "\<exists>p'. fk_daemonize env_ok example_setting shell = Runs p' \<and> fd_get (fds p') 0 = Some ''/dev/null'' \<and> fd_get (fds p') 3 = Some ''pipe'' \<and> \<not> ctty p'"
proof -
  have "forks_ok env_ok shell"
    by (simp add: forks_ok_def env_ok_def shell_def)
  then obtain p' where "fk_daemonize env_ok example_setting shell = Runs p'" "\<not> ctty p'"
    "\<forall>i. fd_get (fds p') i = (if i < 3 then Some ''/dev/null'' else fd_get (fds shell) i)"
    using daemonize_detached [of example_setting env_ok shell] by (auto simp: env_ok_def example_setting_def)
  moreover have "fd_get (fds shell) 3 = Some ''pipe''"
    by (simp add: shell_def fd_get_def)
  ultimately show ?thesis
    by auto
qed

section \<open>The limit of open files\<close>

lemma conns_to_files_runs:
  assumes "n + 17 < 2 ^ 31"
  shows "fk_util_conns_to_files n = Runs (n + 17)"
proof -
  have "n + 1 + 16 = n + 17"
    by simp
  then show ?thesis
    unfolding fk_util_conns_to_files_def using assms by simp
qed

lemma setrlimit_runs:
  assumes mc: "0 < max_conns st" "max_conns st + 17 < 2 ^ 31" and lim: "18 \<le> rlim_max p"
    and ok: "getrlimit_ok env" "setrlimit_ok env"
  shows "fk_setrlimit env st p =
    (if max_conns st + 17 \<le> int (rlim_max p) then Runs (st, p)
     else if euid p = 0 then Runs (st, p\<lparr>rlim_max := nat (max_conns st + 17), rlim_cur := nat (max_conns st + 17)\<rparr>)
     else Runs (st\<lparr>max_conns := int (rlim_max p) - 17\<rparr>, p\<lparr>rlim_cur := rlim_max p\<rparr>))"
proof -
  have n: "size_of_int (max_conns st + 17) = nat (max_conns st + 17)"
    using mc by (simp add: size_of_int_def)
  have "fk_util_files_to_conns (rlim_max p) = rlim_max p - 17" if "rlim_max p < nat (max_conns st + 17)"
  proof -
    have "rlim_max p + 2 ^ 64 - 1 - 16 = rlim_max p - 17 + 2 ^ 64" "rlim_max p - 17 < 2 ^ 64"
      using lim that mc(2) by simp_all
    then show ?thesis
      unfolding fk_util_files_to_conns_def by (simp only: mod_add_self2 mod_less)
  qed
  moreover have "s32 (int (rlim_max p - 17)) = int (rlim_max p) - 17" if "rlim_max p < nat (max_conns st + 17)"
    using lim that mc(2) by (simp add: s32_def)
  moreover have "rlim_max p < nat (max_conns st + 17) \<longleftrightarrow> \<not> max_conns st + 17 \<le> int (rlim_max p)"
    using mc(1) by linarith
  ultimately show ?thesis
    unfolding fk_setrlimit_def conns_to_files_runs [OF mc(2)] using ok n by (simp add: Let_def)
qed



text \<open>With a hard limit of 16 files the number of connections becomes negative.\<close>

lemma setrlimit_underflow:
  assumes "0 < max_conns st" and "max_conns st + 17 < 2 ^ 31" and "rlim_max p = 16" and "euid p \<noteq> 0" and "getrlimit_ok env" and "setrlimit_ok env"
  shows "fk_setrlimit env st p = Runs (st\<lparr>max_conns := -1\<rparr>, p\<lparr>rlim_cur := 16\<rparr>)"
  using assms by (simp add: fk_setrlimit_def fk_util_conns_to_files_def size_of_int_def fk_util_files_to_conns_def s32_def Let_def)

section \<open>The start\<close>

definition sock_ok :: "sys_env \<Rightarrow> bool" where
  "sock_ok env \<longleftrightarrow> socket_ok env \<and> nonblock_ok env \<and> reuse_ok env \<and> bind_ok env \<and> listen_ok env"

text \<open>The process after the files are opened and the signals are caught.\<close>

definition after_files :: "fk_setting \<Rightarrow> process \<Rightarrow> process" where
  "after_files st p =
     (let p4 = snd (open_fd (log_path st) p)
      in p4\<lparr>pdisk := (if daemon st = 0 then pdisk p else pdisk p\<lparr>files := (files (pdisk p))(pid_path st \<mapsto> take (room (pdisk p)) (print_int (p_pid p) @ [CHR 0x0A]))\<rparr>),
            handlers := insert SIGTERM (insert SIGINT (handlers p))\<rparr>)"

lemma files_runs:
  assumes "log_ok env" and "pidfile_ok env" and "sigaction_ok env SIGINT" and "sigaction_ok env SIGTERM"
  shows "\<exists>p4 p5. fk_log_init env st p = Runs p4 \<and> fk_create_pidfile env st p4 = Runs p5 \<and> fk_signal_register env p5 = Runs (after_files st p)"
  using assms by (simp add: fk_log_init_def fk_create_pidfile_def fk_signal_register_def after_files_def Let_def open_fd_def)

text \<open>The server listens and has its timer: on a manager without events, with a free entry for the descriptor.\<close>

lemma svr_events_runs:
  assumes inv: "ev_inv epoll_inv epoll_watched m" and none: "ioevs m io = None" "tmevs m tm = None" and ectl: "ectl_ok (iompx m)"
    and idle: "epoll_watched (iompx m) = {}" and room: "length (fds p) < max_files m" and ok: "sock_ok env"
  obtains m' where "svr_events env io tm now p m = Runs (lowest (fds p), snd (open_fd ''socket'' p), m')"
    "ev_inv epoll_inv epoll_watched m'" "max_files m' = max_files m" "(int (lowest (fds p)), FK_IOEV_READ) \<in> epoll_watched (iompx m')"
    "tstat m' tm = Some TMEV_PENDING" "istat m' io = Some IOEV_PENDING"
proof -
  let ?fd = "int (lowest (fds p))"
  let ?m = "fk_ioev_create io ?fd FK_IOEV_READ m" and ?e = "\<lparr>io_fd = ?fd, io_type = FK_IOEV_READ, io_stat = IOEV_INIT\<rparr>"
  have inv1: "ev_inv epoll_inv epoll_watched ?m"
    by (rule ev_inv_create [OF inv none(1)])
  then have io1: "io_inv epoll_inv epoll_watched ?m"
    by (simp add: ev_inv_def)
  have fd: "?fd < int (max_files ?m)" "ioevs ?m io = Some ?e"
    using room lowest_le [of "fds p"] by (simp_all add: fk_ioev_create_def)
  have "epoll_inv (max_files m) (iompx m)" "length (read_ev m) = max_files m"
    using inv by (simp_all add: ev_inv_def io_inv_def)
  moreover from this have n: "nat ?fd < 8 * max_files m" "nat ?fd < length (emask (iompx m))"
    using fd(1) by (simp_all add: epoll_inv_def fk_ioev_create_def)
  moreover have "(?fd, FK_IOEV_READ) \<notin> epoll_watched (iompx m)"
    using idle by simp
  then have "emask (iompx m) ! nat ?fd AND FK_IOEV_READ = 0"
    using n(2) unfolding epoll_watched_def by (simp add: single_def)
  ultimately obtain x where x: "fk_epoll_add (iompx m) ?fd FK_IOEV_READ = Some (EV_OK, x)" "epoll_watched x = {(?fd, FK_IOEV_READ)}"
    and tab: "tab_set (read_ev m) ?fd v = Some ((read_ev m)[lowest (fds p) := v])" for v
    using epoll_add_ok [of "max_files m" "iompx m" ?fd FK_IOEV_READ] ectl idle fd(1) by (auto simp: single_def tab_set_def fk_ioev_create_def)
  define m1 where "m1 = ?m\<lparr>iompx := x, read_ev := (read_ev m)[lowest (fds p) := Some (Some io)],
      ioevs := (ioevs ?m)(io \<mapsto> ?e\<lparr>io_stat := IOEV_PENDING\<rparr>), ioev_cnt := ioev_cnt m + 1\<rparr>"
  have add: "fk_ev_add_ioev fk_epoll_add io ?m = Some (EV_OK, m1)"
    using x tab by (simp add: fk_ev_add_ioev_def fk_ioev_create_def upd_ioev_def m1_def Let_def ev_consts)
  have "io_inv epoll_inv epoll_watched m1 \<and> tm_part m1 = tm_part ?m"
    using epoll.add_ioev_new [OF io1 fd(2)] fd(1) add idle by (simp add: single_def fk_ioev_create_def)
  then have inv2: "ev_inv epoll_inv epoll_watched m1"
    using ev_inv_parts(1) [OF inv1] by blast
  let ?m2 = "fk_tmev_create tm now 3000 FK_TMEV_CYCLE m1"
  have "tm_inv m1" "tmevs m1 tm = None"
    using inv2 none(2) by (simp_all add: ev_inv_def m1_def fk_ioev_create_def)
  note c = create_tmev_spec [OF this, of now 3000 FK_TMEV_CYCLE]
  obtain e2 where e2: "tmevs ?m2 tm = Some e2" "tm_stat e2 = TMEV_INIT"
    by (simp add: fk_tmev_create_def)
  obtain m' where m': "fk_ev_add_tmev tm ?m2 = Some (EV_OK, m')" "tm_inv m'" "io_part m' = io_part ?m2" "tstat m' tm = Some TMEV_PENDING"
    using add_tmev_spec [OF c(1) e2(1)] e2(2) by auto
  have "io_part m' = io_part m1"
    using m'(3) c(3) by simp
  then have "ev_inv epoll_inv epoll_watched m'" "max_files m' = max_files m" "iompx m' = x" "ioevs m' = ioevs m1"
    using ev_inv_parts(2) [OF inv2 m'(2)] by (simp_all add: io_part_def m1_def fk_ioev_create_def)
  then show thesis
    using m'(1,4) add x(2) ok by (intro that [of m']) (simp_all add: svr_events_def fk_sock_create_tcp_listen_def fk_sock_set_nonblocking_def fk_sock_set_reuseaddr_def sock_ok_def open_fd_def istat_def m1_def)
qed

definition calls_ok :: "sys_env \<Rightarrow> bool" where
  "calls_ok env \<longleftrightarrow> null_ok env \<and> dup_ok env 0 \<and> dup_ok env 1 \<and> dup_ok env 2 \<and> close_ok env \<and> chdir_ok env \<and> getrlimit_ok env
     \<and> setrlimit_ok env \<and> log_ok env \<and> pidfile_ok env \<and> sigaction_ok env SIGINT \<and> sigaction_ok env SIGTERM \<and> epoll_ok env \<and> sock_ok env"

lemma daemonize_start:
  assumes ok: "calls_ok env" and forks: "daemon st \<noteq> 0 \<longrightarrow> forks_ok env p" and few: "length (fds p) \<le> 14"
  obtains p' where "fk_daemonize env st p = Runs p'" "length (fds p') \<le> 15" "rlim_max p' = rlim_max p" "pdisk p' = pdisk p"
proof (cases "daemon st = 0")
  case True
  then show thesis
    using few by (intro that [of p]) (simp_all add: fk_daemonize_def)
next
  case False
  have "forks_ok env p" "null_ok env" "dup_ok env 0" "dup_ok env 1" "dup_ok env 2" "close_ok env"
    using forks False ok by (simp_all add: calls_ok_def)
  from daemonize_runs [OF False this]
  obtain p' where p': "fk_daemonize env st p = Runs p'" "length (fds p') \<le> max 3 (Suc (length (fds p)))"
    "p' = p\<lparr>p_pid := p_pid p', p_pgid := p_pgid p', p_sid := p_sid p', ctty := ctty p', groups := groups p', file_mask := 0, fds := fds p'\<rparr>"
    by metis
  moreover have "rlim_max p' = rlim_max p" "pdisk p' = pdisk p"
    by (subst p'(3), simp)+
  ultimately show thesis
    using few by (intro that [of p']) simp_all
qed


text \<open>The example without a configuration file: the defaults are no daemon and nothing to restore.\<close>

definition example_boot :: boot where
  "example_boot = \<lparr>read_ok = (\<lambda>_. True), start_tv = clock_at 100, start_time = 100, io_obj = 1, tm_obj = 2, blog_text = [], commands = fk_dict_create,
     lua0 = gL (svr_fresh 1 0), junk = (\<lambda>_. CHR 0x00), svr0 = svr_fresh 1 0\<rparr>"

lemma svr_start_plain:
  assumes "dump st = 0" and "blog_on st = 0" and "max_wbuf st = 4096"
  obtains s where "svr_start b st p = Runs s" "length (conns_tab s) = nat (max_conns st + 17)"
  using assms
  by (auto simp: svr_start_def fk_svr_init_def fk_lua_init_def fk_conn_create_def fk_buf_create_def fk_conf.defs fk_consts Let_def split: option.splits)


section \<open>The end\<close>

lemma kdb_save_rc: "fk_kdb_save s = Some (rc, s') \<Longrightarrow> rc = SVR_OK \<or> rc = SVR_ERR"
  by (auto simp: fk_kdb_save_def split: bind_splits if_splits)



section \<open>From the start to the end\<close>

text \<open>After one of the two signals the next call of the timer of the server stops the loop, unless waiting for a child fails.\<close>

lemma after_wait_cases: "after_wait r a b = None \<or> after_wait r a b = Some a \<or> after_wait r a b = Some b"
  by (auto simp: after_wait_def split: Fk_Timer.wait_res.splits bool.splits)

definition same_dbs :: "fk_svr \<Rightarrow> fk_svr option \<Rightarrow> bool" where
  "same_dbs s r = (case r of None \<Rightarrow> True | Some s' \<Rightarrow> db s' = db s \<and> expdb s' = expdb s)"

lemma two_waits:
  assumes "same_dbs s A" and "\<And>s1. same_dbs s1 (B s1)"
    and "r = (case A of None \<Rightarrow> Some Timer_exit | Some s1 \<Rightarrow> (case B s1 of None \<Rightarrow> Some Timer_exit | Some s2 \<Rightarrow> Some (Timer_stop s2)))"
  shows "\<exists>s'. r = Some (Timer_stop s') \<and> db s' = db s \<and> expdb s' = expdb s \<or> r = Some Timer_exit"
proof (cases A)
  case (Some s1)
  then show ?thesis
    using assms(1,3) assms(2) [of s1] by (cases "B s1") (simp_all add: same_dbs_def)
qed (use assms(3) in simp)

lemma signal_stops:
  assumes "sig \<in> {SIGINT, SIGTERM}" and "f' = fk_signal_exit_handler sig f"
    and "stop_flag env = (sigint_flag f' = 1 \<or> sigterm_flag f' = 1)"
  shows "\<exists>s'. fk_svr_timer_cb env s = Some (Timer_stop s') \<and> db s' = db s \<and> expdb s' = expdb s \<or> fk_svr_timer_cb env s = Some Timer_exit"
proof -
  let ?s0 = "s\<lparr>timer_cnt := (timer_cnt s + 1) mod 2 ^ 64\<rparr>"
  have "stop_flag env"
    using assms by (auto simp: fk_signal_exit_handler_def fk_svr_signal_exit_handler_def SIGINT_def SIGTERM_def)
  then have cb: "fk_svr_timer_cb env s =
      (case (if save_pid s \<noteq> -1 then after_wait (wait_save env) (?s0\<lparr>save_pid := -1, last_save := time_now env\<rparr>) ?s0 else Some ?s0) of
         None \<Rightarrow> Some Timer_exit
       | Some s1 \<Rightarrow> (case (if rewrite_pid s1 \<noteq> -1 then after_wait (wait_rewrite env) (s1\<lparr>rewrite_pid := -1\<rparr>) s1 else Some s1) of
                      None \<Rightarrow> Some Timer_exit | Some s2 \<Rightarrow> Some (Timer_stop s2)))"
    by (simp add: fk_svr_timer_cb_def Let_def split: option.split)
  have "same_dbs s (if save_pid s \<noteq> -1 then after_wait (wait_save env) (?s0\<lparr>save_pid := -1, last_save := time_now env\<rparr>) ?s0 else Some ?s0)"
    using after_wait_cases [of "wait_save env" "?s0\<lparr>save_pid := -1, last_save := time_now env\<rparr>" ?s0] by (auto simp: same_dbs_def)
  moreover have "same_dbs s1 (if rewrite_pid s1 \<noteq> -1 then after_wait (wait_rewrite env) (s1\<lparr>rewrite_pid := -1\<rparr>) s1 else Some s1)" for s1
    using after_wait_cases [of "wait_rewrite env" "s1\<lparr>rewrite_pid := -1\<rparr>" s1] by (auto simp: same_dbs_def)
  ultimately show ?thesis
    using cb by (rule two_waits)
qed

lemma andthen_Runs: "andthen r f = Runs y \<longleftrightarrow> (\<exists>x. r = Runs x \<and> f x = Runs y)"
  by (cases r) auto

text \<open>The program returns 0 only after its loop was stopped, the databases were saved (if they are to be) and the file of a daemon is gone.\<close>

lemma main_returns:
  assumes "main argv file_text env b rs iocb tmcb p = Runs (n, d)"
  shows "n = 0 \<and> (\<exists>q m s. fk_ev_cycle rs iocb tmcb 0 (pev q, psvr q) = Some (m, s) \<and> ev_stop m
    \<and> fk_main_init env b (if length argv = 2 then Some (file_text (argv ! 1)) else None) p = Runs q
    \<and> (daemon (pset q) \<noteq> 0 \<longrightarrow> files d (pid_path (pset q)) = None)
    \<and> (dump (setting s) = 1 \<longrightarrow> (\<exists>s1. fk_kdb_save s = Some (SVR_OK, s1))))"
proof -
  let ?path = "if length argv = 2 then Some (file_text (argv ! 1)) else None"
  obtain q q' s' where r: "fk_main_init env b ?path p = Runs q" "fk_main_cycle rs iocb tmcb q = Runs q'"
    "fk_main_exit (pset q') (psvr q') = Runs s'" "n = 0" "d = disk s'"
    using assms by (auto simp: main_def andthen_Runs split: if_splits)
  obtain m s where c: "fk_ev_cycle rs iocb tmcb 0 (pev q, psvr q) = Some (m, s)" "q' = q\<lparr>pev := m, psvr := s\<rparr>"
    using r(2) by (auto simp: fk_main_cycle_def split: option.splits)
  have "ev_stop m"
    using cycle_ends [OF c(1), of "(pev q, psvr q)"] by simp
  moreover have "daemon (pset q) \<noteq> 0 \<longrightarrow> files d (pid_path (pset q)) = None"
    using r(3,5) c(2) by (auto simp: fk_main_exit_def fk_remove_pidfile_def split: option.splits)
  moreover have "\<exists>s1. fk_kdb_save s = Some (SVR_OK, s1)" if "dump (setting s) = 1"
    using r(3) c(2) that kdb_save_rc [of s]
    by (auto simp: fk_main_exit_def fk_svr_exit_def split: option.splits bind_splits if_splits prod.splits)
  ultimately show ?thesis
    using r(1,4) c(1) by blast
qed

end
