(* ===== verification/Spec2Isabelle.thy ===== *)
theory Spec2Isabelle
  imports Fk_Blog Fk_List Fk_Mpx Fk_Select Fk_Conf Fk_Item_Ref Fk_Lua Fk_Kqueue Fk_Pool Fk_Main
begin

text \<open>
  A verification of freekick, a key-value server that speaks the protocol of Redis (\<^verbatim>\<open>src/src\<close>).

  \<^bold>\<open>The program.\<close> A single thread runs an event loop (\<^verbatim>\<open>fk_ev.c\<close> over epoll, poll, select or kqueue). The listening
  socket and every connection have an io event, the server and every connection a timer. A readable
  connection receives bytes into its buffer, parses requests out of it, looks each up in the table of
  commands, runs the handler on the databases (hash tables of items) and formats the reply into the write
  buffer, which is sent at once or when the socket is writable. A command that changes a database is appended
  to a log; the databases are saved to a file, also by a child process that the timer of the server
  starts. At start the file is loaded or the log replayed.

  \<^bold>\<open>Theories and sources.\<close> Each theory models the files named with it, one definition per function, under
  the names of the source.
  \<^item> \<^verbatim>\<open>Fk_Prelude\<close>: accesses that may fail (\<open>nth_opt\<close>, \<open>upd_opt\<close>), decimal numbers and their parsers, characters as
    signed numbers, the contract of a three-way comparison (locale \<open>key_order\<close>).
  \<^item> \<^verbatim>\<open>Fk_Util\<close>: \<^verbatim>\<open>fk_util.c\<close>, \<^verbatim>\<open>fk_util.h\<close>; \<^verbatim>\<open>Fk_Str\<close>: \<^verbatim>\<open>fk_str.c\<close>; \<^verbatim>\<open>Fk_Buf\<close>: \<^verbatim>\<open>fk_buf.c\<close>, \<^verbatim>\<open>fk_buf.h\<close>; \<^verbatim>\<open>Fk_Item\<close>: \<^verbatim>\<open>fk_item.h\<close>.
  \<^item> \<^verbatim>\<open>Fk_Dict\<close>: \<^verbatim>\<open>fk_dict.c\<close>. The table with its size, limit and buckets; a run of operations refines a finite map, growth
    included, and the iterator meets every element once.
  \<^item> \<^verbatim>\<open>Fk_List\<close>: \<^verbatim>\<open>fk_list.h\<close>, \<^verbatim>\<open>fk_list.c\<close> over a store of nodes with their pointers; every operation refines the one on
    the sequence of nodes, and no freed or foreign node is touched. \<^verbatim>\<open>Fk_Heap\<close>: \<^verbatim>\<open>fk_heap.c\<close>, with the position that
    each leaf stores of itself.
  \<^item> \<^verbatim>\<open>Fk_Conn\<close>: the connection, its buffers, the parser of \<^verbatim>\<open>fk_svr_conn.c\<close> and the replies; \<^verbatim>\<open>Fk_Parse\<close>: the parser on an
    encoded request gives its arguments back, on any split of the bytes, and never leaves the buffer.
  \<^item> \<^verbatim>\<open>Fk_State\<close>: the server (\<^verbatim>\<open>fk_svr_t\<close>), its settings and files; \<^verbatim>\<open>Fk_Cmd\<close>, \<^verbatim>\<open>Fk_Cmd_Spec\<close>, \<^verbatim>\<open>Fk_Cmd_Coll\<close>: the commands
    (\<^verbatim>\<open>fk_svr_db.c\<close>, \<^verbatim>\<open>fk_svr_str.c\<close>, \<^verbatim>\<open>fk_svr_hash.c\<close>, \<^verbatim>\<open>fk_svr_list.c\<close>, \<^verbatim>\<open>fk_svr_zset.c\<close>) and the
    meaning of each on abstract databases, which are maps from keys to values.
  \<^item> \<^verbatim>\<open>Fk_Proto\<close>: the table of commands, \<^verbatim>\<open>fk_conn_proc_cmd\<close> and the log (\<^verbatim>\<open>fk_svr_proto.c\<close>, \<^verbatim>\<open>fk_svr_blog.c\<close>); a
    parsed request refines the abstract command. \<^verbatim>\<open>Fk_Svr\<close>: the callbacks of connections and of the listening
    socket; a pipeline of requests, received in any pieces, is served in order.
  \<^item> \<^verbatim>\<open>Fk_Kdb\<close>: \<^verbatim>\<open>fk_svr_kdb.c\<close>; \<^verbatim>\<open>Fk_Timer\<close>: the timer of the server and the removal of expired keys
    (\<^verbatim>\<open>fk_svr.c\<close>); \<^verbatim>\<open>Fk_Blog\<close>: the start of the server and the replay of the log.
  \<^item> \<^verbatim>\<open>Fk_Ev\<close>, \<^verbatim>\<open>Fk_Ev_Loop\<close>: \<^verbatim>\<open>fk_ev.c\<close>, with the contract that a multiplexer fulfils (locale \<open>mpx_base\<close>, and \<open>multiplexer\<close> where a
    second event of a descriptor and direction is refused), the invariant of events and timers, one round of the loop and the loop;
    \<^verbatim>\<open>Fk_Mpx\<close>: \<^verbatim>\<open>fk_ev_epoll.c\<close>; \<^verbatim>\<open>Fk_Select\<close>: \<^verbatim>\<open>fk_ev_select.c\<close> and \<^verbatim>\<open>fk_ev_poll.c\<close>; \<^verbatim>\<open>Fk_Kqueue\<close>: \<^verbatim>\<open>fk_ev_kqueue.c\<close>, which
    fulfils the smaller contract only. \<^verbatim>\<open>Fk_Pool\<close>: \<^verbatim>\<open>fk_pool.c\<close>, an allocator whatever its clients do with their units;
    \<^verbatim>\<open>Fk_Cache\<close>: \<^verbatim>\<open>fk_cache.c\<close>, free list nodes.
  \<^item> \<^verbatim>\<open>Fk_Sys\<close>: \<^verbatim>\<open>fk_mem.c\<close> with its exact count of allocated bytes and \<^verbatim>\<open>fk_log.c\<close>. \<^verbatim>\<open>Fk_Main\<close>: \<^verbatim>\<open>freekick.c\<close> with \<^verbatim>\<open>fk_sock.c\<close>, the
    process with its descriptors, limits, signals and files, and the composition of the components above by \<^verbatim>\<open>main\<close>.
  \<^item> \<^verbatim>\<open>Fk_Item_Ref\<close>: \<^verbatim>\<open>fk_item.c\<close>, the items as objects with reference counts and the cache of free items: the counts are
    exact and releasing is safe. \<^verbatim>\<open>Fk_Lua\<close>: \<^verbatim>\<open>fk_svr_lua.c\<close>, the scripts of \<^verbatim>\<open>EVAL\<close> over an interpreter that is a parameter; a script does to
    the databases what its commands mean. \<^verbatim>\<open>Fk_Conf\<close>: \<^verbatim>\<open>fk_conf.c\<close>, the reader of the configuration file against the meaning of its lines.

  \<^bold>\<open>How C is modelled.\<close> State is passed explicitly; the result \<open>None\<close> of an operation stands for what C leaves
  undefined (NULL or freed memory used, an access outside of an array, a signed overflow), and the safety theorems
  show that it does not occur. Return codes are datatypes. Numbers are \<open>int\<close> or \<open>nat\<close> where the code cannot reach
  their bounds and words or explicit wrap-around where it can (hashes, event masks, tv_sec arithmetic, lengths in
  files). Memory allocation succeeds: \<^verbatim>\<open>fk_mem.c\<close> ends the process otherwise. Sockets, files and clocks are scripts:
  a list of results of \<^verbatim>\<open>recv\<close> or \<^verbatim>\<open>accept\<close>, a file system with a limited room, a function from the number of a
  call to the time. The system calls behind the multiplexers are parameters, with their documented behaviour as
  hypotheses.

  \<^bold>\<open>Loops.\<close> Loops over data are recursive functions with a termination proof. The loops of the callbacks, of the event
  loop, of the heap and of the lists are \<open>partial_function (option)\<close>, where not returning is \<open>None\<close>, and the theorems
  show that they return. Fuel is used once, for scripts that
  run scripts (\<open>nested_eval\<close>): the theorems hold for every depth.

  \<^bold>\<open>What the theorems show.\<close> Each component has an invariant that its operations keep, and the contracts between
  components are locales: of a map (the dictionary), a priority queue of timers (the heap), a multiplexer (epoll, select, kqueue)
  and a comparison. Requests are served as an abstract server over maps would: the reply bytes and the databases agree for
  every command. A snapshot is loaded as it was saved, and a failed save keeps the old file. The log replays to the
  same databases. The event loop keeps its books, and a round of it runs the callback of every event that is ready
  and of every timer that has expired. Several theorems show where the code does not do what it means to: the
  search for expired keys that does not end, the timer that a removal delays, the entries of the event table that are
  read before they are written, the commands and files that fail.

  \<^bold>\<open>Not modelled.\<close> The Lua interpreter is third-party code and a parameter. The log messages that the
  functions write are left out of their models, and so is the output for debugging (\<^verbatim>\<open>fk_ev_stat\<close>, the backtrace of \<^verbatim>\<open>fk_util.c\<close>).
  The skip list has no operations in the source but its creation. Functions that only free memory at the end of the process are left out. The code under \<^verbatim>\<open>3rd\<close>, \<^verbatim>\<open>t\<close> and \<^verbatim>\<open>utils\<close> is third-party or test code.
\<close>

end
